(* ===== verification/Prelude.thy ===== *)
theory Prelude
  imports Main "HOL-Library.Word"
begin

text \<open>
  Shared vocabulary of the development.

  \<^item> \<open>outcome\<close>: what a call of a kernel function can do. \<open>Ret a s\<close> returns the value \<open>a\<close>
    in the state \<open>s\<close>; \<open>Swtch s\<close> leaves the CPU by \<open>swtch\<close> (the process sleeps, yields or
    exits; the state is the one the scheduler finds); \<open>Panic m\<close> is \<open>panic(m)\<close>, which never
    returns.
  \<^item> \<open>andthen\<close>: C's sequencing of two calls.
  \<^item> the machine's integer types, first-match search over table indices, and the lemmas
    about them that every component uses.
\<close>

named_theorems outcome_simps \<open>sequencing of outcomes\<close>
named_theorems lock_simps \<open>net effect of lock operations\<close>

type_synonym u8 = "8 word"
type_synonym u16 = "16 word"
type_synonym u32 = "32 word"

subsection \<open>Outcomes of kernel calls\<close>

datatype ('a, 's) outcome = Ret 'a 's | Swtch 's | Panic string

fun andthen :: "('a, 's) outcome \<Rightarrow> ('a \<Rightarrow> 's \<Rightarrow> ('b, 's) outcome) \<Rightarrow> ('b, 's) outcome" where
  "andthen (Ret a s) f = f a s"
| "andthen (Swtch s) f = Swtch s"
| "andthen (Panic m) f = Panic m"

lemma andthen_Ret [simp]: "andthen m Ret = m"
  by (cases m) auto

lemma andthen_assoc: "andthen (andthen m f) g = andthen m (\<lambda>a s. andthen (f a s) g)"
  by (cases m) auto

lemma andthen_eq_Ret_iff [outcome_simps]:
  "andthen m f = Ret b t \<longleftrightarrow> (\<exists>a s. m = Ret a s \<and> f a s = Ret b t)"
  by (cases m) auto

lemma andthen_eq_Panic_iff [outcome_simps]:
  "andthen m f = Panic e \<longleftrightarrow> m = Panic e \<or> (\<exists>a s. m = Ret a s \<and> f a s = Panic e)"
  by (cases m) auto

lemma andthen_eq_Swtch_iff [outcome_simps]:
  "andthen m f = Swtch t \<longleftrightarrow> m = Swtch t \<or> (\<exists>a s. m = Ret a s \<and> f a s = Swtch t)"
  by (cases m) auto

lemma andthen_if [simp]:
  "andthen (if b then m else n) f = (if b then andthen m f else andthen n f)"
  by simp

lemma andthen_cong [fundef_cong]:
  "m = m' \<Longrightarrow> (\<And>a s. m' = Ret a s \<Longrightarrow> f a s = g a s) \<Longrightarrow> andthen m f = andthen m' g"
  by (cases m') auto

text \<open>A loop over table entries whose body is a kernel call.\<close>

fun each :: "('i \<Rightarrow> 's \<Rightarrow> (unit, 's) outcome) \<Rightarrow> 'i list \<Rightarrow> 's \<Rightarrow> (unit, 's) outcome" where
  "each f [] s = Ret () s"
| "each f (i # is) s = andthen (f i s) (\<lambda>_ s. each f is s)"

subsection \<open>First match in a table\<close>

text \<open>
  The kernel's tables are C arrays of fixed length, modelled as functions from an index; a
  loop that stops at the first entry with some property is \<open>first_idx\<close>.
\<close>

definition first_idx :: "nat \<Rightarrow> (nat \<Rightarrow> bool) \<Rightarrow> nat option" where
  "first_idx n P = find P [0..<n]"

lemma find_upt_Some_iff:
  "find P [m..<n] = Some i \<longleftrightarrow> m \<le> i \<and> i < n \<and> P i \<and> (\<forall>j. m \<le> j \<and> j < i \<longrightarrow> \<not> P j)"
proof (induction "n - m" arbitrary: m)
  case 0
  then show ?case by auto
next
  case (Suc k)
  then have mn: "m < n" by simp
  have IH: "find P [Suc m..<n] = Some i \<longleftrightarrow>
      Suc m \<le> i \<and> i < n \<and> P i \<and> (\<forall>j. Suc m \<le> j \<and> j < i \<longrightarrow> \<not> P j)"
    using Suc by (intro Suc.hyps(1)) simp
  show ?case
  proof (cases "P m")
    case True
    then show ?thesis
      using mn by (auto simp: upt_conv_Cons)
  next
    case False
    then show ?thesis
      using mn IH by (auto simp: upt_conv_Cons Suc_le_eq) (metis le_neq_implies_less)+
  qed
qed

lemma find_upt_None_iff: "find P [m..<n] = None \<longleftrightarrow> (\<forall>i. m \<le> i \<and> i < n \<longrightarrow> \<not> P i)"
  by (auto simp: find_None_iff)

lemma first_idx_Some_iff:
  "first_idx n P = Some i \<longleftrightarrow> i < n \<and> P i \<and> (\<forall>j<i. \<not> P j)"
  by (simp add: first_idx_def find_upt_Some_iff)

lemma first_idx_None_iff: "first_idx n P = None \<longleftrightarrow> (\<forall>i<n. \<not> P i)"
  by (simp add: first_idx_def find_upt_None_iff)

subsection \<open>Invariants of transition systems\<close>

inductive reachable :: "('s \<Rightarrow> bool) \<Rightarrow> ('s \<Rightarrow> 's \<Rightarrow> bool) \<Rightarrow> 's \<Rightarrow> bool"
  for init :: "'s \<Rightarrow> bool" and step :: "'s \<Rightarrow> 's \<Rightarrow> bool" where
  start: "init s \<Longrightarrow> reachable init step s"
| move: "reachable init step s \<Longrightarrow> step s t \<Longrightarrow> reachable init step t"

locale invariant_system =
  fixes init :: "'s \<Rightarrow> bool" and step :: "'s \<Rightarrow> 's \<Rightarrow> bool" and inv :: "'s \<Rightarrow> bool"
  assumes inv_start: "init s \<Longrightarrow> inv s"
    and inv_move: "inv s \<Longrightarrow> step s t \<Longrightarrow> inv t"
begin

lemma inv_reachable: "reachable init step s \<Longrightarrow> inv s"
  by (induction rule: reachable.induct) (blast intro: inv_start inv_move)+

end

lemma first_idx_SomeD:
  assumes "first_idx n P = Some i"
  shows "i < n" and "P i"
  using assms by (auto simp: first_idx_Some_iff)

end
