(* ===== verification/CString.thy ===== *)
theory CString
  imports Prelude
begin

text \<open>
  \<open>src/xv6-public/string.c\<close> (the kernel's memory and string functions) and the string part of
  \<open>src/xv6-public/ulib.c\<close> (the user library's).

  Memory is a function from 32-bit addresses to bytes. A C loop over a counted region is a
  recursion on the count; a loop that stops only at a NUL byte is a \<open>partial_function\<close>, so that
  a string with no terminator is \<open>None\<close>. The lemmas relate each routine to the HOL list of
  bytes it works on.
\<close>

type_synonym memory = "u32 \<Rightarrow> u8"

subsection \<open>Addresses\<close>

definition cells :: "u32 \<Rightarrow> nat \<Rightarrow> u32 set" where
  "cells a n = {b. unat (b - a) < n}"

lemma unat_add_of_nat:
  "unat (a :: u32) + k < 2 ^ 32 \<Longrightarrow> unat (a + of_nat k) = unat a + k"
  by (simp add: unat_word_ariths unat_of_nat)

lemma unat_of_nat32: "k < 2 ^ 32 \<Longrightarrow> unat (of_nat k :: u32) = k"
  by (simp add: unat_of_nat)

lemma of_nat_inj32: "j < 2 ^ 32 \<Longrightarrow> k < 2 ^ 32 \<Longrightarrow> (of_nat j :: u32) = of_nat k \<longleftrightarrow> j = k"
  by (metis unat_of_nat32)

lemma cellsI: "k < n \<Longrightarrow> k < 2 ^ 32 \<Longrightarrow> a + of_nat k \<in> cells a n"
  by (simp add: cells_def unat_of_nat)

lemma cellsE:
  assumes "b \<in> cells a n"
  obtains k where "k < n" and "b = a + of_nat k"
proof
  show "unat (b - a) < n" using assms by (simp add: cells_def)
  show "b = a + of_nat (unat (b - a))" by simp
qed

lemma cells_Suc: "n < 2 ^ 32 \<Longrightarrow> cells a (Suc n) = insert a (cells (a + 1) n)"
proof (intro set_eqI iffI)
  fix b assume n: "n < 2 ^ 32" and "b \<in> cells a (Suc n)"
  then obtain k where k: "k < Suc n" "b = a + of_nat k" by (auto elim: cellsE)
  show "b \<in> insert a (cells (a + 1) n)"
  proof (cases k)
    case 0
    then show ?thesis using k by simp
  next
    case (Suc j)
    then have b: "b = a + 1 + of_nat j" using k by simp
    have "a + 1 + of_nat j \<in> cells (a + 1) n" using k n Suc by (intro cellsI) auto
    then show ?thesis unfolding b by blast
  qed
next
  fix b assume n: "n < 2 ^ 32" and b: "b \<in> insert a (cells (a + 1) n)"
  then consider "b = a" | k where "k < n" "b = a + 1 + of_nat k" by (auto elim: cellsE)
  then show "b \<in> cells a (Suc n)"
  proof cases
    case 1
    then show ?thesis by (simp add: cells_def)
  next
    case 2
    then have b: "b = a + of_nat (Suc k)" by simp
    have "a + of_nat (Suc k) \<in> cells a (Suc n)" using 2 n by (intro cellsI) auto
    then show ?thesis unfolding b .
  qed
qed

lemma cells_0 [simp]: "cells a 0 = {}"
  by (simp add: cells_def)

lemma not_in_cells_Suc: "n < 2 ^ 32 \<Longrightarrow> a \<notin> cells (a + 1) n"
proof
  assume n: "n < 2 ^ 32" and "a \<in> cells (a + 1) n"
  then obtain k where "k < n" "a = a + 1 + of_nat k" by (auto elim: cellsE)
  then have "(of_nat (Suc k) :: u32) = of_nat 0" by simp
  then show False using \<open>k < n\<close> n of_nat_inj32 [of "Suc k" 0] by simp
qed

subsection \<open>memset\<close>

text \<open>\<open>rep stosb\<close> and \<open>rep stosl\<close> of \<open>x86.h\<close>; a 32-bit store is little endian.\<close>

definition store32 :: "memory \<Rightarrow> u32 \<Rightarrow> u32 \<Rightarrow> memory" where
  "store32 m a v =
     m(a := ucast v, a + 1 := ucast (drop_bit 8 v), a + 2 := ucast (drop_bit 16 v),
       a + 3 := ucast (drop_bit 24 v))"

definition load32 :: "memory \<Rightarrow> u32 \<Rightarrow> u32" where
  "load32 m a = or (ucast (m a)) (or (push_bit 8 (ucast (m (a + 1))))
     (or (push_bit 16 (ucast (m (a + 2)))) (push_bit 24 (ucast (m (a + 3))))))"

fun stosb :: "memory \<Rightarrow> u32 \<Rightarrow> u8 \<Rightarrow> nat \<Rightarrow> memory" where
  "stosb m a c 0 = m"
| "stosb m a c (Suc n) = stosb (m(a := c)) (a + 1) c n"

fun stosl :: "memory \<Rightarrow> u32 \<Rightarrow> u32 \<Rightarrow> nat \<Rightarrow> memory" where
  "stosl m a v 0 = m"
| "stosl m a v (Suc n) = stosl (store32 m a v) (a + 4) v n"

definition memset :: "memory \<Rightarrow> u32 \<Rightarrow> u32 \<Rightarrow> u32 \<Rightarrow> memory" where
  "memset m dst c n =
     (if dst mod 4 = 0 \<and> n mod 4 = 0 then
        let c = and c 0xFF in
        stosl m dst (or (push_bit 24 c) (or (push_bit 16 c) (or (push_bit 8 c) c))) (unat n div 4)
      else stosb m dst (ucast c) (unat n))"

lemma load32_store32_same: "load32 (store32 m a v) a = v"
proof (rule bit_word_eqI)
  fix n assume "n < LENGTH(32)"
  then have "n < 8 \<or> (8 \<le> n \<and> n < 16) \<or> (16 \<le> n \<and> n < 24) \<or> (24 \<le> n \<and> n < 32)" by auto
  then show "bit (load32 (store32 m a v) a) n = bit v n"
    by (elim disjE) (auto simp: load32_def store32_def bit_simps)
qed

lemma load32_store32_other:
  assumes "a \<notin> cells b 4" "a + 1 \<notin> cells b 4" "a + 2 \<notin> cells b 4" "a + 3 \<notin> cells b 4"
  shows "load32 (store32 m b v) a = load32 m a"
proof -
  have "store32 m b v x = m x" if "x \<notin> cells b 4" for x
    using that by (auto simp: store32_def cells_def)
  then show ?thesis using assms by (simp add: load32_def)
qed

lemma stosb_apply:
  "n \<le> 2 ^ 32 \<Longrightarrow> stosb m a c n b = (if b \<in> cells a n then c else m b)"
  by (induction n arbitrary: m a) (auto simp: cells_Suc)

lemma stosb_add: "stosb m a c (i + j) = stosb (stosb m a c i) (a + of_nat i) c j"
  by (induction i arbitrary: m a) (auto simp: algebra_simps)

lemma stosl_stosb:
  assumes "\<And>m a. store32 m a v = stosb m a c 4"
  shows "stosl m a v n = stosb m a c (4 * n)"
proof (induction n arbitrary: m a)
  case 0
  then show ?case by simp
next
  case (Suc n)
  have "stosl m a v (Suc n) = stosb (stosb m a c 4) (a + of_nat 4) c (4 * n)"
    by (simp add: assms Suc.IH)
  also have "\<dots> = stosb m a c (4 + 4 * n)" by (simp only: stosb_add)
  finally show ?case by simp
qed

lemma store32_repeated_byte:
  fixes c :: u32
  defines "d \<equiv> and c 0xFF"
  shows "store32 m a (or (push_bit 24 d) (or (push_bit 16 d) (or (push_bit 8 d) d)))
    = stosb m a (ucast c) 4"
proof -
  let ?v = "or (push_bit 24 d) (or (push_bit 16 d) (or (push_bit 8 d) d))"
  have ff: "(0xFF :: u32) = mask 8" by (simp add: mask_eq_exp_minus_1)
  have d: "bit d n \<longleftrightarrow> n < 8 \<and> bit c n" for n
    by (auto simp: d_def ff bit_simps)
  have "(ucast ?v :: u8) = ucast c" "(ucast (drop_bit 8 ?v) :: u8) = ucast c"
    "(ucast (drop_bit 16 ?v) :: u8) = ucast c" "(ucast (drop_bit 24 ?v) :: u8) = ucast c"
    by (rule bit_word_eqI; auto simp: bit_simps d)+
  then show ?thesis by (simp add: store32_def eval_nat_numeral add.assoc)
qed

text \<open>Both branches of \<open>memset\<close> fill exactly the \<open>n\<close> bytes from \<open>dst\<close> with the low byte of \<open>c\<close>.\<close>

lemma memset_apply:
  "memset m dst c n b = (if b \<in> cells dst (unat n) then ucast c else m b)"
proof -
  have n: "unat n \<le> 2 ^ 32" by (rule less_imp_le) (use unsigned_less [of n] in simp)
  show ?thesis
  proof (cases "dst mod 4 = 0 \<and> n mod 4 = 0")
    case True
    then have "unat (n mod 4) = 0" by simp
    then have "unat n mod 4 = 0" by (simp add: unat_mod)
    then have "4 * (unat n div 4) = unat n" using mult_div_mod_eq [of 4 "unat n"] by simp
    moreover have "memset m dst c n = stosb m dst (ucast c) (4 * (unat n div 4))"
      using True by (simp only: memset_def Let_def stosl_stosb [OF store32_repeated_byte] if_True simp_thms)
    ultimately show ?thesis using n by (simp add: stosb_apply)
  next
    case False
    then show ?thesis using n by (auto simp: memset_def stosb_apply)
  qed
qed

subsection \<open>memmove, memcpy and memcmp\<close>

fun copy_fwd :: "memory \<Rightarrow> u32 \<Rightarrow> u32 \<Rightarrow> nat \<Rightarrow> memory" where
  "copy_fwd m d s 0 = m"
| "copy_fwd m d s (Suc n) = copy_fwd (m(d := m s)) (d + 1) (s + 1) n"

fun copy_bwd :: "memory \<Rightarrow> u32 \<Rightarrow> u32 \<Rightarrow> nat \<Rightarrow> memory" where
  "copy_bwd m d s 0 = m"
| "copy_bwd m d s (Suc n) = copy_bwd (m(d - 1 := m (s - 1))) (d - 1) (s - 1) n"

definition memmove :: "memory \<Rightarrow> u32 \<Rightarrow> u32 \<Rightarrow> u32 \<Rightarrow> memory" where
  "memmove m dst src n =
     (if src < dst \<and> src + n > dst then copy_bwd m (dst + n) (src + n) (unat n)
      else copy_fwd m dst src (unat n))"

definition memcpy :: "memory \<Rightarrow> u32 \<Rightarrow> u32 \<Rightarrow> u32 \<Rightarrow> memory" where
  "memcpy m dst src n = memmove m dst src n"

fun memcmp :: "memory \<Rightarrow> u32 \<Rightarrow> u32 \<Rightarrow> nat \<Rightarrow> int" where
  "memcmp m v1 v2 0 = 0"
| "memcmp m v1 v2 (Suc n) =
     (if m v1 \<noteq> m v2 then uint (m v1) - uint (m v2) else memcmp m (v1 + 1) (v2 + 1) n)"

text \<open>\<open>copied m d s n\<close>: the memory in which the \<open>n\<close> bytes at \<open>d\<close> are what \<open>m\<close> had at \<open>s\<close>.\<close>

definition copied :: "memory \<Rightarrow> u32 \<Rightarrow> u32 \<Rightarrow> nat \<Rightarrow> memory" where
  "copied m d s n = (\<lambda>a. if a \<in> cells d n then m (s + (a - d)) else m a)"

lemma copy_fwd_copied:
  assumes "n \<le> 2 ^ 32" and "\<forall>k. 0 < k \<and> k < n \<longrightarrow> s + of_nat k \<noteq> d"
  shows "copy_fwd m d s n = copied m d s n"
  using assms
proof (induction n arbitrary: m d s)
  case 0
  then show ?case by (simp add: copied_def)
next
  case (Suc n)
  have "(s + 1) + of_nat k \<noteq> d + 1" if "0 < k" "k < n" for k
    using Suc.prems(2) that by (auto simp: algebra_simps)
  then have IH: "copy_fwd (m(d := m s)) (d + 1) (s + 1) n = copied (m(d := m s)) (d + 1) (s + 1) n"
    using Suc.prems(1) by (intro Suc.IH) auto
  have read: "s + 1 + (a - (d + 1)) \<noteq> d" if a: "a \<in> cells (d + 1) n" for a
  proof -
    obtain k where k: "k < n" "a = d + 1 + of_nat k" using a by (rule cellsE)
    have "s + of_nat (Suc k) \<noteq> d" using Suc.prems(2) k(1) by blast
    then show ?thesis using k(2) by (simp add: algebra_simps)
  qed
  have shift: "s + 1 + (a - (d + 1)) = s + (a - d)" for a by simp
  show ?case
  proof
    fix a
    show "copy_fwd m d s (Suc n) a = copied m d s (Suc n) a"
      using Suc.prems(1) read not_in_cells_Suc [of n d]
      by (auto simp: IH copied_def cells_Suc shift)
  qed
qed

lemma cells_Suc_last: "n < 2 ^ 32 \<Longrightarrow> cells a (Suc n) = insert (a + of_nat n) (cells a n)"
proof (intro set_eqI iffI)
  fix b assume n: "n < 2 ^ 32" and "b \<in> cells a (Suc n)"
  then show "b \<in> insert (a + of_nat n) (cells a n)"
    by (auto elim!: cellsE intro!: cellsI simp: less_Suc_eq)
next
  fix b assume n: "n < 2 ^ 32" and "b \<in> insert (a + of_nat n) (cells a n)"
  then show "b \<in> cells a (Suc n)"
    by (auto elim!: cellsE intro!: cellsI)
qed

lemma not_in_cells_last: "n < 2 ^ 32 \<Longrightarrow> a + of_nat n \<notin> cells a n"
  by (auto simp: cells_def unat_of_nat)

lemma copy_bwd_copied:
  assumes "n \<le> 2 ^ 32" and "\<forall>k. 0 < k \<and> k < n \<longrightarrow> d + of_nat k \<noteq> s"
  shows "copy_bwd m (d + of_nat n) (s + of_nat n) n = copied m d s n"
  using assms
proof (induction n arbitrary: m)
  case 0
  then show ?case by (simp add: copied_def)
next
  case (Suc n)
  let ?m = "m(d + of_nat n := m (s + of_nat n))"
  have IH: "copy_bwd ?m (d + of_nat n) (s + of_nat n) n = copied ?m d s n"
    using Suc.prems by (intro Suc.IH) auto
  have read: "s + (a - d) \<noteq> d + of_nat n" if a: "a \<in> cells d n" for a
  proof -
    obtain k where k: "k < n" "a = d + of_nat k" using a by (rule cellsE)
    have "d + of_nat (n - k) \<noteq> s"
      using Suc.prems(2) [rule_format, of "n - k"] k(1) by (simp del: of_nat_diff)
    moreover have "(of_nat n :: u32) = of_nat (n - k) + of_nat k"
      using k(1) by (simp flip: of_nat_add)
    ultimately show ?thesis using k(2) by (simp add: algebra_simps)
  qed
  have "copy_bwd m (d + of_nat (Suc n)) (s + of_nat (Suc n)) (Suc n)
      = copy_bwd ?m (d + of_nat n) (s + of_nat n) n" by (simp add: algebra_simps)
  also have "\<dots> = copied m d s (Suc n)"
    using Suc.prems(1) read not_in_cells_last [of n d]
    by (auto simp: IH copied_def cells_Suc_last fun_eq_iff)
  finally show ?case .
qed

text \<open>
  \<open>memmove\<close> copies correctly for every overlap of its two regions: when neither reaches the end
  of the address space, each byte of the destination is the byte the source had before the call, and
  no other byte changes.
\<close>

theorem memmove_copied:
  assumes "unat src + unat n < 2 ^ 32" and "unat dst + unat n < 2 ^ 32"
  shows "memmove m dst src n = copied m dst src (unat n)"
proof (cases "src < dst \<and> src + n > dst")
  case True
  have "dst + of_nat k \<noteq> src" if "k < unat n" for k
    using that True assms(2) unat_add_of_nat [of dst k] by (auto simp: word_less_nat_alt)
  moreover have "unat n \<le> 2 ^ 32" by (rule less_imp_le) (use unsigned_less [of n] in simp)
  ultimately show ?thesis
    using True copy_bwd_copied [of "unat n" dst src m] by (simp add: memmove_def)
next
  case False
  have "src + of_nat k \<noteq> dst" if k: "0 < k" "k < unat n" for k
  proof
    assume eq: "src + of_nat k = dst"
    have d: "unat dst = unat src + k" using k assms(1) unat_add_of_nat [of src k] eq by simp
    have "unat (src + n) = unat src + unat n" using assms(1) unat_add_of_nat [of src "unat n"] by simp
    then show False using False d k by (auto simp: word_less_nat_alt)
  qed
  moreover have "unat n \<le> 2 ^ 32" by (rule less_imp_le) (use unsigned_less [of n] in simp)
  ultimately show ?thesis
    using False copy_fwd_copied [of "unat n" src dst m] by (auto simp: memmove_def)
qed

theorem memmove_copied_witness:
  "memmove (\<lambda>a. ucast a) 101 100 3 = copied (\<lambda>a. ucast a) 101 100 3"
  using memmove_copied [of 100 3 101 "\<lambda>a. ucast a"] by simp

lemma memcmp_zero_iff:
  "memcmp m v1 v2 n = 0 \<longleftrightarrow> (\<forall>k<n. m (v1 + of_nat k) = m (v2 + of_nat k))"
proof (induction n arbitrary: v1 v2)
  case 0
  then show ?case by simp
next
  case (Suc n)
  have "(\<forall>k<Suc n. m (v1 + of_nat k) = m (v2 + of_nat k)) \<longleftrightarrow>
      m v1 = m v2 \<and> (\<forall>k<n. m (v1 + 1 + of_nat k) = m (v2 + 1 + of_nat k))"
    by (auto simp: less_Suc_eq_0_disj algebra_simps)
  then show ?case using Suc by (auto simp: word_uint_eq_iff [of "m v1"])
qed

subsection \<open>Kernel string functions\<close>

text \<open>\<open>cstr m a xs\<close>: a NUL-terminated string with the bytes \<open>xs\<close> starts at \<open>a\<close>.\<close>

fun cstr :: "memory \<Rightarrow> u32 \<Rightarrow> u8 list \<Rightarrow> bool" where
  "cstr m a [] \<longleftrightarrow> m a = 0"
| "cstr m a (x # xs) \<longleftrightarrow> m a = x \<and> x \<noteq> 0 \<and> cstr m (a + 1) xs"

fun strncmp :: "memory \<Rightarrow> u32 \<Rightarrow> u32 \<Rightarrow> nat \<Rightarrow> int" where
  "strncmp m p q 0 = 0"
| "strncmp m p q (Suc n) =
     (if m p \<noteq> 0 \<and> m p = m q then strncmp m (p + 1) (q + 1) n
      else uint (m p) - uint (m q))"

fun strncpy_pad :: "memory \<Rightarrow> u32 \<Rightarrow> nat \<Rightarrow> memory" where
  "strncpy_pad m s 0 = m"
| "strncpy_pad m s (Suc n) = strncpy_pad (m(s := 0)) (s + 1) n"

fun strncpy :: "memory \<Rightarrow> u32 \<Rightarrow> u32 \<Rightarrow> nat \<Rightarrow> memory" where
  "strncpy m s t 0 = m"
| "strncpy m s t (Suc n) =
     (if m t \<noteq> 0 then strncpy (m(s := m t)) (s + 1) (t + 1) n
      else strncpy_pad (m(s := m t)) (s + 1) n)"

fun safestrcpy_loop :: "memory \<Rightarrow> u32 \<Rightarrow> u32 \<Rightarrow> nat \<Rightarrow> memory" where
  "safestrcpy_loop m s t 0 = m(s := 0)"
| "safestrcpy_loop m s t (Suc n) =
     (if m t \<noteq> 0 then safestrcpy_loop (m(s := m t)) (s + 1) (t + 1) n
      else (m(s := m t))(s + 1 := 0))"

definition safestrcpy :: "memory \<Rightarrow> u32 \<Rightarrow> u32 \<Rightarrow> int \<Rightarrow> memory" where
  "safestrcpy m s t n = (if n \<le> 0 then m else safestrcpy_loop m s t (nat (n - 1)))"

partial_function (option) strlen_from :: "memory \<Rightarrow> u32 \<Rightarrow> nat \<Rightarrow> nat option" where
  "strlen_from m s n = (if m (s + of_nat n) = 0 then Some n else strlen_from m s (Suc n))"

definition strlen :: "memory \<Rightarrow> u32 \<Rightarrow> nat option" where
  "strlen m s = strlen_from m s 0"

lemma strncmp_zero_iff:
  "cstr m p xs \<Longrightarrow> cstr m q ys \<Longrightarrow> strncmp m p q n = 0 \<longleftrightarrow> take n xs = take n ys"
proof (induction m p q n arbitrary: xs ys rule: strncmp.induct)
  case (1 m p q)
  then show ?case by simp
next
  case (2 m p q n)
  then show ?case
    by (cases xs; cases ys) (auto simp: word_uint_eq_iff)
qed

lemma strlen_from_cstr:
  "cstr m (s + of_nat n) xs \<Longrightarrow> strlen_from m s n = Some (n + length xs)"
  by (induction xs arbitrary: n) (subst strlen_from.simps; auto simp: algebra_simps)+

lemma strlen_cstr: "cstr m s xs \<Longrightarrow> strlen m s = Some (length xs)"
  using strlen_from_cstr [of m s 0 xs] by (simp add: strlen_def)

text \<open>Strings are unaffected by writes elsewhere.\<close>

lemma cstr_cong:
  "(\<And>b. b \<in> cells a (Suc (length xs)) \<Longrightarrow> m' b = m b) \<Longrightarrow> length xs < 2 ^ 32 - 1 \<Longrightarrow>
    cstr m' a xs = cstr m a xs"
proof (induction xs arbitrary: a)
  case (Cons x xs)
  have c: "cells a (Suc (length (x # xs))) = insert a (cells (a + 1) (Suc (length xs)))"
    using Cons.prems(2) by (subst cells_Suc) auto
  have "cstr m' (a + 1) xs = cstr m (a + 1) xs"
    using Cons.prems c by (intro Cons.IH) auto
  then show ?case using Cons.prems(1) [of a] c by simp
qed (simp add: cells_def)

lemma strncpy_pad_apply:
  "n \<le> 2 ^ 32 \<Longrightarrow> strncpy_pad m s n b = (if b \<in> cells s n then 0 else m b)"
  by (induction n arbitrary: m s) (auto simp: cells_Suc)

lemma strncpy_frame:
  "n \<le> 2 ^ 32 \<Longrightarrow> b \<notin> cells s n \<Longrightarrow> strncpy m s t n b = m b"
proof (induction n arbitrary: m s t)
  case (Suc n)
  then show ?case by (auto simp: cells_Suc strncpy_pad_apply)
qed simp

text \<open>The bytes \<open>strncpy\<close> leaves: the string, cut at \<open>n\<close> or padded with NULs up to \<open>n\<close>.\<close>

lemma strncpy_bytes:
  assumes "cstr m t xs" and "n < 2 ^ 32" and "length xs < 2 ^ 32 - 1"
    and "cells s n \<inter> cells t (Suc (length xs)) = {}" and "k < n"
  shows "strncpy m s t n (s + of_nat k) = (if k < length xs then xs ! k else 0)"
  using assms
proof (induction n arbitrary: m s t xs k)
  case 0
  then show ?case by simp
next
  case (Suc n)
  have n: "n < 2 ^ 32" "n \<le> 2 ^ 32" using Suc.prems(2) by auto
  have s0: "s \<notin> cells (s + 1) n" using n by (intro not_in_cells_Suc)
  show ?case
  proof (cases xs)
    case Nil
    have "s + of_nat k \<in> insert s (cells (s + 1) n)"
      using Suc.prems(2,5) cellsI [of k "Suc n" s] n by (auto simp: cells_Suc)
    then show ?thesis using Nil Suc.prems(1) n s0 by (auto simp: strncpy_pad_apply)
  next
    case (Cons x ys)
    have ts: "m t = x" "x \<noteq> 0" "cstr m (t + 1) ys" using Suc.prems(1) Cons by auto
    have disj: "cells (s + 1) n \<inter> cells (t + 1) (Suc (length ys)) = {}"
      and sn: "s \<notin> cells (t + 1) (Suc (length ys))"
      using Suc.prems(3,4) n Cons by (auto simp: cells_Suc)
    have c: "cstr (m(s := m t)) (t + 1) ys"
      using ts(3) sn Suc.prems(3) Cons by (subst cstr_cong [where m = m]) auto
    show ?thesis
    proof (cases k)
      case 0
      then show ?thesis using ts Cons n s0 by (simp add: strncpy_frame)
    next
      case k: (Suc j)
      have "strncpy (m(s := m t)) (s + 1) (t + 1) n (s + 1 + of_nat j)
          = (if j < length ys then ys ! j else 0)"
        using Suc.prems n k Cons c disj by (intro Suc.IH [OF c _ _ disj]) auto
      then show ?thesis using ts Cons k by (simp add: algebra_simps)
    qed
  qed
qed

lemma safestrcpy_loop_frame:
  "n < 2 ^ 32 - 1 \<Longrightarrow> b \<notin> cells s (Suc n) \<Longrightarrow> safestrcpy_loop m s t n b = m b"
proof (induction n arbitrary: m s t)
  case 0
  then show ?case by (auto simp: cells_def)
next
  case (Suc n)
  have "cells s (Suc (Suc n)) = insert s (cells (s + 1) (Suc n))"
    using Suc.prems(1) by (subst cells_Suc) auto
  then have b: "b \<noteq> s" "b \<notin> cells (s + 1) (Suc n)" using Suc.prems(2) by auto
  then have "b \<noteq> s + 1" by (auto simp: cells_def)
  then show ?case using b Suc.IH [of "s + 1" "m(s := m t)" "t + 1"] Suc.prems(1) by (auto simp: fun_upd_def)
qed

lemma safestrcpy_loop_cstr:
  assumes "cstr m t xs" and "n < 2 ^ 32 - 1" and "length xs < 2 ^ 32 - 1"
    and "cells s (Suc n) \<inter> cells t (Suc (length xs)) = {}"
  shows "cstr (safestrcpy_loop m s t n) s (take n xs)"
  using assms
proof (induction n arbitrary: m s t xs)
  case 0
  then show ?case by simp
next
  case (Suc n)
  have cs: "cells s (Suc (Suc n)) = insert s (cells (s + 1) (Suc n))"
    using Suc.prems(2) by (subst cells_Suc) auto
  have s0: "s \<notin> cells (s + 1) (Suc n)" using Suc.prems(2) by (intro not_in_cells_Suc) auto
  show ?case
  proof (cases xs)
    case Nil
    then show ?thesis using Suc.prems(1) by simp
  next
    case (Cons x ys)
    have ct: "cells t (Suc (length xs)) = insert t (cells (t + 1) (Suc (length ys)))"
      using Suc.prems(3) Cons by (simp add: cells_Suc)
    have ts: "m t = x" "x \<noteq> 0" "cstr m (t + 1) ys" using Suc.prems(1) Cons by auto
    have disj: "cells (s + 1) (Suc n) \<inter> cells (t + 1) (Suc (length ys)) = {}"
      and sn: "s \<notin> cells (t + 1) (Suc (length ys))"
      using Suc.prems(4) cs ct by auto
    have c: "cstr (m(s := m t)) (t + 1) ys"
      using ts(3) sn Suc.prems(3) Cons by (subst cstr_cong [where m = m]) auto
    have "cstr (safestrcpy_loop (m(s := m t)) (s + 1) (t + 1) n) (s + 1) (take n ys)"
      using Suc.prems(2,3) Cons by (intro Suc.IH [OF c _ _ disj]) auto
    moreover have "safestrcpy_loop (m(s := m t)) (s + 1) (t + 1) n s = x"
      using s0 Suc.prems(2) ts by (simp add: safestrcpy_loop_frame)
    ultimately show ?thesis using Cons ts by simp
  qed
qed

lemma safestrcpy_cstr:
  assumes "cstr m t xs" and "0 < n" and "n < 2 ^ 31" and "length xs < 2 ^ 32 - 1"
    and "cells s (nat n) \<inter> cells t (Suc (length xs)) = {}"
  shows "cstr (safestrcpy m s t n) s (take (nat (n - 1)) xs)"
proof -
  have "Suc (nat (n - 1)) = nat n" using assms(2) by simp
  then show ?thesis
    using assms by (simp add: safestrcpy_def safestrcpy_loop_cstr)
qed

lemma safestrcpy_frame:
  assumes "n < 2 ^ 31" and "b \<notin> cells s (nat n)"
  shows "safestrcpy m s t n b = m b"
proof (cases "n \<le> 0")
  case False
  then have "Suc (nat (n - 1)) = nat n" by simp
  then show ?thesis
    using False assms by (simp add: safestrcpy_def safestrcpy_loop_frame)
qed (simp add: safestrcpy_def)

subsection \<open>User library\<close>

text \<open>\<open>ulib.c\<close> has its own \<open>memmove\<close>, which always copies forward, and unbounded string loops.\<close>

definition ulib_memmove :: "memory \<Rightarrow> u32 \<Rightarrow> u32 \<Rightarrow> int \<Rightarrow> memory" where
  "ulib_memmove m vdst vsrc n = copy_fwd m vdst vsrc (nat n)"

definition ulib_memset :: "memory \<Rightarrow> u32 \<Rightarrow> u32 \<Rightarrow> u32 \<Rightarrow> memory" where
  "ulib_memset m dst c n = stosb m dst (ucast c) (unat n)"

partial_function (option) strcpy :: "memory \<Rightarrow> u32 \<Rightarrow> u32 \<Rightarrow> memory option" where
  "strcpy m s t =
     (if m t \<noteq> 0 then strcpy (m(s := m t)) (s + 1) (t + 1) else Some (m(s := m t)))"

partial_function (option) strcmp :: "memory \<Rightarrow> u32 \<Rightarrow> u32 \<Rightarrow> int option" where
  "strcmp m p q =
     (if m p \<noteq> 0 \<and> m p = m q then strcmp m (p + 1) (q + 1)
      else Some (uint (m p) - uint (m q)))"

partial_function (option) strchr :: "memory \<Rightarrow> u32 \<Rightarrow> u8 \<Rightarrow> u32 option" where
  "strchr m s c =
     (if m s = 0 then Some 0 else if m s = c then Some s else strchr m (s + 1) c)"

text \<open>\<open>atoi\<close> works in the 32 bits of a C \<open>int\<close>; the result is its bit pattern.\<close>

partial_function (option) atoi_from :: "memory \<Rightarrow> u32 \<Rightarrow> u32 \<Rightarrow> u32 option" where
  "atoi_from m s n =
     (if 48 \<le> m s \<and> m s \<le> 57 then atoi_from m (s + 1) (n * 10 + ucast (m s) - 48) else Some n)"

definition atoi :: "memory \<Rightarrow> u32 \<Rightarrow> u32 option" where
  "atoi m s = atoi_from m s 0"

lemma strcmp_zero_iff:
  "cstr m p xs \<Longrightarrow> cstr m q ys \<Longrightarrow> \<exists>r. strcmp m p q = Some r \<and> (r = 0 \<longleftrightarrow> xs = ys)"
proof (induction xs arbitrary: p q ys)
  case Nil
  then show ?case by (subst strcmp.simps) (cases ys; auto simp: word_uint_eq_iff)
next
  case (Cons x xs)
  then show ?case
    by (subst strcmp.simps) (cases ys; auto simp: word_uint_eq_iff)
qed

lemma strchr_cstr:
  assumes "cstr m s xs" and "c \<noteq> 0"
  shows "strchr m s c = Some (if c \<in> set xs then s + of_nat (length (takeWhile (\<lambda>x. x \<noteq> c) xs)) else 0)"
  using assms by (induction xs arbitrary: s) (subst strchr.simps; auto simp: algebra_simps)+

lemma atoi_from_digits:
  assumes "\<forall>d\<in>set ds. d < 10" and "cstr m s (map (\<lambda>d. of_nat d + 48) ds @ rest)"
    and "rest = [] \<or> \<not> (48 \<le> hd rest \<and> hd rest \<le> 57)"
  shows "atoi_from m s (of_nat n) = Some (of_nat (foldl (\<lambda>a d. a * 10 + d) n ds))"
  using assms
proof (induction ds arbitrary: s n)
  case Nil
  then show ?case by (subst atoi_from.simps) (cases rest; auto)
next
  case (Cons d ds)
  have d: "d < 10" using Cons.prems(1) by simp
  then have u: "uint (of_nat d + 48 :: u8) = int d + 48"
    by (simp add: uint_word_ariths unsigned_of_nat take_bit_eq_mod)
  have w: "48 \<le> (of_nat d + 48 :: u8)" "(of_nat d + 48 :: u8) \<le> 57"
    using d by (auto simp: word_le_def u)
  have "m s = of_nat d + 48" and rest: "cstr m (s + 1) (map (\<lambda>d. of_nat d + 48) ds @ rest)"
    using Cons.prems(2) by auto
  moreover have "ucast (of_nat d + 48 :: u8) = (of_nat d + 48 :: u32)"
    using u by (metis of_int_add of_int_numeral of_int_of_nat_eq ucast_eq)
  then have "of_nat n * 10 + ucast (of_nat d + 48 :: u8) - 48 = (of_nat (n * 10 + d) :: u32)" by simp
  moreover have "\<forall>d\<in>set ds. d < 10" using Cons.prems(1) by simp
  ultimately have "atoi_from m s (of_nat n) = atoi_from m (s + 1) (of_nat (n * 10 + d))"
    using w by (subst atoi_from.simps) (simp only: simp_thms if_True)
  also have "\<dots> = Some (of_nat (foldl (\<lambda>a d. a * 10 + d) (n * 10 + d) ds))"
    using Cons.prems rest by (intro Cons.IH) simp_all
  finally show ?case by simp
qed

text \<open>
  \<open>safestrcpy(s, t, n)\<close> always leaves a NUL-terminated string at \<open>s\<close>: the first \<open>n - 1\<close> bytes of
  the string at \<open>t\<close>, or all of it when it is shorter, and it writes no byte outside \<open>s[0..n)\<close>.
\<close>

theorem safestrcpy_terminates_string:
  assumes "cstr m t xs" and "0 < n" and "n < 2 ^ 31" and "length xs < 2 ^ 32 - 1"
    and "cells s (nat n) \<inter> cells t (Suc (length xs)) = {}"
  shows "cstr (safestrcpy m s t n) s (take (nat (n - 1)) xs)
    \<and> (\<forall>b. b \<notin> cells s (nat n) \<longrightarrow> safestrcpy m s t n b = m b)"
  using safestrcpy_cstr [OF assms] safestrcpy_frame [OF assms(3)] by blast

theorem safestrcpy_terminates_string_witness:
  "cstr (safestrcpy (\<lambda>a. if a < 105 then 7 else 0) 200 100 3) 200 [7, 7]"
proof -
  have c: "cstr (\<lambda>a. if a < (105 :: u32) then 7 else 0) 100 [7, 7, 7, 7, 7]" by simp
  have six: "Suc (length [7, 7, 7, 7, 7 :: u8]) = 6" "nat 3 = 3" by simp_all
  have d: "cells 200 (nat 3) \<inter> cells 100 (Suc (length [7, 7, 7, 7, 7 :: u8])) = {}"
  proof (rule ccontr)
    assume "\<not> ?thesis"
    then obtain x :: u32 where "x \<in> cells 200 3" "x \<in> cells 100 6" unfolding six by blast
    then obtain k j where "k < 3" "x = 200 + of_nat k" "j < 6" "x = 100 + of_nat j" by (elim cellsE) blast
    then have "unat ((200 :: u32) + of_nat k) = unat ((100 :: u32) + of_nat j)" by metis
    then show False using \<open>k < 3\<close> \<open>j < 6\<close> unat_add_of_nat [of 200 k] unat_add_of_nat [of 100 j] by simp
  qed
  have "take (nat (3 - 1)) [7, 7, 7, 7, 7] = [7, 7 :: u8]" by simp
  then show ?thesis using safestrcpy_terminates_string [OF c _ _ _ d] by simp
qed

text \<open>
  \<open>atoi\<close> reads the decimal numeral it is given: on a string that starts with the digits \<open>ds\<close>
  and goes on with something other than a digit, it returns their value.
\<close>

theorem atoi_digits:
  assumes "\<forall>d\<in>set ds. d < 10" and "cstr m s (map (\<lambda>d. of_nat d + 48) ds @ rest)"
    and "rest = [] \<or> \<not> (48 \<le> hd rest \<and> hd rest \<le> 57)"
  shows "atoi m s = Some (of_nat (foldl (\<lambda>a d. a * 10 + d) 0 ds))"
  using atoi_from_digits [OF assms, of 0] by (simp add: atoi_def)

theorem atoi_digits_witness:
  "\<exists>m. cstr m 100 [52, 50] \<and> atoi m 100 = Some 42"
proof -
  let ?m = "(\<lambda>_. 0 :: u8)(100 := 52, 101 := 50)"
  have "cstr ?m (100 :: u32) [52, 50]" by simp
  moreover from this have "atoi ?m 100 = Some 42" using atoi_digits [of "[4, 2]" ?m 100 "[]"] by simp
  ultimately show ?thesis by blast
qed

end
