(* ===== verification/Spinlock.thy ===== *)
theory Spinlock
  imports Prelude
begin

text \<open>
  \<open>src/xv6-public/spinlock.c\<close>.

  First the view one CPU has of the locks: the nesting depth of \<open>pushcli\<close>, the saved and the
  current interrupt flag, and the list of spinlocks this CPU holds (\<open>holding\<close> is
  \<open>lock->locked && lock->cpu == cpu\<close>). Every other component's state extends this record, and
  every \<open>acquire\<close> and \<open>release\<close> of the source is a call of the operations here. A CPU that
  waits in the \<open>xchg\<close> loop is not in a state of this view: \<open>acquire\<close> returns when it has the
  lock.

  Then the lock itself, with several CPUs running \<open>acquire\<close> and \<open>release\<close> one memory access
  at a time, and mutual exclusion for every interleaving.
\<close>

subsection \<open>One CPU\<close>

text \<open>The kernel's spinlocks; a parameter distinguishes the instances of one struct.\<close>

datatype lockid =
    PtableLock | StrideLock | PptableLock nat | KmemLock | BcacheLock | SleepLk nat nat
  | LogLock | IcacheLock | FtableLock | PipeLock u32 | ConsLock | TicksLock | IdeLock

record cpu =
  ncli :: int          \<comment> \<open>depth of pushcli nesting\<close>
  intena :: bool       \<comment> \<open>were interrupts enabled before pushcli?\<close>
  eflags_IF :: bool    \<comment> \<open>the processor's interrupt flag\<close>
  locks :: "lockid list"   \<comment> \<open>spinlocks held by this CPU, the latest first\<close>

definition pushcli :: "'x cpu_scheme \<Rightarrow> 'x cpu_scheme" where
  "pushcli s =
     s\<lparr>eflags_IF := False,
       intena := (if ncli s = 0 then eflags_IF s else intena s),
       ncli := ncli s + 1\<rparr>"

definition popcli :: "'x cpu_scheme \<Rightarrow> (unit, 'x cpu_scheme) outcome" where
  "popcli s =
     (if eflags_IF s then Panic ''popcli - interruptible''
      else if ncli s - 1 < 0 then Panic ''popcli''
      else if ncli s - 1 = 0 \<and> intena s then Ret () (s\<lparr>ncli := ncli s - 1, eflags_IF := True\<rparr>)
      else Ret () (s\<lparr>ncli := ncli s - 1\<rparr>))"

definition holding :: "lockid \<Rightarrow> 'x cpu_scheme \<Rightarrow> bool" where
  "holding lk s \<longleftrightarrow> lk \<in> set (locks s)"

definition acquire :: "lockid \<Rightarrow> 'x cpu_scheme \<Rightarrow> (unit, 'x cpu_scheme) outcome" where
  "acquire lk s =
     (let s = pushcli s in
      if holding lk s then Panic ''acquire''
      else Ret () (s\<lparr>locks := lk # locks s\<rparr>))"

definition release :: "lockid \<Rightarrow> 'x cpu_scheme \<Rightarrow> (unit, 'x cpu_scheme) outcome" where
  "release lk s =
     (if \<not> holding lk s then Panic ''release''
      else popcli (s\<lparr>locks := remove1 lk (locks s)\<rparr>))"

text \<open>
  The states between two kernel calls: the depth counts the held locks at least, interrupts are
  off while it is positive, and at depth 0 the saved flag is the current one, which is what the
  last \<open>popcli\<close> left.
\<close>

definition cpu_ok :: "'x cpu_scheme \<Rightarrow> bool" where
  "cpu_ok s \<longleftrightarrow> int (length (locks s)) \<le> ncli s \<and> distinct (locks s)
     \<and> (ncli s > 0 \<longrightarrow> \<not> eflags_IF s) \<and> (ncli s = 0 \<longrightarrow> intena s = eflags_IF s)"

lemma cpu_ok_ncli_nonneg: "cpu_ok s \<Longrightarrow> 0 \<le> ncli s"
  by (auto simp: cpu_ok_def)

text \<open>The state inside a critical section, in terms of the state before it.\<close>

definition locked_by :: "lockid \<Rightarrow> 'x cpu_scheme \<Rightarrow> 'x cpu_scheme" where
  "locked_by lk s = (pushcli s)\<lparr>locks := lk # locks s\<rparr>"

lemma acquire_free [lock_simps]:
  "\<not> holding lk s \<Longrightarrow> acquire lk s = Ret () (locked_by lk s)"
  by (simp add: acquire_def holding_def pushcli_def locked_by_def Let_def)

lemma acquire_held: "holding lk s \<Longrightarrow> acquire lk s = Panic ''acquire''"
  by (simp add: acquire_def holding_def pushcli_def Let_def)

lemma holding_locked_by [simp]: "holding l (locked_by lk s) \<longleftrightarrow> l = lk \<or> holding l s"
  by (simp add: holding_def locked_by_def)

lemma cpu_ok_locked_by: "cpu_ok s \<Longrightarrow> \<not> holding lk s \<Longrightarrow> cpu_ok (locked_by lk s)"
  by (auto simp: cpu_ok_def locked_by_def pushcli_def holding_def)

lemma release_locked_by:
  assumes "cpu_ok s"
  shows "release lk (locked_by lk s) = Ret () s"
proof -
  have "0 \<le> ncli s" using assms by (rule cpu_ok_ncli_nonneg)
  then show ?thesis
    using assms by (cases s)
      (auto simp: release_def holding_def locked_by_def pushcli_def popcli_def cpu_ok_def)
qed

subsection \<open>Several CPUs\<close>

text \<open>
  \<open>struct spinlock\<close> without its debugging fields, and the point each CPU has reached in
  \<open>acquire\<close> or \<open>release\<close>. A step is one access to the lock by one CPU, so that every
  interleaving of the CPUs is a run.
\<close>

record spinlock =
  locked :: u32             \<comment> \<open>is the lock held?\<close>
  lk_cpu :: "nat option"    \<comment> \<open>the cpu holding the lock\<close>

definition initlock :: "spinlock" where
  "initlock = \<lparr>locked = 0, lk_cpu = None\<rparr>"

definition xchg :: "u32 \<Rightarrow> spinlock \<Rightarrow> u32 \<times> spinlock" where
  "xchg v l = (locked l, l\<lparr>locked := v\<rparr>)"

definition holding_lk :: "nat \<Rightarrow> spinlock \<Rightarrow> bool" where
  "holding_lk c l \<longleftrightarrow> locked l \<noteq> 0 \<and> lk_cpu l = Some c"

datatype lockpc =
    Outside      \<comment> \<open>in neither function and not holding the lock\<close>
  | Spinning     \<comment> \<open>in the xchg loop of acquire\<close>
  | Recording    \<comment> \<open>got the lock, about to store lk->cpu\<close>
  | Critical     \<comment> \<open>between the return of acquire and the call of release\<close>
  | Clearing     \<comment> \<open>in release, lk->cpu cleared, about to store 0 in lk->locked\<close>

record lksys =
  the_lk :: spinlock
  lkpc :: "nat \<Rightarrow> lockpc"

definition lk_init :: "lksys \<Rightarrow> bool" where
  "lk_init s \<longleftrightarrow> s = \<lparr>the_lk = initlock, lkpc = (\<lambda>_. Outside)\<rparr>"

text \<open>\<open>acquire\<close> and \<open>release\<close> start with a \<open>holding\<close> test that panics; these are the calls that do.\<close>

definition lk_panics :: "nat \<Rightarrow> lksys \<Rightarrow> bool" where
  "lk_panics c s \<longleftrightarrow> (lkpc s c = Outside \<and> holding_lk c (the_lk s))
     \<or> (lkpc s c = Critical \<and> \<not> holding_lk c (the_lk s))"

inductive lk_step :: "lksys \<Rightarrow> lksys \<Rightarrow> bool" where
  enter: "lkpc s c = Outside \<Longrightarrow> \<not> lk_panics c s \<Longrightarrow>
     lk_step s (s\<lparr>lkpc := (lkpc s)(c := Spinning)\<rparr>)"
| spin: "lkpc s c = Spinning \<Longrightarrow> xchg 1 (the_lk s) = (old, l) \<Longrightarrow>
     lk_step s (s\<lparr>the_lk := l, lkpc := (lkpc s)(c := if old \<noteq> 0 then Spinning else Recording)\<rparr>)"
| record_cpu: "lkpc s c = Recording \<Longrightarrow>
     lk_step s (s\<lparr>the_lk := (the_lk s)\<lparr>lk_cpu := Some c\<rparr>, lkpc := (lkpc s)(c := Critical)\<rparr>)"
| leave: "lkpc s c = Critical \<Longrightarrow> \<not> lk_panics c s \<Longrightarrow>
     lk_step s (s\<lparr>the_lk := (the_lk s)\<lparr>lk_cpu := None\<rparr>, lkpc := (lkpc s)(c := Clearing)\<rparr>)"
| unlock: "lkpc s c = Clearing \<Longrightarrow>
     lk_step s (s\<lparr>the_lk := (the_lk s)\<lparr>locked := 0\<rparr>, lkpc := (lkpc s)(c := Outside)\<rparr>)"

definition owns :: "lksys \<Rightarrow> nat \<Rightarrow> bool" where
  "owns s c \<longleftrightarrow> lkpc s c \<in> {Recording, Critical, Clearing}"

text \<open>At any time at most one CPU, \<open>w\<close>, is past the \<open>xchg\<close> loop.\<close>

definition lk_owner :: "lksys \<Rightarrow> nat option \<Rightarrow> bool" where
  "lk_owner s w \<longleftrightarrow> (\<forall>c. owns s c \<longleftrightarrow> w = Some c) \<and> (locked (the_lk s) \<noteq> 0 \<longleftrightarrow> w \<noteq> None)
     \<and> (\<forall>c. lk_cpu (the_lk s) = Some c \<longleftrightarrow> lkpc s c = Critical)"

definition lk_inv :: "lksys \<Rightarrow> bool" where
  "lk_inv s \<longleftrightarrow> (\<exists>w. lk_owner s w)"

lemma lk_inv_init: "lk_init s \<Longrightarrow> lk_inv s"
  by (auto simp: lk_init_def lk_inv_def lk_owner_def owns_def initlock_def intro: exI [of _ None])

lemma lk_inv_step:
  assumes "lk_step s t" and "lk_inv s"
  shows "lk_inv t"
proof -
  from assms(2) obtain w where w: "lk_owner s w" by (auto simp: lk_inv_def)
  then have own: "owns s c \<longleftrightarrow> w = Some c" for c by (simp add: lk_owner_def)
  from assms(1) show ?thesis
  proof (cases rule: lk_step.cases)
    case (enter c)
    with own [of c] have "w \<noteq> Some c" by (auto simp: owns_def)
    with w enter have "lk_owner t w" by (auto simp: lk_owner_def owns_def)
    then show ?thesis by (auto simp: lk_inv_def)
  next
    case (spin c old l)
    with own [of c] have "w \<noteq> Some c" by (auto simp: owns_def)
    with w spin have "lk_owner t (if old = 0 then Some c else w)"
      by (auto simp: lk_owner_def owns_def xchg_def)
    then show ?thesis by (auto simp: lk_inv_def)
  next
    case (record_cpu c)
    with own [of c] have "w = Some c" by (auto simp: owns_def)
    with w record_cpu have "lk_owner t w" by (auto simp: lk_owner_def owns_def)
    then show ?thesis by (auto simp: lk_inv_def)
  next
    case (leave c)
    with own [of c] have "w = Some c" by (auto simp: owns_def)
    with w leave have "lk_owner t w" by (auto simp: lk_owner_def owns_def)
    then show ?thesis by (auto simp: lk_inv_def)
  next
    case (unlock c)
    with own [of c] have "w = Some c" by (auto simp: owns_def)
    with w unlock have "lk_owner t None" by (auto simp: lk_owner_def owns_def)
    then show ?thesis by (auto simp: lk_inv_def)
  qed
qed

interpretation lksys: invariant_system lk_init lk_step lk_inv
  by unfold_locales (auto intro: lk_inv_init lk_inv_step)

text \<open>
  C9. Mutual exclusion. Whatever the interleaving of the CPUs' accesses to the lock, at most one CPU is
  between the \<open>xchg\<close> of its \<open>acquire\<close> and the last store of its \<open>release\<close>, and no call of \<open>acquire\<close>
  or \<open>release\<close> fails its \<open>holding\<close> test.
\<close>

theorem spinlock_mutual_exclusion:
  assumes "reachable lk_init lk_step s"
  shows "(owns s c \<longrightarrow> owns s d \<longrightarrow> c = d) \<and> \<not> lk_panics c s"
proof -
  from lksys.inv_reachable [OF assms] obtain w where w: "lk_owner s w" by (auto simp: lk_inv_def)
  then have "owns s c \<longrightarrow> owns s d \<longrightarrow> c = d" by (auto simp: lk_owner_def)
  moreover have "locked (the_lk s) \<noteq> 0" if "lkpc s c = Critical"
    using w that by (auto simp: lk_owner_def owns_def)
  then have "\<not> lk_panics c s" using w by (auto simp: lk_panics_def holding_lk_def lk_owner_def)
  ultimately show ?thesis by blast
qed

theorem spinlock_mutual_exclusion_witness:
  "\<exists>s. reachable lk_init lk_step s \<and> lkpc s 0 = Recording \<and> lkpc s 1 = Spinning \<and> \<not> lk_panics 0 s"
proof -
  let ?s0 = "\<lparr>the_lk = initlock, lkpc = (\<lambda>_. Outside)\<rparr>"
  let ?s1 = "?s0\<lparr>lkpc := (lkpc ?s0)(0 := Spinning)\<rparr>"
  let ?s2 = "?s1\<lparr>lkpc := (lkpc ?s1)(1 := Spinning)\<rparr>"
  let ?s3 = "?s2\<lparr>the_lk := (the_lk ?s2)\<lparr>locked := 1\<rparr>, lkpc := (lkpc ?s2)(0 := if (0::u32) \<noteq> 0 then Spinning else Recording)\<rparr>"
  have "reachable lk_init lk_step ?s0" by (rule start) (simp add: lk_init_def)
  then have "reachable lk_init lk_step ?s1"
    by (rule move) (rule enter, simp_all add: lk_panics_def holding_lk_def initlock_def)
  then have "reachable lk_init lk_step ?s2"
    by (rule move) (rule enter, simp_all add: lk_panics_def holding_lk_def initlock_def)
  then have r: "reachable lk_init lk_step ?s3"
    by (rule move) (rule spin, simp_all add: xchg_def initlock_def)
  then show ?thesis using spinlock_mutual_exclusion [OF r, of 0] by (intro exI [of _ ?s3]) simp
qed

end
