(* ===== verification/Kalloc.thy ===== *)
theory Kalloc
  imports CString Spinlock
begin

unbundle bit_operations_syntax

text \<open>
  \<open>src/xv6-public/kalloc.c\<close>, with the address macros of \<open>memlayout.h\<close> and \<open>mmu.h\<close>.

  The free pages form a linked list through the first word of each page (\<open>struct run\<close>), so the
  list lives in the memory it manages: \<open>kfree\<close> writes the link with \<open>store32\<close>, \<open>kalloc\<close> reads
  it with \<open>load32\<close>. The contract is a stack of pages, stated once in the locale \<open>page_pool\<close>
  and interpreted on \<open>kalloc\<close> and \<open>kfree\<close>.
\<close>

subsection \<open>Memory layout\<close>

abbreviation KERNBASE :: u32 where "KERNBASE \<equiv> 0x80000000"
abbreviation PHYSTOP :: u32 where "PHYSTOP \<equiv> 0xE000000"
abbreviation EXTMEM :: u32 where "EXTMEM \<equiv> 0x100000"
abbreviation DEVSPACE :: u32 where "DEVSPACE \<equiv> 0xFE000000"
abbreviation PGSIZE :: u32 where "PGSIZE \<equiv> 4096"

definition V2P :: "u32 \<Rightarrow> u32" where
  "V2P a = a - KERNBASE"

definition P2V :: "u32 \<Rightarrow> u32" where
  "P2V a = a + KERNBASE"

definition PGROUNDUP :: "u32 \<Rightarrow> u32" where
  "PGROUNDUP sz = (sz + PGSIZE - 1) AND NOT (PGSIZE - 1)"

definition PGROUNDDOWN :: "u32 \<Rightarrow> u32" where
  "PGROUNDDOWN a = a AND NOT (PGSIZE - 1)"

lemma V2P_P2V [simp]: "V2P (P2V a) = a" and P2V_V2P [simp]: "P2V (V2P a) = a"
  by (simp_all add: V2P_def P2V_def)

lemma mod_PGSIZE: "(a :: u32) mod PGSIZE = take_bit 12 a"
  by (simp add: take_bit_eq_mod)

lemma PGROUNDDOWN_eq: "PGROUNDDOWN a = a - a mod PGSIZE"
proof -
  have m: "(PGSIZE - 1 :: u32) = mask 12" by (simp add: mask_eq_exp_minus_1)
  have "(a AND NOT (mask 12)) OR (a AND mask 12) = a" "(a AND NOT (mask 12)) AND (a AND mask 12) = 0"
    by (auto intro!: bit_word_eqI simp: bit_simps)
  then have "(a AND NOT (mask 12)) + (a AND mask 12) = a"
    using disjunctive_add_eq_or [of "a AND NOT (mask 12)" "a AND mask 12"] by simp
  then have "a AND NOT (mask 12) = a - (a AND mask 12)" by (simp add: eq_diff_eq)
  then show ?thesis by (simp only: PGROUNDDOWN_def m mod_PGSIZE take_bit_eq_mask)
qed

lemma PGROUNDUP_eq: "PGROUNDUP a = PGROUNDDOWN (a + PGSIZE - 1)"
  by (simp add: PGROUNDUP_def PGROUNDDOWN_def)

lemma unat_PGROUNDDOWN: "unat (PGROUNDDOWN a) = unat a - unat a mod 4096"
proof -
  have "a mod PGSIZE \<le> a" by (simp add: word_le_nat_alt unat_mod)
  then show ?thesis by (simp add: PGROUNDDOWN_eq unat_sub unat_mod)
qed

lemma aligned_unat: "(a :: u32) mod PGSIZE = 0 \<longleftrightarrow> unat a mod 4096 = 0"
  by (simp add: word_unat_eq_iff unat_mod)

lemma PGROUNDDOWN_aligned: "PGROUNDDOWN a mod PGSIZE = 0"
proof -
  have "(x - x mod 4096) mod 4096 = (0::nat)" for x
    by (simp add: minus_mod_eq_div_mult)
  then show ?thesis by (simp add: aligned_unat unat_PGROUNDDOWN)
qed

lemma PGROUNDUP_aligned: "PGROUNDUP a mod PGSIZE = 0"
  by (simp only: PGROUNDUP_eq PGROUNDDOWN_aligned)

lemma unat_PGROUNDUP:
  assumes "unat a + 4095 < 2 ^ 32"
  shows "unat (PGROUNDUP a) = (unat a + 4095) div 4096 * 4096"
proof -
  have "unat (a + PGSIZE - 1) = unat a + 4095"
    using unat_add_of_nat [of a 4095] assms by (simp add: add.commute)
  moreover have "x - x mod 4096 = x div 4096 * 4096" for x :: nat
    by (simp add: minus_mod_eq_div_mult)
  ultimately show ?thesis by (simp add: PGROUNDUP_eq unat_PGROUNDDOWN)
qed

lemma aligned_room:
  fixes x :: nat
  assumes "x mod 4096 = 0" "x < 4294967296" "i < 4096"
  shows "x + i < 4294967296"
proof -
  obtain q where q: "x = 4096 * q" using assms(1) by (auto simp: mod_eq_0_iff_dvd)
  then have "q < 1048576" using assms(2) by simp
  then show ?thesis using q assms(3) by simp
qed

lemma aligned_unique:
  fixes x y :: nat
  assumes "x mod 4096 = 0" "y mod 4096 = 0" "i < 4096" "j < 4096" "x + i = y + j"
  shows "x = y"
proof -
  obtain q where q: "x = 4096 * q" using assms(1) by (auto simp: mod_eq_0_iff_dvd)
  obtain r where r: "y = 4096 * r" using assms(2) by (auto simp: mod_eq_0_iff_dvd)
  have "q = r" using assms(3-5) q r by (cases q r rule: linorder_cases) auto
  then show ?thesis using q r by simp
qed

text \<open>Two pages at different aligned addresses share no byte.\<close>

lemma pages_disjoint:
  assumes "a mod PGSIZE = 0" "b mod PGSIZE = 0" "a \<noteq> b"
  shows "cells a 4096 \<inter> cells b 4096 = {}"
proof (rule ccontr)
  assume "cells a 4096 \<inter> cells b 4096 \<noteq> {}"
  then obtain i j where ij: "i < 4096" "j < 4096" "a + of_nat i = b + of_nat j"
    by (auto elim!: cellsE)
  have a: "unat a mod 4096 = 0" and b: "unat b mod 4096 = 0"
    using assms by (auto simp: aligned_unat)
  have "unat a + i < 2 ^ 32" "unat b + j < 2 ^ 32"
    using aligned_room [OF a _ ij(1)] aligned_room [OF b _ ij(2)]
      unsigned_less [of a] unsigned_less [of b] by simp_all
  then have "unat a + i = unat b + j"
    using ij(3) unat_add_of_nat [of a i] unat_add_of_nat [of b j] by simp
  then have "unat a = unat b" by (rule aligned_unique [OF a b ij(1,2)])
  then show False using assms(3) by (simp add: word_unat_eq_iff)
qed

subsection \<open>The allocator\<close>

text \<open>
  \<open>kern_end\<close> and \<open>kern_data\<close> are the linker's symbols \<open>end\<close>, the first address after the kernel,
  and \<open>data\<close>, the first address of its writable part: constants of the image, never written.
\<close>

record kmem = cpu +
  mem :: memory          \<comment> \<open>physical memory, at its kernel virtual addresses\<close>
  freelist :: u32
  use_lock :: bool
  kern_end :: u32
  kern_data :: u32

definition kmem_acquire :: "'x kmem_scheme \<Rightarrow> (unit, 'x kmem_scheme) outcome" where
  "kmem_acquire s = (if use_lock s then acquire KmemLock s else Ret () s)"

definition kmem_release :: "'x kmem_scheme \<Rightarrow> (unit, 'x kmem_scheme) outcome" where
  "kmem_release s = (if use_lock s then release KmemLock s else Ret () s)"

definition kfree :: "u32 \<Rightarrow> 'x kmem_scheme \<Rightarrow> (unit, 'x kmem_scheme) outcome" where
  "kfree v s =
     (if v mod PGSIZE \<noteq> 0 \<or> v < kern_end s \<or> V2P v \<ge> PHYSTOP then Panic ''kfree''
      else
        let s = s\<lparr>mem := memset (mem s) v 1 PGSIZE\<rparr> in
        andthen (kmem_acquire s) (\<lambda>_ s.
          let s = s\<lparr>mem := store32 (mem s) v (freelist s)\<rparr>;
              s = s\<lparr>freelist := v\<rparr> in
          kmem_release s))"

definition kalloc :: "'x kmem_scheme \<Rightarrow> (u32, 'x kmem_scheme) outcome" where
  "kalloc s =
     andthen (kmem_acquire s) (\<lambda>_ s.
       let r = freelist s;
           s = (if r \<noteq> 0 then s\<lparr>freelist := load32 (mem s) r\<rparr> else s) in
       andthen (kmem_release s) (\<lambda>_ s. Ret r s))"

text \<open>
  \<open>freerange\<close> frees every whole page of \<open>[vstart, vend)\<close>. The loop ends because \<open>kfree\<close> panics
  on an address at or beyond \<open>P2V(PHYSTOP)\<close>.
\<close>

lemma kfree_Ret_below:
  assumes "kfree v s = Ret u t"
  shows "unat v + 4096 < 2 ^ 32"
proof -
  have "V2P v < PHYSTOP"
    using assms by (auto simp: kfree_def Let_def not_le split: if_splits)
  then have "unat (v - KERNBASE) < 0xE000000" by (simp add: V2P_def word_less_nat_alt)
  then have "v = KERNBASE + of_nat (unat (v - KERNBASE))" by simp
  then have "unat v = unat KERNBASE + unat (v - KERNBASE)"
    using unat_add_of_nat [of KERNBASE "unat (v - KERNBASE)"] \<open>unat (v - KERNBASE) < _\<close> by simp
  then show ?thesis using \<open>unat (v - KERNBASE) < _\<close> by simp
qed

function freerange_loop :: "u32 \<Rightarrow> u32 \<Rightarrow> 'x kmem_scheme \<Rightarrow> (unit, 'x kmem_scheme) outcome" where
  "freerange_loop p vend s =
     (if p + PGSIZE \<le> vend then
        (case kfree p s of
           Ret _ s \<Rightarrow> freerange_loop (p + PGSIZE) vend s
         | Swtch s \<Rightarrow> Swtch s
         | Panic e \<Rightarrow> Panic e)
      else Ret () s)"
  by pat_completeness auto
termination
proof (relation "measure (\<lambda>(p, vend, s). 2 ^ 32 - unat p)")
  fix p vend :: u32 and s s' :: "'x kmem_scheme" and u
  assume "kfree p s = Ret u s'"
  then have "unat p + 4096 < 2 ^ 32" by (rule kfree_Ret_below)
  moreover from this have "unat (p + PGSIZE) = unat p + 4096"
    using unat_add_of_nat [of p 4096] by simp
  ultimately show "((p + PGSIZE, vend, s'), p, vend, s) \<in> measure (\<lambda>(p, vend, s). 2 ^ 32 - unat p)"
    by simp
qed simp

declare freerange_loop.simps [simp del]

definition freerange :: "u32 \<Rightarrow> u32 \<Rightarrow> 'x kmem_scheme \<Rightarrow> (unit, 'x kmem_scheme) outcome" where
  "freerange vstart vend s = freerange_loop (PGROUNDUP vstart) vend s"

definition kinit1 :: "u32 \<Rightarrow> u32 \<Rightarrow> 'x kmem_scheme \<Rightarrow> (unit, 'x kmem_scheme) outcome" where
  "kinit1 vstart vend s = freerange vstart vend (s\<lparr>use_lock := False\<rparr>)"

definition kinit2 :: "u32 \<Rightarrow> u32 \<Rightarrow> 'x kmem_scheme \<Rightarrow> (unit, 'x kmem_scheme) outcome" where
  "kinit2 vstart vend s =
     andthen (freerange vstart vend s) (\<lambda>_ s. Ret () (s\<lparr>use_lock := True\<rparr>))"

subsection \<open>The free list as a list of pages\<close>

fun run_chain :: "memory \<Rightarrow> u32 \<Rightarrow> u32 list \<Rightarrow> bool" where
  "run_chain m p [] \<longleftrightarrow> p = 0"
| "run_chain m p (x # xs) \<longleftrightarrow> p = x \<and> x \<noteq> 0 \<and> run_chain m (load32 m x) xs"

definition kpage :: "'x kmem_scheme \<Rightarrow> u32 \<Rightarrow> bool" where
  "kpage s v \<longleftrightarrow> v mod PGSIZE = 0 \<and> kern_end s \<le> v \<and> V2P v < PHYSTOP"

definition free_pages :: "'x kmem_scheme \<Rightarrow> u32 list \<Rightarrow> bool" where
  "free_pages s xs \<longleftrightarrow> run_chain (mem s) (freelist s) xs \<and> distinct xs \<and> (\<forall>x\<in>set xs. kpage s x)
     \<and> cpu_ok s \<and> \<not> holding KmemLock s"

lemma run_chain_unique: "run_chain m p xs \<Longrightarrow> run_chain m p ys \<Longrightarrow> xs = ys"
proof (induction xs arbitrary: p ys)
  case Nil
  then show ?case by (cases ys) auto
next
  case (Cons x xs)
  then show ?case by (cases ys) auto
qed

text \<open>Writing a page leaves the links kept in other pages alone.\<close>

lemma load32_other_page:
  assumes "\<And>b. b \<notin> cells v 4096 \<Longrightarrow> m' b = m b"
    and "v mod PGSIZE = 0" "x mod PGSIZE = 0" "x \<noteq> v"
  shows "load32 m' x = load32 m x"
proof -
  have "x + of_nat k \<notin> cells v 4096" if "k < 4" for k
    using pages_disjoint [of x v] assms(2-4) cellsI [of k 4096 x] that by auto
  from this [of 0] this [of 1] this [of 2] this [of 3]
  show ?thesis by (simp add: load32_def assms(1))
qed

lemma run_chain_other_page:
  assumes "\<And>b. b \<notin> cells v 4096 \<Longrightarrow> m' b = m b" and "v mod PGSIZE = 0"
    and "\<forall>x\<in>set xs. x mod PGSIZE = 0" and "v \<notin> set xs"
  shows "run_chain m' p xs = run_chain m p xs"
  using assms(3,4)
proof (induction xs arbitrary: p)
  case (Cons x xs)
  then have "load32 m' x = load32 m x"
    using assms(1,2) by (intro load32_other_page [of v]) auto
  then show ?case using Cons by simp
qed simp

lemma kfree_page_frame:
  assumes "b \<notin> cells v 4096"
  shows "store32 (memset m v 1 PGSIZE) v w b = m b"
proof -
  have "b \<notin> cells v 4" using assms by (auto simp: cells_def)
  then show ?thesis using assms by (auto simp: store32_def memset_apply cells_def)
qed

lemma locked_by_kmem [simp]:
  "mem (locked_by l s) = mem s" "freelist (locked_by l s) = freelist s"
  "use_lock (locked_by l s) = use_lock s" "kern_end (locked_by l s) = kern_end s"
  "kern_data (locked_by l s) = kern_data s"
  "(locked_by l s)\<lparr>mem := m\<rparr> = locked_by l (s\<lparr>mem := m\<rparr>)"
  "(locked_by l s)\<lparr>freelist := f\<rparr> = locked_by l (s\<lparr>freelist := f\<rparr>)"
  by (simp_all add: locked_by_def pushcli_def)

lemma cpu_kmem_update [simp]:
  "cpu_ok (s\<lparr>mem := m\<rparr>) = cpu_ok s" "cpu_ok (s\<lparr>freelist := f\<rparr>) = cpu_ok s"
  "holding l (s\<lparr>mem := m\<rparr>) = holding l s" "holding l (s\<lparr>freelist := f\<rparr>) = holding l s"
  by (simp_all add: cpu_ok_def holding_def)

lemma kalloc_eq:
  assumes "cpu_ok s" and "\<not> holding KmemLock s"
  shows "kalloc s = Ret (freelist s)
    (if freelist s \<noteq> 0 then s\<lparr>freelist := load32 (mem s) (freelist s)\<rparr> else s)"
  using assms
  by (auto simp: kalloc_def kmem_acquire_def kmem_release_def Let_def acquire_free release_locked_by)

lemma kfree_eq:
  assumes "kpage s v" and "cpu_ok s" and "\<not> holding KmemLock s"
  shows "kfree v s = Ret ()
    (s\<lparr>mem := store32 (memset (mem s) v 1 PGSIZE) v (freelist s), freelist := v\<rparr>)"
  using assms
  by (auto simp: kfree_def kpage_def kmem_acquire_def kmem_release_def Let_def acquire_free
      release_locked_by not_le not_less)

lemma kfree_bad: "\<not> kpage s v \<Longrightarrow> kfree v s = Panic ''kfree''"
  by (auto simp: kfree_def kpage_def not_le not_less)

subsection \<open>The contract of a page allocator\<close>

text \<open>
  A pool of free pages used as a stack: \<open>free\<close> pushes a page, \<open>alloc\<close> pops one and returns 0 when
  there is none.
\<close>

locale page_pool =
  fixes alloc :: "'s \<Rightarrow> (u32, 's) outcome"
    and free :: "u32 \<Rightarrow> 's \<Rightarrow> (unit, 's) outcome"
    and pool :: "'s \<Rightarrow> u32 list \<Rightarrow> bool"
    and page :: "'s \<Rightarrow> u32 \<Rightarrow> bool"
  assumes pool_page: "pool s xs \<Longrightarrow> x \<in> set xs \<Longrightarrow> page s x \<and> x \<noteq> 0"
    and pool_distinct: "pool s xs \<Longrightarrow> distinct xs"
    and alloc_empty: "pool s [] \<Longrightarrow> alloc s = Ret 0 s"
    and alloc_pop: "pool s (x # xs) \<Longrightarrow>
      \<exists>t. alloc s = Ret x t \<and> pool t xs \<and> (\<forall>v. page t v = page s v)"
    and free_push: "pool s xs \<Longrightarrow> page s v \<Longrightarrow> v \<noteq> 0 \<Longrightarrow> v \<notin> set xs \<Longrightarrow>
      \<exists>t. free v s = Ret () t \<and> pool t (v # xs) \<and> (\<forall>v. page t v = page s v)"
begin

text \<open>Freeing a page and allocating hands the same page out and restores the pool.\<close>

lemma free_alloc:
  assumes "pool s xs" "page s v" "v \<noteq> 0" "v \<notin> set xs"
  shows "\<exists>t. andthen (free v s) (\<lambda>_. alloc) = Ret v t \<and> pool t xs"
proof -
  obtain t where t: "free v s = Ret () t" "pool t (v # xs)"
    using free_push [OF assms] by blast
  then obtain u where "alloc t = Ret v u" "pool u xs"
    using alloc_pop by blast
  then show ?thesis using t by simp
qed

end

fun alloc_many :: "('s \<Rightarrow> (u32, 's) outcome) \<Rightarrow> nat \<Rightarrow> 's \<Rightarrow> (u32 list, 's) outcome" where
  "alloc_many alloc 0 s = Ret [] s"
| "alloc_many alloc (Suc n) s =
     andthen (alloc s) (\<lambda>v s. andthen (alloc_many alloc n s) (\<lambda>vs s. Ret (v # vs) s))"

context page_pool
begin

lemma alloc_many_take:
  "pool s xs \<Longrightarrow> n \<le> length xs \<Longrightarrow>
    \<exists>t. alloc_many alloc n s = Ret (take n xs) t \<and> pool t (drop n xs)"
proof (induction n arbitrary: s xs)
  case 0
  then show ?case by simp
next
  case (Suc n)
  then obtain x ys where xs: "xs = x # ys" by (cases xs) auto
  with Suc.prems obtain t where t: "alloc s = Ret x t" "pool t ys" using alloc_pop by blast
  with Suc xs obtain u where "alloc_many alloc n t = Ret (take n ys) u" "pool u (drop n ys)"
    by fastforce
  then show ?case using t xs by simp
qed

end

lemma zero_not_kpage:
  assumes "kpage s x"
  shows "x \<noteq> 0"
proof
  assume "x = 0"
  then show False using assms by (simp add: kpage_def V2P_def)
qed

interpretation kmem: page_pool kalloc kfree free_pages kpage
proof unfold_locales
  show "kpage s x \<and> x \<noteq> 0" if "free_pages s xs" "x \<in> set xs" for s :: "'x kmem_scheme" and xs x
    using that zero_not_kpage by (auto simp: free_pages_def)
  show "distinct xs" if "free_pages s xs" for s :: "'x kmem_scheme" and xs
    using that by (simp add: free_pages_def)
  show "kalloc s = Ret 0 s" if "free_pages s []" for s :: "'x kmem_scheme"
    using that by (auto simp: free_pages_def kalloc_eq)
  show "\<exists>t. kalloc s = Ret x t \<and> free_pages t xs \<and> (\<forall>v. kpage t v = kpage s v)"
    if "free_pages s (x # xs)" for s :: "'x kmem_scheme" and x xs
    using that by (auto simp: free_pages_def kalloc_eq kpage_def)
  show "\<exists>t. kfree v s = Ret () t \<and> free_pages t (v # xs) \<and> (\<forall>v. kpage t v = kpage s v)"
    if "free_pages s xs" "kpage s v" "v \<noteq> 0" "v \<notin> set xs" for s :: "'x kmem_scheme" and xs v
  proof -
    let ?m = "store32 (memset (mem s) v 1 PGSIZE) v (freelist s)"
    have "run_chain ?m (freelist s) xs = run_chain (mem s) (freelist s) xs"
      using that by (intro run_chain_other_page [of v]) (auto simp: free_pages_def kpage_def kfree_page_frame)
    then show ?thesis
      using that by (auto simp: free_pages_def kfree_eq kpage_def load32_store32_same)
  qed
qed

subsection \<open>Initialisation\<close>

definition pages_from :: "u32 \<Rightarrow> nat \<Rightarrow> u32 list" where
  "pages_from p n = map (\<lambda>i. p + of_nat (4096 * i)) [0..<n]"

lemma pages_from_Suc: "pages_from p (Suc n) = p # pages_from (p + PGSIZE) n"
proof -
  have "pages_from p (Suc n) = p # map (\<lambda>i. p + of_nat (4096 * Suc i)) [0..<n]"
    unfolding pages_from_def upt_conv_Cons [OF zero_less_Suc]
    by (simp add: map_Suc_upt [symmetric] del: upt_Suc)
  then show ?thesis by (simp add: pages_from_def add.assoc)
qed

lemma pages_from_notin:
  assumes "unat p + 4096 * Suc n < 2 ^ 32"
  shows "p \<notin> set (pages_from (p + PGSIZE) n)"
proof
  assume "p \<in> set (pages_from (p + PGSIZE) n)"
  then obtain i where i: "i < n" "p = p + PGSIZE + of_nat (4096 * i)"
    by (auto simp: pages_from_def)
  have "p + PGSIZE + of_nat (4096 * i) = p + of_nat (4096 * Suc i)" by simp
  moreover have "unat (p + of_nat (4096 * Suc i)) = unat p + 4096 * Suc i"
    using i(1) assms by (intro unat_add_of_nat) simp
  ultimately show False using i(2) by simp
qed

lemma freerange_loop_frees:
  assumes "free_pages s xs" and "\<forall>v\<in>set (pages_from p n). kpage s v \<and> v \<notin> set xs"
    and "unat p + 4096 * n \<le> unat vend" "unat vend < unat p + 4096 * Suc n"
    and "unat p + 4096 * Suc n < 2 ^ 32"
  shows "\<exists>t. freerange_loop p vend s = Ret () t \<and> free_pages t (rev (pages_from p n) @ xs)
    \<and> kern_end t = kern_end s \<and> kern_data t = kern_data s"
  using assms
proof (induction n arbitrary: p s xs)
  case 0
  then have "unat (p + PGSIZE) = unat p + 4096" using unat_add_of_nat [of p 4096] by simp
  then have "\<not> p + PGSIZE \<le> vend" using 0 by (simp add: word_le_nat_alt)
  then show ?case using 0 by (subst freerange_loop.simps) (simp add: pages_from_def)
next
  case (Suc n)
  have u: "unat (p + PGSIZE) = unat p + 4096"
    using unat_add_of_nat [of p 4096] Suc.prems(5) by simp
  then have le: "p + PGSIZE \<le> vend" using Suc.prems(3) by (simp add: word_le_nat_alt)
  have "kpage s p" "p \<notin> set xs" using Suc.prems(2) by (auto simp: pages_from_Suc)
  then obtain t where t: "kfree p s = Ret () t" "free_pages t (p # xs)"
      and pg: "\<forall>v. kpage t v = kpage s v"
    using kmem.free_push [OF Suc.prems(1)] zero_not_kpage by blast
  have "cpu_ok s" "\<not> holding KmemLock s" using Suc.prems(1) by (simp_all add: free_pages_def)
  then have k: "kern_end t = kern_end s" "kern_data t = kern_data s" using kfree_eq [OF \<open>kpage s p\<close>] t(1) by auto
  have "\<exists>t'. freerange_loop (p + PGSIZE) vend t = Ret () t'
      \<and> free_pages t' (rev (pages_from (p + PGSIZE) n) @ p # xs) \<and> kern_end t' = kern_end t \<and> kern_data t' = kern_data t"
    using Suc.prems(2-5) t(2) pg u pages_from_notin [of p n]
    by (intro Suc.IH) (auto simp: pages_from_Suc)
  then show ?case using le t(1) k by (subst freerange_loop.simps) (simp add: pages_from_Suc)
qed

text \<open>
  C28. Freed pages come back. When the free list holds the pages \<open>xs\<close> and \<open>v\<close> is a page in use,
  freeing \<open>v\<close> and then allocating as many times as there are pages, once more included, hands out
  \<open>v\<close> and each page of \<open>xs\<close> exactly once, and leaves the free list empty.
\<close>

theorem kfree_kalloc_all:
  fixes s :: "'x kmem_scheme"
  assumes "free_pages s xs" and "kpage s v" and "v \<notin> set xs"
  shows "\<exists>t. andthen (kfree v s) (\<lambda>_. alloc_many kalloc (Suc (length xs))) = Ret (v # xs) t
    \<and> free_pages t [] \<and> kalloc t = Ret 0 t"
proof -
  obtain u where u: "kfree v s = Ret () u" "free_pages u (v # xs)"
    using kmem.free_push [OF assms(1,2) zero_not_kpage [OF assms(2)] assms(3)] by blast
  from kmem.alloc_many_take [OF u(2), of "Suc (length xs)"] obtain t where
    "alloc_many kalloc (Suc (length xs)) u = Ret (v # xs) t" "free_pages t []" by auto
  then show ?thesis using u(1) kmem.alloc_empty by auto
qed

text \<open>A machine whose kernel ends at 2 MB, with an empty free list.\<close>

definition ex_kmem :: kmem where
  "ex_kmem = \<lparr>ncli = 0, intena = True, eflags_IF = True, locks = [], mem = (\<lambda>_. 0), freelist = 0,
     use_lock = True, kern_end = 0x80200000, kern_data = 0x80109000\<rparr>"

theorem kfree_kalloc_all_witness:
  "\<exists>t. andthen (kfree 0x80201000 ex_kmem) (\<lambda>_. alloc_many kalloc 1) = Ret [0x80201000] t \<and> free_pages t []"
proof -
  have "free_pages ex_kmem []" "kpage ex_kmem 0x80201000"
    by (simp_all add: ex_kmem_def free_pages_def cpu_ok_def holding_def kpage_def V2P_def)
  from kfree_kalloc_all [OF this] show ?thesis by auto
qed

text \<open>
  Initialisation. \<open>freerange\<close> over a range of kernel memory puts every whole page of the range on
  the free list exactly once and returns; a part page at either end is left out.
\<close>

theorem freerange_frees_whole_pages:
  fixes s :: "'x kmem_scheme"
  assumes "free_pages s xs" and "unat vstart + 4095 < 2 ^ 32" and "kern_end s \<le> vstart"
    and "unat (PGROUNDUP vstart) + 4096 * n \<le> unat vend" "unat vend < unat (PGROUNDUP vstart) + 4096 * Suc n"
    and "vend \<le> P2V PHYSTOP" and "KERNBASE \<le> vstart"
    and "\<forall>v\<in>set (pages_from (PGROUNDUP vstart) n). v \<notin> set xs"
  shows "\<exists>t. freerange vstart vend s = Ret () t \<and> free_pages t (rev (pages_from (PGROUNDUP vstart) n) @ xs)"
proof -
  let ?p = "PGROUNDUP vstart"
  have up: "unat vstart \<le> unat ?p" using unat_PGROUNDUP [OF assms(2)] by simp
  have top: "unat vend \<le> 0x8E000000" using assms(6) by (simp add: P2V_def word_le_nat_alt)
  have bot: "0x80000000 \<le> unat vstart" using assms(7) by (simp add: word_le_nat_alt)
  have al: "unat ?p mod 4096 = 0" using PGROUNDUP_aligned [of vstart] by (simp add: aligned_unat)
  have "kpage s v" if v: "v \<in> set (pages_from ?p n)" for v
  proof -
    obtain i where i: "i < n" "v = ?p + of_nat (4096 * i)" using v by (auto simp: pages_from_def)
    have le: "4096 * i + 4096 \<le> 4096 * n" using i(1) by simp
    have u: "unat v = unat ?p + 4096 * i"
      using i le assms(4) top unat_add_of_nat [of ?p "4096 * i"] by simp
    have "unat v mod 4096 = 0" using u al by (simp add: mod_add_eq [symmetric])
    moreover have "kern_end s \<le> v" using assms(3) up u by (simp add: word_le_nat_alt)
    moreover have "unat (V2P v) = unat v - 0x80000000"
      using u bot up by (simp add: V2P_def unat_sub word_le_nat_alt)
    then have "V2P v < PHYSTOP" using u le assms(4) top by (simp add: word_less_nat_alt)
    ultimately show ?thesis by (simp add: kpage_def aligned_unat)
  qed
  moreover have "unat ?p + 4096 * Suc n < 2 ^ 32" using assms(4) top by simp
  ultimately show ?thesis
    using freerange_loop_frees [OF assms(1) _ assms(4,5)] assms(8) by (auto simp: freerange_def)
qed

theorem freerange_frees_whole_pages_witness:
  "\<exists>t. freerange 0x80200010 0x80203800 ex_kmem = Ret () t \<and> free_pages t [0x80202000, 0x80201000]"
proof -
  have p: "PGROUNDUP 0x80200010 = (0x80201000 :: u32)" by (simp add: PGROUNDUP_def)
  have l: "pages_from 0x80201000 2 = [0x80201000, 0x80202000]"
    by (simp add: pages_from_def upt_conv_Cons)
  have f: "free_pages ex_kmem []"
    by (simp add: ex_kmem_def free_pages_def cpu_ok_def holding_def)
  have ke: "kern_end ex_kmem \<le> 0x80200010" by (simp add: ex_kmem_def)
  have un: "unat (PGROUNDUP 0x80200010) + 4096 * 2 \<le> unat (0x80203800 :: u32)"
    "unat (0x80203800 :: u32) < unat (PGROUNDUP 0x80200010) + 4096 * Suc 2"
    "unat (0x80200010 :: u32) + 4095 < 2 ^ 32"
    unfolding p by simp_all
  have ad: "(0x80203800 :: u32) \<le> P2V PHYSTOP" "KERNBASE \<le> (0x80200010 :: u32)" by (simp_all add: P2V_def)
  have no: "\<forall>v\<in>set (pages_from (PGROUNDUP 0x80200010) 2). v \<notin> set []" by simp
  show ?thesis
    using freerange_frees_whole_pages [OF f un(3) ke un(1,2) ad no] unfolding p l by simp
qed

end
