(* ===== verification/Sched.thy ===== *)
theory Sched
  imports Kalloc
begin

text \<open>
  The process table and the scheduler of \<open>src/xv6-public/proc.c\<close> (with \<open>proc.h\<close> and
  \<open>param.h\<close>): a stride scheduler over groups of processes, each group scheduled by a
  three-level feedback queue (MLFQ); sleep and wakeup; \<open>allocproc\<close>, \<open>kill\<close>, \<open>set_cpu_share\<close>.

  A pointer into a table is an index, a null pointer is \<open>None\<close>. A kernel stack is the address of
  its page; the trap frame at its top is kept by value in the process, and of the saved context
  only where the thread resumes. Processes switch at \<open>swtch\<close>: \<open>sched\<close> ends in \<open>Swtch\<close> with the
  state the scheduler sees, the scheduler ends in \<open>Swtch\<close> with the state the chosen process
  sees, and what follows the switch in each function is a definition of its own.
\<close>

subsection \<open>Constants and structures\<close>

abbreviation NPROC :: nat where "NPROC \<equiv> 64"
abbreviation NOFILE :: nat where "NOFILE \<equiv> 16"
abbreviation ENTIRETICKETS :: u32 where "ENTIRETICKETS \<equiv> 100"
abbreviation ACCURATENUM :: u32 where "ACCURATENUM \<equiv> 10"
abbreviation NUMLEVEL :: nat where "NUMLEVEL \<equiv> 3"
abbreviation MAXINT :: u32 where "MAXINT \<equiv> 2147483647"
abbreviation KSTACKSIZE :: u32 where "KSTACKSIZE \<equiv> 4096"

datatype procstate = UNUSED | EMBRYO | SLEEPING | RUNNABLE | RUNNING | ZOMBIE

text \<open>Wait channels: the kernel sleeps on addresses of distinct objects.\<close>

datatype chan =
    ProcChan nat | LogChan | BufChan nat | SleeplockChan nat nat | TicksChan
  | PipeReadChan u32 | PipeWriteChan u32 | InputChan

record trapframe =
  tf_edi :: u32
  tf_esi :: u32
  tf_ebp :: u32
  tf_ebx :: u32
  tf_edx :: u32
  tf_ecx :: u32
  tf_eax :: u32
  tf_gs :: u16
  tf_fs :: u16
  tf_es :: u16
  tf_ds :: u16
  tf_trapno :: u32
  tf_err :: u32
  tf_eip :: u32
  tf_cs :: u16
  tf_eflags :: u32
  tf_esp :: u32
  tf_ss :: u16

datatype kcontext = AtForkret | AtSwtch

record proc =
  p_sz :: u32
  p_topofheap :: u32
  p_baseofstack :: u32
  p_pgdir :: u32
  p_kstack :: u32
  p_state :: procstate
  p_pid :: int
  p_parent :: "nat option"
  p_tf :: trapframe
  p_context :: kcontext
  p_chan :: "chan option"
  p_killed :: bool
  p_ofile :: "nat \<Rightarrow> nat option"
  p_cwd :: "nat option"
  p_name :: "u8 list"
  p_level :: nat
  p_usedticks :: nat
  p_threadof :: "nat option"
  p_returnto :: "nat option"
  p_threadret :: u32

record strideproc =
  sp_pptable :: "nat \<Rightarrow> nat option"
  sp_tickets :: u32
  sp_stride :: u32
  sp_pass :: u32
  sp_usedticks :: u32
  sp_sid :: u32
  sp_currentproc :: nat

record kproc = kmem +
  ptable :: "nat \<Rightarrow> proc"
  stridetable :: "nat \<Rightarrow> strideproc"
  current :: nat              \<comment> \<open>current stride proc\<close>
  MLFQ :: nat                 \<comment> \<open>the stride proc of the MLFQ\<close>
  nextpid :: int
  nextsid :: int
  initproc :: "nat option"
  cur :: "nat option"         \<comment> \<open>\<open>proc\<close>, the process running on this CPU\<close>
  kpgdir :: u32
  cr3 :: u32                  \<comment> \<open>page table register\<close>
  ts_esp0 :: u32              \<comment> \<open>kernel stack used on a trap from user mode\<close>

definition quantum :: "nat \<Rightarrow> nat" where
  "quantum l = [5, 10, 20] ! l"

definition upd_proc :: "nat \<Rightarrow> (proc \<Rightarrow> proc) \<Rightarrow> 'x kproc_scheme \<Rightarrow> 'x kproc_scheme" where
  "upd_proc p f s = s\<lparr>ptable := (ptable s)(p := f (ptable s p))\<rparr>"

definition upd_stride :: "nat \<Rightarrow> (strideproc \<Rightarrow> strideproc) \<Rightarrow> 'x kproc_scheme \<Rightarrow> 'x kproc_scheme" where
  "upd_stride k f s = s\<lparr>stridetable := (stridetable s)(k := f (stridetable s k))\<rparr>"

text \<open>Unsigned division; dividing by zero traps in the kernel, where \<open>trap\<close> panics.\<close>

definition udiv :: "u32 \<Rightarrow> u32 \<Rightarrow> 's \<Rightarrow> (u32, 's) outcome" where
  "udiv a b s = (if b = 0 then Panic ''trap'' else Ret (a div b) s)"

subsection \<open>Initialisation\<close>

definition pinit :: "'x kproc_scheme \<Rightarrow> (unit, 'x kproc_scheme) outcome" where
  "pinit s =
     andthen (acquire StrideLock s) (\<lambda>_ s.
       let s = upd_stride 0 (\<lambda>sp. sp\<lparr>sp_tickets := ENTIRETICKETS\<rparr>) s in
       andthen (udiv (ENTIRETICKETS * ACCURATENUM) (sp_tickets (stridetable s 0)) s) (\<lambda>d s.
         let s = upd_stride 0 (\<lambda>sp. sp\<lparr>sp_stride := d, sp_pass := 0, sp_usedticks := 0,
                   sp_sid := of_int (nextsid s)\<rparr>) s;
             s = s\<lparr>nextsid := nextsid s + 1, MLFQ := 0, current := 0\<rparr> in
         release StrideLock s))"

subsection \<open>Switching address spaces\<close>

text \<open>\<open>switchuvm\<close> and \<open>switchkvm\<close> of \<open>vm.c\<close>; of the task state only the kernel stack is kept.\<close>

definition switchuvm :: "nat option \<Rightarrow> 'x kproc_scheme \<Rightarrow> (unit, 'x kproc_scheme) outcome" where
  "switchuvm p s =
     (case p of None \<Rightarrow> Panic ''switchuvm: no process''
      | Some p \<Rightarrow>
        if p_kstack (ptable s p) = 0 then Panic ''switchuvm: no kstack''
        else if p_pgdir (ptable s p) = 0 then Panic ''switchuvm: no pgdir''
        else
          let s = pushcli s;
              s = s\<lparr>ts_esp0 := p_kstack (ptable s p) + KSTACKSIZE, cr3 := V2P (p_pgdir (ptable s p))\<rparr> in
          popcli s)"

definition switchkvm :: "'x kproc_scheme \<Rightarrow> 'x kproc_scheme" where
  "switchkvm s = s\<lparr>cr3 := V2P (kpgdir s)\<rparr>"

subsection \<open>Allocating a process\<close>

definition pptable_insert :: "nat \<Rightarrow> 'x kproc_scheme \<Rightarrow> 'x kproc_scheme" where
  "pptable_insert p s =
     (case first_idx NPROC (\<lambda>i. sp_pptable (stridetable s (current s)) i = None) of
        None \<Rightarrow> s
      | Some i \<Rightarrow> upd_stride (current s) (\<lambda>sp. sp\<lparr>sp_pptable := (sp_pptable sp)(i := Some p)\<rparr>) s)"

definition allocproc :: "'x kproc_scheme \<Rightarrow> (nat option, 'x kproc_scheme) outcome" where
  "allocproc s =
     andthen (acquire PtableLock s) (\<lambda>_ s.
       case first_idx NPROC (\<lambda>i. p_state (ptable s i) = UNUSED) of
         None \<Rightarrow> andthen (release PtableLock s) (\<lambda>_ s. Ret None s)
       | Some p \<Rightarrow>
         andthen (acquire (PptableLock (current s)) s) (\<lambda>_ s.
         let s = pptable_insert p s in
         andthen (release (PptableLock (current s)) s) (\<lambda>_ s.
         let s = upd_proc p (\<lambda>q. q\<lparr>p_level := 0, p_usedticks := 0\<rparr>) s;
             s = upd_proc p (\<lambda>q. q\<lparr>p_state := EMBRYO, p_pid := nextpid s\<rparr>) s;
             s = s\<lparr>nextpid := nextpid s + 1\<rparr> in
         andthen (release PtableLock s) (\<lambda>_ s.
         andthen (kalloc s) (\<lambda>k s.
         let s = upd_proc p (\<lambda>q. q\<lparr>p_kstack := k\<rparr>) s in
         if k = 0 then Ret None (upd_proc p (\<lambda>q. q\<lparr>p_state := UNUSED\<rparr>) s)
         else Ret (Some p) (upd_proc p (\<lambda>q. q\<lparr>p_context := AtForkret\<rparr>) s))))))"

subsection \<open>The stride scheduler\<close>

definition minpass_loop :: "'x kproc_scheme \<Rightarrow> nat list \<Rightarrow> u32 \<times> nat \<Rightarrow> u32 \<times> nat" where
  "minpass_loop s is acc =
     fold (\<lambda>i (minpass, minpindex).
        if sp_sid (stridetable s i) \<noteq> 0 \<and> minpass > sp_pass (stridetable s i)
        then (sp_pass (stridetable s i), i) else (minpass, minpindex)) is acc"

definition getminpass :: "'x kproc_scheme \<Rightarrow> u32" where
  "getminpass s = fst (minpass_loop s [0..<NPROC] (MAXINT, 0))"

definition minpindex :: "'x kproc_scheme \<Rightarrow> nat" where
  "minpindex s = snd (minpass_loop s [0..<NPROC] (MAXINT, 0))"

text \<open>The search of the MLFQ: \<open>level\<close> by level, the first scan starting after \<open>currentproc\<close>.\<close>

definition mlfq_candidate :: "'x kproc_scheme \<Rightarrow> (nat \<Rightarrow> nat option) \<Rightarrow> nat \<Rightarrow> nat \<Rightarrow> bool" where
  "mlfq_candidate s ppArr q i \<longleftrightarrow>
     (case ppArr i of None \<Rightarrow> False
      | Some p \<Rightarrow> p_state (ptable s p) = RUNNABLE \<and> p_level (ptable s p) = q)"

function mlfq_search ::
  "'x kproc_scheme \<Rightarrow> (nat \<Rightarrow> nat option) \<Rightarrow> nat \<Rightarrow> int \<Rightarrow> bool \<Rightarrow> nat option" where
  "mlfq_search s ppArr currentqueue currentproc firstloop =
     (if currentqueue < NUMLEVEL then
        (case find (mlfq_candidate s ppArr currentqueue) [nat (currentproc + 1)..<NPROC] of
           Some i \<Rightarrow> Some i
         | None \<Rightarrow>
           if firstloop then mlfq_search s ppArr currentqueue (- 1) False
           else mlfq_search s ppArr (currentqueue + 1) currentproc firstloop)
      else None)"
  by pat_completeness auto
termination
  by (relation "measure (\<lambda>(s, ppArr, q, c, fl). 2 * (NUMLEVEL - q) + (if fl then 1 else 0))") auto

declare mlfq_search.simps [simp del]

definition swtch_to :: "nat \<Rightarrow> 'x kproc_scheme \<Rightarrow> (unit, 'x kproc_scheme) outcome" where
  "swtch_to p s =
     andthen (switchuvm (Some p) (s\<lparr>cur := Some p\<rparr>)) (\<lambda>_ s.
       Swtch (upd_proc p (\<lambda>q. q\<lparr>p_state := RUNNING\<rparr>) s))"

definition MLFQ_scheduler :: "'x kproc_scheme \<Rightarrow> (unit, 'x kproc_scheme) outcome" where
  "MLFQ_scheduler s =
     (let currentproc = sp_currentproc (stridetable s (current s));
          ppArr = sp_pptable (stridetable s (current s));
          p = ppArr currentproc in
      if p \<noteq> None \<and> p_state (ptable s (the p)) = RUNNABLE
         \<and> p_usedticks (ptable s (the p)) < quantum (p_level (ptable s (the p)))
      then swtch_to (the p) s
      else
        let s = (if p \<noteq> None \<and> p_usedticks (ptable s (the p)) \<ge> quantum (p_level (ptable s (the p)))
                 then upd_proc (the p) (\<lambda>q. q\<lparr>p_level := (if p_level q < 2 then p_level q + 1 else p_level q),
                        p_usedticks := 0\<rparr>) s
                 else s) in
        case mlfq_search s ppArr 0 (int currentproc) True of
          Some i \<Rightarrow> swtch_to (the (ppArr i)) (upd_stride (current s) (\<lambda>sp. sp\<lparr>sp_currentproc := i\<rparr>) s)
        | None \<Rightarrow> Ret () (upd_stride (current s) (\<lambda>sp. sp\<lparr>sp_pass := sp_pass sp + 1\<rparr>) s))"

text \<open>One round of \<open>scheduler\<close>: up to the \<open>swtch\<close> into a process, or a whole round without one.\<close>

definition remove_stride :: "'x kproc_scheme \<Rightarrow> (unit, 'x kproc_scheme) outcome" where
  "remove_stride s =
     (let s = upd_stride (MLFQ s) (\<lambda>sp. sp\<lparr>sp_tickets := sp_tickets sp + sp_tickets (stridetable s (current s))\<rparr>) s in
      andthen (udiv (ENTIRETICKETS * ACCURATENUM) (sp_tickets (stridetable s (MLFQ s))) s) (\<lambda>d s.
        let s = upd_stride (MLFQ s) (\<lambda>sp. sp\<lparr>sp_stride := d\<rparr>) s in
        Ret () (upd_stride (current s) (\<lambda>sp. sp\<lparr>sp_tickets := 0, sp_stride := 0, sp_pass := 0,
                  sp_usedticks := 0, sp_sid := 0\<rparr>) s)))"

definition scheduler_round :: "'x kproc_scheme \<Rightarrow> (unit, 'x kproc_scheme) outcome" where
  "scheduler_round s =
     andthen (acquire PtableLock (s\<lparr>eflags_IF := True\<rparr>)) (\<lambda>_ s.
       let s = s\<lparr>current := minpindex s\<rparr> in
       andthen
         (if (\<forall>i<NPROC. sp_pptable (stridetable s (current s)) i = None) then remove_stride s
          else MLFQ_scheduler s)
         (\<lambda>_ s. release PtableLock s))"

text \<open>The rest of the round, when the process has switched back.\<close>

definition scheduler_back :: "'x kproc_scheme \<Rightarrow> (unit, 'x kproc_scheme) outcome" where
  "scheduler_back s = release PtableLock ((switchkvm s)\<lparr>cur := None\<rparr>)"

subsection \<open>Giving up the CPU\<close>

definition boost :: "'x kproc_scheme \<Rightarrow> 'x kproc_scheme" where
  "boost s =
     s\<lparr>ptable := (\<lambda>p. if \<exists>i<NPROC. sp_pptable (stridetable s (current s)) i = Some p
                     then (ptable s p)\<lparr>p_level := 0, p_usedticks := 0\<rparr> else ptable s p)\<rparr>"

definition sched :: "'x kproc_scheme \<Rightarrow> (unit, 'x kproc_scheme) outcome" where
  "sched s =
     (if \<not> holding PtableLock s then Panic ''sched ptable.lock''
      else if ncli s \<noteq> 1 then Panic ''sched locks''
      else if p_state (ptable s (the (cur s))) = RUNNING then Panic ''sched running''
      else if eflags_IF s then Panic ''sched interruptible''
      else
        let s = upd_proc (the (cur s)) (\<lambda>q. q\<lparr>p_usedticks := p_usedticks q + 1\<rparr>) s;
            s = upd_stride (current s) (\<lambda>sp. sp\<lparr>sp_usedticks := sp_usedticks sp + 1\<rparr>) s;
            s = upd_stride (current s) (\<lambda>sp. sp\<lparr>sp_pass := sp_pass sp + sp_stride sp\<rparr>) s;
            s = (if sp_usedticks (stridetable s (current s)) \<ge> 100
                 then upd_stride (current s) (\<lambda>sp. sp\<lparr>sp_usedticks := 0\<rparr>) (boost s) else s) in
        Swtch (upd_proc (the (cur s)) (\<lambda>q. q\<lparr>p_context := AtSwtch\<rparr>) s))"

text \<open>After the switch back \<open>sched\<close> restores the thread's own \<open>intena\<close>.\<close>

definition sched_return :: "bool \<Rightarrow> 'x kproc_scheme \<Rightarrow> 'x kproc_scheme" where
  "sched_return saved s = s\<lparr>intena := saved\<rparr>"

definition yield :: "'x kproc_scheme \<Rightarrow> (unit, 'x kproc_scheme) outcome" where
  "yield s =
     andthen (acquire PtableLock s) (\<lambda>_ s.
       sched (upd_proc (the (cur s)) (\<lambda>q. q\<lparr>p_state := RUNNABLE\<rparr>) s))"

definition yield_return :: "bool \<Rightarrow> 'x kproc_scheme \<Rightarrow> (unit, 'x kproc_scheme) outcome" where
  "yield_return saved s = release PtableLock (sched_return saved s)"

definition sleep :: "chan option \<Rightarrow> lockid option \<Rightarrow> 'x kproc_scheme \<Rightarrow> (unit, 'x kproc_scheme) outcome" where
  "sleep ch lk s =
     (if cur s = None then Panic ''sleep''
      else case lk of None \<Rightarrow> Panic ''sleep without lk''
      | Some l \<Rightarrow>
        andthen (if l \<noteq> PtableLock then andthen (acquire PtableLock s) (\<lambda>_ s. release l s) else Ret () s)
          (\<lambda>_ s. sched (upd_proc (the (cur s)) (\<lambda>q. q\<lparr>p_chan := ch, p_state := SLEEPING\<rparr>) s)))"

definition sleep_return :: "lockid \<Rightarrow> bool \<Rightarrow> 'x kproc_scheme \<Rightarrow> (unit, 'x kproc_scheme) outcome" where
  "sleep_return l saved s =
     (let s = upd_proc (the (cur s)) (\<lambda>q. q\<lparr>p_chan := None\<rparr>) (sched_return saved s) in
      if l \<noteq> PtableLock then andthen (release PtableLock s) (\<lambda>_ s. acquire l s) else Ret () s)"

subsection \<open>Wakeup and kill\<close>

definition wakeup1 :: "chan option \<Rightarrow> 'x kproc_scheme \<Rightarrow> 'x kproc_scheme" where
  "wakeup1 ch s =
     s\<lparr>ptable := (\<lambda>i. if i < NPROC \<and> p_state (ptable s i) = SLEEPING \<and> p_chan (ptable s i) = ch
                     then (ptable s i)\<lparr>p_state := RUNNABLE\<rparr> else ptable s i)\<rparr>"

definition wakeup :: "chan option \<Rightarrow> 'x kproc_scheme \<Rightarrow> (unit, 'x kproc_scheme) outcome" where
  "wakeup ch s = andthen (acquire PtableLock s) (\<lambda>_ s. release PtableLock (wakeup1 ch s))"

definition kill :: "int \<Rightarrow> 'x kproc_scheme \<Rightarrow> (int, 'x kproc_scheme) outcome" where
  "kill pid s =
     andthen (acquire PtableLock s) (\<lambda>_ s.
       case first_idx NPROC (\<lambda>i. p_pid (ptable s i) = pid) of
         None \<Rightarrow> andthen (release PtableLock s) (\<lambda>_ s. Ret (- 1) s)
       | Some p \<Rightarrow>
         let s = upd_proc p (\<lambda>q. q\<lparr>p_killed := True\<rparr>) s;
             s = (if p_state (ptable s p) = SLEEPING then upd_proc p (\<lambda>q. q\<lparr>p_state := RUNNABLE\<rparr>) s else s) in
         andthen (release PtableLock s) (\<lambda>_ s. Ret 0 s))"

subsection \<open>Moving a process to its own stride\<close>

definition clear_ptr :: "nat \<Rightarrow> strideproc \<Rightarrow> strideproc" where
  "clear_ptr p sp =
     sp\<lparr>sp_pptable := (\<lambda>i. if i < NPROC \<and> sp_pptable sp i = Some p then None else sp_pptable sp i)\<rparr>"

definition removeProcPtr :: "nat \<Rightarrow> 'x kproc_scheme \<Rightarrow> (bool, 'x kproc_scheme) outcome" where
  "removeProcPtr p s =
     andthen (acquire StrideLock s) (\<lambda>_ s.
       let found = (\<exists>k<NPROC. \<exists>i<NPROC. sp_pptable (stridetable s k) i = Some p);
           s = s\<lparr>stridetable := (\<lambda>k. if k < NPROC then clear_ptr p (stridetable s k) else stridetable s k)\<rparr> in
       andthen (release StrideLock s) (\<lambda>_ s. Ret found s))"

fun move_lwps :: "nat \<Rightarrow> nat list \<Rightarrow> nat \<Rightarrow> 'x kproc_scheme \<Rightarrow> (unit, 'x kproc_scheme) outcome" where
  "move_lwps k [] count s = Ret () s"
| "move_lwps k (i # is) count s =
     (if p_pgdir (ptable s i) = p_pgdir (ptable s (the (cur s))) then
        andthen (removeProcPtr i s) (\<lambda>_ s.
          move_lwps k is (count + 1)
            (upd_stride k (\<lambda>sp. sp\<lparr>sp_pptable := (sp_pptable sp)(count := Some i)\<rparr>) s))
      else move_lwps k is count s)"

definition set_cpu_share :: "int \<Rightarrow> 'x kproc_scheme \<Rightarrow> (int, 'x kproc_scheme) outcome" where
  "set_cpu_share percent s =
     (if sp_tickets (stridetable s (MLFQ s)) * 100 div ENTIRETICKETS - of_int percent < 20
      then Ret 1 s
      else case first_idx NPROC (\<lambda>k. sp_sid (stridetable s k) = 0) of
        None \<Rightarrow> Ret 1 s
      | Some k \<Rightarrow>
        andthen (acquire PtableLock s) (\<lambda>_ s.
        let s = upd_stride k (\<lambda>sp. sp\<lparr>sp_tickets := of_int (100 * percent div 100)\<rparr>) s in
        andthen (udiv (ENTIRETICKETS * ACCURATENUM) (sp_tickets (stridetable s k)) s) (\<lambda>d s.
        let s = upd_stride k (\<lambda>sp. sp\<lparr>sp_stride := d\<rparr>) s;
            s = upd_stride k (\<lambda>sp. sp\<lparr>sp_pass := getminpass s - sp_stride sp, sp_usedticks := 0,
                  sp_sid := of_int (nextsid s)\<rparr>) s;
            s = s\<lparr>nextsid := nextsid s + 1\<rparr> in
        andthen (move_lwps k [0..<NPROC] 0 s) (\<lambda>_ s.
        let s = upd_stride (MLFQ s) (\<lambda>sp. sp\<lparr>sp_tickets := sp_tickets sp - sp_tickets (stridetable s k)\<rparr>) s in
        andthen (udiv (ENTIRETICKETS * ACCURATENUM) (sp_tickets (stridetable s (MLFQ s))) s) (\<lambda>d s.
        let s = upd_stride (MLFQ s) (\<lambda>sp. sp\<lparr>sp_stride := d\<rparr>) s in
        andthen (release PtableLock s) (\<lambda>_ s. Ret 0 s))))))"

end
