(* ===== verification/Sched_Props.thy ===== *)
theory Sched_Props
  imports Sched
begin

text \<open>
  Lemmas and properties of the scheduler (\<open>Sched\<close>): which stride and which process are chosen,
  what a time slice is charged, how tickets are shared, who is woken.
\<close>

subsection \<open>Locks and table updates\<close>

lemma locked_by_kproc [simp]:
  "ptable (locked_by l s) = ptable s" "stridetable (locked_by l s) = stridetable s"
  "current (locked_by l s) = current s" "MLFQ (locked_by l s) = MLFQ s"
  "nextpid (locked_by l s) = nextpid s" "nextsid (locked_by l s) = nextsid s"
  "initproc (locked_by l s) = initproc s" "cur (locked_by l s) = cur s"
  "(locked_by l s)\<lparr>ptable := p\<rparr> = locked_by l (s\<lparr>ptable := p\<rparr>)"
  "(locked_by l s)\<lparr>stridetable := t\<rparr> = locked_by l (s\<lparr>stridetable := t\<rparr>)"
  "(locked_by l s)\<lparr>nextpid := i\<rparr> = locked_by l (s\<lparr>nextpid := i\<rparr>)"
  "(locked_by l s)\<lparr>nextsid := i\<rparr> = locked_by l (s\<lparr>nextsid := i\<rparr>)"
  "(locked_by l s)\<lparr>current := k\<rparr> = locked_by l (s\<lparr>current := k\<rparr>)"
  "(locked_by l s)\<lparr>cur := c\<rparr> = locked_by l (s\<lparr>cur := c\<rparr>)"
  by (simp_all add: locked_by_def pushcli_def)

lemma locked_by_upd [simp]:
  "upd_proc p f (locked_by l s) = locked_by l (upd_proc p f s)"
  "upd_stride k g (locked_by l s) = locked_by l (upd_stride k g s)"
  "wakeup1 ch (locked_by l s) = locked_by l (wakeup1 ch s)"
  by (simp_all add: upd_proc_def upd_stride_def wakeup1_def cong: if_cong)

lemma cpu_kproc_update [simp]:
  "cpu_ok (s\<lparr>ptable := p\<rparr>) = cpu_ok s" "cpu_ok (s\<lparr>stridetable := t\<rparr>) = cpu_ok s"
  "cpu_ok (s\<lparr>nextpid := i\<rparr>) = cpu_ok s" "cpu_ok (s\<lparr>nextsid := i\<rparr>) = cpu_ok s"
  "cpu_ok (s\<lparr>current := k\<rparr>) = cpu_ok s" "cpu_ok (s\<lparr>cur := c\<rparr>) = cpu_ok s"
  "cpu_ok (upd_proc q f s) = cpu_ok s" "cpu_ok (upd_stride k g s) = cpu_ok s"
  "cpu_ok (wakeup1 ch s) = cpu_ok s"
  by (simp_all add: cpu_ok_def upd_proc_def upd_stride_def wakeup1_def)

lemma holding_kproc_update [simp]:
  "holding l (s\<lparr>ptable := p\<rparr>) = holding l s" "holding l (s\<lparr>stridetable := t\<rparr>) = holding l s"
  "holding l (s\<lparr>nextpid := i\<rparr>) = holding l s" "holding l (s\<lparr>nextsid := i\<rparr>) = holding l s"
  "holding l (s\<lparr>current := k\<rparr>) = holding l s" "holding l (s\<lparr>cur := c\<rparr>) = holding l s"
  "holding l (upd_proc q f s) = holding l s" "holding l (upd_stride k g s) = holding l s"
  "holding l (wakeup1 ch s) = holding l s"
  by (simp_all add: holding_def upd_proc_def upd_stride_def wakeup1_def)

lemma upd_select [simp]:
  "ptable (upd_proc p f s) = (ptable s)(p := f (ptable s p))"
  "stridetable (upd_proc p f s) = stridetable s"
  "stridetable (upd_stride k g s) = (stridetable s)(k := g (stridetable s k))"
  "ptable (upd_stride k g s) = ptable s"
  "current (upd_proc p f s) = current s" "current (upd_stride k g s) = current s"
  "MLFQ (upd_proc p f s) = MLFQ s" "MLFQ (upd_stride k g s) = MLFQ s"
  "cur (upd_proc p f s) = cur s" "cur (upd_stride k g s) = cur s"
  "nextsid (upd_stride k g s) = nextsid s" "nextpid (upd_stride k g s) = nextpid s"
  "nextpid (upd_proc p f s) = nextpid s"
  by (simp_all add: upd_proc_def upd_stride_def)

subsection \<open>The stride with the smallest pass\<close>

definition active :: "'x kproc_scheme \<Rightarrow> nat \<Rightarrow> bool" where
  "active s k \<longleftrightarrow> k < NPROC \<and> sp_sid (stridetable s k) \<noteq> 0"

abbreviation pass_of :: "'x kproc_scheme \<Rightarrow> nat \<Rightarrow> u32" where
  "pass_of s k \<equiv> sp_pass (stridetable s k)"

definition minpass_inv :: "'x kproc_scheme \<Rightarrow> u32 \<Rightarrow> nat \<Rightarrow> u32 \<times> nat \<Rightarrow> bool" where
  "minpass_inv s M n r \<longleftrightarrow>
     (\<forall>i<n. sp_sid (stridetable s i) \<noteq> 0 \<longrightarrow> fst r \<le> pass_of s i)
     \<and> (r = (M, 0)
       \<or> snd r < n \<and> sp_sid (stridetable s (snd r)) \<noteq> 0 \<and> pass_of s (snd r) = fst r \<and> fst r < M
         \<and> (\<forall>i. i < snd r \<longrightarrow> sp_sid (stridetable s i) \<noteq> 0 \<longrightarrow> fst r < pass_of s i))"

lemma minpass_loop_inv: "minpass_inv s M n (minpass_loop s [0..<n] (M, 0))"
proof (induction n)
  case 0
  then show ?case by (simp add: minpass_inv_def minpass_loop_def)
next
  case (Suc n)
  obtain m j where r: "minpass_loop s [0..<n] (M, 0) = (m, j)" by fastforce
  have step: "minpass_loop s [0..<Suc n] (M, 0)
      = (if sp_sid (stridetable s n) \<noteq> 0 \<and> m > pass_of s n then (pass_of s n, n) else (m, j))"
    using r by (simp add: minpass_loop_def)
  have IH: "\<forall>i<n. sp_sid (stridetable s i) \<noteq> 0 \<longrightarrow> m \<le> pass_of s i"
      "(m, j) = (M, 0) \<or> j < n \<and> sp_sid (stridetable s j) \<noteq> 0 \<and> pass_of s j = m \<and> m < M
         \<and> (\<forall>i. i < j \<longrightarrow> sp_sid (stridetable s i) \<noteq> 0 \<longrightarrow> m < pass_of s i)"
    using Suc r by (auto simp: minpass_inv_def)
  show ?case
  proof (cases "sp_sid (stridetable s n) \<noteq> 0 \<and> m > pass_of s n")
    case True
    then have "pass_of s n < M" using IH(2) by auto
    moreover have "\<forall>i<n. sp_sid (stridetable s i) \<noteq> 0 \<longrightarrow> pass_of s n < pass_of s i"
      using IH(1) True less_le_trans by blast
    ultimately show ?thesis
      using True step by (auto simp: minpass_inv_def less_Suc_eq)
  next
    case False
    then show ?thesis using IH step by (auto simp: minpass_inv_def less_Suc_eq not_less)
  qed
qed

lemma minpass_loop_cong: "stridetable s = stridetable t \<Longrightarrow> minpass_loop s = minpass_loop t"
  by (intro ext) (simp add: minpass_loop_def cong: if_cong)

lemma minpindex_least:
  assumes "active s k" and "pass_of s k < MAXINT"
  shows "active s (minpindex s)" and "pass_of s (minpindex s) < MAXINT"
    and "active s i \<Longrightarrow> pass_of s (minpindex s) \<le> pass_of s i"
    and "active s i \<Longrightarrow> i < minpindex s \<Longrightarrow> pass_of s (minpindex s) < pass_of s i"
proof -
  let ?r = "minpass_loop s [0..<NPROC] (MAXINT, 0)"
  have inv: "minpass_inv s MAXINT NPROC ?r" by (rule minpass_loop_inv)
  have k: "k < NPROC" "sp_sid (stridetable s k) \<noteq> 0" using assms(1) by (auto simp: active_def)
  have r: "snd ?r < NPROC" "sp_sid (stridetable s (snd ?r)) \<noteq> 0" "pass_of s (snd ?r) = fst ?r"
      "fst ?r < MAXINT"
    and first: "\<forall>i. i < snd ?r \<longrightarrow> sp_sid (stridetable s i) \<noteq> 0 \<longrightarrow> fst ?r < pass_of s i"
    using inv k assms(2) unfolding minpass_inv_def by (auto simp: leD)
  show "active s (minpindex s)" "pass_of s (minpindex s) < MAXINT"
    using r by (auto simp: active_def minpindex_def)
  show "active s i \<Longrightarrow> i < minpindex s \<Longrightarrow> pass_of s (minpindex s) < pass_of s i"
    using r first by (simp add: active_def minpindex_def)
  show "pass_of s (minpindex s) \<le> pass_of s i" if "active s i"
  proof -
    have "fst ?r \<le> pass_of s i"
      using inv that by (auto simp: minpass_inv_def active_def)
    then show ?thesis using r(3) by (simp add: minpindex_def)
  qed
qed

lemma getminpass_eq:
  assumes "active s k" and "pass_of s k < MAXINT"
  shows "getminpass s = pass_of s (minpindex s)"
proof -
  have "minpass_inv s MAXINT NPROC (minpass_loop s [0..<NPROC] (MAXINT, 0))" by (rule minpass_loop_inv)
  then show ?thesis
    using assms unfolding minpass_inv_def getminpass_def minpindex_def active_def
    by (auto simp: leD)
qed

subsection \<open>The process the MLFQ picks\<close>

lemma mlfq_search_level:
  "mlfq_search s pp q (- 1) False =
     (if q < NUMLEVEL then
        (case first_idx NPROC (mlfq_candidate s pp q) of
           Some i \<Rightarrow> Some i | None \<Rightarrow> mlfq_search s pp (Suc q) (- 1) False)
      else None)"
  by (subst mlfq_search.simps) (simp add: first_idx_def split: option.split)

lemma mlfq_search_start:
  "mlfq_search s pp 0 (int c) True =
     (case find (mlfq_candidate s pp 0) [Suc c..<NPROC] of
        Some i \<Rightarrow> Some i | None \<Rightarrow> mlfq_search s pp 0 (- 1) False)"
  by (subst mlfq_search.simps) (simp add: nat_add_distrib)

lemma mlfq_search_level_Some:
  "mlfq_search s pp q (- 1) False = Some i \<Longrightarrow>
    \<exists>l. q \<le> l \<and> l < NUMLEVEL \<and> i < NPROC \<and> mlfq_candidate s pp l i
      \<and> (\<forall>l' j. q \<le> l' \<and> l' < l \<and> j < NPROC \<longrightarrow> \<not> mlfq_candidate s pp l' j)"
proof (induction "NUMLEVEL - q" arbitrary: q)
  case 0
  then show ?case by (simp add: mlfq_search_level [of s pp q])
next
  case (Suc d)
  then have q: "q < NUMLEVEL" by simp
  show ?case
  proof (cases "first_idx NPROC (mlfq_candidate s pp q)")
    case (Some j)
    then have "i = j" using Suc.prems q by (simp add: mlfq_search_level [of s pp q])
    then show ?thesis
      using Some q by (intro exI [of _ q]) (auto simp: first_idx_Some_iff)
  next
    case None
    then have "mlfq_search s pp (Suc q) (- 1) False = Some i"
      using Suc.prems q by (simp add: mlfq_search_level [of s pp q])
    moreover have "d = NUMLEVEL - Suc q" using Suc.hyps(2) by simp
    ultimately obtain l where l: "Suc q \<le> l" "l < NUMLEVEL" "i < NPROC" "mlfq_candidate s pp l i"
        "\<forall>l' j. Suc q \<le> l' \<and> l' < l \<and> j < NPROC \<longrightarrow> \<not> mlfq_candidate s pp l' j"
      using Suc.hyps(1) by blast
    then show ?thesis
      using None by (intro exI [of _ l]) (auto simp: first_idx_None_iff Suc_le_eq le_less)
  qed
qed

lemma mlfq_search_level_None:
  "mlfq_search s pp q (- 1) False = None \<Longrightarrow> q \<le> l \<Longrightarrow> l < NUMLEVEL \<Longrightarrow> j < NPROC \<Longrightarrow>
    \<not> mlfq_candidate s pp l j"
proof (induction "NUMLEVEL - q" arbitrary: q)
  case 0
  then show ?case by simp
next
  case (Suc d)
  then have q: "q < NUMLEVEL" by simp
  then have none: "first_idx NPROC (mlfq_candidate s pp q) = None"
    and rest: "mlfq_search s pp (Suc q) (- 1) False = None"
    using Suc.prems(1) by (auto simp: mlfq_search_level [of s pp q] split: option.splits)
  show ?case
  proof (cases "l = q")
    case True
    then show ?thesis using none Suc.prems by (simp add: first_idx_None_iff)
  next
    case False
    then show ?thesis using Suc.hyps(1) [of "Suc q"] Suc.hyps(2) rest Suc.prems by simp
  qed
qed

text \<open>
  What the search finds: a runnable process at the lowest level that has one; within level 0 the
  next one after \<open>currentproc\<close> if there is any.
\<close>

lemma mlfq_search_Some:
  assumes "mlfq_search s pp 0 (int c) True = Some i"
  obtains l where "l < NUMLEVEL" "i < NPROC" "mlfq_candidate s pp l i"
    "\<And>l' j. l' < l \<Longrightarrow> j < NPROC \<Longrightarrow> \<not> mlfq_candidate s pp l' j"
proof (cases "find (mlfq_candidate s pp 0) [Suc c..<NPROC]")
  case None
  then have "mlfq_search s pp 0 (- 1) False = Some i"
    using assms by (simp add: mlfq_search_start)
  from mlfq_search_level_Some [OF this] show ?thesis using that by auto
next
  case (Some j)
  then have "j = i" using assms by (simp add: mlfq_search_start)
  then show ?thesis using Some that [of 0] by (auto simp: find_upt_Some_iff)
qed

lemma mlfq_search_None:
  assumes "mlfq_search s pp 0 (int c) True = None" and "l < NUMLEVEL" and "j < NPROC"
  shows "\<not> mlfq_candidate s pp l j"
proof -
  have "mlfq_search s pp 0 (- 1) False = None"
    using assms(1) by (auto simp: mlfq_search_start split: option.splits)
  then show ?thesis using mlfq_search_level_None assms(2,3) by blast
qed

lemma mlfq_search_round_robin:
  assumes "c < j" and "j < NPROC" and "mlfq_candidate s pp 0 j"
    and "\<forall>k. c < k \<and> k < j \<longrightarrow> \<not> mlfq_candidate s pp 0 k"
  shows "mlfq_search s pp 0 (int c) True = Some j"
proof -
  have "find (mlfq_candidate s pp 0) [Suc c..<NPROC] = Some j"
    using assms by (auto simp: find_upt_Some_iff)
  then show ?thesis by (simp add: mlfq_search_start)
qed

subsection \<open>One round of the scheduler\<close>

definition in_group :: "'x kproc_scheme \<Rightarrow> nat \<Rightarrow> nat \<Rightarrow> bool" where
  "in_group s k p \<longleftrightarrow> (\<exists>i<NPROC. sp_pptable (stridetable s k) i = Some p)"

text \<open>A process the scheduler may switch to: it has a kernel stack and a page table.\<close>

definition loadable :: "'x kproc_scheme \<Rightarrow> nat \<Rightarrow> bool" where
  "loadable s p \<longleftrightarrow> p_kstack (ptable s p) \<noteq> 0 \<and> p_pgdir (ptable s p) \<noteq> 0"

definition runs_on :: "'x kproc_scheme \<Rightarrow> nat \<Rightarrow> 'x kproc_scheme \<Rightarrow> bool" where
  "runs_on s p t \<longleftrightarrow> cur t = Some p \<and> p_state (ptable s p) = RUNNABLE \<and> p_state (ptable t p) = RUNNING
     \<and> (\<forall>q. q \<noteq> p \<longrightarrow> p_state (ptable t q) = p_state (ptable s q))
     \<and> current t = current s \<and> locks t = locks s \<and> ncli t = ncli s \<and> eflags_IF t = eflags_IF s"

lemma switchuvm_eq:
  assumes "cpu_ok s" and "loadable s p"
  shows "switchuvm (Some p) s = Ret ()
    (s\<lparr>ts_esp0 := p_kstack (ptable s p) + KSTACKSIZE, cr3 := V2P (p_pgdir (ptable s p))\<rparr>)"
  using assms cpu_ok_ncli_nonneg [of s] by (cases s)
    (auto simp: switchuvm_def loadable_def pushcli_def popcli_def cpu_ok_def Let_def)

lemma swtch_to_runs:
  assumes "cpu_ok s" and "loadable s p" and "p_state (ptable s p) = RUNNABLE"
  shows "\<exists>t. swtch_to p s = Swtch t \<and> runs_on s p t"
proof -
  have "loadable (s\<lparr>cur := Some p\<rparr>) p" using assms(2) by (simp add: loadable_def)
  then show ?thesis
    using assms switchuvm_eq [of "s\<lparr>cur := Some p\<rparr>" p]
    by (simp add: swtch_to_def runs_on_def upd_proc_def)
qed

text \<open>The quantum of the group's last process is not used up: it goes on.\<close>

definition continues :: "'x kproc_scheme \<Rightarrow> nat \<Rightarrow> bool" where
  "continues s p \<longleftrightarrow>
     sp_pptable (stridetable s (current s)) (sp_currentproc (stridetable s (current s))) = Some p
     \<and> p_state (ptable s p) = RUNNABLE \<and> p_usedticks (ptable s p) < quantum (p_level (ptable s p))"

text \<open>Otherwise a process that has used its quantum moves one level down before the search.\<close>

definition demoted :: "'x kproc_scheme \<Rightarrow> 'x kproc_scheme" where
  "demoted s =
     (case sp_pptable (stridetable s (current s)) (sp_currentproc (stridetable s (current s))) of
        None \<Rightarrow> s
      | Some p \<Rightarrow>
        if p_usedticks (ptable s p) \<ge> quantum (p_level (ptable s p))
        then upd_proc p (\<lambda>q. q\<lparr>p_level := (if p_level q < 2 then p_level q + 1 else p_level q), p_usedticks := 0\<rparr>) s
        else s)"

lemma demoted_frame [simp]:
  "stridetable (demoted s) = stridetable s" "current (demoted s) = current s"
  "cpu_ok (demoted s) = cpu_ok s" "locks (demoted s) = locks s" "ncli (demoted s) = ncli s"
  "eflags_IF (demoted s) = eflags_IF s" "p_state (ptable (demoted s) q) = p_state (ptable s q)"
  "p_kstack (ptable (demoted s) q) = p_kstack (ptable s q)"
  "p_pgdir (ptable (demoted s) q) = p_pgdir (ptable s q)"
  by (auto simp: demoted_def upd_proc_def cpu_ok_def split: option.splits)

lemma MLFQ_scheduler_cases:
  "MLFQ_scheduler s =
     (if \<exists>p. continues s p
      then swtch_to (the (sp_pptable (stridetable s (current s)) (sp_currentproc (stridetable s (current s))))) s
      else case mlfq_search (demoted s) (sp_pptable (stridetable s (current s))) 0
                  (int (sp_currentproc (stridetable s (current s)))) True of
          Some i \<Rightarrow> swtch_to (the (sp_pptable (stridetable s (current s)) i))
                     (upd_stride (current s) (\<lambda>sp. sp\<lparr>sp_currentproc := i\<rparr>) (demoted s))
        | None \<Rightarrow> Ret () (upd_stride (current s) (\<lambda>sp. sp\<lparr>sp_pass := sp_pass sp + 1\<rparr>) (demoted s)))"
  by (auto simp: MLFQ_scheduler_def continues_def demoted_def Let_def split: option.splits if_splits)

lemma MLFQ_scheduler_continues:
  assumes "cpu_ok s" and "loadable s p" and "continues s p"
  shows "\<exists>t. MLFQ_scheduler s = Swtch t \<and> runs_on s p t"
proof -
  have "the (sp_pptable (stridetable s (current s)) (sp_currentproc (stridetable s (current s)))) = p"
    using assms(3) by (simp add: continues_def)
  moreover have "p_state (ptable s p) = RUNNABLE" using assms(3) by (simp add: continues_def)
  ultimately show ?thesis
    using assms swtch_to_runs [of s p] by (auto simp: MLFQ_scheduler_cases)
qed

text \<open>The process chosen is runnable and no runnable process of the group has a lower level.\<close>

lemma MLFQ_scheduler_picks:
  assumes ok: "cpu_ok s" and load: "\<forall>p. in_group s (current s) p \<longrightarrow> loadable s p"
    and lev: "\<forall>p. in_group s (current s) p \<longrightarrow> p_level (ptable s p) < NUMLEVEL"
    and run: "in_group s (current s) q" "p_state (ptable s q) = RUNNABLE"
    and no: "\<nexists>p. continues s p"
  shows "\<exists>t p. MLFQ_scheduler s = Swtch t \<and> runs_on s p t \<and> in_group s (current s) p
    \<and> (\<forall>r. in_group s (current s) r \<and> p_state (ptable s r) = RUNNABLE \<longrightarrow>
         p_level (ptable (demoted s) p) \<le> p_level (ptable (demoted s) r))"
proof -
  let ?pp = "sp_pptable (stridetable s (current s))"
  let ?c = "sp_currentproc (stridetable s (current s))"
  have lev': "p_level (ptable (demoted s) r) < NUMLEVEL" if "in_group s (current s) r" for r
    using lev that by (auto simp: demoted_def split: option.splits)
  have cand: "mlfq_candidate (demoted s) ?pp (p_level (ptable (demoted s) r)) j"
    if "?pp j = Some r" "p_state (ptable s r) = RUNNABLE" for r j
    using that by (simp add: mlfq_candidate_def)
  obtain j where j: "j < NPROC" "?pp j = Some q" using run(1) by (auto simp: in_group_def)
  then obtain i where i: "mlfq_search (demoted s) ?pp 0 (int ?c) True = Some i"
    using mlfq_search_None [of "demoted s" ?pp ?c _ j] cand [of j q] run lev' [of q] by fastforce
  from mlfq_search_Some [OF i] obtain l where l: "i < NPROC" "mlfq_candidate (demoted s) ?pp l i"
    "\<And>l' j. l' < l \<Longrightarrow> j < NPROC \<Longrightarrow> \<not> mlfq_candidate (demoted s) ?pp l' j" by metis
  then obtain p where p: "?pp i = Some p" "p_state (ptable s p) = RUNNABLE"
      "p_level (ptable (demoted s) p) = l"
    by (auto simp: mlfq_candidate_def split: option.splits)
  have g: "in_group s (current s) p" using p(1) l(1) by (auto simp: in_group_def)
  let ?u = "upd_stride (current s) (\<lambda>sp. sp\<lparr>sp_currentproc := i\<rparr>) (demoted s)"
  have "loadable ?u p" using load g by (auto simp: loadable_def)
  then obtain t where t: "swtch_to p ?u = Swtch t" "runs_on ?u p t"
    using swtch_to_runs [of ?u p] ok p by auto
  then have "runs_on s p t" by (auto simp: runs_on_def upd_stride_def)
  moreover have "l \<le> p_level (ptable (demoted s) r)"
    if r: "in_group s (current s) r" "p_state (ptable s r) = RUNNABLE" for r
    using r cand l(3) by (auto simp: in_group_def not_less [symmetric])
  moreover have "MLFQ_scheduler s = Swtch t"
    using no i p(1) t(1) by (simp add: MLFQ_scheduler_cases)
  ultimately show ?thesis using g p(3) by blast
qed

lemma MLFQ_scheduler_idle:
  assumes "\<forall>p. in_group s (current s) p \<longrightarrow> p_state (ptable s p) \<noteq> RUNNABLE"
    and "sp_currentproc (stridetable s (current s)) < NPROC"
  shows "MLFQ_scheduler s =
    Ret () (upd_stride (current s) (\<lambda>sp. sp\<lparr>sp_pass := sp_pass sp + 1\<rparr>) (demoted s))"
proof -
  let ?pp = "sp_pptable (stridetable s (current s))"
  have "\<nexists>p. continues s p" using assms by (auto simp: continues_def in_group_def)
  moreover have "mlfq_search (demoted s) ?pp 0 (int n) True = None" for n
  proof (rule ccontr)
    assume "mlfq_search (demoted s) ?pp 0 (int n) True \<noteq> None"
    then obtain i where "mlfq_search (demoted s) ?pp 0 (int n) True = Some i" by auto
    from mlfq_search_Some [OF this] obtain l where "i < NPROC" "mlfq_candidate (demoted s) ?pp l i"
      by metis
    then show False
      using assms(1) by (auto simp: mlfq_candidate_def in_group_def split: option.splits)
  qed
  ultimately show ?thesis by (simp add: MLFQ_scheduler_cases)
qed

subsection \<open>An example state\<close>

text \<open>
  One process with pid 1, in the MLFQ, which owns all tickets; the other slots are free. It is the
  instance at which properties with hypotheses are applied.
\<close>

definition ex_tf :: trapframe where
  "ex_tf = \<lparr>tf_edi = 0, tf_esi = 0, tf_ebp = 0, tf_ebx = 0, tf_edx = 0, tf_ecx = 0, tf_eax = 0, tf_gs = 0,
     tf_fs = 0, tf_es = 0, tf_ds = 0, tf_trapno = 0, tf_err = 0, tf_eip = 0, tf_cs = 0, tf_eflags = 0,
     tf_esp = 0, tf_ss = 0\<rparr>"

definition ex_unused :: proc where
  "ex_unused = \<lparr>p_sz = 0, p_topofheap = 0, p_baseofstack = 0, p_pgdir = 0, p_kstack = 0, p_state = UNUSED,
     p_pid = 0, p_parent = None, p_tf = ex_tf, p_context = AtForkret, p_chan = None, p_killed = False,
     p_ofile = (\<lambda>_. None), p_cwd = None, p_name = [], p_level = 0, p_usedticks = 0, p_threadof = None,
     p_returnto = None, p_threadret = 0\<rparr>"

definition ex_proc :: "procstate \<Rightarrow> proc" where
  "ex_proc st = ex_unused\<lparr>p_state := st, p_pid := 1, p_kstack := 0x80400000, p_pgdir := 0x80401000\<rparr>"

definition ex_free_stride :: strideproc where
  "ex_free_stride = \<lparr>sp_pptable = (\<lambda>_. None), sp_tickets = 0, sp_stride = 0, sp_pass = 0, sp_usedticks = 0,
     sp_sid = 0, sp_currentproc = 0\<rparr>"

definition ex_MLFQ :: strideproc where
  "ex_MLFQ = \<lparr>sp_pptable = (\<lambda>i. if i = 0 then Some 0 else None), sp_tickets = 100, sp_stride = 10, sp_pass = 0,
     sp_usedticks = 0, sp_sid = 1, sp_currentproc = 0\<rparr>"

definition ex_kproc :: "nat option \<Rightarrow> procstate \<Rightarrow> kproc" where
  "ex_kproc c st = \<lparr>ncli = 0, intena = True, eflags_IF = True, locks = [], mem = (\<lambda>_. 0), freelist = 0,
     use_lock = True, kern_end = 0x80110000, kern_data = 0x80109000,
     ptable = (\<lambda>i. if i = 0 then ex_proc st else ex_unused),
     stridetable = (\<lambda>k. if k = 0 then ex_MLFQ else ex_free_stride),
     current = 0, MLFQ = 0, nextpid = 2, nextsid = 2, initproc = Some 0, cur = c, kpgdir = 0x803ff000,
     cr3 = 0, ts_esp0 = 0\<rparr>"

lemma ex_select:
  "ncli (ex_kproc c st) = 0" "intena (ex_kproc c st)" "eflags_IF (ex_kproc c st)" "locks (ex_kproc c st) = []"
  "ptable (ex_kproc c st) = (\<lambda>i. if i = 0 then ex_proc st else ex_unused)"
  "stridetable (ex_kproc c st) = (\<lambda>k. if k = 0 then ex_MLFQ else ex_free_stride)"
  "current (ex_kproc c st) = 0" "MLFQ (ex_kproc c st) = 0" "nextpid (ex_kproc c st) = 2"
  "nextsid (ex_kproc c st) = 2" "cur (ex_kproc c st) = c"
  by (simp_all add: ex_kproc_def)

lemmas ex_defs = ex_select ex_proc_def ex_unused_def ex_MLFQ_def ex_free_stride_def

lemma ex_rest: "cpu_ok (ex_kproc c st)" "\<not> holding l (ex_kproc c st)"
  by (simp_all add: cpu_ok_def holding_def ex_select)

text \<open>The process about to call \<open>sched\<close>.\<close>

definition ex_switching :: kproc where
  "ex_switching = (ex_kproc (Some 0) RUNNABLE)\<lparr>ncli := 1, eflags_IF := False, locks := [PtableLock]\<rparr>"

lemma ex_minpindex: "minpindex (ex_kproc c st) = 0"
proof -
  have "active (ex_kproc c st) (minpindex (ex_kproc c st))"
    by (rule minpindex_least(1) [of _ 0]) (simp_all add: active_def ex_defs)
  then show ?thesis by (auto simp: active_def ex_defs split: if_splits)
qed

subsection \<open>Properties: choosing a process\<close>

text \<open>
  C5. Scheduler dispatch. Let the CPU hold no lock, let some stride be active with
  a pass below the limit, and let the stride with the smallest pass contain a runnable process (all
  its processes having a kernel stack, a page table and a level below 3). Then one round of
  \<open>scheduler\<close> switches to a process of that stride: a runnable one, which is then the only
  process whose state changed, with \<open>ptable.lock\<close> held.
\<close>

theorem scheduler_round_dispatches:
  assumes ok: "ncli s = 0" "locks s = []"
    and act: "active s k" "pass_of s k < MAXINT"
    and idx: "sp_currentproc (stridetable s (minpindex s)) < NPROC"
    and load: "\<forall>p. in_group s (minpindex s) p \<longrightarrow> loadable s p \<and> p_level (ptable s p) < NUMLEVEL"
    and run: "in_group s (minpindex s) q" "p_state (ptable s q) = RUNNABLE"
  shows "\<exists>t p. scheduler_round s = Swtch t \<and> cur t = Some p \<and> in_group s (minpindex s) p
    \<and> (\<forall>i. active s i \<longrightarrow> pass_of s (minpindex s) \<le> pass_of s i)
    \<and> current t = minpindex s \<and> locks t = [PtableLock]
    \<and> p_state (ptable s p) = RUNNABLE \<and> p_state (ptable t p) = RUNNING
    \<and> (\<forall>r. r \<noteq> p \<longrightarrow> p_state (ptable t r) = p_state (ptable s r))"
proof -
  let ?s0 = "s\<lparr>eflags_IF := True\<rparr>"
  let ?s1 = "locked_by PtableLock (?s0\<lparr>current := minpindex s\<rparr>)"
  have m: "minpindex (locked_by PtableLock ?s0) = minpindex s"
    by (simp add: minpindex_def minpass_loop_cong [of "locked_by PtableLock ?s0" s])
  have ok1: "cpu_ok ?s1"
    using ok by (simp add: cpu_ok_def locked_by_def pushcli_def)
  have grp: "in_group ?s1 (current ?s1) = in_group s (minpindex s)"
    by (simp add: in_group_def fun_eq_iff)
  have "\<exists>t p. MLFQ_scheduler ?s1 = Swtch t \<and> runs_on ?s1 p t \<and> in_group s (minpindex s) p"
  proof (cases "\<exists>p. continues ?s1 p")
    case True
    then obtain p where p: "continues ?s1 p" by blast
    then have g: "in_group s (minpindex s) p" using idx by (auto simp: continues_def in_group_def)
    then have "loadable ?s1 p" using load by (simp add: loadable_def)
    then show ?thesis using MLFQ_scheduler_continues [OF ok1 _ p] g by blast
  next
    case False
    have "\<exists>t p. MLFQ_scheduler ?s1 = Swtch t \<and> runs_on ?s1 p t \<and> in_group ?s1 (current ?s1) p"
      using MLFQ_scheduler_picks [OF ok1 _ _ _ _ False, of q] load run
      unfolding grp by (auto simp: loadable_def)
    then show ?thesis unfolding grp by blast
  qed
  then obtain t p where t: "MLFQ_scheduler ?s1 = Swtch t" "runs_on ?s1 p t"
    and p: "in_group s (minpindex s) p" by blast
  have "scheduler_round s = Swtch t"
    using t(1) ok run(1) m
    by (auto simp: scheduler_round_def acquire_free holding_def Let_def in_group_def)
  moreover have "locks ?s1 = [PtableLock]" using ok by (simp add: locked_by_def pushcli_def)
  ultimately show ?thesis
    using t(2) p minpindex_least(3) [OF act] by (auto simp: runs_on_def)
qed

theorem scheduler_round_dispatches_witness:
  "\<exists>t p. scheduler_round (ex_kproc None RUNNABLE) = Swtch t \<and> cur t = Some p
    \<and> p_state (ptable t p) = RUNNING"
proof -
  let ?s = "ex_kproc None RUNNABLE"
  have g: "in_group ?s (minpindex ?s) q \<longleftrightarrow> q = 0" for q
    by (auto simp: ex_minpindex in_group_def ex_defs)
  have a: "ncli ?s = 0" "locks ?s = []" "active ?s 0" "pass_of ?s 0 < MAXINT"
    "sp_currentproc (stridetable ?s (minpindex ?s)) < NPROC"
    by (simp_all add: active_def ex_minpindex ex_defs)
  have "\<forall>p. in_group ?s (minpindex ?s) p \<longrightarrow> loadable ?s p \<and> p_level (ptable ?s p) < NUMLEVEL"
    by (simp add: g loadable_def ex_defs)
  from scheduler_round_dispatches [OF a this, of 0] show ?thesis
    using g by (fastforce simp: ex_defs)
qed

end
