(* ===== verification/Sched_Share.thy ===== *)
theory Sched_Share
  imports Sched_Props
begin

text \<open>
  CPU shares (\<open>set_cpu_share\<close> and the removal of empty strides in \<open>scheduler\<close>): the tickets
  always add up to 100 and the MLFQ keeps at least 20, for requests from 1 to 100 percent; what
  happens for other requests; and the accounting of a time slice.
\<close>

subsection \<open>Moving processes between strides\<close>

lemma removeProcPtr_eq:
  assumes "cpu_ok s" and "\<not> holding StrideLock s"
  shows "removeProcPtr p s = Ret (\<exists>k<NPROC. \<exists>i<NPROC. sp_pptable (stridetable s k) i = Some p)
    (s\<lparr>stridetable := (\<lambda>k. if k < NPROC then clear_ptr p (stridetable s k) else stridetable s k)\<rparr>)"
  using assms
  by (simp add: removeProcPtr_def acquire_free release_locked_by Let_def cong: if_cong)

lemma clear_ptr_select [simp]:
  "sp_tickets (clear_ptr p sp) = sp_tickets sp" "sp_stride (clear_ptr p sp) = sp_stride sp"
  "sp_pass (clear_ptr p sp) = sp_pass sp" "sp_usedticks (clear_ptr p sp) = sp_usedticks sp"
  "sp_sid (clear_ptr p sp) = sp_sid sp" "sp_currentproc (clear_ptr p sp) = sp_currentproc sp"
  by (simp_all add: clear_ptr_def)

text \<open>\<open>move_lwps\<close> changes pointer tables only.\<close>

definition same_shares :: "'x kproc_scheme \<Rightarrow> 'x kproc_scheme \<Rightarrow> bool" where
  "same_shares s t \<longleftrightarrow>
     (\<forall>k. sp_tickets (stridetable t k) = sp_tickets (stridetable s k)
        \<and> sp_stride (stridetable t k) = sp_stride (stridetable s k)
        \<and> sp_pass (stridetable t k) = sp_pass (stridetable s k)
        \<and> sp_usedticks (stridetable t k) = sp_usedticks (stridetable s k)
        \<and> sp_sid (stridetable t k) = sp_sid (stridetable s k))
     \<and> (\<exists>f. t = s\<lparr>stridetable := f\<rparr>)"

lemma same_shares_trans: "same_shares s t \<Longrightarrow> same_shares t u \<Longrightarrow> same_shares s u"
  by (auto simp: same_shares_def)

lemma same_shares_refl: "same_shares s s"
  by (auto simp: same_shares_def intro: exI [of _ "stridetable s"])

lemma move_lwps_same:
  assumes "cpu_ok s" and "\<not> holding StrideLock s"
  shows "\<exists>t. move_lwps k is c s = Ret () t \<and> same_shares s t"
  using assms
proof (induction "is" arbitrary: c s)
  case Nil
  then show ?case by (simp add: same_shares_refl)
next
  case (Cons i "is")
  show ?case
  proof (cases "p_pgdir (ptable s i) = p_pgdir (ptable s (the (cur s)))")
    case False
    then show ?thesis using Cons by simp
  next
    case True
    let ?s1 = "s\<lparr>stridetable := (\<lambda>k. if k < NPROC then clear_ptr i (stridetable s k) else stridetable s k)\<rparr>"
    let ?s2 = "upd_stride k (\<lambda>sp. sp\<lparr>sp_pptable := (sp_pptable sp)(c := Some i)\<rparr>) ?s1"
    have "same_shares s ?s2"
      by (auto simp: same_shares_def upd_stride_def)
    moreover obtain t where "move_lwps k is (c + 1) ?s2 = Ret () t" "same_shares ?s2 t"
      using Cons.IH [of ?s2 "c + 1"] Cons.prems by auto
    ultimately show ?thesis
      using True removeProcPtr_eq [OF Cons.prems] by (auto intro: same_shares_trans)
  qed
qed

subsection \<open>Tickets\<close>

definition total_tickets :: "'x kproc_scheme \<Rightarrow> nat" where
  "total_tickets s = (\<Sum>k<NPROC. unat (sp_tickets (stridetable s k)))"

definition shares_ok :: "'x kproc_scheme \<Rightarrow> bool" where
  "shares_ok s \<longleftrightarrow> MLFQ s < NPROC \<and> total_tickets s = 100
     \<and> 20 \<le> unat (sp_tickets (stridetable s (MLFQ s))) \<and> sp_sid (stridetable s (MLFQ s)) \<noteq> 0
     \<and> (\<forall>k<NPROC. sp_sid (stridetable s k) = 0 \<longrightarrow> sp_tickets (stridetable s k) = 0)"

lemma shares_ok_le:
  assumes "shares_ok s" and "k < NPROC"
  shows "unat (sp_tickets (stridetable s k)) \<le> 100"
proof -
  have "unat (sp_tickets (stridetable s k)) \<le> total_tickets s"
    unfolding total_tickets_def using assms(2) by (intro member_le_sum) auto
  then show ?thesis using assms(1) by (simp add: shares_ok_def)
qed

text \<open>Moving \<open>n\<close> tickets from one stride to another keeps the total.\<close>

lemma sum_move:
  fixes f :: "nat \<Rightarrow> nat"
  assumes "a < m" "b < m" "a \<noteq> b" "f a + f b = x + y"
  shows "(\<Sum>k<m. (f(a := x, b := y)) k) = (\<Sum>k<m. f k)"
proof -
  have fin: "finite {..<m}" by simp
  have split: "(\<Sum>k<m. g k) = g a + g b + (\<Sum>k\<in>{..<m} - {a, b}. g k)" for g :: "nat \<Rightarrow> nat"
  proof -
    have "(\<Sum>k<m. g k) = g a + (\<Sum>k\<in>{..<m} - {a}. g k)" using assms(1) by (simp add: sum.remove)
    also have "(\<Sum>k\<in>{..<m} - {a}. g k) = g b + (\<Sum>k\<in>{..<m} - {a} - {b}. g k)"
      using assms(2,3) by (intro sum.remove) auto
    finally show ?thesis by (simp add: Diff_insert2 [symmetric] insert_commute)
  qed
  show ?thesis unfolding split using assms(3,4) by (auto intro: sum.cong)
qed

subsection \<open>set_cpu_share\<close>

text \<open>
  The effect of an accepted request: \<open>k\<close> is the first unused slot, \<open>w\<close> the request as an unsigned
  number. The state differs from the old one in the strides and in \<open>nextsid\<close>.
\<close>

lemma set_cpu_share_accepted:
  fixes s :: "'x kproc_scheme" and percent :: int
  defines "n \<equiv> sp_tickets (stridetable s (MLFQ s))"
  defines "w \<equiv> (of_int percent :: u32)"
  assumes ok: "cpu_ok s" "\<not> holding PtableLock s" "\<not> holding StrideLock s"
    and check: "\<not> n * 100 div ENTIRETICKETS - w < 20"
    and slot: "first_idx NPROC (\<lambda>k. sp_sid (stridetable s k) = 0) = Some k"
    and ne: "k \<noteq> MLFQ s" and nz: "w \<noteq> 0" "n - w \<noteq> 0"
  shows "\<exists>t. set_cpu_share percent s = Ret 0 t
    \<and> sp_tickets (stridetable t k) = w \<and> sp_stride (stridetable t k) = 1000 div w
    \<and> sp_pass (stridetable t k) = getminpass s - 1000 div w
    \<and> sp_sid (stridetable t k) = of_int (nextsid s) \<and> sp_usedticks (stridetable t k) = 0
    \<and> sp_tickets (stridetable t (MLFQ s)) = n - w \<and> sp_stride (stridetable t (MLFQ s)) = 1000 div (n - w)
    \<and> sp_sid (stridetable t (MLFQ s)) = sp_sid (stridetable s (MLFQ s))
    \<and> (\<forall>i. i \<noteq> k \<and> i \<noteq> MLFQ s \<longrightarrow> sp_tickets (stridetable t i) = sp_tickets (stridetable s i)
          \<and> sp_sid (stridetable t i) = sp_sid (stridetable s i))
    \<and> MLFQ t = MLFQ s \<and> ptable t = ptable s \<and> locks t = locks s"
proof -
  let ?s1 = "upd_stride k (\<lambda>sp. sp\<lparr>sp_tickets := w\<rparr>) s"
  let ?s2 = "upd_stride k (\<lambda>sp. sp\<lparr>sp_stride := 1000 div w\<rparr>) ?s1"
  let ?s3 = "upd_stride k (\<lambda>sp. sp\<lparr>sp_pass := getminpass ?s2 - sp_stride sp, sp_usedticks := 0,
                sp_sid := of_int (nextsid s)\<rparr>) ?s2"
  let ?s4 = "?s3\<lparr>nextsid := nextsid s + 1\<rparr>"
  have sid: "sp_sid (stridetable s k) = 0" using slot by (rule first_idx_SomeD)
  have gmp: "getminpass ?s2 = getminpass s"
    unfolding getminpass_def minpass_loop_def
    by (rule arg_cong [where f = fst], rule fold_cong) (auto simp: sid)
  have gmp2: "getminpass (locked_by l u) = getminpass u" for l and u :: "'x kproc_scheme"
    by (simp add: getminpass_def minpass_loop_cong [of "locked_by l u" u])
  have "cpu_ok (locked_by PtableLock ?s4)" "\<not> holding StrideLock (locked_by PtableLock ?s4)"
    using ok by (simp_all add: cpu_ok_locked_by)
  then obtain t where t: "move_lwps k [0..<NPROC] 0 (locked_by PtableLock ?s4) = Ret () t"
      "same_shares (locked_by PtableLock ?s4) t"
    using move_lwps_same by blast
  then obtain f where f: "t = locked_by PtableLock (?s4\<lparr>stridetable := f\<rparr>)"
    by (auto simp: same_shares_def)
  have sh: "sp_tickets (f i) = sp_tickets (stridetable ?s4 i)"
    "sp_stride (f i) = sp_stride (stridetable ?s4 i)" "sp_pass (f i) = sp_pass (stridetable ?s4 i)"
    "sp_usedticks (f i) = sp_usedticks (stridetable ?s4 i)" "sp_sid (f i) = sp_sid (stridetable ?s4 i)"
    for i
    using t(2) f unfolding same_shares_def by (auto dest: spec [of _ i])
  let ?s5 = "?s4\<lparr>stridetable := f\<rparr>"
  let ?s6 = "upd_stride (MLFQ s) (\<lambda>sp. sp\<lparr>sp_tickets := sp_tickets sp - w\<rparr>) ?s5"
  let ?s7 = "upd_stride (MLFQ s) (\<lambda>sp. sp\<lparr>sp_stride := 1000 div (n - w)\<rparr>) ?s6"
  have fm: "sp_tickets (f (MLFQ s)) = n" "sp_tickets (f k) = w"
    using sh ne by (auto simp: n_def)
  have "set_cpu_share percent s = Ret 0 ?s7"
    using ok check slot nz fm t(1) f gmp gmp2 [of PtableLock ?s2]
    by (simp add: set_cpu_share_def n_def [symmetric] w_def [symmetric] acquire_free Let_def udiv_def
        release_locked_by)
  then show ?thesis
    using sh ne gmp fm by (auto simp: upd_stride_def)
qed

text \<open>The check of the request, on unsigned numbers.\<close>

lemma tickets_scaled:
  fixes n :: u32
  assumes "unat n \<le> 100"
  shows "n * 100 div 100 = n"
proof -
  have "unat (n * 100) = unat n * 100" using assms by (simp add: unat_word_ariths)
  then have "unat (n * 100 div 100) = unat n" by (simp add: unat_div)
  then show ?thesis by (simp add: word_unat_eq_iff)
qed

lemma unat_of_int32: "0 \<le> p \<Longrightarrow> p < 2 ^ 32 \<Longrightarrow> unat (of_int p :: u32) = nat p"
  by (simp add: unsigned_of_int take_bit_int_eq_self)

lemma share_check:
  fixes n :: u32
  assumes "unat n \<le> 100" and "0 \<le> p" and "p < 2 ^ 31"
  shows "n * 100 div ENTIRETICKETS - of_int p < 20 \<longleftrightarrow> nat p \<le> unat n \<and> unat n < nat p + 20"
proof -
  have p: "unat (of_int p :: u32) = nat p" using assms(2,3) by (intro unat_of_int32) auto
  have "unat (n - of_int p) = (if nat p \<le> unat n then unat n - nat p else unat n + 2 ^ 32 - nat p)"
    using p by (simp add: unat_sub_if')
  then show ?thesis using assms tickets_scaled [OF assms(1)] by (auto simp: word_less_nat_alt)
qed

lemma ex_shares: "shares_ok (ex_kproc c st)"
proof -
  have "(\<Sum>k<NPROC. unat (sp_tickets (stridetable (ex_kproc c st) k))) = (\<Sum>k<NPROC. if k = 0 then 100 else (0 :: nat))"
    by (intro sum.cong) (simp_all add: ex_defs)
  then show ?thesis by (simp add: shares_ok_def total_tickets_def) (simp add: ex_defs)
qed

lemma ex_slot: "first_idx NPROC (\<lambda>k. sp_sid (stridetable (ex_kproc c st) k) = 0) = Some 1"
  by (auto simp: first_idx_Some_iff ex_defs)

subsection \<open>Properties: CPU shares\<close>

text \<open>
  C24. A valid request. When the tickets add up to 100 and the MLFQ would keep at least 20 after
  giving up \<open>percent\<close>, and a stride slot is free, \<open>set_cpu_share(percent)\<close> returns 0, the new stride
  has \<open>percent\<close> tickets and the stride 1000/\<open>percent\<close>, the MLFQ has that many less, and the tickets
  still add up to 100.
\<close>

theorem set_cpu_share_grants:
  assumes sh: "shares_ok s" and ok: "cpu_ok s" "\<not> holding PtableLock s" "\<not> holding StrideLock s"
    and sid: "0 < nextsid s" "nextsid s < 2 ^ 32"
    and p: "1 \<le> percent" "nat percent + 20 \<le> unat (sp_tickets (stridetable s (MLFQ s)))"
    and slot: "first_idx NPROC (\<lambda>k. sp_sid (stridetable s k) = 0) = Some k"
  shows "\<exists>t. set_cpu_share percent s = Ret 0 t \<and> shares_ok t
    \<and> unat (sp_tickets (stridetable t k)) = nat percent
    \<and> unat (sp_stride (stridetable t k)) = 1000 div nat percent
    \<and> unat (sp_tickets (stridetable t (MLFQ s))) = unat (sp_tickets (stridetable s (MLFQ s))) - nat percent"
proof -
  let ?n = "sp_tickets (stridetable s (MLFQ s))" and ?w = "of_int percent :: u32"
  have m: "MLFQ s < NPROC" "sp_sid (stridetable s (MLFQ s)) \<noteq> 0" using sh by (auto simp: shares_ok_def)
  have k: "k < NPROC" "sp_sid (stridetable s k) = 0" using slot by (auto dest: first_idx_SomeD)
  then have ne: "k \<noteq> MLFQ s" using m by auto
  have n100: "unat ?n \<le> 100" using shares_ok_le [OF sh m(1)] .
  have p32: "percent < 2 ^ 31" using p(2) n100 by simp
  have w: "unat ?w = nat percent" using p p32 by (intro unat_of_int32) auto
  have sub: "unat (?n - ?w) = unat ?n - nat percent"
    using w p(2) by (simp add: unat_sub_if')
  have check: "\<not> ?n * 100 div ENTIRETICKETS - ?w < 20"
    using share_check [OF n100 _ p32] p by auto
  have nz: "?w \<noteq> 0" "?n - ?w \<noteq> 0" using w sub p by auto
  have sidnz: "(of_int (nextsid s) :: u32) \<noteq> 0"
    using unat_of_int32 [of "nextsid s"] sid by auto
  obtain t where t: "set_cpu_share percent s = Ret 0 t"
    "sp_tickets (stridetable t k) = ?w" "sp_stride (stridetable t k) = 1000 div ?w"
    "sp_sid (stridetable t k) = of_int (nextsid s)"
    "sp_tickets (stridetable t (MLFQ s)) = ?n - ?w"
    "sp_sid (stridetable t (MLFQ s)) = sp_sid (stridetable s (MLFQ s))"
    "\<forall>i. i \<noteq> k \<and> i \<noteq> MLFQ s \<longrightarrow> sp_tickets (stridetable t i) = sp_tickets (stridetable s i)
          \<and> sp_sid (stridetable t i) = sp_sid (stridetable s i)" "MLFQ t = MLFQ s"
    using set_cpu_share_accepted [OF ok check slot ne nz] by blast
  have "total_tickets t = (\<Sum>i<NPROC. ((\<lambda>i. unat (sp_tickets (stridetable s i)))
      (k := nat percent, MLFQ s := unat ?n - nat percent)) i)"
    unfolding total_tickets_def using t w sub ne by (intro sum.cong) auto
  also have "\<dots> = total_tickets s"
    unfolding total_tickets_def using k m ne sh p(2)
    by (intro sum_move) (auto simp: shares_ok_def)
  finally have "shares_ok t"
    using sh t sub p(2) k m sidnz unfolding shares_ok_def by (metis add_le_imp_le_diff add.commute)
  then show ?thesis using t w sub by (auto simp: unat_div)
qed

theorem set_cpu_share_grants_witness:
  "\<exists>t. set_cpu_share 30 (ex_kproc (Some 0) RUNNING) = Ret 0 t \<and> shares_ok t
    \<and> unat (sp_tickets (stridetable t 1)) = 30"
  using set_cpu_share_grants [OF ex_shares ex_rest(1) ex_rest(2) ex_rest(2) _ _ _ _ ex_slot,
      of "Some 0" RUNNING 30] by (auto simp: ex_select ex_MLFQ_def)

text \<open>
  A request that would leave the MLFQ less than 20 of its tickets is refused: the call returns 1
  and changes nothing. The check leaves exactly 20 to the MLFQ, although the message it prints says
  more than 20.
\<close>

theorem set_cpu_share_refuses:
  assumes "shares_ok s" and "0 \<le> percent"
    and "nat percent \<le> unat (sp_tickets (stridetable s (MLFQ s)))"
    and "unat (sp_tickets (stridetable s (MLFQ s))) < nat percent + 20"
  shows "set_cpu_share percent s = Ret 1 s"
proof -
  have n: "unat (sp_tickets (stridetable s (MLFQ s))) \<le> 100"
    using assms(1) by (intro shares_ok_le) (simp_all add: shares_ok_def)
  then have "percent < 2 ^ 31" using assms(3) by simp
  then show ?thesis
    using share_check [OF n assms(2)] assms(3,4) by (simp add: set_cpu_share_def)
qed

theorem set_cpu_share_refuses_witness:
  "set_cpu_share 81 (ex_kproc (Some 0) RUNNING) = Ret 1 (ex_kproc (Some 0) RUNNING)"
  using set_cpu_share_refuses [OF ex_shares, of 81 "Some 0" RUNNING] by (simp add: ex_select ex_MLFQ_def)



text \<open>
  C30. \<open>set_cpu_share(0)\<close> passes the check, and the kernel divides by zero tickets: it panics.
\<close>

theorem set_cpu_share_zero_panics:
  assumes "shares_ok s" and "\<not> holding PtableLock s"
    and "\<exists>k<NPROC. sp_sid (stridetable s k) = 0"
  shows "set_cpu_share 0 s = Panic ''trap''"
proof -
  have n: "unat (sp_tickets (stridetable s (MLFQ s))) \<le> 100"
    using assms(1) by (intro shares_ok_le) (simp_all add: shares_ok_def)
  have "20 \<le> unat (sp_tickets (stridetable s (MLFQ s)))" using assms(1) by (simp add: shares_ok_def)
  then have "\<not> sp_tickets (stridetable s (MLFQ s)) * 100 div ENTIRETICKETS - of_int 0 < 20"
    using share_check [OF n, of 0] by simp
  moreover obtain k where "first_idx NPROC (\<lambda>k. sp_sid (stridetable s k) = 0) = Some k"
    using assms(3) first_idx_None_iff [of NPROC "\<lambda>k. sp_sid (stridetable s k) = 0"] by blast
  ultimately show ?thesis
    using assms(2) by (simp add: set_cpu_share_def acquire_free udiv_def Let_def)
qed

theorem set_cpu_share_zero_panics_witness:
  "set_cpu_share 0 (ex_kproc (Some 0) RUNNING) = Panic ''trap''"
  by (rule set_cpu_share_zero_panics [OF ex_shares ex_rest(2)], rule exI [of _ 1])
    (simp add: ex_select ex_free_stride_def)

text \<open>
  When a stride other than the MLFQ has no process left, the scheduler gives its tickets back to
  the MLFQ: the tickets still add up to 100 and the slot is free again.
\<close>

theorem remove_stride_returns_tickets:
  assumes sh: "shares_ok s" and c: "current s < NPROC" "current s \<noteq> MLFQ s"
  shows "\<exists>t. remove_stride s = Ret () t \<and> shares_ok t \<and> sp_sid (stridetable t (current s)) = 0
    \<and> unat (sp_tickets (stridetable t (MLFQ s))) = unat (sp_tickets (stridetable s (MLFQ s)))
        + unat (sp_tickets (stridetable s (current s)))"
proof -
  let ?n = "sp_tickets (stridetable s (MLFQ s))" and ?c = "sp_tickets (stridetable s (current s))"
  have m: "MLFQ s < NPROC" "20 \<le> unat ?n" using sh by (auto simp: shares_ok_def)
  have "unat ?n \<le> 100" "unat ?c \<le> 100" using shares_ok_le [OF sh] m c by auto
  then have add: "unat (?n + ?c) = unat ?n + unat ?c" by (simp add: unat_word_ariths)
  then have nz: "?n + ?c \<noteq> 0" using m(2) by auto
  let ?t = "upd_stride (current s) (\<lambda>sp. sp\<lparr>sp_tickets := 0, sp_stride := 0, sp_pass := 0,
                  sp_usedticks := 0, sp_sid := 0\<rparr>)
      (upd_stride (MLFQ s) (\<lambda>sp. sp\<lparr>sp_stride := 1000 div (?n + ?c)\<rparr>)
        (upd_stride (MLFQ s) (\<lambda>sp. sp\<lparr>sp_tickets := ?n + ?c\<rparr>) s))"
  have r: "remove_stride s = Ret () ?t"
    using nz by (simp add: remove_stride_def udiv_def Let_def upd_stride_def)
  have "total_tickets ?t = (\<Sum>i<NPROC. ((\<lambda>i. unat (sp_tickets (stridetable s i)))
      (MLFQ s := unat ?n + unat ?c, current s := 0)) i)"
    unfolding total_tickets_def using add c(2) by (intro sum.cong) auto
  also have "\<dots> = total_tickets s"
    unfolding total_tickets_def using c m by (intro sum_move) auto
  finally have "shares_ok ?t"
    using sh c add unfolding shares_ok_def by auto
  then show ?thesis using r add c by auto
qed

theorem remove_stride_returns_tickets_witness:
  "\<exists>t. remove_stride ((ex_kproc None RUNNABLE)\<lparr>current := 1\<rparr>) = Ret () t \<and> shares_ok t"
proof -
  let ?s = "(ex_kproc None RUNNABLE)\<lparr>current := 1\<rparr>"
  have "shares_ok ?s" using ex_shares by (simp add: shares_ok_def total_tickets_def)
  from remove_stride_returns_tickets [OF this] show ?thesis by (auto simp: ex_select)
qed

text \<open>
  C31. A new stride starts one stride below the smallest pass, so that it runs first. Early after boot
  the smallest pass is less than the new stride and the difference wraps around: the new stride gets a
  pass above the limit the scheduler searches below, and is not chosen in any later state in which
  some active stride has a pass below that limit.
\<close>

theorem new_stride_starves:
  fixes s :: "'x kproc_scheme"
  assumes sh: "shares_ok s" and ok: "cpu_ok s" "\<not> holding PtableLock s" "\<not> holding StrideLock s"
    and p: "1 \<le> percent" "nat percent + 20 \<le> unat (sp_tickets (stridetable s (MLFQ s)))"
    and slot: "first_idx NPROC (\<lambda>k. sp_sid (stridetable s k) = 0) = Some k"
    and low: "unat (getminpass s) < 1000 div nat percent"
  shows "\<exists>t. set_cpu_share percent s = Ret 0 t \<and> MAXINT < pass_of t k
    \<and> (\<forall>(u :: 'x kproc_scheme) j. stridetable u k = stridetable t k \<and> active u j \<and> pass_of u j < MAXINT \<longrightarrow> minpindex u \<noteq> k)"
proof -
  let ?n = "sp_tickets (stridetable s (MLFQ s))" and ?w = "of_int percent :: u32"
  have m: "MLFQ s < NPROC" "sp_sid (stridetable s (MLFQ s)) \<noteq> 0" using sh by (auto simp: shares_ok_def)
  have "sp_sid (stridetable s k) = 0" using slot by (rule first_idx_SomeD)
  then have ne: "k \<noteq> MLFQ s" using m by auto
  have n100: "unat ?n \<le> 100" using shares_ok_le [OF sh m(1)] .
  have p32: "percent < 2 ^ 31" using p(2) n100 by simp
  have w: "unat ?w = nat percent" using p p32 by (intro unat_of_int32) auto
  have sub: "unat (?n - ?w) = unat ?n - nat percent" using w p(2) by (simp add: unat_sub_if')
  have check: "\<not> ?n * 100 div ENTIRETICKETS - ?w < 20"
    using share_check [OF n100 _ p32] p by auto
  have nz: "?w \<noteq> 0" "?n - ?w \<noteq> 0" using w sub p by auto
  obtain t where t: "set_cpu_share percent s = Ret 0 t" "pass_of t k = getminpass s - 1000 div ?w"
    using set_cpu_share_accepted [OF ok check slot ne nz] by blast
  have d: "unat (1000 div ?w) = 1000 div nat percent" using w by (simp add: unat_div)
  have le: "1000 div nat percent \<le> 1000" by simp
  have wrap: "2147483647 < unat (a - b)" if "unat a < unat b" "unat b \<le> 1000" for a b :: u32
    using that by (simp add: unat_sub_if')
  have "2147483647 < unat (pass_of t k)"
    unfolding t(2) by (rule wrap) (simp_all only: d low le)
  then have big: "MAXINT < pass_of t k" by (simp add: word_less_nat_alt)
  have "minpindex u \<noteq> k" if "stridetable u k = stridetable t k" "active u j" "pass_of u j < MAXINT"
    for u :: "'x kproc_scheme" and j
  proof
    assume "minpindex u = k"
    then have "pass_of t k < MAXINT" using minpindex_least(2) [OF that(2,3)] that(1) by simp
    then show False using big by (rule less_asym)
  qed
  then show ?thesis using t(1) big by blast
qed

theorem new_stride_starves_witness:
  "\<exists>t. set_cpu_share 30 (ex_kproc (Some 0) RUNNING) = Ret 0 t \<and> MAXINT < pass_of t 1"
proof -
  have "getminpass (ex_kproc (Some 0) RUNNING) = pass_of (ex_kproc (Some 0) RUNNING) 0"
    using getminpass_eq [of "ex_kproc (Some 0) RUNNING" 0] by (simp add: ex_minpindex active_def ex_defs)
  then show ?thesis
    using new_stride_starves [OF ex_shares ex_rest(1) ex_rest(2) ex_rest(2) _ _ ex_slot,
        of 30 "Some 0" RUNNING] by (auto simp: ex_select ex_MLFQ_def)
qed

subsection \<open>Properties: a time slice\<close>

text \<open>
  What a process pays for a time slice. With only \<open>ptable.lock\<close> held, interrupts off and the
  process no longer RUNNING, \<open>sched\<close> switches to the scheduler after charging one tick to the
  process and its stride's width to the stride's pass; at the hundredth tick of the stride every
  process of the stride goes back to level 0 with a fresh quantum and the count restarts.
\<close>

theorem sched_charges:
  assumes "holding PtableLock s" and "ncli s = 1" and "\<not> eflags_IF s" and "cur s = Some p"
    and "p_state (ptable s p) \<noteq> RUNNING" and "unat (sp_usedticks (stridetable s (current s))) < 100"
  shows "\<exists>t. sched s = Swtch t
    \<and> sp_pass (stridetable t (current s))
        = sp_pass (stridetable s (current s)) + sp_stride (stridetable s (current s))
    \<and> (\<forall>k. k \<noteq> current s \<longrightarrow> stridetable t k = stridetable s k)
    \<and> (\<forall>q. p_state (ptable t q) = p_state (ptable s q))
    \<and> (if unat (sp_usedticks (stridetable s (current s))) < 99
       then sp_usedticks (stridetable t (current s)) = sp_usedticks (stridetable s (current s)) + 1
         \<and> p_usedticks (ptable t p) = p_usedticks (ptable s p) + 1
         \<and> (\<forall>q. p_level (ptable t q) = p_level (ptable s q))
       else sp_usedticks (stridetable t (current s)) = 0
         \<and> (\<forall>q. in_group s (current s) q \<longrightarrow> p_level (ptable t q) = 0 \<and> p_usedticks (ptable t q) = 0))"
proof -
  have "sp_usedticks (stridetable s (current s)) + 1 \<ge> 100
      \<longleftrightarrow> \<not> unat (sp_usedticks (stridetable s (current s))) < 99"
    using assms(6) by (simp add: word_le_nat_alt unat_word_ariths not_less)
  then show ?thesis
    using assms by (auto simp: sched_def Let_def boost_def in_group_def)
qed

theorem sched_charges_witness:
  "\<exists>t. sched ex_switching = Swtch t \<and> sp_pass (stridetable t 0) = 10"
proof -
  have a: "holding PtableLock ex_switching" "ncli ex_switching = 1" "\<not> eflags_IF ex_switching"
    "cur ex_switching = Some 0" "p_state (ptable ex_switching 0) \<noteq> RUNNING"
    "unat (sp_usedticks (stridetable ex_switching (current ex_switching))) < 100"
    by (simp_all add: ex_switching_def ex_defs holding_def)
  obtain t where t: "sched ex_switching = Swtch t" "sp_pass (stridetable t (current ex_switching))
      = sp_pass (stridetable ex_switching (current ex_switching))
        + sp_stride (stridetable ex_switching (current ex_switching))"
    using sched_charges [OF a] by blast
  have "current ex_switching = 0" "stridetable ex_switching 0 = ex_MLFQ"
    by (simp_all add: ex_switching_def ex_defs)
  then show ?thesis using t by (simp add: ex_MLFQ_def)
qed

end
