(* ===== verification/Sched_Run.thy ===== *)
theory Sched_Run
  imports Sched_Share
begin

text \<open>
  Sleep, wakeup and kill, and the scheduler as a transition system: a CPU alternates between the
  scheduler's loop and the processes it switches to, each of which resumes where it gave up the
  CPU. The invariant of every run: the process that is RUNNING is the one the CPU runs, and
  between two steps the CPU holds no lock, so that none of the checks in \<open>sched\<close> can fail.
\<close>

subsection \<open>Sleep and wakeup\<close>

lemma acquire_top:
  "ncli s = 0 \<Longrightarrow> locks s = [] \<Longrightarrow> acquire l s = Ret () (locked_by l s)"
  by (simp add: acquire_free holding_def)

lemma locked_by_top:
  assumes "ncli s = 0" "locks s = []"
  shows "ncli (locked_by l s) = 1" "locks (locked_by l s) = [l]" "\<not> eflags_IF (locked_by l s)"
    "intena (locked_by l s) = eflags_IF s"
  using assms by (simp_all add: locked_by_def pushcli_def)

lemma release_top:
  assumes "ncli s = 1" "locks s = [l]" "\<not> eflags_IF s"
  shows "release l s = Ret () (s\<lparr>locks := [], ncli := 0, eflags_IF := intena s\<rparr>)"
  using assms by (cases s) (auto simp: release_def holding_def popcli_def)

text \<open>What \<open>sched\<close> leaves to the scheduler; \<open>charged\<close> is the accounting of the time slice.\<close>

definition charged :: "'x kproc_scheme \<Rightarrow> 'x kproc_scheme" where
  "charged s =
     (let s = upd_proc (the (cur s)) (\<lambda>q. q\<lparr>p_usedticks := p_usedticks q + 1\<rparr>) s;
          s = upd_stride (current s) (\<lambda>sp. sp\<lparr>sp_usedticks := sp_usedticks sp + 1\<rparr>) s;
          s = upd_stride (current s) (\<lambda>sp. sp\<lparr>sp_pass := sp_pass sp + sp_stride sp\<rparr>) s;
          s = (if sp_usedticks (stridetable s (current s)) \<ge> 100
               then upd_stride (current s) (\<lambda>sp. sp\<lparr>sp_usedticks := 0\<rparr>) (boost s) else s) in
      upd_proc (the (cur s)) (\<lambda>q. q\<lparr>p_context := AtSwtch\<rparr>) s)"

lemma charged_frame [simp]:
  "p_state (ptable (charged s) q) = p_state (ptable s q)" "p_chan (ptable (charged s) q) = p_chan (ptable s q)"
  "cur (charged s) = cur s" "ncli (charged s) = ncli s" "locks (charged s) = locks s"
  "eflags_IF (charged s) = eflags_IF s" "intena (charged s) = intena s"
  by (auto simp: charged_def Let_def boost_def upd_proc_def upd_stride_def)

lemma sched_switches:
  assumes "ncli s = 1" "locks s = [PtableLock]" "\<not> eflags_IF s" "cur s = Some p"
    and "p_state (ptable s p) \<noteq> RUNNING"
  shows "sched s = Swtch (charged s)"
  using assms by (simp add: sched_def charged_def holding_def Let_def)

definition asleep :: "chan \<Rightarrow> 'x kproc_scheme \<Rightarrow> 'x kproc_scheme" where
  "asleep ch s = upd_proc (the (cur s)) (\<lambda>q. q\<lparr>p_chan := Some ch, p_state := SLEEPING\<rparr>) s"

lemma sleep_switches:
  assumes "ncli s = 0" "locks s = []" "cur s = Some p"
  shows "\<exists>u. sleep (Some ch) (Some l) (locked_by l s) = Swtch (charged (asleep ch u))
    \<and> ncli u = 1 \<and> locks u = [PtableLock] \<and> \<not> eflags_IF u \<and> intena u = eflags_IF s
    \<and> cur u = cur s \<and> ptable u = ptable s \<and> stridetable u = stridetable s"
proof (cases "l = PtableLock")
  case True
  let ?u = "locked_by PtableLock s"
  have "sched (asleep ch ?u) = Swtch (charged (asleep ch ?u))"
    using assms by (intro sched_switches [where p = p])
      (simp_all add: asleep_def locked_by_top, simp_all add: locked_by_def pushcli_def upd_proc_def)
  then show ?thesis
    using True assms by (intro exI [of _ ?u]) (simp add: sleep_def locked_by_top asleep_def)
next
  case False
  let ?v = "locked_by PtableLock (locked_by l s)"
  let ?u = "?v\<lparr>locks := [PtableLock], ncli := 1\<rparr>"
  have rel: "release l ?v = Ret () ?u"
    using assms False
    by (cases s) (auto simp: release_def holding_def popcli_def locked_by_def pushcli_def)
  have acq: "acquire PtableLock (locked_by l s) = Ret () ?v"
    using assms False by (intro acquire_free) (simp add: holding_def locked_by_top)
  have u: "ncli ?u = 1 \<and> locks ?u = [PtableLock] \<and> \<not> eflags_IF ?u \<and> intena ?u = eflags_IF s
    \<and> cur ?u = cur s \<and> ptable ?u = ptable s \<and> stridetable ?u = stridetable s"
    using assms by (simp add: locked_by_def pushcli_def)
  have "sched (asleep ch ?u) = Swtch (charged (asleep ch ?u))"
    using u assms by (intro sched_switches [where p = p]) (simp_all add: asleep_def upd_proc_def)
  then have "sleep (Some ch) (Some l) (locked_by l s) = Swtch (charged (asleep ch ?u))"
    using False assms acq rel by (simp add: sleep_def asleep_def)
  then show ?thesis using u by blast
qed

lemma wakeup_eq:
  assumes "cpu_ok s" "\<not> holding PtableLock s"
  shows "wakeup ch s = Ret () (wakeup1 ch s)"
  using assms by (simp add: wakeup_def acquire_free release_locked_by)

lemma scheduler_back_eq:
  assumes "ncli s = 1" "locks s = [PtableLock]" "\<not> eflags_IF s"
  shows "scheduler_back s = Ret () (s\<lparr>cr3 := V2P (kpgdir s), cur := None, locks := [], ncli := 0,
    eflags_IF := intena s\<rparr>)"
  unfolding scheduler_back_def using assms by (subst release_top) (simp_all add: switchkvm_def)

subsection \<open>Properties: sleep, wakeup, kill\<close>



text \<open>
  \<open>kill(pid)\<close> marks the first slot with that pid, wakes it if it sleeps, and returns 0; with
  no such slot it returns -1 and changes nothing.
\<close>

theorem kill_effect:
  assumes "cpu_ok s" "\<not> holding PtableLock s"
  shows "kill pid s =
    (case first_idx NPROC (\<lambda>i. p_pid (ptable s i) = pid) of
       None \<Rightarrow> Ret (- 1) s
     | Some p \<Rightarrow> Ret 0 (s\<lparr>ptable := (ptable s)(p := (ptable s p)\<lparr>p_killed := True,
         p_state := (if p_state (ptable s p) = SLEEPING then RUNNABLE else p_state (ptable s p))\<rparr>)\<rparr>))"
  using assms
  by (simp add: kill_def acquire_free release_locked_by upd_proc_def Let_def split: option.split)

theorem kill_effect_witness:
  "kill 7 (ex_kproc (Some 0) RUNNING) = Ret (- 1) (ex_kproc (Some 0) RUNNING)"
proof -
  have "first_idx NPROC (\<lambda>i. p_pid (ptable (ex_kproc (Some 0) RUNNING) i) = 7) = None"
    by (simp add: first_idx_None_iff ex_defs)
  then show ?thesis
    using kill_effect [of "ex_kproc (Some 0) RUNNING" 7] by (simp add: ex_defs cpu_ok_def holding_def)
qed

text \<open>\<open>allocproc\<close> between the locks: the first free slot becomes an EMBRYO of the current stride.\<close>

definition embryo :: "nat \<Rightarrow> 'x kproc_scheme \<Rightarrow> 'x kproc_scheme" where
  "embryo p s =
     (upd_proc p (\<lambda>q. q\<lparr>p_level := 0, p_usedticks := 0, p_state := EMBRYO, p_pid := nextpid s\<rparr>)
       (pptable_insert p s))\<lparr>nextpid := nextpid s + 1\<rparr>"

lemma pptable_insert_frame [simp]:
  "ptable (pptable_insert p s) = ptable s" "current (pptable_insert p s) = current s"
  "nextpid (pptable_insert p s) = nextpid s" "cpu_ok (pptable_insert p s) = cpu_ok s"
  "holding l (pptable_insert p s) = holding l s"
  "pptable_insert p (locked_by l s) = locked_by l (pptable_insert p s)"
  by (simp_all add: pptable_insert_def split: option.split)

lemma embryo_cpu [simp]: "cpu_ok (embryo p s) = cpu_ok s" "holding l (embryo p s) = holding l s"
  by (simp_all add: embryo_def)

lemma allocproc_eq:
  assumes "cpu_ok s" and "\<not> holding PtableLock s" and "\<not> holding (PptableLock (current s)) s"
  shows "allocproc s =
    (case first_idx NPROC (\<lambda>i. p_state (ptable s i) = UNUSED) of
       None \<Rightarrow> Ret None s
     | Some p \<Rightarrow> andthen (kalloc (embryo p s)) (\<lambda>k s.
         let s = upd_proc p (\<lambda>q. q\<lparr>p_kstack := k\<rparr>) s in
         if k = 0 then Ret None (upd_proc p (\<lambda>q. q\<lparr>p_state := UNUSED\<rparr>) s)
         else Ret (Some p) (upd_proc p (\<lambda>q. q\<lparr>p_context := AtForkret\<rparr>) s)))"
proof -
  have e: "(upd_proc p (\<lambda>q. q\<lparr>p_state := EMBRYO, p_pid := nextpid s\<rparr>)
      (upd_proc p (\<lambda>q. q\<lparr>p_level := 0, p_usedticks := 0\<rparr>) (pptable_insert p s)))\<lparr>nextpid := nextpid s + 1\<rparr>
      = embryo p s" for p
    by (simp add: embryo_def upd_proc_def)
  show ?thesis
    using assms
    by (simp add: allocproc_def acquire_free release_locked_by cpu_ok_locked_by e Let_def
        split: option.split)
qed

lemma kalloc_ptable: "kalloc w = Ret a v \<Longrightarrow> ptable v = ptable w"
  by (auto simp: kalloc_def kmem_acquire_def kmem_release_def acquire_def release_def popcli_def
      pushcli_def Let_def outcome_simps split: if_splits)

text \<open>
  C32. No process has pid 0, yet \<open>kill(0)\<close> does not fail while a slot of the process table is free
  (free slots have pid 0): it returns 0 and marks the slot; and since \<open>allocproc\<close> does not clear the
  mark, the next process to be given that slot is killed from birth.
\<close>

theorem kill_zero_marks_free_slot:
  assumes ok: "cpu_ok s" "locks s = []"
    and free: "\<forall>i<NPROC. p_pid (ptable s i) = 0 \<longleftrightarrow> p_state (ptable s i) = UNUSED"
    and p: "first_idx NPROC (\<lambda>i. p_state (ptable s i) = UNUSED) = Some p"
  shows "\<exists>t. kill 0 s = Ret 0 t \<and> p_killed (ptable t p)
    \<and> (\<forall>q u. allocproc t = Ret (Some q) u \<longrightarrow> q = p \<and> p_killed (ptable u p))"
proof -
  have f: "find P [0..<NPROC] = find Q [0..<NPROC]" if "\<forall>i<NPROC. P i = Q i" for P Q :: "nat \<Rightarrow> bool"
    using that by (intro find_cong) auto
  have p0: "first_idx NPROC (\<lambda>i. p_pid (ptable s i) = 0) = Some p"
    using p f [OF free] by (simp add: first_idx_def)
  have up: "p_state (ptable s p) = UNUSED" using p by (rule first_idx_SomeD)
  let ?t = "upd_proc p (\<lambda>q. q\<lparr>p_killed := True\<rparr>) s"
  have k: "kill 0 s = Ret 0 ?t"
    using ok p0 up by (simp add: kill_def acquire_free release_locked_by holding_def)
  have pt: "first_idx NPROC (\<lambda>i. p_state (ptable ?t i) = UNUSED) = Some p"
    using p f [of "\<lambda>i. p_state (ptable ?t i) = UNUSED" "\<lambda>i. p_state (ptable s i) = UNUSED"]
    by (simp add: first_idx_def)
  have "q = p \<and> p_killed (ptable u p)" if "allocproc ?t = Ret (Some q) u" for q u
    using that ok pt
    by (auto simp: allocproc_eq holding_def outcome_simps Let_def embryo_def upd_proc_def
        dest!: kalloc_ptable split: if_splits)
  then show ?thesis using k by (intro exI [of _ ?t]) simp
qed

theorem kill_zero_marks_free_slot_witness:
  "\<exists>t. kill 0 (ex_kproc (Some 0) RUNNING) = Ret 0 t \<and> p_killed (ptable t 1)"
proof -
  have "first_idx NPROC (\<lambda>i. p_state (ptable (ex_kproc (Some 0) RUNNING) i) = UNUSED) = Some 1"
    by (auto simp: first_idx_Some_iff ex_defs)
  moreover have "locks (ex_kproc (Some 0) RUNNING) = []"
    "\<forall>i<NPROC. p_pid (ptable (ex_kproc (Some 0) RUNNING) i) = 0
       \<longleftrightarrow> p_state (ptable (ex_kproc (Some 0) RUNNING) i) = UNUSED"
    by (simp_all add: ex_defs)
  ultimately show ?thesis using kill_zero_marks_free_slot [OF ex_rest(1)] by blast
qed

definition pass_spread :: "nat \<Rightarrow> 'x kproc_scheme \<Rightarrow> bool" where
  "pass_spread M s \<longleftrightarrow> (\<forall>i j. active s i \<and> active s j \<longrightarrow> unat (pass_of s i) \<le> unat (pass_of s j) + M)
     \<and> (\<forall>i. active s i \<longrightarrow> unat (sp_stride (stridetable s i)) \<le> M)"



subsection \<open>The CPU as a transition system\<close>

text \<open>
  Where a process that is not running resumes: in \<open>forkret\<close>, in \<open>yield\<close>, or in \<open>sleep\<close>, with
  the value of \<open>intena\<close> that \<open>sched\<close> saved on its kernel stack. The steps: a round of the
  scheduler that finds nothing to run or that switches to a process, which returns from the call in
  which it gave up the CPU; a running process yields, sleeps in a critical section of a lock, becomes
  a ZOMBIE (the end of \<open>exit\<close>), creates a process (the beginning and the end of \<open>fork\<close>), kills, or
  asks for a share; anybody wakes a channel.
\<close>

datatype resume = ResumeForkret | ResumeYield bool | ResumeSleep lockid bool

fun resume_at :: "resume \<Rightarrow> 'x kproc_scheme \<Rightarrow> (unit, 'x kproc_scheme) outcome" where
  "resume_at ResumeForkret s = release PtableLock s"
| "resume_at (ResumeYield saved) s = yield_return saved s"
| "resume_at (ResumeSleep l saved) s = andthen (sleep_return l saved s) (\<lambda>_ s. release l s)"

inductive run_step :: "kproc \<times> (nat \<Rightarrow> resume) \<Rightarrow> kproc \<times> (nat \<Rightarrow> resume) \<Rightarrow> bool" where
  idle: "cur s = None \<Longrightarrow> scheduler_round s = Ret () t \<Longrightarrow> run_step (s, k) (t, k)"
| dispatch: "cur s = None \<Longrightarrow> scheduler_round s = Swtch t \<Longrightarrow> cur t = Some p \<Longrightarrow>
    resume_at (k p) t = Ret () u \<Longrightarrow> run_step (s, k) (u, k)"
| yields: "cur s = Some p \<Longrightarrow> yield s = Swtch t \<Longrightarrow> scheduler_back t = Ret () u \<Longrightarrow>
    run_step (s, k) (u, k(p := ResumeYield (intena t)))"
| sleeps: "cur s = Some p \<Longrightarrow> acquire l s = Ret () s' \<Longrightarrow> sleep (Some ch) (Some l) s' = Swtch t \<Longrightarrow>
    scheduler_back t = Ret () u \<Longrightarrow> run_step (s, k) (u, k(p := ResumeSleep l (intena t)))"
| exits: "cur s = Some p \<Longrightarrow> acquire PtableLock s = Ret () s' \<Longrightarrow>
    sched (upd_proc p (\<lambda>q. q\<lparr>p_state := ZOMBIE\<rparr>) s') = Swtch t \<Longrightarrow> scheduler_back t = Ret () u \<Longrightarrow>
    run_step (s, k) (u, k)"
| forks: "cur s = Some p \<Longrightarrow> allocproc s = Ret (Some np) t \<Longrightarrow>
    run_step (s, k) (upd_proc np (\<lambda>q. q\<lparr>p_state := RUNNABLE, p_pgdir := g\<rparr>) t, k(np := ResumeForkret))"
| kills: "cur s = Some p \<Longrightarrow> kill pid s = Ret r t \<Longrightarrow> run_step (s, k) (t, k)"
| shares: "cur s = Some p \<Longrightarrow> set_cpu_share percent s = Ret r t \<Longrightarrow> run_step (s, k) (t, k)"
| wakes: "wakeup ch s = Ret () t \<Longrightarrow> run_step (s, k) (t, k)"

text \<open>Between two steps the CPU holds no lock and runs exactly the process that is RUNNING.\<close>

definition at_rest :: "'x kproc_scheme \<Rightarrow> bool" where
  "at_rest s \<longleftrightarrow> ncli s = 0 \<and> locks s = [] \<and> intena s = eflags_IF s"

definition one_running :: "'x kproc_scheme \<Rightarrow> bool" where
  "one_running s \<longleftrightarrow> (\<forall>p. p_state (ptable s p) = RUNNING \<longleftrightarrow> cur s = Some p)"

definition run_inv :: "kproc \<times> (nat \<Rightarrow> resume) \<Rightarrow> bool" where
  "run_inv = (\<lambda>(s, k). at_rest s \<and> one_running s)"

definition run_init :: "kproc \<times> (nat \<Rightarrow> resume) \<Rightarrow> bool" where
  "run_init = (\<lambda>(s, k). at_rest s \<and> cur s = None \<and> (\<forall>p. p_state (ptable s p) \<noteq> RUNNING))"

lemma at_rest_ok: "at_rest s \<Longrightarrow> cpu_ok s" "at_rest s \<Longrightarrow> \<not> holding l s"
  by (simp_all add: at_rest_def cpu_ok_def holding_def)

definition same_cpu :: "'x kproc_scheme \<Rightarrow> 'x kproc_scheme \<Rightarrow> bool" where
  "same_cpu s t \<longleftrightarrow> ncli t = ncli s \<and> locks t = locks s \<and> eflags_IF t = eflags_IF s \<and> intena t = intena s"

lemma swtch_to_Swtch:
  assumes "swtch_to p s = Swtch t" and "cpu_ok s"
  shows "same_cpu s t \<and> cur t = Some p
    \<and> (\<forall>q. p_state (ptable t q) = (if q = p then RUNNING else p_state (ptable s q)))"
proof -
  have "loadable (s\<lparr>cur := Some p\<rparr>) p"
    using assms(1) by (auto simp: swtch_to_def switchuvm_def loadable_def split: if_splits)
  then show ?thesis
    using assms switchuvm_eq [of "s\<lparr>cur := Some p\<rparr>" p]
    by (auto simp: swtch_to_def same_cpu_def upd_proc_def)
qed

lemma swtch_to_not_Ret: "swtch_to p s \<noteq> Ret a t"
  by (simp add: swtch_to_def outcome_simps)

lemma MLFQ_scheduler_Swtch:
  assumes "MLFQ_scheduler s = Swtch t" and "cpu_ok s"
  shows "\<exists>p. same_cpu s t \<and> cur t = Some p
    \<and> (\<forall>q. p_state (ptable t q) = (if q = p then RUNNING else p_state (ptable s q)))"
proof -
  obtain p u where "swtch_to p u = Swtch t" "cpu_ok u" "same_cpu s u"
      "\<forall>q. p_state (ptable u q) = p_state (ptable s q)"
    using assms
    by (fastforce simp: MLFQ_scheduler_cases same_cpu_def demoted_def upd_stride_def upd_proc_def
        split: if_splits option.splits)
  then show ?thesis using swtch_to_Swtch [of p u t] by (auto simp: same_cpu_def)
qed

lemma MLFQ_scheduler_Ret:
  assumes "MLFQ_scheduler s = Ret () t"
  shows "same_cpu s t \<and> cur t = cur s \<and> (\<forall>q. p_state (ptable t q) = p_state (ptable s q))"
  using assms swtch_to_not_Ret
  by (auto simp: MLFQ_scheduler_cases same_cpu_def demoted_def upd_stride_def upd_proc_def
      split: if_splits option.splits)

lemma remove_stride_frame:
  "remove_stride s = Ret () t \<Longrightarrow> same_cpu s t \<and> cur t = cur s \<and> ptable t = ptable s"
  "remove_stride s \<noteq> Swtch t"
  by (auto simp: remove_stride_def udiv_def Let_def same_cpu_def upd_stride_def split: if_splits)

text \<open>A round of the scheduler from a state at rest.\<close>

lemma scheduler_round_Swtch:
  assumes "at_rest s" and "scheduler_round s = Swtch t"
  shows "ncli t = 1 \<and> locks t = [PtableLock] \<and> \<not> eflags_IF t
    \<and> (\<exists>p. cur t = Some p \<and> (\<forall>q. p_state (ptable t q) = (if q = p then RUNNING else p_state (ptable s q))))"
proof -
  let ?s0 = "s\<lparr>eflags_IF := True\<rparr>"
  let ?s1 = "(locked_by PtableLock ?s0)\<lparr>current := minpindex (locked_by PtableLock ?s0)\<rparr>"
  have top: "ncli ?s0 = 0" "locks ?s0 = []" using assms(1) by (simp_all add: at_rest_def)
  have c: "ncli ?s1 = 1" "locks ?s1 = [PtableLock]" "\<not> eflags_IF ?s1" and ok: "cpu_ok ?s1"
    using top by (simp_all add: locked_by_def pushcli_def cpu_ok_def)
  have r: "release l u \<noteq> Swtch t" for l and u :: "'a kproc_scheme"
    by (simp add: release_def popcli_def)
  have "MLFQ_scheduler ?s1 = Swtch t"
    using assms(2) acquire_top [OF top, of PtableLock] remove_stride_frame(2) r
    by (auto simp: scheduler_round_def outcome_simps Let_def split: if_splits)
  then show ?thesis
    using MLFQ_scheduler_Swtch [OF _ ok, of t] c by (auto simp: same_cpu_def)
qed

lemma scheduler_round_Ret:
  assumes "at_rest s" and "scheduler_round s = Ret () t"
  shows "at_rest t \<and> cur t = cur s \<and> (\<forall>q. p_state (ptable t q) = p_state (ptable s q))"
proof -
  let ?s0 = "s\<lparr>eflags_IF := True\<rparr>"
  let ?s1 = "(locked_by PtableLock ?s0)\<lparr>current := minpindex (locked_by PtableLock ?s0)\<rparr>"
  have top: "ncli ?s0 = 0" "locks ?s0 = []" using assms(1) by (simp_all add: at_rest_def)
  have c: "ncli ?s1 = 1" "locks ?s1 = [PtableLock]" "\<not> eflags_IF ?s1" "intena ?s1"
    using top by (simp_all add: locked_by_def pushcli_def)
  obtain u where u: "remove_stride ?s1 = Ret () u \<or> MLFQ_scheduler ?s1 = Ret () u"
    "release PtableLock u = Ret () t"
    using assms(2) acquire_top [OF top, of PtableLock]
    by (auto simp: scheduler_round_def outcome_simps Let_def split: if_splits)
  then have f: "same_cpu ?s1 u \<and> cur u = cur s \<and> (\<forall>q. p_state (ptable u q) = p_state (ptable s q))"
    using remove_stride_frame(1) [of ?s1 u] MLFQ_scheduler_Ret [of ?s1 u] by auto
  then have "release PtableLock u = Ret () (u\<lparr>locks := [], ncli := 0, eflags_IF := intena u\<rparr>)"
    using c by (intro release_top) (auto simp: same_cpu_def)
  then show ?thesis using u(2) f by (auto simp: at_rest_def)
qed

text \<open>Resuming restores a state at rest.\<close>

lemma resume_at_Ret:
  assumes "resume_at k t = Ret () u" and "ncli t = 1" "locks t = [PtableLock]" "\<not> eflags_IF t"
  shows "at_rest u \<and> cur u = cur t \<and> (\<forall>q. p_state (ptable u q) = p_state (ptable t q))"
proof (cases k)
  case ResumeForkret
  then show ?thesis using assms release_top [of t PtableLock] by (auto simp: at_rest_def)
next
  case (ResumeYield b)
  then show ?thesis
    using assms release_top [of "t\<lparr>intena := b\<rparr>" PtableLock]
    by (auto simp: yield_return_def sched_return_def at_rest_def)
next
  case (ResumeSleep l b)
  let ?t = "upd_proc (the (cur t)) (\<lambda>q. q\<lparr>p_chan := None\<rparr>) (t\<lparr>intena := b\<rparr>)"
  have t: "ncli ?t = 1" "locks ?t = [PtableLock]" "\<not> eflags_IF ?t" using assms by (simp_all add: upd_proc_def)
  let ?v = "?t\<lparr>locks := [], ncli := 0, eflags_IF := intena ?t\<rparr>"
  have rel: "release PtableLock ?t = Ret () ?v" using release_top [OF t] .
  have v: "at_rest ?v" "cur ?v = cur t" "\<And>q. p_state (ptable ?v q) = p_state (ptable t q)"
    by (simp_all add: at_rest_def upd_proc_def)
  have "release l (locked_by l ?v) = Ret () ?v" using at_rest_ok(1) [OF v(1)] by (rule release_locked_by)
  moreover have "acquire l ?v = Ret () (locked_by l ?v)"
    using v(1) by (intro acquire_top) (simp_all add: at_rest_def)
  ultimately have "u = ?v"
    using assms(1) ResumeSleep rel by (auto simp: sleep_return_def sched_return_def outcome_simps Let_def split: if_splits)
  then show ?thesis using v by simp
qed

text \<open>Giving up the CPU: the scheduler is back at rest, with nobody running.\<close>

lemma leaves_cpu:
  assumes "sched u = Swtch t" and "scheduler_back t = Ret () v" and "cur u = Some p"
    and "ncli u = 1" "locks u = [PtableLock]" "\<not> eflags_IF u" "p_state (ptable u p) \<noteq> RUNNING"
  shows "at_rest v \<and> cur v = None \<and> (\<forall>q. p_state (ptable v q) = p_state (ptable u q))"
proof -
  have t: "t = charged u" using sched_switches [of u p] assms by simp
  have "ncli t = 1" "locks t = [PtableLock]" "\<not> eflags_IF t" using t assms by simp_all
  from scheduler_back_eq [OF this] show ?thesis using assms(2) t by (auto simp: at_rest_def)
qed

lemma yield_at_rest:
  assumes "at_rest s" and "cur s = Some p"
  shows "yield s = Swtch (charged (upd_proc p (\<lambda>q. q\<lparr>p_state := RUNNABLE\<rparr>) (locked_by PtableLock s)))"
proof -
  have top: "ncli s = 0" "locks s = []" using assms(1) by (simp_all add: at_rest_def)
  have "sched (upd_proc p (\<lambda>q. q\<lparr>p_state := RUNNABLE\<rparr>) (locked_by PtableLock s))
      = Swtch (charged (upd_proc p (\<lambda>q. q\<lparr>p_state := RUNNABLE\<rparr>) (locked_by PtableLock s)))"
    using top assms(2) by (intro sched_switches [where p = p])
      (simp_all add: locked_by_def pushcli_def upd_proc_def)
  then show ?thesis using assms(2) by (simp add: yield_def acquire_top [OF top])
qed

lemma kalloc_frame: "kalloc w = Ret a v \<Longrightarrow> cpu_ok w \<Longrightarrow>
    ptable v = ptable w \<and> cur v = cur w \<and> same_cpu w v"
  by (cases "use_lock w")
    (auto simp: kalloc_def kmem_acquire_def kmem_release_def acquire_def release_def popcli_def cpu_ok_def
      pushcli_def same_cpu_def holding_def Let_def outcome_simps split: if_splits)

lemma embryo_frame [simp]:
  "cur (embryo p s) = cur s" "ncli (embryo p s) = ncli s" "locks (embryo p s) = locks s"
  "eflags_IF (embryo p s) = eflags_IF s" "intena (embryo p s) = intena s"
  "ptable (embryo p s) = (ptable s)(p := (ptable s p)\<lparr>p_level := 0, p_usedticks := 0, p_state := EMBRYO,
     p_pid := nextpid s\<rparr>)"
  by (auto simp: embryo_def upd_proc_def pptable_insert_def upd_stride_def split: option.splits)

lemma set_cpu_share_frame:
  assumes "at_rest s" and "set_cpu_share percent s = Ret r t"
  shows "same_cpu s t \<and> cur t = cur s \<and> ptable t = ptable s"
proof -
  have ok: "cpu_ok s" "\<not> holding PtableLock s" "\<not> holding StrideLock s"
    using assms(1) by (simp_all add: at_rest_ok)
  have mv: "\<exists>f. w = locked_by PtableLock (v\<lparr>stridetable := f\<rparr>)"
    if "move_lwps k [0..<NPROC] 0 (locked_by PtableLock v) = Ret () w" "cpu_ok v"
      "\<not> holding PtableLock v" "\<not> holding StrideLock v" for k w v
    using that move_lwps_same [of "locked_by PtableLock v" k "[0..<NPROC]" 0]
    by (auto simp: same_shares_def cpu_ok_locked_by)
  show ?thesis
    using assms(2) ok
    by (auto simp: set_cpu_share_def acquire_free Let_def udiv_def upd_stride_def outcome_simps
        release_locked_by same_cpu_def dest!: mv split: if_splits option.splits)
qed

lemma sleep_at_rest:
  assumes "at_rest s" and "cur s = Some p" and "acquire l s = Ret () s'"
    and "sleep (Some ch) (Some l) s' = Swtch t" and "scheduler_back t = Ret () u"
  shows "at_rest u \<and> cur u = None
    \<and> (\<forall>q. p_state (ptable u q) = (if q = p then SLEEPING else p_state (ptable s q)))"
proof -
  have top: "ncli s = 0" "locks s = []" using assms(1) by (simp_all add: at_rest_def)
  have s': "s' = locked_by l s" using acquire_top [OF top, of l] assms(3) by simp
  obtain w where w: "t = charged (asleep ch w)" "ncli w = 1" "locks w = [PtableLock]" "\<not> eflags_IF w"
    "cur w = cur s" "ptable w = ptable s"
    using sleep_switches [OF top assms(2), of ch l] assms(4) unfolding s' by auto
  have t: "ncli t = 1" "locks t = [PtableLock]" "\<not> eflags_IF t"
    using w by (simp_all add: asleep_def upd_proc_def)
  show ?thesis
    using scheduler_back_eq [OF t] assms(2,5) w by (auto simp: at_rest_def asleep_def)
qed

lemma run_inv_step:
  assumes "run_inv c" and "run_step c c'"
  shows "run_inv c'"
  using assms(2,1)
proof (induction rule: run_step.induct)
  case (idle s t k)
  then show ?case using scheduler_round_Ret [of s t] by (auto simp: run_inv_def one_running_def)
next
  case (dispatch s t p k u)
  then have "at_rest s" by (simp add: run_inv_def)
  from scheduler_round_Swtch [OF this dispatch(2)] dispatch show ?case
    using resume_at_Ret [OF dispatch(4)] by (auto simp: run_inv_def one_running_def)
next
  case (yields s p t u k)
  then have r: "at_rest s" by (simp add: run_inv_def)
  then have top: "ncli s = 0" "locks s = []" by (simp_all add: at_rest_def)
  let ?w = "upd_proc p (\<lambda>q. q\<lparr>p_state := RUNNABLE\<rparr>) (locked_by PtableLock s)"
  have "sched ?w = Swtch t" using yields(1,2) by (simp add: yield_def acquire_top [OF top])
  then have "at_rest u \<and> cur u = None \<and> (\<forall>q. p_state (ptable u q) = p_state (ptable ?w q))"
    using yields(1,3) top by (intro leaves_cpu [of ?w t u p])
      (simp_all add: locked_by_def pushcli_def upd_proc_def)
  then show ?case using yields by (auto simp: run_inv_def one_running_def)
next
  case (sleeps s p l s' ch t u k)
  then have "at_rest s" by (simp add: run_inv_def)
  from sleep_at_rest [OF this sleeps(1-4)] show ?case
    using sleeps by (auto simp: run_inv_def one_running_def)
next
  case (exits s p s' t u k)
  then have "at_rest s" by (simp add: run_inv_def)
  then have top: "ncli s = 0" "locks s = []" by (simp_all add: at_rest_def)
  have s': "s' = locked_by PtableLock s" using exits(2) by (simp add: acquire_top [OF top])
  let ?w = "upd_proc p (\<lambda>q. q\<lparr>p_state := ZOMBIE\<rparr>) s'"
  have "at_rest u \<and> cur u = None \<and> (\<forall>q. p_state (ptable u q) = p_state (ptable ?w q))"
    using exits top s' by (intro leaves_cpu [of ?w t u p])
      (simp_all add: locked_by_def pushcli_def upd_proc_def)
  then show ?case using exits s' by (auto simp: run_inv_def one_running_def)
next
  case (forks s p np t g k)
  then have r: "at_rest s" by (simp add: run_inv_def)
  have np: "p_state (ptable s np) = UNUSED" "cur t = cur s" "same_cpu s t"
      "\<forall>q. q \<noteq> np \<longrightarrow> p_state (ptable t q) = p_state (ptable s q)"
    using forks(2) at_rest_ok [OF r]
    by (auto simp: allocproc_eq outcome_simps Let_def same_cpu_def upd_proc_def
        dest!: kalloc_frame first_idx_SomeD(2) split: option.splits if_splits)
  have "cur s \<noteq> Some np"
    using forks(3) np(1) by (auto simp: run_inv_def one_running_def dest: spec [of _ np])
  then show ?case
    using forks r np by (auto simp: run_inv_def one_running_def at_rest_def same_cpu_def upd_proc_def)
next
  case (kills s p pid r t k)
  then have "at_rest s" by (simp add: run_inv_def)
  then have "same_cpu s t \<and> cur t = cur s
      \<and> (\<forall>q. (p_state (ptable t q) = RUNNING) = (p_state (ptable s q) = RUNNING))"
    using kills(2)
    by (auto simp: kill_def acquire_free release_locked_by at_rest_ok Let_def upd_proc_def same_cpu_def
        split: option.splits if_splits)
  then show ?case using kills(3) by (auto simp: run_inv_def one_running_def at_rest_def same_cpu_def)
next
  case (shares s p percent r t k)
  then show ?case
    using set_cpu_share_frame [of s percent r t] by (auto simp: run_inv_def one_running_def at_rest_def same_cpu_def)
next
  case (wakes ch s t k)
  then have "t = wakeup1 ch s" by (simp add: wakeup_eq at_rest_ok run_inv_def)
  then have "same_cpu s t \<and> cur t = cur s
      \<and> (\<forall>q. (p_state (ptable t q) = RUNNING) = (p_state (ptable s q) = RUNNING))"
    by (auto simp: wakeup1_def same_cpu_def)
  then show ?case using wakes(2) by (auto simp: run_inv_def one_running_def at_rest_def same_cpu_def)
qed

interpretation cpu_run: invariant_system run_init run_step run_inv
proof
  show "run_inv c" if "run_init c" for c
    using that by (auto simp: run_init_def run_inv_def one_running_def)
  show "run_inv c'" if "run_inv c" "run_step c c'" for c c'
    using that by (rule run_inv_step)
qed

subsection \<open>Properties: every run\<close>



lemma scheduler_round_ex:
  "\<exists>t. scheduler_round (ex_kproc None RUNNABLE) = Swtch t \<and> cur t = Some 0"
proof -
  let ?s = "(locked_by PtableLock ((ex_kproc None RUNNABLE)\<lparr>eflags_IF := True\<rparr>))\<lparr>current := 0\<rparr>"
  have m: "minpindex (locked_by PtableLock ((ex_kproc None RUNNABLE)\<lparr>eflags_IF := True\<rparr>)) = 0"
    using ex_minpindex [of None RUNNABLE]
      minpass_loop_cong [of "locked_by PtableLock ((ex_kproc None RUNNABLE)\<lparr>eflags_IF := True\<rparr>)" "ex_kproc None RUNNABLE"]
    by (simp add: minpindex_def)
  have "\<exists>t. MLFQ_scheduler ?s = Swtch t \<and> runs_on ?s 0 t"
    by (rule MLFQ_scheduler_continues)
      (simp_all add: cpu_ok_def locked_by_def pushcli_def loadable_def continues_def quantum_def ex_defs)
  then show ?thesis
    using acquire_top [of "(ex_kproc None RUNNABLE)\<lparr>eflags_IF := True\<rparr>" PtableLock] m
    by (auto simp: scheduler_round_def runs_on_def Let_def) (auto simp: ex_defs split: if_splits)
qed



end
