(* ===== verification/Bio.thy ===== *)
theory Bio
  imports Sched_Run
begin

text \<open>
  Sleep locks (\<open>src/xv6-public/sleeplock.c\<close>), the buffer cache (\<open>bio.c\<close>, \<open>buf.h\<close>) and the
  memory disk (\<open>memide.c\<close>).

  A block is a function from the byte offset. Buffers are numbered from 0; number \<open>NBUF\<close> is
  \<open>bcache.head\<close>, the struct that follows the array, so \<open>prev\<close> and \<open>next\<close> are indices. The
  \<open>lock\<close> field of the buffer \<open>b\<close> is the sleep lock \<open>(0, b)\<close>, the one of the inode \<open>i\<close> (see
  \<open>Fs\<close>) is \<open>(1, i)\<close>. A process that finds a sleep lock taken leaves the CPU inside the loop of
  \<open>acquiresleep\<close>.

  The memory disk does each transfer at once. \<open>disk_writes\<close> records the blocks written, in order;
  no operation reads it: it says which states of the disk a crash can leave behind.
\<close>

subsection \<open>Sleep locks\<close>

record sleeplock =
  sl_locked :: bool
  sl_pid :: int

record ksleep = kproc +
  slocks :: "nat \<times> nat \<Rightarrow> sleeplock"

abbreviation SleepLock :: "nat \<times> nat \<Rightarrow> lockid" where
  "SleepLock l \<equiv> SleepLk (fst l) (snd l)"

abbreviation SleepChan :: "nat \<times> nat \<Rightarrow> chan" where
  "SleepChan l \<equiv> SleeplockChan (fst l) (snd l)"

definition initsleeplock :: "nat \<times> nat \<Rightarrow> 'x ksleep_scheme \<Rightarrow> 'x ksleep_scheme" where
  "initsleeplock l s = s\<lparr>slocks := (slocks s)(l := \<lparr>sl_locked = False, sl_pid = 0\<rparr>)\<rparr>"

definition acquiresleep :: "nat \<times> nat \<Rightarrow> 'x ksleep_scheme \<Rightarrow> (unit, 'x ksleep_scheme) outcome" where
  "acquiresleep l s =
     andthen (acquire (SleepLock l) s) (\<lambda>_ s.
       if sl_locked (slocks s l) then sleep (Some (SleepChan l)) (Some (SleepLock l)) s
       else
         let s = s\<lparr>slocks := (slocks s)(l := \<lparr>sl_locked = True, sl_pid = p_pid (ptable s (the (cur s)))\<rparr>)\<rparr> in
         release (SleepLock l) s)"

definition releasesleep :: "nat \<times> nat \<Rightarrow> 'x ksleep_scheme \<Rightarrow> (unit, 'x ksleep_scheme) outcome" where
  "releasesleep l s =
     andthen (acquire (SleepLock l) s) (\<lambda>_ s.
       let s = s\<lparr>slocks := (slocks s)(l := \<lparr>sl_locked = False, sl_pid = 0\<rparr>)\<rparr> in
       andthen (wakeup (Some (SleepChan l)) s) (\<lambda>_ s. release (SleepLock l) s))"

definition holdingsleep :: "nat \<times> nat \<Rightarrow> 'x ksleep_scheme \<Rightarrow> (bool, 'x ksleep_scheme) outcome" where
  "holdingsleep l s =
     andthen (acquire (SleepLock l) s) (\<lambda>_ s.
       let r = sl_locked (slocks s l) in
       andthen (release (SleepLock l) s) (\<lambda>_ s. Ret r s))"

subsection \<open>Buffers and the disk\<close>

abbreviation NBUF :: nat where "NBUF \<equiv> 30"
abbreviation BSIZE :: nat where "BSIZE \<equiv> 512"

type_synonym block = "nat \<Rightarrow> u8"

text \<open>The flag bits \<open>B_VALID\<close> and \<open>B_DIRTY\<close> are two booleans; \<open>flags = 0\<close> clears both.\<close>

record buf =
  b_valid :: bool
  b_dirty :: bool
  b_dev :: u32
  b_blockno :: u32
  b_refcnt :: u32
  b_prev :: nat
  b_next :: nat
  b_data :: block

record kbio = ksleep +
  bufs :: "nat \<Rightarrow> buf"
  disk :: "u32 \<Rightarrow> block"
  disksize :: u32
  disk_writes :: "(u32 \<times> block) list"

definition upd_buf :: "nat \<Rightarrow> (buf \<Rightarrow> buf) \<Rightarrow> 'x kbio_scheme \<Rightarrow> 'x kbio_scheme" where
  "upd_buf b f s = s\<lparr>bufs := (bufs s)(b := f (bufs s b))\<rparr>"

definition ideinit :: "(u32 \<Rightarrow> block) \<Rightarrow> u32 \<Rightarrow> 'x kbio_scheme \<Rightarrow> 'x kbio_scheme" where
  "ideinit img imgsize s = s\<lparr>disk := img, disksize := imgsize div 512\<rparr>"

definition iderw :: "nat \<Rightarrow> 'x kbio_scheme \<Rightarrow> (unit, 'x kbio_scheme) outcome" where
  "iderw b s =
     andthen (holdingsleep (0, b) s) (\<lambda>h s.
       if \<not> h then Panic ''iderw: buf not locked''
       else if b_valid (bufs s b) \<and> \<not> b_dirty (bufs s b) then Panic ''iderw: nothing to do''
       else if b_dev (bufs s b) \<noteq> 1 then Panic ''iderw: request not for disk 1''
       else if b_blockno (bufs s b) \<ge> disksize s then Panic ''iderw: block out of range''
       else
         let n = b_blockno (bufs s b) in
         if b_dirty (bufs s b) then
           let s = upd_buf b (\<lambda>bf. bf\<lparr>b_dirty := False\<rparr>) s;
               s = s\<lparr>disk := (disk s)(n := b_data (bufs s b)), disk_writes := disk_writes s @ [(n, b_data (bufs s b))]\<rparr> in
           Ret () (upd_buf b (\<lambda>bf. bf\<lparr>b_valid := True\<rparr>) s)
         else
           let s = upd_buf b (\<lambda>bf. bf\<lparr>b_data := disk s n\<rparr>) s in
           Ret () (upd_buf b (\<lambda>bf. bf\<lparr>b_valid := True\<rparr>) s))"

subsection \<open>The buffer cache\<close>

text \<open>Putting a buffer behind the head: the last four assignments of \<open>binit\<close>'s loop and of \<open>brelse\<close>.\<close>

definition link_front :: "nat \<Rightarrow> 'x kbio_scheme \<Rightarrow> 'x kbio_scheme" where
  "link_front b s =
     (let s = upd_buf b (\<lambda>bf. bf\<lparr>b_next := b_next (bufs s NBUF)\<rparr>) s;
          s = upd_buf b (\<lambda>bf. bf\<lparr>b_prev := NBUF\<rparr>) s;
          s = upd_buf (b_next (bufs s NBUF)) (\<lambda>bf. bf\<lparr>b_prev := b\<rparr>) s in
      upd_buf NBUF (\<lambda>bf. bf\<lparr>b_next := b\<rparr>) s)"

definition binit :: "'x kbio_scheme \<Rightarrow> 'x kbio_scheme" where
  "binit s =
     (let s = upd_buf NBUF (\<lambda>bf. bf\<lparr>b_prev := NBUF, b_next := NBUF\<rparr>) s in
      fold (\<lambda>b s. link_front b (initsleeplock (0, b) s)) [0..<NBUF] s)"

text \<open>
  A walk along the list until a buffer with the property or the head is found. The fuel bounds the
  walk by the number of list nodes; on the circular list that \<open>binit\<close> builds and \<open>brelse\<close> keeps, it
  is never used up (\<open>walk_chain\<close>).
\<close>

fun walk :: "nat \<Rightarrow> (nat \<Rightarrow> nat) \<Rightarrow> (nat \<Rightarrow> bool) \<Rightarrow> nat \<Rightarrow> nat option" where
  "walk 0 nx P b = None"
| "walk (Suc k) nx P b = (if b = NBUF then None else if P b then Some b else walk k nx P (nx b))"

definition bget :: "u32 \<Rightarrow> u32 \<Rightarrow> 'x kbio_scheme \<Rightarrow> (nat, 'x kbio_scheme) outcome" where
  "bget dev blockno s =
     andthen (acquire BcacheLock s) (\<lambda>_ s.
       case walk (Suc NBUF) (\<lambda>b. b_next (bufs s b))
              (\<lambda>b. b_dev (bufs s b) = dev \<and> b_blockno (bufs s b) = blockno) (b_next (bufs s NBUF)) of
         Some b \<Rightarrow>
           let s = upd_buf b (\<lambda>bf. bf\<lparr>b_refcnt := b_refcnt bf + 1\<rparr>) s in
           andthen (release BcacheLock s) (\<lambda>_ s.
           andthen (acquiresleep (0, b) s) (\<lambda>_ s. Ret b s))
       | None \<Rightarrow>
         (case walk (Suc NBUF) (\<lambda>b. b_prev (bufs s b))
                (\<lambda>b. b_refcnt (bufs s b) = 0 \<and> \<not> b_dirty (bufs s b)) (b_prev (bufs s NBUF)) of
            Some b \<Rightarrow>
              let s = upd_buf b (\<lambda>bf. bf\<lparr>b_dev := dev, b_blockno := blockno, b_valid := False, b_dirty := False,
                        b_refcnt := 1\<rparr>) s in
              andthen (release BcacheLock s) (\<lambda>_ s.
              andthen (acquiresleep (0, b) s) (\<lambda>_ s. Ret b s))
          | None \<Rightarrow> Panic ''bget: no buffers''))"

definition bread :: "u32 \<Rightarrow> u32 \<Rightarrow> 'x kbio_scheme \<Rightarrow> (nat, 'x kbio_scheme) outcome" where
  "bread dev blockno s =
     andthen (bget dev blockno s) (\<lambda>b s.
       if \<not> b_valid (bufs s b) then andthen (iderw b s) (\<lambda>_ s. Ret b s) else Ret b s)"

definition bwrite :: "nat \<Rightarrow> 'x kbio_scheme \<Rightarrow> (unit, 'x kbio_scheme) outcome" where
  "bwrite b s =
     andthen (holdingsleep (0, b) s) (\<lambda>h s.
       if \<not> h then Panic ''bwrite''
       else iderw b (upd_buf b (\<lambda>bf. bf\<lparr>b_dirty := True\<rparr>) s))"

definition unlink_buf :: "nat \<Rightarrow> 'x kbio_scheme \<Rightarrow> 'x kbio_scheme" where
  "unlink_buf b s =
     (let s = upd_buf (b_next (bufs s b)) (\<lambda>bf. bf\<lparr>b_prev := b_prev (bufs s b)\<rparr>) s in
      upd_buf (b_prev (bufs s b)) (\<lambda>bf. bf\<lparr>b_next := b_next (bufs s b)\<rparr>) s)"

definition brelse :: "nat \<Rightarrow> 'x kbio_scheme \<Rightarrow> (unit, 'x kbio_scheme) outcome" where
  "brelse b s =
     andthen (holdingsleep (0, b) s) (\<lambda>h s.
       if \<not> h then Panic ''brelse''
       else
         andthen (releasesleep (0, b) s) (\<lambda>_ s.
         andthen (acquire BcacheLock s) (\<lambda>_ s.
         let s = upd_buf b (\<lambda>bf. bf\<lparr>b_refcnt := b_refcnt bf - 1\<rparr>) s;
             s = (if b_refcnt (bufs s b) = 0 then link_front b (unlink_buf b s) else s) in
         release BcacheLock s)))"

end
