(* ===== verification/Bio_Props.thy ===== *)
theory Bio_Props
  imports Bio
begin

text \<open>
  The buffer cache refines a map from block numbers to contents. The linked list of buffers is a
  permutation of them in order of use; \<open>bread\<close>, \<open>bwrite\<close> and \<open>brelse\<close> keep it, keep at most one
  buffer per block, and keep the clean buffers equal to the disk. \<open>view\<close> is the content of a block
  as the kernel sees it: the cached copy if there is one, the disk's otherwise.
\<close>

subsection \<open>The list of buffers\<close>

fun path :: "(nat \<Rightarrow> nat) \<Rightarrow> nat \<Rightarrow> nat list \<Rightarrow> nat \<Rightarrow> bool" where
  "path nx a [] e \<longleftrightarrow> nx a = e"
| "path nx a (x # xs) e \<longleftrightarrow> nx a = x \<and> path nx x xs e"

lemma path_append: "path nx a (ys @ x # zs) e \<longleftrightarrow> path nx a ys x \<and> path nx x zs e"
  by (induction ys arbitrary: a) auto

lemma path_hd: "path nx a xs e \<Longrightarrow> nx a = hd (xs @ [e])"
  by (cases xs) auto

lemma path_cong: "\<forall>x\<in>set (a # xs). nx x = nx' x \<Longrightarrow> path nx a xs e = path nx' a xs e"
  by (induction xs arbitrary: a) auto

lemma path_upd_other: "b \<notin> set (a # xs) \<Longrightarrow> path (nx(b := c)) a xs e = path nx a xs e"
  by (rule path_cong) auto

text \<open>Taking \<open>b\<close> out, and putting \<open>b\<close> in at one end.\<close>

lemma path_splice:
  "path nx a ys b \<Longrightarrow> path nx b zs e \<Longrightarrow> distinct (a # ys @ zs) \<Longrightarrow>
   path (nx(last (a # ys) := nx b)) a (ys @ zs) e"
proof (induction ys arbitrary: a)
  case Nil
  then show ?case
  proof (cases zs)
    case (Cons z zs')
    then have "path (nx(a := nx b)) z zs' e"
      using Nil path_upd_other [of a z zs' nx "nx b" e] by simp
    moreover have "nx b = z" using Nil(2) Cons by simp
    ultimately have "path (nx(a := nx b)) a zs e" unfolding Cons path.simps by simp
    then show ?thesis unfolding append_Nil last_ConsL [OF refl] .
  qed simp
next
  case (Cons y ys)
  have "path (nx(last (y # ys) := nx b)) y (ys @ zs) e" using Cons.prems by (intro Cons.IH) auto
  moreover have "a \<noteq> last (y # ys)" using Cons.prems(3) by (auto dest: last_in_set split: if_splits)
  moreover have "last (a # y # ys) = last (y # ys)" by simp
  ultimately show ?case using Cons.prems(1) by (metis append_Cons fun_upd_other path.simps(2))
qed

lemma path_insert_first:
  assumes "path nx a xs e" "b \<notin> set (a # xs)" "a \<notin> set xs"
  shows "path (nx(b := nx a, a := b)) a (b # xs) e"
proof -
  have "path (nx(b := nx a, a := b)) b xs e"
  proof (cases xs)
    case (Cons x xs')
    then have "path (nx(b := nx a, a := b)) x xs' e"
      using assms path_upd_other [of a x xs' "nx(b := nx a)" b e] path_upd_other [of b x xs' nx "nx a" e] by simp
    then show ?thesis using assms Cons by auto
  qed (use assms in auto)
  then show ?thesis by simp
qed

lemma path_redirect:
  "path nx a xs e \<Longrightarrow> distinct (a # xs) \<Longrightarrow> path (nx(last (a # xs) := b)) a xs b"
proof (induction xs arbitrary: a)
  case (Cons x xs)
  have "path (nx(last (x # xs) := b)) x xs b" using Cons.prems by (intro Cons.IH) auto
  moreover have "a \<noteq> last (x # xs)" using Cons.prems(2) by (auto dest: last_in_set split: if_splits)
  moreover have "last (a # x # xs) = last (x # xs)" by simp
  ultimately show ?case using Cons.prems(1) by (metis fun_upd_other path.simps(2))
qed simp

lemma path_insert_last:
  assumes "path nx a xs e" "b \<notin> set (a # xs)" "distinct (a # xs)"
  shows "path (nx(b := e, last (a # xs) := b)) a (xs @ [b]) e"
proof -
  have ne: "last (a # xs) \<noteq> b" using assms(2) last_in_set [of "a # xs"] by auto
  have "path (nx(b := e)) a xs e" using assms(1,2) path_upd_other [of b a xs nx e e] by blast
  then have "path (nx(b := e, last (a # xs) := b)) a xs b" using assms(3) by (rule path_redirect)
  moreover have "path (nx(b := e, last (a # xs) := b)) b [] e" using ne by (simp del: last.simps)
  ultimately show ?thesis unfolding path_append by blast
qed

lemma walk_chain:
  "path nx a xs NBUF \<Longrightarrow> NBUF \<notin> set xs \<Longrightarrow> length xs \<le> k \<Longrightarrow> walk (Suc k) nx P (nx a) = find P xs"
proof (induction xs arbitrary: a k)
  case (Cons x xs)
  then obtain j where "k = Suc j" by (cases k) auto
  then show ?case using Cons by auto
qed auto

definition lru_ok :: "(nat \<Rightarrow> buf) \<Rightarrow> nat list \<Rightarrow> bool" where
  "lru_ok bf xs \<longleftrightarrow> path (\<lambda>b. b_next (bf b)) NBUF xs NBUF \<and> path (\<lambda>b. b_prev (bf b)) NBUF (rev xs) NBUF
     \<and> distinct xs \<and> set xs = {..<NBUF}"

lemma lru_ok_length: "lru_ok bf xs \<Longrightarrow> length xs = NBUF"
  by (metis card_lessThan distinct_card lru_ok_def)

lemma lru_ok_cong:
  "(\<And>b. b_next (bf b) = b_next (bf' b)) \<Longrightarrow> (\<And>b. b_prev (bf b) = b_prev (bf' b)) \<Longrightarrow>
   lru_ok bf xs = lru_ok bf' xs"
  by (simp add: lru_ok_def)

lemma lru_walks:
  assumes "lru_ok bf xs"
  shows "walk (Suc NBUF) (\<lambda>b. b_next (bf b)) P (b_next (bf NBUF)) = find P xs"
    and "walk (Suc NBUF) (\<lambda>b. b_prev (bf b)) P (b_prev (bf NBUF)) = find P (rev xs)"
proof -
  have p: "path (\<lambda>b. b_next (bf b)) NBUF xs NBUF" "path (\<lambda>b. b_prev (bf b)) NBUF (rev xs) NBUF"
    and nn: "NBUF \<notin> set xs" "NBUF \<notin> set (rev xs)" and l: "length xs \<le> NBUF" "length (rev xs) \<le> NBUF"
    using assms lru_ok_length [OF assms] unfolding lru_ok_def by auto
  show "walk (Suc NBUF) (\<lambda>b. b_next (bf b)) P (b_next (bf NBUF)) = find P xs"
    by (rule walk_chain [OF p(1) nn(1) l(1)])
  show "walk (Suc NBUF) (\<lambda>b. b_prev (bf b)) P (b_prev (bf NBUF)) = find P (rev xs)"
    by (rule walk_chain [OF p(2) nn(2) l(2)])
qed

lemma link_front_ptrs:
  assumes "b \<noteq> NBUF" "b_next (bufs s NBUF) \<noteq> b"
  shows "(\<lambda>c. b_next (bufs (link_front b s) c))
      = (\<lambda>c. b_next (bufs s c))(b := b_next (bufs s NBUF), NBUF := b)"
    and "(\<lambda>c. b_prev (bufs (link_front b s) c))
      = (\<lambda>c. b_prev (bufs s c))(b := NBUF, b_next (bufs s NBUF) := b)"
  using assms by (auto simp: link_front_def upd_buf_def Let_def fun_eq_iff)

lemma unlink_buf_ptrs:
  assumes "b_next (bufs s b) \<noteq> b" "b_prev (bufs s b) \<noteq> b"
  shows "(\<lambda>c. b_next (bufs (unlink_buf b s) c)) = (\<lambda>c. b_next (bufs s c))(b_prev (bufs s b) := b_next (bufs s b))"
    and "(\<lambda>c. b_prev (bufs (unlink_buf b s) c)) = (\<lambda>c. b_prev (bufs s c))(b_next (bufs s b) := b_prev (bufs s b))"
  using assms by (auto simp: unlink_buf_def upd_buf_def Let_def fun_eq_iff)

text \<open>\<open>brelse\<close> moves the buffer to the front.\<close>

lemma lru_ok_move_front:
  assumes "lru_ok (bufs s) (ys @ b # zs)"
  shows "lru_ok (bufs (link_front b (unlink_buf b s))) (b # ys @ zs)"
proof -
  let ?n = "\<lambda>c. b_next (bufs s c)" and ?p = "\<lambda>c. b_prev (bufs s c)"
  have d: "distinct (NBUF # ys @ b # zs)" "distinct (NBUF # rev zs @ b # rev ys)"
    and sets: "set (ys @ b # zs) = {..<NBUF}"
    using assms by (auto simp: lru_ok_def)
  have n: "path ?n NBUF ys b" "path ?n b zs NBUF" and p: "path ?p NBUF (rev zs) b" "path ?p b (rev ys) NBUF"
    using assms by (auto simp: lru_ok_def path_append)
  have pb: "?p b = last (NBUF # ys)" using path_hd [OF p(2)] by (cases ys rule: rev_cases) auto
  have nb: "?n b = last (NBUF # rev zs)" using path_hd [OF n(2)] by (cases zs) auto
  let ?u = "unlink_buf b s"
  let ?n1 = "?n(last (NBUF # ys) := ?n b)" and ?p1 = "?p(last (NBUF # rev zs) := ?p b)"
  have bne: "last (NBUF # ys) \<noteq> b" "last (NBUF # rev zs) \<noteq> b"
    using d last_in_set [of "NBUF # ys"] last_in_set [of "NBUF # rev zs"] by auto
  have u: "(\<lambda>c. b_next (bufs ?u c)) = ?n1" "(\<lambda>c. b_prev (bufs ?u c)) = ?p1"
    using bne unlink_buf_ptrs [of s b] by (simp_all add: pb nb)
  have n1: "path ?n1 NBUF (ys @ zs) NBUF" using path_splice [OF n] d by auto
  have p1: "path ?p1 NBUF (rev (ys @ zs)) NBUF" using path_splice [OF p] d by auto
  have hd: "?n1 NBUF = last (NBUF # rev (ys @ zs))"
    using path_hd [OF n1] by (cases "ys @ zs") auto
  have "last (NBUF # rev (ys @ zs)) \<in> set (NBUF # rev (ys @ zs))" by (intro last_in_set) simp
  then have hdb: "?n1 NBUF \<noteq> b" unfolding hd using d by auto
  let ?v = "link_front b ?u"
  have un: "b_next (bufs ?u NBUF) = ?n1 NBUF" using fun_cong [OF u(1), of NBUF] .
  have v: "(\<lambda>c. b_next (bufs ?v c)) = ?n1(b := ?n1 NBUF, NBUF := b)"
      "(\<lambda>c. b_prev (bufs ?v c)) = ?p1(b := NBUF, ?n1 NBUF := b)"
    using link_front_ptrs [of b ?u] d hdb unfolding un u by auto
  have "path (\<lambda>c. b_next (bufs ?v c)) NBUF (b # ys @ zs) NBUF"
    unfolding v using path_insert_first [OF n1, of b] d by auto
  moreover have "path (\<lambda>c. b_prev (bufs ?v c)) NBUF (rev (ys @ zs) @ [b]) NBUF"
    unfolding v hd using d by (intro path_insert_last [OF p1]) auto
  ultimately show ?thesis using d sets by (auto simp: lru_ok_def)
qed

subsection \<open>Locks and updates\<close>

lemma locked_by_kbio [simp]:
  "slocks (locked_by l s) = slocks s" "(locked_by l s)\<lparr>slocks := x\<rparr> = locked_by l (s\<lparr>slocks := x\<rparr>)"
  "bufs (locked_by l s') = bufs s'" "(locked_by l s')\<lparr>bufs := y\<rparr> = locked_by l (s'\<lparr>bufs := y\<rparr>)"
  "disk (locked_by l s') = disk s'" "disksize (locked_by l s') = disksize s'"
  "disk_writes (locked_by l s') = disk_writes s'"
  "upd_buf b f (locked_by l s') = locked_by l (upd_buf b f s')"
  by (simp_all add: locked_by_def pushcli_def upd_buf_def)

lemma cpu_kbio_update [simp]:
  "cpu_ok (s\<lparr>slocks := x\<rparr>) = cpu_ok s" "holding l (s\<lparr>slocks := x\<rparr>) = holding l s"
  "cpu_ok (s'\<lparr>bufs := y\<rparr>) = cpu_ok s'" "holding l (s'\<lparr>bufs := y\<rparr>) = holding l s'"
  "cpu_ok (s'\<lparr>disk := d\<rparr>) = cpu_ok s'" "holding l (s'\<lparr>disk := d\<rparr>) = holding l s'"
  "cpu_ok (s'\<lparr>disk_writes := w\<rparr>) = cpu_ok s'" "holding l (s'\<lparr>disk_writes := w\<rparr>) = holding l s'"
  "cpu_ok (upd_buf b f s') = cpu_ok s'" "holding l (upd_buf b f s') = holding l s'"
  by (simp_all add: cpu_ok_def holding_def upd_buf_def)

lemma upd_buf_select [simp]:
  "bufs (upd_buf b f s) = (bufs s)(b := f (bufs s b))" "disk (upd_buf b f s) = disk s"
  "disksize (upd_buf b f s) = disksize s" "disk_writes (upd_buf b f s) = disk_writes s"
  "slocks (upd_buf b f s) = slocks s" "ptable (upd_buf b f s) = ptable s" "cur (upd_buf b f s) = cur s"
  "locks (upd_buf b f s) = locks s"
  by (simp_all add: upd_buf_def)

lemma link_front_other [simp]:
  "disk (link_front b s) = disk s" "disksize (link_front b s) = disksize s"
  "disk_writes (link_front b s) = disk_writes s" "slocks (link_front b s) = slocks s"
  "link_front b (locked_by l s) = locked_by l (link_front b s)"
  "unlink_buf b (locked_by l s) = locked_by l (unlink_buf b s)"
  "disk (unlink_buf b s) = disk s" "disksize (unlink_buf b s) = disksize s"
  "disk_writes (unlink_buf b s) = disk_writes s" "slocks (unlink_buf b s) = slocks s"
  "cpu_ok (link_front b s) = cpu_ok s" "holding l (link_front b s) = holding l s"
  "cpu_ok (unlink_buf b s) = cpu_ok s" "holding l (unlink_buf b s) = holding l s"
  by (simp_all add: link_front_def unlink_buf_def Let_def)

text \<open>Everything of a buffer but its links.\<close>

definition same_buf :: "buf \<Rightarrow> buf \<Rightarrow> bool" where
  "same_buf x y \<longleftrightarrow> b_valid y = b_valid x \<and> b_dirty y = b_dirty x \<and> b_dev y = b_dev x
     \<and> b_blockno y = b_blockno x \<and> b_refcnt y = b_refcnt x \<and> b_data y = b_data x"

lemma same_buf_trans: "same_buf x y \<Longrightarrow> same_buf y z \<Longrightarrow> same_buf x z"
  by (simp add: same_buf_def)

lemma same_buf_link:
  "same_buf (bufs s c) (bufs (upd_buf b (\<lambda>bf. bf\<lparr>b_next := k\<rparr>) s) c)"
  "same_buf (bufs s c) (bufs (upd_buf b (\<lambda>bf. bf\<lparr>b_prev := k\<rparr>) s) c)"
  by (simp_all add: same_buf_def)

lemma move_front_same: "same_buf (bufs s c) (bufs (link_front b (unlink_buf b s)) c)"
  unfolding link_front_def unlink_buf_def Let_def
  by (intro same_buf_trans [OF _ same_buf_link(1)] same_buf_trans [OF _ same_buf_link(2)])
    (simp add: same_buf_def)

lemma acquiresleep_free:
  assumes "cpu_ok s" "\<not> holding (SleepLock l) s" "\<not> sl_locked (slocks s l)"
  shows "acquiresleep l s =
    Ret () (s\<lparr>slocks := (slocks s)(l := \<lparr>sl_locked = True, sl_pid = p_pid (ptable s (the (cur s)))\<rparr>)\<rparr>)"
  using assms by (simp add: acquiresleep_def acquire_free release_locked_by)

lemma holdingsleep_eq:
  assumes "cpu_ok s" "\<not> holding (SleepLock l) s"
  shows "holdingsleep l s = Ret (sl_locked (slocks s l)) s"
  using assms by (simp add: holdingsleep_def acquire_free release_locked_by)

lemma wakeup1_nobody:
  "\<forall>p<NPROC. p_state (ptable s p) = SLEEPING \<longrightarrow> p_chan (ptable s p) \<noteq> ch \<Longrightarrow> wakeup1 ch s = s"
  by (auto simp: wakeup1_def fun_eq_iff)

lemma releasesleep_eq:
  assumes "cpu_ok s" "\<not> holding (SleepLock l) s" "\<not> holding PtableLock s"
    and "\<forall>p<NPROC. p_state (ptable s p) = SLEEPING \<longrightarrow> p_chan (ptable s p) \<noteq> Some (SleepChan l)"
  shows "releasesleep l s = Ret () (s\<lparr>slocks := (slocks s)(l := \<lparr>sl_locked = False, sl_pid = 0\<rparr>)\<rparr>)"
  using assms
  by (simp add: releasesleep_def acquire_free release_locked_by wakeup_eq cpu_ok_locked_by wakeup1_nobody)

subsection \<open>The invariant and the view\<close>

definition bheld :: "'x kbio_scheme \<Rightarrow> nat \<Rightarrow> bool" where
  "bheld s b \<longleftrightarrow> sl_locked (slocks s (0, b))"

definition buf_inv :: "'x kbio_scheme \<Rightarrow> nat \<Rightarrow> bool" where
  "buf_inv s b \<longleftrightarrow> b_refcnt (bufs s b) = (if bheld s b then 1 else 0)
     \<and> (b_valid (bufs s b) \<or> b_dirty (bufs s b) \<or> bheld s b \<longrightarrow>
          b_dev (bufs s b) = 1 \<and> b_blockno (bufs s b) < disksize s \<and> b_valid (bufs s b))
     \<and> (b_valid (bufs s b) \<and> \<not> b_dirty (bufs s b) \<and> \<not> bheld s b \<longrightarrow>
          b_data (bufs s b) = disk s (b_blockno (bufs s b)))"

definition bio_inv :: "'x kbio_scheme \<Rightarrow> bool" where
  "bio_inv s \<longleftrightarrow> cpu_ok s \<and> locks s = [] \<and> (\<exists>xs. lru_ok (bufs s) xs)
     \<and> (\<forall>p<NPROC. \<forall>b. p_state (ptable s p) = SLEEPING \<longrightarrow> p_chan (ptable s p) \<noteq> Some (SleeplockChan 0 b))
     \<and> (\<forall>b<NBUF. buf_inv s b)
     \<and> (\<forall>b<NBUF. \<forall>c<NBUF. b_dev (bufs s b) = 1 \<and> b_dev (bufs s c) = 1
          \<and> b_blockno (bufs s b) = b_blockno (bufs s c) \<longrightarrow> b = c)"

definition view :: "'x kbio_scheme \<Rightarrow> u32 \<Rightarrow> block" where
  "view s n =
     (case first_idx NBUF (\<lambda>b. b_valid (bufs s b) \<and> b_dev (bufs s b) = 1 \<and> b_blockno (bufs s b) = n) of
        Some b \<Rightarrow> b_data (bufs s b)
      | None \<Rightarrow> disk s n)"

text \<open>What the cache may change: buffers, their locks, and the disk.\<close>

definition bio_frame :: "'x kbio_scheme \<Rightarrow> 'x kbio_scheme \<Rightarrow> bool" where
  "bio_frame s t \<longleftrightarrow> s\<lparr>slocks := slocks t, bufs := bufs t, disk := disk t, disk_writes := disk_writes t\<rparr> = t
     \<and> (\<forall>c i. c \<noteq> 0 \<longrightarrow> slocks t (c, i) = slocks s (c, i))"

lemma bio_frame_select:
  assumes "bio_frame s t"
  shows
    "ncli t = ncli s"
    "intena t = intena s"
    "eflags_IF t = eflags_IF s"
    "locks t = locks s"
    "mem t = mem s"
    "freelist t = freelist s"
    "use_lock t = use_lock s"
    "kern_end t = kern_end s"
    "ptable t = ptable s"
    "stridetable t = stridetable s"
    "current t = current s"
    "MLFQ t = MLFQ s"
    "nextpid t = nextpid s"
    "nextsid t = nextsid s"
    "initproc t = initproc s"
    "cur t = cur s"
    "kpgdir t = kpgdir s"
    "cr3 t = cr3 s"
    "ts_esp0 t = ts_esp0 s"
    "disksize t = disksize s"
proof -
  have e: "s\<lparr>slocks := slocks t, bufs := bufs t, disk := disk t, disk_writes := disk_writes t\<rparr> = t"
    using assms by (simp add: bio_frame_def)
  show "ncli t = ncli s" using arg_cong [OF e, of ncli] by simp
  show "intena t = intena s" using arg_cong [OF e, of intena] by simp
  show "eflags_IF t = eflags_IF s" using arg_cong [OF e, of eflags_IF] by simp
  show "locks t = locks s" using arg_cong [OF e, of locks] by simp
  show "mem t = mem s" using arg_cong [OF e, of mem] by simp
  show "freelist t = freelist s" using arg_cong [OF e, of freelist] by simp
  show "use_lock t = use_lock s" using arg_cong [OF e, of use_lock] by simp
  show "kern_end t = kern_end s" using arg_cong [OF e, of kern_end] by simp
  show "ptable t = ptable s" using arg_cong [OF e, of ptable] by simp
  show "stridetable t = stridetable s" using arg_cong [OF e, of stridetable] by simp
  show "current t = current s" using arg_cong [OF e, of current] by simp
  show "MLFQ t = MLFQ s" using arg_cong [OF e, of MLFQ] by simp
  show "nextpid t = nextpid s" using arg_cong [OF e, of nextpid] by simp
  show "nextsid t = nextsid s" using arg_cong [OF e, of nextsid] by simp
  show "initproc t = initproc s" using arg_cong [OF e, of initproc] by simp
  show "cur t = cur s" using arg_cong [OF e, of cur] by simp
  show "kpgdir t = kpgdir s" using arg_cong [OF e, of kpgdir] by simp
  show "cr3 t = cr3 s" using arg_cong [OF e, of cr3] by simp
  show "ts_esp0 t = ts_esp0 s" using arg_cong [OF e, of ts_esp0] by simp
  show "disksize t = disksize s" using arg_cong [OF e, of disksize] by simp
qed

lemma bio_frame_refl: "bio_frame s s"
  by (simp add: bio_frame_def)

lemma bio_frame_trans:
  assumes "bio_frame s t" "bio_frame t u"
  shows "bio_frame s u"
proof -
  have "u = t\<lparr>slocks := slocks u, bufs := bufs u, disk := disk u, disk_writes := disk_writes u\<rparr>"
    using assms(2) by (simp add: bio_frame_def)
  also have "\<dots> = s\<lparr>slocks := slocks t, bufs := bufs t, disk := disk t, disk_writes := disk_writes t\<rparr>
      \<lparr>slocks := slocks u, bufs := bufs u, disk := disk u, disk_writes := disk_writes u\<rparr>"
    using assms(1) by (simp add: bio_frame_def)
  finally have "s\<lparr>slocks := slocks u, bufs := bufs u, disk := disk u, disk_writes := disk_writes u\<rparr> = u" by simp
  then show ?thesis using assms unfolding bio_frame_def by metis
qed

lemma lru_find:
  assumes "lru_ok bf xs"
  shows "find P xs = Some b \<Longrightarrow> b < NBUF \<and> P b" "find P xs = None \<longleftrightarrow> (\<forall>b<NBUF. \<not> P b)"
    "find P (rev xs) = Some b \<Longrightarrow> b < NBUF \<and> P b" "find P (rev xs) = None \<longleftrightarrow> (\<forall>b<NBUF. \<not> P b)"
proof -
  have sets: "set xs = {..<NBUF}" using assms by (simp add: lru_ok_def)
  have f: "b \<in> set ys \<and> P b" if "find P ys = Some b" for ys
    using that by (induction ys) (auto split: if_splits)
  show "find P xs = Some b \<Longrightarrow> b < NBUF \<and> P b" using f [of xs] sets by auto
  show "find P (rev xs) = Some b \<Longrightarrow> b < NBUF \<and> P b" using f [of "rev xs"] sets by auto
  show "find P xs = None \<longleftrightarrow> (\<forall>b<NBUF. \<not> P b)" "find P (rev xs) = None \<longleftrightarrow> (\<forall>b<NBUF. \<not> P b)"
    using sets by (auto simp: find_None_iff)
qed

lemma bio_inv_unique:
  assumes "bio_inv s" "b < NBUF" "c < NBUF" "b_dev (bufs s b) = 1" "b_dev (bufs s c) = 1"
    "b_blockno (bufs s b) = b_blockno (bufs s c)"
  shows "b = c"
  using assms unfolding bio_inv_def by blast

lemma bio_inv_buf: "bio_inv s \<Longrightarrow> b < NBUF \<Longrightarrow> buf_inv s b"
  by (simp add: bio_inv_def)

lemma bio_inv_cpu: "bio_inv s \<Longrightarrow> cpu_ok s" "bio_inv s \<Longrightarrow> \<not> holding l s"
  by (simp_all add: bio_inv_def holding_def)

lemma view_cached:
  assumes "bio_inv s" "b < NBUF" "b_valid (bufs s b)" "b_blockno (bufs s b) = n"
  shows "view s n = b_data (bufs s b)"
proof -
  let ?P = "\<lambda>b. b_valid (bufs s b) \<and> b_dev (bufs s b) = 1 \<and> b_blockno (bufs s b) = n"
  have d: "b_dev (bufs s b) = 1" using bio_inv_buf [OF assms(1,2)] assms(3) by (simp add: buf_inv_def)
  then obtain c where c: "first_idx NBUF ?P = Some c"
    using assms first_idx_None_iff [of NBUF ?P] by (cases "first_idx NBUF ?P") auto
  then have "c = b"
    using bio_inv_unique [OF assms(1) _ assms(2), of c] d assms(4) by (auto dest: first_idx_SomeD)
  then show ?thesis using c by (simp add: view_def)
qed

lemma view_disk:
  assumes "\<forall>b<NBUF. b_valid (bufs s b) \<longrightarrow> b_dev (bufs s b) = 1 \<longrightarrow> b_blockno (bufs s b) \<noteq> n"
  shows "view s n = disk s n"
proof -
  have "first_idx NBUF (\<lambda>b. b_valid (bufs s b) \<and> b_dev (bufs s b) = 1 \<and> b_blockno (bufs s b) = n) = None"
    using assms by (auto simp: first_idx_None_iff)
  then show ?thesis by (simp add: view_def)
qed

subsection \<open>bget\<close>

definition buf_locked :: "nat \<Rightarrow> (buf \<Rightarrow> buf) \<Rightarrow> 'x kbio_scheme \<Rightarrow> 'x kbio_scheme" where
  "buf_locked b f s = (upd_buf b f s)\<lparr>slocks :=
     (slocks s)((0, b) := \<lparr>sl_locked = True, sl_pid = p_pid (ptable s (the (cur s)))\<rparr>)\<rparr>"

text \<open>A block that is cached in a buffer nobody holds.\<close>

lemma bget_cached:
  assumes inv: "bio_inv s" and b: "b < NBUF" "b_dev (bufs s b) = 1" "b_blockno (bufs s b) = n" "\<not> bheld s b"
  shows "bget 1 n s = Ret b (buf_locked b (\<lambda>bf. bf\<lparr>b_refcnt := b_refcnt bf + 1\<rparr>) s)"
proof -
  obtain xs where xs: "lru_ok (bufs s) xs" using inv by (auto simp: bio_inv_def)
  let ?P = "\<lambda>b. b_dev (bufs s b) = 1 \<and> b_blockno (bufs s b) = n"
  have "find ?P xs \<noteq> None" using b lru_find(2) [OF xs, of ?P] by auto
  then obtain c where c: "find ?P xs = Some c" by auto
  have "c < NBUF" "b_dev (bufs s c) = 1" "b_blockno (bufs s c) = n" using lru_find(1) [OF xs c] by blast+
  then have "c = b" using b by (intro bio_inv_unique [OF inv]) simp_all
  then have w: "walk 31 (\<lambda>b. b_next (bufs s b)) ?P (b_next (bufs s NBUF)) = Some b"
    using lru_walks(1) [OF xs, of ?P] c by (simp del: walk.simps)
  show ?thesis
    unfolding bget_def
    using bio_inv_cpu [OF inv] b(4)
    by (simp add: acquire_free w release_locked_by acquiresleep_free bheld_def buf_locked_def Let_def
        del: walk.simps)
qed

text \<open>A block that is not cached takes the place of the least recently used clean buffer.\<close>

lemma bget_fresh:
  assumes inv: "bio_inv s" and none: "\<forall>b<NBUF. b_dev (bufs s b) = 1 \<longrightarrow> b_blockno (bufs s b) \<noteq> n"
    and room: "\<exists>b<NBUF. \<not> bheld s b \<and> \<not> b_dirty (bufs s b)"
  shows "\<exists>b<NBUF. \<not> bheld s b \<and> \<not> b_dirty (bufs s b) \<and>
    bget 1 n s = Ret b (buf_locked b (\<lambda>bf. bf\<lparr>b_dev := 1, b_blockno := n, b_valid := False, b_dirty := False,
                    b_refcnt := 1\<rparr>) s)"
proof -
  obtain xs where xs: "lru_ok (bufs s) xs" using inv by (auto simp: bio_inv_def)
  let ?P = "\<lambda>b. b_dev (bufs s b) = 1 \<and> b_blockno (bufs s b) = n"
  let ?Q = "\<lambda>b. b_refcnt (bufs s b) = 0 \<and> \<not> b_dirty (bufs s b)"
  have ref: "b_refcnt (bufs s b) = 0 \<longleftrightarrow> \<not> bheld s b" if "b < NBUF" for b
    using bio_inv_buf [OF inv that] by (simp add: buf_inv_def)
  have "find ?Q (rev xs) \<noteq> None" unfolding lru_find(4) [OF xs] using room ref by blast
  then obtain b where q: "find ?Q (rev xs) = Some b" by auto
  have "b < NBUF" "b_refcnt (bufs s b) = 0" "\<not> b_dirty (bufs s b)" using lru_find(3) [OF xs q] by blast+
  then have b: "b < NBUF" "\<not> bheld s b" "\<not> b_dirty (bufs s b)" using ref by blast+
  have w1: "walk 31 (\<lambda>b. b_next (bufs s b)) ?P (b_next (bufs s NBUF)) = None"
    using lru_walks(1) [OF xs, of ?P] lru_find(2) [OF xs, of ?P] none by (simp del: walk.simps)
  have w2: "walk 31 (\<lambda>b. b_prev (bufs s b)) ?Q (b_prev (bufs s NBUF)) = Some b"
    using lru_walks(2) [OF xs, of ?Q] q by (simp del: walk.simps)
  have "bget 1 n s = Ret b (buf_locked b (\<lambda>bf. bf\<lparr>b_dev := 1, b_blockno := n, b_valid := False,
      b_dirty := False, b_refcnt := 1\<rparr>) s)"
    unfolding bget_def
    using bio_inv_cpu [OF inv] b(2)
    by (simp add: acquire_free w1 w2 release_locked_by acquiresleep_free bheld_def buf_locked_def Let_def
        del: walk.simps)
  then show ?thesis using b by blast
qed

subsection \<open>bread\<close>

text \<open>A block is dirty when a buffer holds content for it that is not yet on the disk.\<close>

definition dirty :: "'x kbio_scheme \<Rightarrow> u32 \<Rightarrow> bool" where
  "dirty s n \<longleftrightarrow> (\<exists>b<NBUF. b_dirty (bufs s b) \<and> b_blockno (bufs s b) = n)"

text \<open>The buffer \<open>b\<close> is locked with the new content \<open>nb\<close>, the view staying as it is.\<close>

definition takes :: "'x kbio_scheme \<Rightarrow> u32 \<Rightarrow> nat \<Rightarrow> buf \<Rightarrow> bool" where
  "takes s n b nb \<longleftrightarrow> b < NBUF \<and> \<not> bheld s b \<and> b_dev nb = 1 \<and> b_blockno nb = n \<and> b_valid nb \<and> b_refcnt nb = 1
     \<and> b_next nb = b_next (bufs s b) \<and> b_prev nb = b_prev (bufs s b) \<and> b_data nb = view s n
     \<and> (\<forall>c<NBUF. c \<noteq> b \<longrightarrow> b_dev (bufs s c) = 1 \<longrightarrow> b_blockno (bufs s c) \<noteq> n)
     \<and> (b_blockno (bufs s b) = n \<and> b_dirty nb = b_dirty (bufs s b) \<or> \<not> b_dirty (bufs s b) \<and> \<not> b_dirty nb)"

lemma bheld_buf_locked: "bheld (buf_locked b f s) = (bheld s)(b := True)"
  by (auto simp: bheld_def buf_locked_def fun_eq_iff)

lemma buf_locked_select:
  "bufs (buf_locked b f s) = (bufs s)(b := f (bufs s b))" "disk (buf_locked b f s) = disk s"
  "disksize (buf_locked b f s) = disksize s" "disk_writes (buf_locked b f s) = disk_writes s"
  "bio_frame s (buf_locked b f s)"
  by (simp_all add: buf_locked_def upd_buf_def bio_frame_def)

lemma takes_inv:
  assumes inv: "bio_inv s" and n: "n < disksize s" and tk: "takes s n b nb"
  shows "bio_inv (buf_locked b (\<lambda>_. nb) s)"
proof -
  let ?t = "buf_locked b (\<lambda>_. nb) s"
  obtain xs where "lru_ok (bufs s) xs" using inv by (auto simp: bio_inv_def)
  then have lru: "lru_ok (bufs ?t) xs"
    using tk by (subst lru_ok_cong [where bf' = "bufs s"]) (auto simp: buf_locked_select takes_def)
  have nb: "b_dev nb = 1" "b_blockno nb = n" "b_valid nb" "b_refcnt nb = 1"
    and other: "\<And>c. c < NBUF \<Longrightarrow> c \<noteq> b \<Longrightarrow> b_dev (bufs s c) = 1 \<Longrightarrow> b_blockno (bufs s c) \<noteq> n"
    using tk unfolding takes_def by blast+
  have tb: "bufs ?t c = (if c = b then nb else bufs s c)" for c by (simp add: buf_locked_select)
  have each: "buf_inv ?t c" if "c < NBUF" for c
    using bio_inv_buf [OF inv that] nb n
    by (cases "c = b") (simp_all add: buf_inv_def bheld_buf_locked buf_locked_select)
  have uniq: "c = d" if "c < NBUF" "d < NBUF" "b_dev (bufs ?t c) = 1" "b_dev (bufs ?t d) = 1"
      "b_blockno (bufs ?t c) = b_blockno (bufs ?t d)" for c d
    using that nb(2) other [of c] other [of d] bio_inv_unique [OF inv, of c d]
    by (cases "c = b"; cases "d = b") (simp_all add: tb)
  note f = bio_frame_select [OF buf_locked_select(5), of b "\<lambda>_. nb" s]
  have c: "cpu_ok ?t = cpu_ok s" by (simp add: cpu_ok_def f)
  have i: "cpu_ok s" "locks s = []"
    "\<forall>p<NPROC. \<forall>b. p_state (ptable s p) = SLEEPING \<longrightarrow> p_chan (ptable s p) \<noteq> Some (SleeplockChan 0 b)"
    using inv unfolding bio_inv_def by blast+
  show ?thesis
    unfolding bio_inv_def c f using i lru each uniq by blast
qed

lemma takes_view:
  assumes inv: "bio_inv s" and n: "n < disksize s" and tk: "takes s n b nb"
  shows "view (buf_locked b (\<lambda>_. nb) s) = view s"
proof
  fix m
  let ?t = "buf_locked b (\<lambda>_. nb) s"
  have t: "bio_inv ?t" using takes_inv [OF assms] .
  have b: "b < NBUF" "\<not> bheld s b" using tk by (auto simp: takes_def)
  show "view ?t m = view s m"
  proof (cases "m = n")
    case True
    have "view ?t n = b_data (bufs ?t b)"
      using tk by (intro view_cached [OF t b(1)]) (auto simp: takes_def buf_locked_select)
    then show ?thesis using True tk by (simp add: takes_def buf_locked_select)
  next
    case False
    show ?thesis
    proof (cases "\<exists>c<NBUF. c \<noteq> b \<and> b_valid (bufs s c) \<and> b_blockno (bufs s c) = m")
      case True
      then obtain c where c: "c < NBUF" "c \<noteq> b" "b_valid (bufs s c)" "b_blockno (bufs s c) = m" by blast
      have "view ?t m = b_data (bufs ?t c)"
        using c by (intro view_cached [OF t c(1)]) (auto simp: buf_locked_select)
      also have "\<dots> = view s m" using c view_cached [OF inv c(1,3,4)] by (simp add: buf_locked_select)
      finally show ?thesis .
    next
      case no: False
      have "view ?t m = disk ?t m"
        using no False tk by (intro view_disk) (auto simp: buf_locked_select takes_def)
      moreover have "view s m = disk s m"
      proof (cases "b_valid (bufs s b) \<and> b_blockno (bufs s b) = m")
        case True
        then have "\<not> b_dirty (bufs s b)" using tk False by (auto simp: takes_def)
        then show ?thesis
          using True b bio_inv_buf [OF inv b(1)] view_cached [OF inv b(1), of m] by (simp add: buf_inv_def)
      next
        case False
        then show ?thesis using no by (intro view_disk) blast
      qed
      ultimately show ?thesis by (simp add: buf_locked_select)
    qed
  qed
qed

lemma takes_dirty:
  assumes "takes s n b nb"
  shows "dirty (buf_locked b (\<lambda>_. nb) s) = dirty s"
proof -
  have d: "b_blockno nb = n" "b_blockno (bufs s b) = n \<and> b_dirty nb = b_dirty (bufs s b)
      \<or> \<not> b_dirty (bufs s b) \<and> \<not> b_dirty nb"
    using assms unfolding takes_def by blast+
  have "(b_dirty (bufs (buf_locked b (\<lambda>_. nb) s) c) \<and> b_blockno (bufs (buf_locked b (\<lambda>_. nb) s) c) = m)
      = (b_dirty (bufs s c) \<and> b_blockno (bufs s c) = m)" for c m
    using d by (cases "c = b") (auto simp: buf_locked_select)
  then show ?thesis by (simp add: dirty_def fun_eq_iff)
qed

text \<open>
  \<open>bread\<close> of a block nobody holds: it returns a buffer locked by this process with the block's
  content, and changes neither the disk nor what the kernel sees in any block.
\<close>

definition bread_post :: "'x kbio_scheme \<Rightarrow> u32 \<Rightarrow> nat \<Rightarrow> 'x kbio_scheme \<Rightarrow> bool" where
  "bread_post s n b t \<longleftrightarrow> bio_inv t \<and> bio_frame s t \<and> b < NBUF \<and> \<not> bheld s b \<and> bheld t = (bheld s)(b := True)
     \<and> b_blockno (bufs t b) = n \<and> b_data (bufs t b) = view s n \<and> view t = view s
     \<and> disk t = disk s \<and> disk_writes t = disk_writes s \<and> (\<forall>c. c \<noteq> b \<longrightarrow> bufs t c = bufs s c)
     \<and> dirty t = dirty s \<and> b_dirty (bufs t b) = dirty s n"

definition can_read :: "'x kbio_scheme \<Rightarrow> u32 \<Rightarrow> bool" where
  "can_read s n \<longleftrightarrow> n < disksize s \<and> (\<forall>b<NBUF. bheld s b \<longrightarrow> b_blockno (bufs s b) \<noteq> n)
     \<and> ((\<exists>b<NBUF. b_dev (bufs s b) = 1 \<and> b_blockno (bufs s b) = n)
        \<or> (\<exists>b<NBUF. \<not> bheld s b \<and> \<not> b_dirty (bufs s b)))"

lemma takes_post:
  assumes inv: "bio_inv s" and n: "n < disksize s" and tk: "takes s n b nb"
  shows "bread_post s n b (buf_locked b (\<lambda>_. nb) s)"
proof -
  let ?t = "buf_locked b (\<lambda>_. nb) s"
  have nb: "b < NBUF" "\<not> bheld s b" "b_blockno nb = n" "b_data nb = view s n"
    using tk unfolding takes_def by blast+
  have t: "bio_inv ?t" using takes_inv [OF assms] .
  have "b_dirty (bufs ?t b) = dirty ?t n"
  proof
    assume "b_dirty (bufs ?t b)"
    then show "dirty ?t n" using nb by (auto simp: dirty_def buf_locked_select)
  next
    assume "dirty ?t n"
    then obtain c where c: "c < NBUF" "b_dirty (bufs ?t c)" "b_blockno (bufs ?t c) = n" by (auto simp: dirty_def)
    have "b_dev (bufs ?t c) = 1" using bio_inv_buf [OF t c(1)] c(2) by (simp add: buf_inv_def)
    moreover have "b_dev (bufs ?t b) = 1" using tk by (simp add: takes_def buf_locked_select)
    ultimately have "c = b"
      using c nb by (intro bio_inv_unique [OF t]) (simp_all add: buf_locked_select)
    then show "b_dirty (bufs ?t b)" using c by simp
  qed
  then show ?thesis
    using t nb takes_view [OF assms] takes_dirty [OF tk]
    by (simp add: bread_post_def buf_locked_select bheld_buf_locked)
qed

lemma buf_locked_id: "buf_locked b f s = buf_locked b (\<lambda>_. f (bufs s b)) s"
  by (simp add: buf_locked_def upd_buf_def)

lemma iderw_read:
  assumes "cpu_ok s" "\<not> holding (SleepLk 0 b) s" "bheld s b" "\<not> b_valid (bufs s b)" "\<not> b_dirty (bufs s b)"
    "b_dev (bufs s b) = 1" "b_blockno (bufs s b) < disksize s"
  shows "iderw b s = Ret () (upd_buf b (\<lambda>bf. bf\<lparr>b_data := disk s (b_blockno bf), b_valid := True\<rparr>) s)"
  using assms by (simp add: iderw_def holdingsleep_eq bheld_def Let_def upd_buf_def)

text \<open>The buffer \<open>bget\<close> returned is read from the disk if it is not valid.\<close>

lemma bread_invalid:
  assumes inv: "bio_inv s" and get: "bget 1 n s = Ret b (buf_locked b f s)"
    and nb: "\<not> b_valid (f (bufs s b))" "\<not> b_dirty (f (bufs s b))" "b_dev (f (bufs s b)) = 1"
      "b_blockno (f (bufs s b)) = n" and n: "n < disksize s"
  shows "bread 1 n s = Ret b (buf_locked b (\<lambda>_. (f (bufs s b))\<lparr>b_data := disk s n, b_valid := True\<rparr>) s)"
proof -
  let ?s1 = "buf_locked b f s"
  have c: "cpu_ok ?s1" "\<not> holding (SleepLk 0 b) ?s1"
    using bio_inv_cpu [OF inv] by (simp_all add: buf_locked_def)
  have "iderw b ?s1 = Ret () (upd_buf b (\<lambda>bf. bf\<lparr>b_data := disk ?s1 (b_blockno bf), b_valid := True\<rparr>) ?s1)"
    using nb n by (intro iderw_read c) (simp_all add: bheld_buf_locked buf_locked_select)
  also have "upd_buf b (\<lambda>bf. bf\<lparr>b_data := disk ?s1 (b_blockno bf), b_valid := True\<rparr>) ?s1
      = buf_locked b (\<lambda>_. (f (bufs s b))\<lparr>b_data := disk s n, b_valid := True\<rparr>) s"
    using nb(4) by (simp add: buf_locked_def upd_buf_def)
  finally show ?thesis using get nb(1) by (simp add: bread_def buf_locked_select)
qed

lemma bread_ok:
  assumes inv: "bio_inv s" and can: "can_read s n"
  shows "\<exists>b t. bread 1 n s = Ret b t \<and> bread_post s n b t"
proof -
  have n: "n < disksize s" using can by (simp add: can_read_def)
  show ?thesis
  proof (cases "\<exists>b<NBUF. b_dev (bufs s b) = 1 \<and> b_blockno (bufs s b) = n")
    case True
    then obtain b where b: "b < NBUF" "b_dev (bufs s b) = 1" "b_blockno (bufs s b) = n" by blast
    then have nh: "\<not> bheld s b" using can by (auto simp: can_read_def)
    have bi: "buf_inv s b" using bio_inv_buf [OF inv b(1)] .
    then have r: "b_refcnt (bufs s b) = 0" using nh by (simp add: buf_inv_def)
    have others: "\<forall>c<NBUF. c \<noteq> b \<longrightarrow> b_dev (bufs s c) = 1 \<longrightarrow> b_blockno (bufs s c) \<noteq> n"
    proof (intro allI impI notI)
      fix c assume c: "c < NBUF" "c \<noteq> b" "b_dev (bufs s c) = 1" "b_blockno (bufs s c) = n"
      have "c = b" by (rule bio_inv_unique [OF inv c(1) b(1) c(3) b(2)]) (simp add: c b)
      then show False using c(2) by simp
    qed
    let ?f = "\<lambda>bf :: buf. bf\<lparr>b_refcnt := b_refcnt bf + 1\<rparr>"
    note get = bget_cached [OF inv b nh]
    show ?thesis
    proof (cases "b_valid (bufs s b)")
      case True
      have "takes s n b (?f (bufs s b))"
        using b nh r others view_cached [OF inv b(1) True b(3)] True by (simp add: takes_def)
      from takes_post [OF inv n this] show ?thesis
        using get True by (auto simp: bread_def buf_locked_select buf_locked_id [of b ?f])
    next
      case False
      have nd: "\<not> b_dirty (bufs s b)" using bi False by (auto simp: buf_inv_def)
      have "view s n = disk s n" using others False by (intro view_disk) auto
      then have "takes s n b ((?f (bufs s b))\<lparr>b_data := disk s n, b_valid := True\<rparr>)"
        using b nh r others nd by (simp add: takes_def)
      from takes_post [OF inv n this] show ?thesis
        using bread_invalid [OF inv get _ _ _ _ n] False nd b by auto
    qed
  next
    case False
    then have none: "\<forall>b<NBUF. b_dev (bufs s b) = 1 \<longrightarrow> b_blockno (bufs s b) \<noteq> n"
      and room: "\<exists>b<NBUF. \<not> bheld s b \<and> \<not> b_dirty (bufs s b)"
      using can by (auto simp: can_read_def)
    let ?f = "\<lambda>bf :: buf. bf\<lparr>b_dev := 1, b_blockno := n, b_valid := False, b_dirty := False, b_refcnt := 1\<rparr>"
    obtain b where b: "b < NBUF" "\<not> bheld s b" "\<not> b_dirty (bufs s b)" "bget 1 n s = Ret b (buf_locked b ?f s)"
      using bget_fresh [OF inv none room] by blast
    have "view s n = disk s n" using none by (intro view_disk) auto
    then have "takes s n b ((?f (bufs s b))\<lparr>b_data := disk s n, b_valid := True\<rparr>)"
      using b none by (simp add: takes_def)
    from takes_post [OF inv n this] show ?thesis
      using bread_invalid [OF inv b(4) _ _ _ _ n] by auto
  qed
qed

subsection \<open>bwrite and brelse\<close>

text \<open>\<open>bwrite\<close> of a held buffer: the disk has its content.\<close>

lemma bwrite_ok:
  assumes inv: "bio_inv s" and b: "b < NBUF" "bheld s b"
  shows "bwrite b s = Ret () (s\<lparr>bufs := (bufs s)(b := (bufs s b)\<lparr>b_dirty := False\<rparr>),
      disk := (disk s)(b_blockno (bufs s b) := b_data (bufs s b)),
      disk_writes := disk_writes s @ [(b_blockno (bufs s b), b_data (bufs s b))]\<rparr>)"
proof -
  have bi: "b_dev (bufs s b) = 1" "b_blockno (bufs s b) < disksize s" "b_valid (bufs s b)"
    using bio_inv_buf [OF inv b(1)] b(2) by (auto simp: buf_inv_def)
  let ?s1 = "upd_buf b (\<lambda>bf. bf\<lparr>b_dirty := True\<rparr>) s"
  have h: "holdingsleep (0, b) s = Ret True s" "holdingsleep (0, b) ?s1 = Ret True ?s1"
    using bio_inv_cpu [OF inv] b(2) by (simp_all add: holdingsleep_eq bheld_def)
  have "(bufs s b)\<lparr>b_valid := True\<rparr> = bufs s b" using bi(3) by (cases "bufs s b") simp
  then have v: "(bufs s b)\<lparr>b_dirty := False, b_valid := True\<rparr> = (bufs s b)\<lparr>b_dirty := False\<rparr>"
    by (metis buf.update_convs(2) buf.surjective buf.update_convs(1))
  show ?thesis
    unfolding bwrite_def h andthen.simps iderw_def
    using bi by (simp add: Let_def upd_buf_def v not_le)
qed

text \<open>
  A held buffer may change its data and its dirty bit, and the disk may change under it: a general
  step, of which storing into the buffer, marking it dirty and writing it are instances.
\<close>

definition held_step :: "nat \<Rightarrow> bool \<Rightarrow> block \<Rightarrow> (u32 \<Rightarrow> block) \<Rightarrow> (u32 \<times> block) list \<Rightarrow> 'x kbio_scheme \<Rightarrow> 'x kbio_scheme" where
  "held_step b di da dk w s = s\<lparr>bufs := (bufs s)(b := (bufs s b)\<lparr>b_data := da, b_dirty := di\<rparr>), disk := dk,
     disk_writes := w\<rparr>"

lemma held_step_select:
  "bufs (held_step b di da dk w s) = (bufs s)(b := (bufs s b)\<lparr>b_data := da, b_dirty := di\<rparr>)"
  "disk (held_step b di da dk w s) = dk" "disk_writes (held_step b di da dk w s) = w"
  "bheld (held_step b di da dk w s) = bheld s" "bio_frame s (held_step b di da dk w s)"
  by (simp_all add: held_step_def bheld_def bio_frame_def fun_eq_iff)

lemma held_step_inv:
  assumes inv: "bio_inv s" and b: "b < NBUF" "bheld s b"
    and dk: "\<And>m. m \<noteq> b_blockno (bufs s b) \<Longrightarrow> dk m = disk s m"
  shows "bio_inv (held_step b di da dk w s)"
proof -
  let ?t = "held_step b di da dk w s"
  obtain xs where "lru_ok (bufs s) xs" using inv by (auto simp: bio_inv_def)
  then have lru: "lru_ok (bufs ?t) xs" by (subst lru_ok_cong [where bf' = "bufs s"]) (auto simp: held_step_select)
  note f = bio_frame_select [OF held_step_select(5), of b di da dk w s]
  have bb: "b_dev (bufs s b) = 1" "b_valid (bufs s b)" "b_blockno (bufs s b) < disksize s" "b_refcnt (bufs s b) = 1"
    using bio_inv_buf [OF inv b(1)] b(2) by (auto simp: buf_inv_def)
  have each: "buf_inv ?t c" if c: "c < NBUF" for c
  proof (cases "c = b")
    case True
    then show ?thesis using bb b(2) by (simp add: buf_inv_def held_step_select f)
  next
    case False
    have ci: "buf_inv s c" using bio_inv_buf [OF inv c] .
    have "dk (b_blockno (bufs s c)) = disk s (b_blockno (bufs s c))" if "b_valid (bufs s c)"
    proof (rule dk)
      show "b_blockno (bufs s c) \<noteq> b_blockno (bufs s b)"
        using bio_inv_unique [OF inv c b(1)] ci that bb(1) False by (auto simp: buf_inv_def)
    qed
    then show ?thesis using ci False by (simp add: buf_inv_def held_step_select f)
  qed
  have uniq: "c = d" if "c < NBUF" "d < NBUF" "b_dev (bufs ?t c) = 1" "b_dev (bufs ?t d) = 1"
      "b_blockno (bufs ?t c) = b_blockno (bufs ?t d)" for c d
    using that bio_inv_unique [OF inv that(1,2)] by (cases "c = b"; cases "d = b") (simp_all add: held_step_select)
  have c: "cpu_ok ?t = cpu_ok s" by (simp add: cpu_ok_def f)
  have i: "cpu_ok s" "locks s = []"
    "\<forall>p<NPROC. \<forall>b. p_state (ptable s p) = SLEEPING \<longrightarrow> p_chan (ptable s p) \<noteq> Some (SleeplockChan 0 b)"
    using inv unfolding bio_inv_def by blast+
  show ?thesis unfolding bio_inv_def c f using i lru each uniq by blast
qed

lemma held_step_view:
  assumes inv: "bio_inv s" and b: "b < NBUF" "bheld s b"
    and dk: "\<And>m. m \<noteq> b_blockno (bufs s b) \<Longrightarrow> dk m = disk s m"
  shows "view (held_step b di da dk w s) = (view s)(b_blockno (bufs s b) := da)"
proof
  fix m
  let ?t = "held_step b di da dk w s"
  have t: "bio_inv ?t" using held_step_inv [OF assms] .
  have bv: "b_valid (bufs s b)" using bio_inv_buf [OF inv b(1)] b(2) by (auto simp: buf_inv_def)
  show "view ?t m = ((view s)(b_blockno (bufs s b) := da)) m"
  proof (cases "m = b_blockno (bufs s b)")
    case True
    then show ?thesis using view_cached [OF t b(1), of m] bv by (simp add: held_step_select)
  next
    case False
    show ?thesis
    proof (cases "\<exists>c<NBUF. b_valid (bufs s c) \<and> b_blockno (bufs s c) = m")
      case True
      then obtain c where c: "c < NBUF" "b_valid (bufs s c)" "b_blockno (bufs s c) = m" by blast
      then have "c \<noteq> b" using False by auto
      then have "view ?t m = b_data (bufs s c)"
        using c view_cached [OF t c(1), of m] by (simp add: held_step_select)
      then show ?thesis using False view_cached [OF inv c] by simp
    next
      case no: False
      have "view ?t m = disk ?t m" using no False by (intro view_disk) (auto simp: held_step_select)
      moreover have "view s m = disk s m" using no by (intro view_disk) auto
      ultimately show ?thesis using False dk [OF False] by (simp add: held_step_select)
    qed
  qed
qed

lemma held_step_dirty:
  assumes inv: "bio_inv s" and b: "b < NBUF" "bheld s b"
  shows "dirty (held_step b di da dk w s) = (dirty s)(b_blockno (bufs s b) := di)"
proof
  fix m
  let ?t = "held_step b di da dk w s"
  have bb: "b_dev (bufs s b) = 1" using bio_inv_buf [OF inv b(1)] b(2) by (auto simp: buf_inv_def)
  have one: "c = b" if "c < NBUF" "b_dirty (bufs s c)" "b_blockno (bufs s c) = b_blockno (bufs s b)" for c
    using that bio_inv_buf [OF inv that(1)] bb
    by (intro bio_inv_unique [OF inv _ b(1)]) (simp_all add: buf_inv_def)
  show "dirty ?t m = ((dirty s)(b_blockno (bufs s b) := di)) m"
  proof (cases "m = b_blockno (bufs s b)")
    case True
    have "dirty ?t m = di"
      using one b(1) unfolding True dirty_def held_step_select by (auto split: if_splits)
    then show ?thesis using True by simp
  next
    case False
    have "(b_dirty (bufs ?t c) \<and> b_blockno (bufs ?t c) = m) = (b_dirty (bufs s c) \<and> b_blockno (bufs s c) = m)" for c
      using False by (cases "c = b") (auto simp: held_step_select)
    then show ?thesis using False by (simp add: dirty_def)
  qed
qed

text \<open>\<open>brelse\<close> of a held buffer that agrees with the disk or is marked dirty.\<close>

definition brelse_post :: "'x kbio_scheme \<Rightarrow> nat \<Rightarrow> 'x kbio_scheme \<Rightarrow> bool" where
  "brelse_post s b t \<longleftrightarrow> bio_inv t \<and> bio_frame s t \<and> bheld t = (bheld s)(b := False) \<and> view t = view s
     \<and> dirty t = dirty s \<and> disk t = disk s \<and> disk_writes t = disk_writes s
     \<and> (\<forall>c. c \<noteq> b \<longrightarrow> same_buf (bufs s c) (bufs t c)) \<and> same_buf ((bufs s b)\<lparr>b_refcnt := 0\<rparr>) (bufs t b)"

definition released :: "nat \<Rightarrow> 'x kbio_scheme \<Rightarrow> 'x kbio_scheme" where
  "released b s = link_front b (unlink_buf b (upd_buf b (\<lambda>bf. bf\<lparr>b_refcnt := 0\<rparr>)
     (s\<lparr>slocks := (slocks s)((0, b) := \<lparr>sl_locked = False, sl_pid = 0\<rparr>)\<rparr>)))"

lemma brelse_eq:
  assumes inv: "bio_inv s" and b: "b < NBUF" "bheld s b"
  shows "brelse b s = Ret () (released b s)"
proof -
  let ?s1 = "s\<lparr>slocks := (slocks s)((0, b) := \<lparr>sl_locked = False, sl_pid = 0\<rparr>)\<rparr>"
  have h: "holdingsleep (0, b) s = Ret True s"
    using bio_inv_cpu [OF inv] b(2) by (simp add: holdingsleep_eq bheld_def)
  have r: "releasesleep (0, b) s = Ret () ?s1"
    using bio_inv_cpu [OF inv] inv by (intro releasesleep_eq) (simp_all add: bio_inv_def)
  have "b_refcnt (bufs s b) = 1" using bio_inv_buf [OF inv b(1)] b(2) by (simp add: buf_inv_def)
  then have u: "upd_buf b (\<lambda>bf. bf\<lparr>b_refcnt := b_refcnt bf - 1\<rparr>) ?s1 = upd_buf b (\<lambda>bf. bf\<lparr>b_refcnt := 0\<rparr>) ?s1"
    by (simp add: upd_buf_def)
  have a: "acquire BcacheLock ?s1 = Ret () (locked_by BcacheLock ?s1)"
    using bio_inv_cpu [OF inv] by (simp add: acquire_free)
  have "release BcacheLock (locked_by BcacheLock (released b s)) = Ret () (released b s)"
    using bio_inv_cpu [OF inv] by (intro release_locked_by) (simp add: released_def)
  then show ?thesis
    unfolding brelse_def h andthen.simps r a Let_def using u by (simp add: released_def)
qed

lemma released_same:
  "same_buf (if c = b then (bufs s b)\<lparr>b_refcnt := 0\<rparr> else bufs s c) (bufs (released b s) c)"
  using move_front_same [of "upd_buf b (\<lambda>bf. bf\<lparr>b_refcnt := 0\<rparr>)
     (s\<lparr>slocks := (slocks s)((0, b) := \<lparr>sl_locked = False, sl_pid = 0\<rparr>)\<rparr>)" c b]
  by (simp add: released_def split: if_splits)

lemma bio_frame_links:
  "bio_frame s (link_front b s)" "bio_frame s (unlink_buf b s)" "bio_frame s (upd_buf b f s)"
  by (simp_all add: bio_frame_def link_front_def unlink_buf_def Let_def upd_buf_def)

lemma released_select:
  "disk (released b s) = disk s" "disk_writes (released b s) = disk_writes s" "disksize (released b s) = disksize s"
  "bheld (released b s) = (bheld s)(b := False)" "bio_frame s (released b s)"
proof -
  let ?s1 = "s\<lparr>slocks := (slocks s)((0, b) := \<lparr>sl_locked = False, sl_pid = 0\<rparr>)\<rparr>"
  have "bio_frame s ?s1" by (simp add: bio_frame_def)
  then show "bio_frame s (released b s)"
    unfolding released_def by (intro bio_frame_trans [OF _ bio_frame_links(1)] bio_frame_trans [OF _ bio_frame_links(2)]
        bio_frame_trans [OF _ bio_frame_links(3)])
qed (simp_all add: released_def bheld_def fun_eq_iff)

lemma released_lru:
  assumes "lru_ok (bufs s) xs" "b < NBUF"
  shows "\<exists>ys. lru_ok (bufs (released b s)) ys"
proof -
  let ?s1 = "upd_buf b (\<lambda>bf. bf\<lparr>b_refcnt := 0\<rparr>) (s\<lparr>slocks := (slocks s)((0, b) := \<lparr>sl_locked = False, sl_pid = 0\<rparr>)\<rparr>)"
  have "b \<in> set xs" using assms by (simp add: lru_ok_def)
  then obtain ys zs where xs: "xs = ys @ b # zs" by (auto dest: split_list)
  have "lru_ok (bufs ?s1) xs"
    using assms(1) by (subst lru_ok_cong [where bf' = "bufs s"]) auto
  then show ?thesis unfolding released_def xs using lru_ok_move_front by blast
qed

lemma brelse_ok:
  assumes inv: "bio_inv s" and b: "b < NBUF" "bheld s b"
    and clean: "b_dirty (bufs s b) \<or> b_data (bufs s b) = disk s (b_blockno (bufs s b))"
  shows "\<exists>t. brelse b s = Ret () t \<and> brelse_post s b t"
proof -
  let ?t = "released b s"
  have sb: "same_buf ((bufs s b)\<lparr>b_refcnt := 0\<rparr>) (bufs ?t b)" and so: "\<And>c. c \<noteq> b \<Longrightarrow> same_buf (bufs s c) (bufs ?t c)"
    using released_same [where b = b and s = s] by (metis, metis)
  have same: "b_valid (bufs ?t c) = b_valid (bufs s c)" "b_dirty (bufs ?t c) = b_dirty (bufs s c)"
      "b_dev (bufs ?t c) = b_dev (bufs s c)" "b_blockno (bufs ?t c) = b_blockno (bufs s c)"
      "b_data (bufs ?t c) = b_data (bufs s c)" for c
    using sb so [of c] by (cases "c = b"; simp add: same_buf_def)+
  note sel = released_select [where b = b and s = s]
  note f = bio_frame_select [OF sel(5)]
  have each: "buf_inv ?t c" if c: "c < NBUF" for c
  proof (cases "c = b")
    case True
    then show ?thesis
      using bio_inv_buf [OF inv b(1)] clean b sb by (auto simp: buf_inv_def same sel same_buf_def)
  next
    case False
    then show ?thesis
      using bio_inv_buf [OF inv c] so [of c] by (simp add: buf_inv_def same sel) (simp add: same_buf_def)
  qed
  obtain xs where "lru_ok (bufs s) xs" using inv by (auto simp: bio_inv_def)
  then have lru: "\<exists>ys. lru_ok (bufs ?t) ys" using b(1) by (rule released_lru)
  have uniq: "c = d" if "c < NBUF" "d < NBUF" "b_dev (bufs ?t c) = 1" "b_dev (bufs ?t d) = 1"
      "b_blockno (bufs ?t c) = b_blockno (bufs ?t d)" for c d
    using that unfolding same by (rule bio_inv_unique [OF inv])
  have c: "cpu_ok ?t = cpu_ok s" by (simp add: cpu_ok_def f)
  have i: "cpu_ok s" "locks s = []"
    "\<forall>p<NPROC. \<forall>b. p_state (ptable s p) = SLEEPING \<longrightarrow> p_chan (ptable s p) \<noteq> Some (SleeplockChan 0 b)"
    using inv unfolding bio_inv_def by blast+
  have "bio_inv ?t" unfolding bio_inv_def c f using i lru each uniq by blast
  moreover have "view ?t = view s" "dirty ?t = dirty s"
    by (simp_all add: view_def dirty_def same sel fun_eq_iff split: option.split)
  ultimately show ?thesis
    using brelse_eq [OF inv b] sel sb so by (auto simp: brelse_post_def)
qed

subsection \<open>binit\<close>

text \<open>The ring after the first \<open>k\<close> buffers have been linked.\<close>

definition ring :: "(nat \<Rightarrow> buf) \<Rightarrow> nat list \<Rightarrow> bool" where
  "ring bf xs \<longleftrightarrow> path (\<lambda>b. b_next (bf b)) NBUF xs NBUF \<and> path (\<lambda>b. b_prev (bf b)) NBUF (rev xs) NBUF"

lemma ring_link_front:
  assumes "ring (bufs s) xs" "distinct (NBUF # xs)" "b \<notin> set (NBUF # xs)"
  shows "ring (bufs (link_front b s)) (b # xs)"
proof -
  have n: "path (\<lambda>c. b_next (bufs s c)) NBUF xs NBUF" and p: "path (\<lambda>c. b_prev (bufs s c)) NBUF (rev xs) NBUF"
    using assms(1) by (auto simp: ring_def)
  have hd: "b_next (bufs s NBUF) = last (NBUF # rev xs)"
    using path_hd [OF n] by (cases xs) auto
  have "last (NBUF # rev xs) \<in> set (NBUF # rev xs)" by (intro last_in_set) simp
  then have ne: "b_next (bufs s NBUF) \<noteq> b" "b \<noteq> NBUF" unfolding hd using assms(3) by auto
  have "path (\<lambda>c. b_next (bufs (link_front b s) c)) NBUF (b # xs) NBUF"
    unfolding link_front_ptrs [OF ne(2,1)] using path_insert_first [OF n, of b] assms(2,3) by auto
  moreover have "path (\<lambda>c. b_prev (bufs (link_front b s) c)) NBUF (rev xs @ [b]) NBUF"
    unfolding link_front_ptrs [OF ne(2,1)] hd using assms(2,3) by (intro path_insert_last [OF p]) auto
  ultimately show ?thesis by (simp add: ring_def)
qed

lemma initsleeplock_select [simp]:
  "bufs (initsleeplock l s) = bufs s" "disk (initsleeplock l s) = disk s"
  "disk_writes (initsleeplock l s) = disk_writes s"
  "slocks (initsleeplock l s') = (slocks s')(l := \<lparr>sl_locked = False, sl_pid = 0\<rparr>)"
  by (simp_all add: initsleeplock_def)

lemma link_front_same: "same_buf (bufs s c) (bufs (link_front b s) c)"
  unfolding link_front_def Let_def
  by (intro same_buf_trans [OF _ same_buf_link(1)] same_buf_trans [OF _ same_buf_link(2)]) (simp add: same_buf_def)

lemma binit_loop:
  assumes "ring (bufs s) []" "k \<le> NBUF"
  shows "ring (bufs (fold (\<lambda>b s. link_front b (initsleeplock (0, b) s)) [0..<k] s)) (rev [0..<k])
    \<and> (\<forall>c. same_buf (bufs s c) (bufs (fold (\<lambda>b s. link_front b (initsleeplock (0, b) s)) [0..<k] s) c))
    \<and> (\<forall>b<k. \<not> bheld (fold (\<lambda>b s. link_front b (initsleeplock (0, b) s)) [0..<k] s) b)
    \<and> bio_frame s (fold (\<lambda>b s. link_front b (initsleeplock (0, b) s)) [0..<k] s)
    \<and> disk (fold (\<lambda>b s. link_front b (initsleeplock (0, b) s)) [0..<k] s) = disk s"
  using assms(2)
proof (induction k)
  case 0
  then show ?case using assms(1) by (simp add: same_buf_def bio_frame_refl)
next
  case (Suc k)
  let ?g = "\<lambda>k. fold (\<lambda>b s. link_front b (initsleeplock (0, b) s)) [0..<k] s"
  let ?u = "initsleeplock (0, k) (?g k)"
  have step: "?g (Suc k) = link_front k ?u" by simp
  have IH: "ring (bufs (?g k)) (rev [0..<k])" "\<forall>c. same_buf (bufs s c) (bufs (?g k) c)"
    "\<forall>b<k. \<not> bheld (?g k) b" "bio_frame s (?g k)" "disk (?g k) = disk s"
    using Suc.IH Suc.prems by auto
  have "ring (bufs (link_front k ?u)) (k # rev [0..<k])"
    using Suc.prems IH(1) by (intro ring_link_front) auto
  moreover have "same_buf (bufs s c) (bufs (link_front k ?u) c)" for c
    using IH(2) link_front_same [of ?u c k] by (auto intro: same_buf_trans)
  moreover have "bio_frame s (link_front k ?u)"
  proof (rule bio_frame_trans [OF IH(4) bio_frame_trans])
    show "bio_frame (?g k) ?u" by (simp add: bio_frame_def initsleeplock_def)
    show "bio_frame ?u (link_front k ?u)" by (rule bio_frame_links)
  qed
  moreover have "\<forall>b<Suc k. \<not> bheld (link_front k ?u) b"
    using IH(3) by (auto simp: bheld_def less_Suc_eq)
  ultimately show ?case unfolding step using IH(5) by simp
qed

lemma binit_inv:
  assumes "\<And>b. b \<le> NBUF \<Longrightarrow> \<not> b_valid (bufs s b) \<and> \<not> b_dirty (bufs s b) \<and> b_dev (bufs s b) = 0 \<and> b_refcnt (bufs s b) = 0"
    and "cpu_ok s" "locks s = []"
    and "\<forall>p<NPROC. \<forall>b. p_state (ptable s p) = SLEEPING \<longrightarrow> p_chan (ptable s p) \<noteq> Some (SleeplockChan 0 b)"
  shows "bio_inv (binit s) \<and> (\<forall>b<NBUF. \<not> bheld (binit s) b) \<and> view (binit s) = disk s \<and> bio_frame s (binit s)
    \<and> disk (binit s) = disk s \<and> (\<forall>n. \<not> dirty (binit s) n)"
proof -
  let ?s0 = "upd_buf NBUF (\<lambda>bf. bf\<lparr>b_prev := NBUF, b_next := NBUF\<rparr>) s"
  let ?t = "binit s"
  have "ring (bufs ?s0) []" by (simp add: ring_def)
  then have r: "ring (bufs ?t) (rev [0..<NBUF])" "\<forall>c. same_buf (bufs ?s0 c) (bufs ?t c)"
    "\<forall>b<NBUF. \<not> bheld ?t b" "bio_frame ?s0 ?t" "disk ?t = disk s"
    using binit_loop [of ?s0 NBUF] unfolding binit_def Let_def by auto
  have zero: "\<not> b_valid (bufs ?t b) \<and> \<not> b_dirty (bufs ?t b) \<and> b_dev (bufs ?t b) = 0 \<and> b_refcnt (bufs ?t b) = 0"
    if "b < NBUF" for b
    using r(2) assms(1) [of b] that by (auto simp: same_buf_def dest!: spec [of _ b])
  have f: "bio_frame s ?t" using bio_frame_trans [OF bio_frame_links(3) r(4)] .
  note fs = bio_frame_select [OF f]
  have lru: "lru_ok (bufs ?t) (rev [0..<NBUF])" using r(1) by (auto simp: lru_ok_def ring_def)
  have "bio_inv ?t"
    unfolding bio_inv_def using lru assms(2-4) zero r(3) by (auto simp: cpu_ok_def fs buf_inv_def)
  moreover have "view ?t = disk s" using zero r(5) by (auto simp: fun_eq_iff view_disk)
  moreover have "\<not> dirty ?t n" for n using zero by (auto simp: dirty_def)
  ultimately show ?thesis using r(3,5) f by blast
qed

end
