(* ===== verification/Log.thy ===== *)
theory Log
  imports Bio_Props
begin

unbundle bit_operations_syntax

text \<open>
  The log of \<open>src/xv6-public/log.c\<close>: system calls collect the blocks they change in the buffer
  cache (\<open>log_write\<close>), and the last one to end commits them all: it copies them to the log area,
  writes the log header, installs them in their places and clears the header. After a crash
  \<open>recover_from_log\<close> installs what a complete header announces.

  Numbers stored in blocks are little-endian. \<open>int block[]\<close> holds block numbers, as unsigned numbers
  here. The superblock's record and \<open>readsb\<close> are those of \<open>fs.h\<close> and \<open>fs.c\<close>.
\<close>

subsection \<open>Numbers in blocks\<close>

definition get32 :: "block \<Rightarrow> nat \<Rightarrow> u32" where
  "get32 d i = ucast (d i) OR push_bit 8 (ucast (d (i + 1))) OR push_bit 16 (ucast (d (i + 2)))
     OR push_bit 24 (ucast (d (i + 3)))"

definition put32 :: "nat \<Rightarrow> u32 \<Rightarrow> block \<Rightarrow> block" where
  "put32 i v d = d(i := ucast v, i + 1 := ucast (drop_bit 8 v), i + 2 := ucast (drop_bit 16 v),
     i + 3 := ucast (drop_bit 24 v))"

definition get16 :: "block \<Rightarrow> nat \<Rightarrow> u16" where
  "get16 d i = ucast (d i) OR push_bit 8 (ucast (d (i + 1)))"

definition put16 :: "nat \<Rightarrow> u16 \<Rightarrow> block \<Rightarrow> block" where
  "put16 i v d = d(i := ucast v, i + 1 := ucast (drop_bit 8 v))"

lemma get32_put32_same [simp]: "get32 (put32 i v d) i = v"
proof (rule bit_word_eqI)
  fix n assume "n < LENGTH(32)"
  then have "n < 8 \<or> (8 \<le> n \<and> n < 16) \<or> (16 \<le> n \<and> n < 24) \<or> (24 \<le> n \<and> n < 32)" by auto
  then show "bit (get32 (put32 i v d) i) n = bit v n"
    by (elim disjE) (auto simp: get32_def put32_def bit_simps)
qed

lemma get32_put32_other [simp]: "i + 4 \<le> j \<or> j + 4 \<le> i \<Longrightarrow> get32 (put32 i v d) j = get32 d j"
  by (auto simp: get32_def put32_def)

lemma get16_put16_same [simp]: "get16 (put16 i v d) i = v"
proof (rule bit_word_eqI)
  fix n assume "n < LENGTH(16)"
  then have "n < 8 \<or> (8 \<le> n \<and> n < 16)" by auto
  then show "bit (get16 (put16 i v d) i) n = bit v n"
    by (elim disjE) (auto simp: get16_def put16_def bit_simps)
qed

lemma get16_put16_other [simp]: "i + 2 \<le> j \<or> j + 2 \<le> i \<Longrightarrow> get16 (put16 i v d) j = get16 d j"
  by (auto simp: get16_def put16_def)

lemma get32_put16_other [simp]: "i + 2 \<le> j \<or> j + 4 \<le> i \<Longrightarrow> get32 (put16 i v d) j = get32 d j"
  by (auto simp: get32_def put16_def)

lemma get16_put32_other [simp]: "i + 4 \<le> j \<or> j + 2 \<le> i \<Longrightarrow> get16 (put32 i v d) j = get16 d j"
  by (auto simp: get16_def put32_def)

subsection \<open>The superblock\<close>

record superblock =
  sb_size :: u32
  sb_nblocks :: u32
  sb_ninodes :: u32
  sb_nlog :: u32
  sb_logstart :: u32
  sb_inodestart :: u32
  sb_bmapstart :: u32

definition decode_sb :: "block \<Rightarrow> superblock" where
  "decode_sb d = \<lparr>sb_size = get32 d 0, sb_nblocks = get32 d 4, sb_ninodes = get32 d 8, sb_nlog = get32 d 12,
     sb_logstart = get32 d 16, sb_inodestart = get32 d 20, sb_bmapstart = get32 d 24\<rparr>"

definition readsb :: "u32 \<Rightarrow> 'x kbio_scheme \<Rightarrow> (superblock, 'x kbio_scheme) outcome" where
  "readsb dev s =
     andthen (bread dev 1 s) (\<lambda>bp s.
       let sb = decode_sb (b_data (bufs s bp)) in
       andthen (brelse bp s) (\<lambda>_ s. Ret sb s))"

subsection \<open>The log\<close>

abbreviation MAXOPBLOCKS :: int where "MAXOPBLOCKS \<equiv> 10"
abbreviation LOGSIZE :: int where "LOGSIZE \<equiv> 30"

record klog = kbio +
  log_start :: u32
  log_size :: int
  log_outstanding :: int      \<comment> \<open>how many FS sys calls are executing\<close>
  log_committing :: bool      \<comment> \<open>in commit(), please wait\<close>
  log_dev :: u32
  lh_n :: int
  lh_block :: "nat \<Rightarrow> u32"

text \<open>\<open>struct logheader\<close> in a block: the count, then the block numbers.\<close>

definition head_n :: "block \<Rightarrow> int" where
  "head_n d = sint (get32 d 0)"

definition head_block :: "block \<Rightarrow> nat \<Rightarrow> u32" where
  "head_block d i = get32 d (4 + 4 * i)"

definition set_data :: "nat \<Rightarrow> block \<Rightarrow> 'x kbio_scheme \<Rightarrow> 'x kbio_scheme" where
  "set_data b d s = upd_buf b (\<lambda>bf. bf\<lparr>b_data := d\<rparr>) s"

fun install_trans_loop :: "nat \<Rightarrow> nat \<Rightarrow> 'x klog_scheme \<Rightarrow> (unit, 'x klog_scheme) outcome" where
  "install_trans_loop 0 tail s = Ret () s"
| "install_trans_loop (Suc k) tail s =
     andthen (bread (log_dev s) (log_start s + of_nat tail + 1) s) (\<lambda>lbuf s.
     andthen (bread (log_dev s) (lh_block s tail) s) (\<lambda>dbuf s.
     let s = set_data dbuf (b_data (bufs s lbuf)) s in
     andthen (bwrite dbuf s) (\<lambda>_ s.
     andthen (brelse lbuf s) (\<lambda>_ s.
     andthen (brelse dbuf s) (\<lambda>_ s. install_trans_loop k (tail + 1) s)))))"

definition install_trans :: "'x klog_scheme \<Rightarrow> (unit, 'x klog_scheme) outcome" where
  "install_trans s = install_trans_loop (nat (lh_n s)) 0 s"

definition read_head :: "'x klog_scheme \<Rightarrow> (unit, 'x klog_scheme) outcome" where
  "read_head s =
     andthen (bread (log_dev s) (log_start s) s) (\<lambda>buf s.
       let lh = b_data (bufs s buf);
           s = s\<lparr>lh_n := head_n lh\<rparr>;
           s = s\<lparr>lh_block := (\<lambda>i. if int i < lh_n s then head_block lh i else lh_block s i)\<rparr> in
       brelse buf s)"

fun put_blocks :: "nat \<Rightarrow> (nat \<Rightarrow> u32) \<Rightarrow> block \<Rightarrow> block" where
  "put_blocks 0 bl d = d"
| "put_blocks (Suc i) bl d = put32 (4 + 4 * i) (bl i) (put_blocks i bl d)"

definition write_head :: "'x klog_scheme \<Rightarrow> (unit, 'x klog_scheme) outcome" where
  "write_head s =
     andthen (bread (log_dev s) (log_start s) s) (\<lambda>buf s.
       let hb = put32 0 (of_int (lh_n s)) (b_data (bufs s buf));
           hb = put_blocks (nat (lh_n s)) (lh_block s) hb;
           s = set_data buf hb s in
       andthen (bwrite buf s) (\<lambda>_ s. brelse buf s))"

definition recover_from_log :: "'x klog_scheme \<Rightarrow> (unit, 'x klog_scheme) outcome" where
  "recover_from_log s =
     andthen (read_head s) (\<lambda>_ s.
     andthen (install_trans s) (\<lambda>_ s. write_head (s\<lparr>lh_n := 0\<rparr>)))"

definition initlog :: "u32 \<Rightarrow> 'x klog_scheme \<Rightarrow> (unit, 'x klog_scheme) outcome" where
  "initlog dev s =
     (if 4 + 4 * LOGSIZE \<ge> int BSIZE then Panic ''initlog: too big logheader''
      else
        andthen (readsb dev s) (\<lambda>sb s.
          recover_from_log (s\<lparr>log_start := sb_logstart sb, log_size := sint (sb_nlog sb), log_dev := dev\<rparr>)))"

text \<open>\<open>begin_op\<close> sleeps inside its loop while the log may be too full; it looks again when it is woken.\<close>

definition begin_op :: "'x klog_scheme \<Rightarrow> (unit, 'x klog_scheme) outcome" where
  "begin_op s =
     andthen (acquire LogLock s) (\<lambda>_ s.
       if log_committing s then sleep (Some LogChan) (Some LogLock) s
       else if lh_n s + (log_outstanding s + 1) * MAXOPBLOCKS > LOGSIZE then sleep (Some LogChan) (Some LogLock) s
       else release LogLock (s\<lparr>log_outstanding := log_outstanding s + 1\<rparr>))"

fun write_log_loop :: "nat \<Rightarrow> nat \<Rightarrow> 'x klog_scheme \<Rightarrow> (unit, 'x klog_scheme) outcome" where
  "write_log_loop 0 tail s = Ret () s"
| "write_log_loop (Suc k) tail s =
     andthen (bread (log_dev s) (log_start s + of_nat tail + 1) s) (\<lambda>to s.
     andthen (bread (log_dev s) (lh_block s tail) s) (\<lambda>from s.
     let s = set_data to (b_data (bufs s from)) s in
     andthen (bwrite to s) (\<lambda>_ s.
     andthen (brelse from s) (\<lambda>_ s.
     andthen (brelse to s) (\<lambda>_ s. write_log_loop k (tail + 1) s)))))"

definition write_log :: "'x klog_scheme \<Rightarrow> (unit, 'x klog_scheme) outcome" where
  "write_log s = write_log_loop (nat (lh_n s)) 0 s"

definition commit :: "'x klog_scheme \<Rightarrow> (unit, 'x klog_scheme) outcome" where
  "commit s =
     (if lh_n s > 0 then
        andthen (write_log s) (\<lambda>_ s.
        andthen (write_head s) (\<lambda>_ s.
        andthen (install_trans s) (\<lambda>_ s.
        write_head (s\<lparr>lh_n := 0\<rparr>))))
      else Ret () s)"

definition end_op :: "'x klog_scheme \<Rightarrow> (unit, 'x klog_scheme) outcome" where
  "end_op s =
     andthen (acquire LogLock s) (\<lambda>_ s.
       let s = s\<lparr>log_outstanding := log_outstanding s - 1\<rparr> in
       if log_committing s then Panic ''log.committing''
       else if log_outstanding s = 0 then
         andthen (release LogLock (s\<lparr>log_committing := True\<rparr>)) (\<lambda>_ s.
         andthen (commit s) (\<lambda>_ s.
         andthen (acquire LogLock s) (\<lambda>_ s.
         andthen (wakeup (Some LogChan) (s\<lparr>log_committing := False\<rparr>)) (\<lambda>_ s. release LogLock s))))
       else
         andthen (wakeup (Some LogChan) s) (\<lambda>_ s. release LogLock s))"

definition log_write :: "nat \<Rightarrow> 'x klog_scheme \<Rightarrow> (unit, 'x klog_scheme) outcome" where
  "log_write b s =
     (if lh_n s \<ge> LOGSIZE \<or> lh_n s \<ge> log_size s - 1 then Panic ''too big a transaction''
      else if log_outstanding s < 1 then Panic ''log_write outside of trans''
      else
        andthen (acquire LogLock s) (\<lambda>_ s.
          let i = (case first_idx (nat (lh_n s)) (\<lambda>i. lh_block s i = b_blockno (bufs s b)) of
                     Some i \<Rightarrow> i | None \<Rightarrow> nat (lh_n s));
              s = s\<lparr>lh_block := (lh_block s)(i := b_blockno (bufs s b))\<rparr>;
              s = (if int i = lh_n s then s\<lparr>lh_n := lh_n s + 1\<rparr> else s);
              s = upd_buf b (\<lambda>bf. bf\<lparr>b_dirty := True\<rparr>) s in
          release LogLock s))"

end
