(* ===== verification/Log_Props.thy ===== *)
theory Log_Props
  imports Log
begin

text \<open>
  Crash safety of the log. First what the loops of \<open>log.c\<close> do to the disk, as a sequence of block
  writes; then that a crash after any number of these writes is repaired by \<open>recover_from_log\<close>:
  the file system then has either all the changes of the transaction or none.
\<close>

subsection \<open>States between operations on the cache\<close>

text \<open>
  No buffer is held; \<open>d\<close> is the disk, \<open>v\<close> the view, \<open>D\<close> the dirty blocks and \<open>w\<close> the history of
  writes.
\<close>

definition bq :: "'x kbio_scheme \<Rightarrow> (u32 \<Rightarrow> block) \<Rightarrow> (u32 \<Rightarrow> block) \<Rightarrow> (u32 \<Rightarrow> bool) \<Rightarrow> (u32 \<times> block) list \<Rightarrow> bool" where
  "bq s d v D w \<longleftrightarrow> bio_inv s \<and> (\<forall>b<NBUF. \<not> bheld s b) \<and> disk s = d \<and> view s = v \<and> dirty s = D \<and> disk_writes s = w"

lemma bq_clean:
  assumes "bq s d v D w" "\<not> D n"
  shows "v n = d n"
proof -
  have inv: "bio_inv s" and nh: "\<forall>b<NBUF. \<not> bheld s b" using assms(1) by (auto simp: bq_def)
  show ?thesis
  proof (cases "\<exists>b<NBUF. b_valid (bufs s b) \<and> b_blockno (bufs s b) = n")
    case True
    then obtain b where b: "b < NBUF" "b_valid (bufs s b)" "b_blockno (bufs s b) = n" by blast
    then have "\<not> b_dirty (bufs s b)" using assms by (auto simp: bq_def dirty_def)
    then show ?thesis
      using b nh bio_inv_buf [OF inv b(1)] view_cached [OF inv b] assms(1) by (auto simp: buf_inv_def bq_def)
  next
    case False
    then have "view s n = disk s n" by (intro view_disk) auto
    then show ?thesis using assms(1) by (simp add: bq_def)
  qed
qed

lemma dirty_card:
  assumes inv: "bio_inv s"
  shows "card {n. dirty s n} = card {b. b < NBUF \<and> b_dirty (bufs s b)}"
proof -
  have e: "{n. dirty s n} = (\<lambda>b. b_blockno (bufs s b)) ` {b. b < NBUF \<and> b_dirty (bufs s b)}"
    by (auto simp: dirty_def)
  have "inj_on (\<lambda>b. b_blockno (bufs s b)) {b. b < NBUF \<and> b_dirty (bufs s b)}"
  proof (rule inj_onI)
    fix b c assume b: "b \<in> {b. b < NBUF \<and> b_dirty (bufs s b)}" and c: "c \<in> {b. b < NBUF \<and> b_dirty (bufs s b)}"
      and eq: "b_blockno (bufs s b) = b_blockno (bufs s c)"
    have "b_dev (bufs s b) = 1" "b_dev (bufs s c) = 1"
      using b c bio_inv_buf [OF inv, of b] bio_inv_buf [OF inv, of c] by (auto simp: buf_inv_def)
    then show "b = c" using b c eq by (intro bio_inv_unique [OF inv]) auto
  qed
  then show ?thesis unfolding e by (rule card_image)
qed

text \<open>With fewer dirty blocks than buffers there is a clean buffer, also next to one in use.\<close>

lemma clean_exists:
  assumes inv: "bio_inv s" and "finite A" "card {n. dirty s n} + card A < NBUF"
  shows "\<exists>b<NBUF. b \<notin> A \<and> \<not> b_dirty (bufs s b)"
proof (rule ccontr)
  assume "\<not> (\<exists>b<NBUF. b \<notin> A \<and> \<not> b_dirty (bufs s b))"
  then have "{..<NBUF} \<subseteq> {b. b < NBUF \<and> b_dirty (bufs s b)} \<union> A" by auto
  then have "card {..<NBUF} \<le> card ({b. b < NBUF \<and> b_dirty (bufs s b)} \<union> A)"
    using assms(2) by (intro card_mono) auto
  also have "\<dots> \<le> card {b. b < NBUF \<and> b_dirty (bufs s b)} + card A" by (rule card_Un_le)
  finally show False using assms(3) dirty_card [OF inv] by simp
qed

lemma dirty_cached:
  assumes "bio_inv s" "dirty s n"
  shows "\<exists>b<NBUF. b_dev (bufs s b) = 1 \<and> b_blockno (bufs s b) = n"
proof -
  obtain b where b: "b < NBUF" "b_dirty (bufs s b)" "b_blockno (bufs s b) = n"
    using assms(2) by (auto simp: dirty_def)
  then show ?thesis using bio_inv_buf [OF assms(1) b(1)] by (auto simp: buf_inv_def)
qed

text \<open>Two buffers held at once.\<close>

definition two_held :: "'x kbio_scheme \<Rightarrow> nat \<Rightarrow> nat \<Rightarrow> u32 \<Rightarrow> u32 \<Rightarrow> (u32 \<Rightarrow> block) \<Rightarrow> (u32 \<Rightarrow> block) \<Rightarrow> (u32 \<Rightarrow> bool)
    \<Rightarrow> (u32 \<times> block) list \<Rightarrow> bool" where
  "two_held s a b m n d v D w \<longleftrightarrow> bio_inv s \<and> a \<noteq> b \<and> a < NBUF \<and> b < NBUF \<and> bheld s a \<and> bheld s b
     \<and> (\<forall>c<NBUF. bheld s c \<longrightarrow> c = a \<or> c = b) \<and> b_blockno (bufs s a) = m \<and> b_blockno (bufs s b) = n
     \<and> b_data (bufs s a) = v m \<and> b_data (bufs s b) = v n \<and> b_dirty (bufs s a) = D m \<and> b_dirty (bufs s b) = D n
     \<and> disk s = d \<and> view s = v \<and> dirty s = D \<and> disk_writes s = w \<and> (\<forall>k. \<not> D k \<longrightarrow> v k = d k)"

lemma two_breads:
  assumes q: "bq s d v D w" and ne: "m \<noteq> n" and lim: "m < disksize s" "n < disksize s"
    and room: "card {n. D n} + 1 < NBUF \<or> D n \<and> card {n. D n} < NBUF"
  shows "\<exists>a s1 b t. bread 1 m s = Ret a s1 \<and> bread 1 n s1 = Ret b t \<and> bio_frame s s1 \<and> bio_frame s1 t
    \<and> two_held t a b m n d v D w"
proof -
  have inv: "bio_inv s" and nh: "\<And>b. b < NBUF \<Longrightarrow> \<not> bheld s b" and D: "dirty s = D" using q by (auto simp: bq_def)
  have "card {n. dirty s n} + card {} < NBUF" using room D by auto
  from clean_exists [OF inv _ this] have "can_read s m" using nh lim by (auto simp: can_read_def)
  then obtain a s1 where a: "bread 1 m s = Ret a s1" "bread_post s m a s1" using bread_ok [OF inv] by blast
  then have p: "bio_inv s1" "bio_frame s s1" "a < NBUF" "bheld s1 = (bheld s)(a := True)"
      "b_blockno (bufs s1 a) = m" "dirty s1 = D" "b_data (bufs s1 a) = v m" "view s1 = v" "b_dirty (bufs s1 a) = D m"
      "disk s1 = d" "disk_writes s1 = w"
    using q by (auto simp: bread_post_def bq_def)
  have ds: "disksize s1 = disksize s" using bio_frame_select [OF p(2)] by simp
  have held1: "c = a" if "c < NBUF" "bheld s1 c" for c using that nh p(4) by (auto split: if_splits)
  have "can_read s1 n"
  proof (cases "D n")
    case True
    then show ?thesis
      using dirty_cached [OF p(1), of n] p(6) lim ds held1 p(5) ne unfolding can_read_def by metis
  next
    case False
    then have "card {n. dirty s1 n} + card {a} < NBUF" using room p(6) by simp
    from clean_exists [OF p(1) _ this] obtain c where "c < NBUF" "c \<noteq> a" "\<not> b_dirty (bufs s1 c)" by auto
    then show ?thesis using lim ds held1 p(5) ne unfolding can_read_def by metis
  qed
  then obtain b t where b: "bread 1 n s1 = Ret b t" "bread_post s1 n b t" using bread_ok [OF p(1)] by blast
  then have r: "bio_inv t" "bio_frame s1 t" "b < NBUF" "\<not> bheld s1 b" "bheld t = (bheld s1)(b := True)"
      "b_blockno (bufs t b) = n" "b_data (bufs t b) = v n" "view t = v" "disk t = d" "disk_writes t = w"
      "\<And>c. c \<noteq> b \<Longrightarrow> bufs t c = bufs s1 c" "dirty t = D" "b_dirty (bufs t b) = D n"
    using p by (auto simp: bread_post_def)
  have ab: "a \<noteq> b" using r(4) p(4) by auto
  have hold: "\<forall>c<NBUF. bheld t c \<longrightarrow> c = a \<or> c = b" using r(5) held1 by auto
  have "two_held t a b m n d v D w"
    unfolding two_held_def using r p ab hold r(11) [OF ab] bq_clean [OF q] by simp
  then show ?thesis using a(1) b(1) p(2) r(2) by blast
qed

lemma set_data_step: "set_data b da s = held_step b (b_dirty (bufs s b)) da (disk s) (disk_writes s) s"
  by (simp add: set_data_def held_step_def upd_buf_def)

text \<open>Storing into a held buffer and writing it.\<close>

lemma set_bwrite:
  assumes inv: "bio_inv s" and b: "b < NBUF" "bheld s b"
  shows "bwrite b (set_data b da s) = Ret () (held_step b False da ((disk s)(b_blockno (bufs s b) := da))
    (disk_writes s @ [(b_blockno (bufs s b), da)]) s)"
proof -
  have "bio_inv (set_data b da s)" unfolding set_data_step by (rule held_step_inv [OF inv b]) simp
  moreover have "bheld (set_data b da s) b" using b(2) by (simp add: set_data_step held_step_select)
  ultimately show ?thesis
    using bwrite_ok [of "set_data b da s" b] b(1) by (simp add: set_data_step held_step_def)
qed

lemma copy_finish:
  assumes h: "two_held s t f m n d v D w \<or> two_held s f t n m d v D w" and ne: "m \<noteq> n"
  shows "\<exists>s1 s2 s3. bwrite t (set_data t (b_data (bufs s f)) s) = Ret () s1 \<and> brelse f s1 = Ret () s2
    \<and> brelse t s2 = Ret () s3 \<and> bio_frame s s1 \<and> bio_frame s1 s2 \<and> bio_frame s2 s3
    \<and> bq s3 (d(m := v n)) (v(m := v n)) (D(m := False)) (w @ [(m, v n)])"
proof -
  have k: "bio_inv s" "t \<noteq> f" "t < NBUF" "f < NBUF" "bheld s t" "bheld s f"
      "\<And>c. c < NBUF \<Longrightarrow> bheld s c \<Longrightarrow> c = t \<or> c = f" "b_blockno (bufs s t) = m" "b_blockno (bufs s f) = n"
      "b_data (bufs s f) = v n" "b_dirty (bufs s f) = D n" "disk s = d" "view s = v" "dirty s = D"
      "disk_writes s = w" "\<And>k. \<not> D k \<Longrightarrow> v k = d k"
    using h unfolding two_held_def by blast+
  let ?s1 = "held_step t False (v n) (d(m := v n)) (w @ [(m, v n)]) s"
  have w1: "bwrite t (set_data t (b_data (bufs s f)) s) = Ret () ?s1"
    using set_bwrite [OF k(1,3,5), of "v n"] unfolding k(8,10,12,15) .
  have i1: "bio_inv ?s1" by (rule held_step_inv [OF k(1,3,5)]) (simp add: k(8,12))
  have v1: "view ?s1 = v(m := v n)"
    using held_step_view [OF k(1,3,5), of "d(m := v n)"] by (simp add: k(8,12,13))
  have d1: "dirty ?s1 = D(m := False)" using held_step_dirty [OF k(1,3,5)] unfolding k(8,14) .
  have f1: "bufs ?s1 f = bufs s f" "bheld ?s1 f" using k(2,6) by (simp_all add: held_step_select)
  have "b_dirty (bufs ?s1 f) \<or> b_data (bufs ?s1 f) = disk ?s1 (b_blockno (bufs ?s1 f))"
    unfolding f1 k(9,10,11) using k(16) [of n] ne by (auto simp: held_step_select)
  then obtain s2 where s2: "brelse f ?s1 = Ret () s2" "brelse_post ?s1 f s2"
    using brelse_ok [OF i1 k(4) f1(2)] by blast
  have p2: "bio_inv s2" "bio_frame ?s1 s2" "bheld s2 = (bheld s)(f := False)" "view s2 = v(m := v n)"
      "dirty s2 = D(m := False)" "disk s2 = d(m := v n)" "disk_writes s2 = w @ [(m, v n)]"
      "same_buf (bufs ?s1 t) (bufs s2 t)"
    using s2(2) k(2) unfolding brelse_post_def v1 d1 held_step_select by blast+
  have "b_data (bufs s2 t) = disk s2 (b_blockno (bufs s2 t))" "bheld s2 t"
    using p2(3,6,8) k(2,5,8) by (simp_all add: same_buf_def held_step_select)
  then obtain s3 where s3: "brelse t s2 = Ret () s3" "brelse_post s2 t s3"
    using brelse_ok [OF p2(1) k(3)] by blast
  have "bheld s3 = (bheld s2)(t := False)" using s3(2) by (simp add: brelse_post_def)
  then have "\<forall>c<NBUF. \<not> bheld s3 c" using p2(3) k(7) by auto
  then have "bq s3 (d(m := v n)) (v(m := v n)) (D(m := False)) (w @ [(m, v n)])"
    using s3(2) p2(4-7) unfolding bq_def brelse_post_def by metis
  moreover have "bio_frame s2 s3" using s3(2) by (simp add: brelse_post_def)
  ultimately show ?thesis using w1 s2(1) s3(1) p2(2) held_step_select(5) by blast
qed

subsection \<open>One buffer\<close>

definition one_held :: "'x kbio_scheme \<Rightarrow> nat \<Rightarrow> u32 \<Rightarrow> (u32 \<Rightarrow> block) \<Rightarrow> (u32 \<Rightarrow> block) \<Rightarrow> (u32 \<Rightarrow> bool)
    \<Rightarrow> (u32 \<times> block) list \<Rightarrow> bool" where
  "one_held s a n d v D w \<longleftrightarrow> bio_inv s \<and> a < NBUF \<and> bheld s a \<and> (\<forall>c<NBUF. bheld s c \<longrightarrow> c = a)
     \<and> b_blockno (bufs s a) = n \<and> b_data (bufs s a) = v n \<and> b_dirty (bufs s a) = D n
     \<and> disk s = d \<and> view s = v \<and> dirty s = D \<and> disk_writes s = w \<and> (\<forall>k. \<not> D k \<longrightarrow> v k = d k)"

lemma one_bread:
  assumes q: "bq s d v D w" and lim: "n < disksize s" and room: "D n \<or> card {n. D n} < NBUF"
  shows "\<exists>a t. bread 1 n s = Ret a t \<and> bio_frame s t \<and> one_held t a n d v D w"
proof -
  have inv: "bio_inv s" and nh: "\<And>b. b < NBUF \<Longrightarrow> \<not> bheld s b" and D: "dirty s = D" using q by (auto simp: bq_def)
  have "can_read s n"
  proof (cases "D n")
    case True
    then have "\<exists>b<NBUF. b_dev (bufs s b) = 1 \<and> b_blockno (bufs s b) = n" using dirty_cached [OF inv, of n] D by simp
    then show ?thesis using lim nh unfolding can_read_def by blast
  next
    case False
    then have "card {n. dirty s n} + card {} < NBUF" using room D by auto
    from clean_exists [OF inv _ this] show ?thesis using nh lim by (auto simp: can_read_def)
  qed
  then obtain a t where a: "bread 1 n s = Ret a t" "bread_post s n a t" using bread_ok [OF inv] by blast
  then have p: "bio_inv t" "bio_frame s t" "a < NBUF" "bheld t = (bheld s)(a := True)"
      "b_blockno (bufs t a) = n" "dirty t = D" "b_data (bufs t a) = v n" "view t = v" "b_dirty (bufs t a) = D n"
      "disk t = d" "disk_writes t = w"
    using q by (auto simp: bread_post_def bq_def)
  have "\<forall>c<NBUF. bheld t c \<longrightarrow> c = a" "bheld t a" using nh p(4) by auto
  then have "one_held t a n d v D w" unfolding one_held_def using p bq_clean [OF q] by blast
  then show ?thesis using a(1) p(2) by blast
qed

lemma one_brelse:
  assumes h: "one_held s a n d v D w"
  shows "\<exists>t. brelse a s = Ret () t \<and> bio_frame s t \<and> bq t d v D w"
proof -
  have k: "bio_inv s" "a < NBUF" "bheld s a" "\<And>c. c < NBUF \<Longrightarrow> bheld s c \<Longrightarrow> c = a" "b_blockno (bufs s a) = n"
      "b_data (bufs s a) = v n" "b_dirty (bufs s a) = D n" "disk s = d" "view s = v" "dirty s = D"
      "disk_writes s = w" "\<And>k. \<not> D k \<Longrightarrow> v k = d k"
    using h unfolding one_held_def by blast+
  have "b_dirty (bufs s a) \<or> b_data (bufs s a) = disk s (b_blockno (bufs s a))"
    unfolding k(5-8) using k(12) [of n] by auto
  then obtain t where t: "brelse a s = Ret () t" "brelse_post s a t" using brelse_ok [OF k(1-3)] by blast
  have "bheld t = (bheld s)(a := False)" using t(2) by (simp add: brelse_post_def)
  then have "\<forall>c<NBUF. \<not> bheld t c" using k(4) by auto
  then have "bq t d v D w" using t(2) unfolding bq_def brelse_post_def k(8-11) by metis
  then show ?thesis using t by (auto simp: brelse_post_def)
qed

text \<open>Storing into the buffer and writing it through.\<close>

lemma one_set_bwrite:
  assumes h: "one_held s a n d v D w"
  shows "\<exists>t. bwrite a (set_data a da s) = Ret () t \<and> bio_frame s t
    \<and> one_held t a n (d(n := da)) (v(n := da)) (D(n := False)) (w @ [(n, da)])"
proof -
  have k: "bio_inv s" "a < NBUF" "bheld s a" "\<And>c. c < NBUF \<Longrightarrow> bheld s c \<Longrightarrow> c = a" "b_blockno (bufs s a) = n"
      "b_data (bufs s a) = v n" "b_dirty (bufs s a) = D n" "disk s = d" "view s = v" "dirty s = D"
      "disk_writes s = w" "\<And>k. \<not> D k \<Longrightarrow> v k = d k"
    using h unfolding one_held_def by blast+
  let ?t = "held_step a False da (d(n := da)) (w @ [(n, da)]) s"
  have w: "bwrite a (set_data a da s) = Ret () ?t"
    using set_bwrite [OF k(1-3), of da] unfolding k(5,8,11) .
  have i: "bio_inv ?t" by (rule held_step_inv [OF k(1-3)]) (simp add: k(5,8))
  have v: "view ?t = v(n := da)" using held_step_view [OF k(1-3), of "d(n := da)"] by (simp add: k(5,8,9))
  have di: "dirty ?t = D(n := False)" using held_step_dirty [OF k(1-3)] unfolding k(5,10) .
  have cl: "\<forall>k. \<not> (D(n := False)) k \<longrightarrow> (v(n := da)) k = (d(n := da)) k" using k(12) by auto
  have b: "b_blockno (bufs ?t a) = n" "b_data (bufs ?t a) = (v(n := da)) n" "b_dirty (bufs ?t a) = (D(n := False)) n"
    using k(5) by (simp_all add: held_step_select)
  have "one_held ?t a n (d(n := da)) (v(n := da)) (D(n := False)) (w @ [(n, da)])"
    unfolding one_held_def v di b held_step_select(2-4) using i k(2-4) cl by blast
  then show ?thesis using w held_step_select(5) by blast
qed

text \<open>The fields of the log are outside the cache.\<close>

lemma log_frame:
  assumes "bio_frame s t"
  shows "log_start t = log_start s" "log_size t = log_size s" "log_outstanding t = log_outstanding s"
    "log_committing t = log_committing s" "log_dev t = log_dev s" "lh_n t = lh_n s" "lh_block t = lh_block s"
proof -
  have e: "s\<lparr>slocks := slocks t, bufs := bufs t, disk := disk t, disk_writes := disk_writes t\<rparr> = t"
    using assms by (simp add: bio_frame_def)
  show "log_start t = log_start s" using arg_cong [OF e, of log_start] by simp
  show "log_size t = log_size s" using arg_cong [OF e, of log_size] by simp
  show "log_outstanding t = log_outstanding s" using arg_cong [OF e, of log_outstanding] by simp
  show "log_committing t = log_committing s" using arg_cong [OF e, of log_committing] by simp
  show "log_dev t = log_dev s" using arg_cong [OF e, of log_dev] by simp
  show "lh_n t = lh_n s" using arg_cong [OF e, of lh_n] by simp
  show "lh_block t = lh_block s" using arg_cong [OF e, of lh_block] by simp
qed

definition new_head :: "nat \<Rightarrow> (nat \<Rightarrow> u32) \<Rightarrow> block \<Rightarrow> block" where
  "new_head n bl d = put_blocks n bl (put32 0 (of_nat n) d)"

lemma write_head_ok:
  assumes q: "bq s d v D w" and dev: "log_dev s = 1" and lim: "log_start s < disksize s"
    and room: "card {n. D n} < NBUF" and n: "lh_n s = int n"
  shows "\<exists>t. write_head s = Ret () t \<and> bio_frame s t
    \<and> bq t (d(log_start s := new_head n (lh_block s) (v (log_start s))))
         (v(log_start s := new_head n (lh_block s) (v (log_start s)))) (D(log_start s := False))
         (w @ [(log_start s, new_head n (lh_block s) (v (log_start s)))])"
proof -
  let ?S = "log_start s" and ?h = "new_head n (lh_block s) (v (log_start s))"
  obtain a s1 where a: "bread 1 ?S s = Ret a s1" "bio_frame s s1" "one_held s1 a ?S d v D w"
    using one_bread [OF q lim] room by blast
  have da: "b_data (bufs s1 a) = v ?S" using a(3) by (simp add: one_held_def)
  obtain s2 where s2: "bwrite a (set_data a ?h s1) = Ret () s2" "bio_frame s1 s2"
      "one_held s2 a ?S (d(?S := ?h)) (v(?S := ?h)) (D(?S := False)) (w @ [(?S, ?h)])"
    using one_set_bwrite [OF a(3)] by blast
  obtain t where t: "brelse a s2 = Ret () t" "bio_frame s2 t"
      "bq t (d(?S := ?h)) (v(?S := ?h)) (D(?S := False)) (w @ [(?S, ?h)])"
    using one_brelse [OF s2(3)] by blast
  have "write_head s = Ret () t"
    using a(1) s2(1) t(1) n da by (simp add: write_head_def dev log_frame [OF a(2)] new_head_def)
  then show ?thesis using t a(2) s2(2) by (blast intro: bio_frame_trans)
qed

subsection \<open>The loops\<close>

definition apply_writes :: "(u32 \<times> block) list \<Rightarrow> (u32 \<Rightarrow> block) \<Rightarrow> u32 \<Rightarrow> block" where
  "apply_writes ws d = fold (\<lambda>(n, x) d. d(n := x)) ws d"

lemma apply_writes_simps [simp]:
  "apply_writes [] d = d" "apply_writes ((n, x) # ws) d = apply_writes ws (d(n := x))"
  "apply_writes (ws @ vs) d = apply_writes vs (apply_writes ws d)"
  by (simp_all add: apply_writes_def)

text \<open>The blocks of the log area, and the blocks of the transaction.\<close>

abbreviation log_blk :: "'x klog_scheme \<Rightarrow> nat \<Rightarrow> u32" where
  "log_blk s i \<equiv> log_start s + of_nat i + 1"

lemma write_log_loop_ok:
  assumes "bq s d v D w" "log_dev s = 1" "card {n. D n} < NBUF"
    and "\<And>i. tail \<le> i \<Longrightarrow> i < tail + k \<Longrightarrow>
      log_blk s i < disksize s \<and> lh_block s i < disksize s \<and> D (lh_block s i) \<and> \<not> D (log_blk s i)"
  shows "\<exists>t. write_log_loop k tail s = Ret () t \<and> bio_frame s t
    \<and> bq t (apply_writes (map (\<lambda>i. (log_blk s i, v (lh_block s i))) [tail..<tail + k]) d)
         (apply_writes (map (\<lambda>i. (log_blk s i, v (lh_block s i))) [tail..<tail + k]) v) D
         (w @ map (\<lambda>i. (log_blk s i, v (lh_block s i))) [tail..<tail + k])"
  using assms
proof (induction k arbitrary: tail s d v w)
  case 0
  then show ?case by (simp add: bio_frame_refl)
next
  case (Suc k)
  let ?m = "log_blk s tail" and ?n = "lh_block s tail"
  have at: "?m < disksize s" "?n < disksize s" "D ?n" "\<not> D ?m" using Suc.prems(4) [of tail] by auto
  then have ne: "?m \<noteq> ?n" by metis
  obtain a s1 b s2 where r: "bread 1 ?m s = Ret a s1" "bread 1 ?n s1 = Ret b s2" "bio_frame s s1" "bio_frame s1 s2"
      "two_held s2 a b ?m ?n d v D w"
    using two_breads [OF Suc.prems(1) ne at(1,2)] at(3) Suc.prems(3) by blast
  obtain s3 s4 s5 where c: "bwrite a (set_data a (b_data (bufs s2 b)) s2) = Ret () s3" "brelse b s3 = Ret () s4"
      "brelse a s4 = Ret () s5" "bio_frame s2 s3" "bio_frame s3 s4" "bio_frame s4 s5"
      "bq s5 (d(?m := v ?n)) (v(?m := v ?n)) (D(?m := False)) (w @ [(?m, v ?n)])"
    using copy_finish [of s2 a b ?m ?n d v D w] r(5) ne by blast
  have fr: "bio_frame s s5" using r(3,4) c(4-6) by (blast intro: bio_frame_trans)
  note lf = log_frame [OF fr] bio_frame_select(20) [OF fr]
  have D: "D(?m := False) = D" using at(4) by (auto simp: fun_eq_iff)
  have ih: "\<exists>t. write_log_loop k (tail + 1) s5 = Ret () t \<and> bio_frame s5 t
    \<and> bq t (apply_writes (map (\<lambda>i. (log_blk s5 i, (v(?m := v ?n)) (lh_block s5 i))) [tail + 1..<tail + 1 + k]) (d(?m := v ?n)))
         (apply_writes (map (\<lambda>i. (log_blk s5 i, (v(?m := v ?n)) (lh_block s5 i))) [tail + 1..<tail + 1 + k]) (v(?m := v ?n))) D
         ((w @ [(?m, v ?n)]) @ map (\<lambda>i. (log_blk s5 i, (v(?m := v ?n)) (lh_block s5 i))) [tail + 1..<tail + 1 + k])"
  proof (rule Suc.IH)
    show "bq s5 (d(?m := v ?n)) (v(?m := v ?n)) D (w @ [(?m, v ?n)])" using c(7) unfolding D .
  qed (use Suc.prems(2-4) lf in auto)
  have ms: "map (\<lambda>i. (log_blk s5 i, (v(?m := v ?n)) (lh_block s5 i))) [tail + 1..<tail + 1 + k]
      = map (\<lambda>i. (log_blk s i, v (lh_block s i))) [tail + 1..<tail + 1 + k]"
  proof (rule map_cong [OF refl])
    fix i assume "i \<in> set [tail + 1..<tail + 1 + k]"
    then have "D (lh_block s i)" using Suc.prems(4) [of i] by auto
    then have "lh_block s i \<noteq> ?m" using at(4) by metis
    then show "(log_blk s5 i, (v(?m := v ?n)) (lh_block s5 i)) = (log_blk s i, v (lh_block s i))" by (simp add: lf)
  qed
  have up: "[tail..<tail + Suc k] = tail # [tail + 1..<tail + 1 + k]" by (simp add: upt_conv_Cons)
  have st: "write_log_loop (Suc k) tail s = write_log_loop k (tail + 1) s5"
    using r(1,2) c(1-3) Suc.prems(2) by (simp add: log_frame [OF r(3)])
  show ?case
    unfolding st up list.map apply_writes_simps
    using ih fr unfolding ms append_assoc append_Cons append_Nil by (blast intro: bio_frame_trans)
qed

text \<open>Enough buffers: two clean ones, or one if the block to install is pinned in the cache.\<close>

definition room_for :: "(u32 \<Rightarrow> bool) \<Rightarrow> (nat \<Rightarrow> u32) \<Rightarrow> nat \<Rightarrow> nat \<Rightarrow> bool" where
  "room_for D bl tail k \<longleftrightarrow> card {n. D n} + 1 < NBUF
     \<or> card {n. D n} < NBUF \<and> inj_on bl {tail..<tail + k} \<and> (\<forall>i\<in>{tail..<tail + k}. D (bl i))"

lemma room_for_step:
  assumes "room_for D bl tail (Suc k)"
  shows "card {n. D n} + 1 < NBUF \<or> D (bl tail) \<and> card {n. D n} < NBUF"
    and "room_for (D(bl tail := False)) bl (tail + 1) k"
proof -
  show "card {n. D n} + 1 < NBUF \<or> D (bl tail) \<and> card {n. D n} < NBUF"
    using assms by (auto simp: room_for_def)
  have "card {n. (D(bl tail := False)) n} \<le> card {n. D n}"
    by (intro card_mono) (auto split: if_splits)
  moreover have "inj_on bl {tail + 1..<tail + 1 + k} \<and> (\<forall>i\<in>{tail + 1..<tail + 1 + k}. (D(bl tail := False)) (bl i))"
    if "inj_on bl {tail..<tail + Suc k}" "\<forall>i\<in>{tail..<tail + Suc k}. D (bl i)"
  proof
    show "inj_on bl {tail + 1..<tail + 1 + k}" using that(1) by (rule inj_on_subset) auto
    show "\<forall>i\<in>{tail + 1..<tail + 1 + k}. (D(bl tail := False)) (bl i)"
    proof
      fix i assume i: "i \<in> {tail + 1..<tail + 1 + k}"
      then have "bl i \<noteq> bl tail" using inj_onD [OF that(1), of i tail] by auto
      then show "(D(bl tail := False)) (bl i)" using that(2) i by auto
    qed
  qed
  ultimately show "room_for (D(bl tail := False)) bl (tail + 1) k"
    using assms unfolding room_for_def by linarith
qed

lemma install_trans_loop_ok:
  assumes "bq s d v D w" "log_dev s = 1" "room_for D (lh_block s) tail k"
    and "\<And>i. tail \<le> i \<Longrightarrow> i < tail + k \<Longrightarrow> log_blk s i < disksize s \<and> lh_block s i < disksize s"
    and "\<And>i j. tail \<le> i \<Longrightarrow> i < tail + k \<Longrightarrow> tail \<le> j \<Longrightarrow> j < tail + k \<Longrightarrow> log_blk s i \<noteq> lh_block s j"
  shows "\<exists>t. install_trans_loop k tail s = Ret () t \<and> bio_frame s t
    \<and> bq t (apply_writes (map (\<lambda>i. (lh_block s i, v (log_blk s i))) [tail..<tail + k]) d)
         (apply_writes (map (\<lambda>i. (lh_block s i, v (log_blk s i))) [tail..<tail + k]) v)
         (\<lambda>n. D n \<and> n \<notin> lh_block s ` {tail..<tail + k})
         (w @ map (\<lambda>i. (lh_block s i, v (log_blk s i))) [tail..<tail + k])"
  using assms
proof (induction k arbitrary: tail s d v D w)
  case 0
  then show ?case by (simp add: bio_frame_refl)
next
  case (Suc k)
  let ?m = "log_blk s tail" and ?n = "lh_block s tail"
  have at: "?m < disksize s" "?n < disksize s" using Suc.prems(4) [of tail] by auto
  have ne: "?m \<noteq> ?n" using Suc.prems(5) [of tail tail] by simp
  obtain a s1 b s2 where r: "bread 1 ?m s = Ret a s1" "bread 1 ?n s1 = Ret b s2" "bio_frame s s1" "bio_frame s1 s2"
      "two_held s2 a b ?m ?n d v D w"
    using two_breads [OF Suc.prems(1) ne at] room_for_step(1) [OF Suc.prems(3)] by blast
  obtain s3 s4 s5 where c: "bwrite b (set_data b (b_data (bufs s2 a)) s2) = Ret () s3" "brelse a s3 = Ret () s4"
      "brelse b s4 = Ret () s5" "bio_frame s2 s3" "bio_frame s3 s4" "bio_frame s4 s5"
      "bq s5 (d(?n := v ?m)) (v(?n := v ?m)) (D(?n := False)) (w @ [(?n, v ?m)])"
    using copy_finish [OF disjI2, OF r(5)] ne by metis
  have fr: "bio_frame s s5" using r(3,4) c(4-6) by (blast intro: bio_frame_trans)
  note lf = log_frame [OF fr] bio_frame_select(20) [OF fr]
  let ?ws = "\<lambda>s v. map (\<lambda>i. (lh_block s i, v (log_blk s i))) [tail + 1..<tail + 1 + k]"
  have ih: "\<exists>t. install_trans_loop k (tail + 1) s5 = Ret () t \<and> bio_frame s5 t
    \<and> bq t (apply_writes (?ws s5 (v(?n := v ?m))) (d(?n := v ?m))) (apply_writes (?ws s5 (v(?n := v ?m))) (v(?n := v ?m)))
         (\<lambda>n. (D(?n := False)) n \<and> n \<notin> lh_block s5 ` {tail + 1..<tail + 1 + k})
         ((w @ [(?n, v ?m)]) @ ?ws s5 (v(?n := v ?m)))"
  proof (rule Suc.IH [OF c(7)])
    show "room_for (D(?n := False)) (lh_block s5) (tail + 1) k"
      using room_for_step(2) [OF Suc.prems(3)] unfolding lf .
  qed (use Suc.prems(2,4,5) lf in auto)
  have ms: "?ws s5 (v(?n := v ?m)) = ?ws s v"
  proof (rule map_cong [OF refl])
    fix i assume "i \<in> set [tail + 1..<tail + 1 + k]"
    then have "log_blk s i \<noteq> ?n" using Suc.prems(5) [of i tail] by auto
    then show "(lh_block s5 i, (v(?n := v ?m)) (log_blk s5 i)) = (lh_block s i, v (log_blk s i))" by (simp add: lf)
  qed
  have up: "[tail..<tail + Suc k] = tail # [tail + 1..<tail + 1 + k]" by (simp add: upt_conv_Cons)
  have im: "(\<lambda>n. (D(?n := False)) n \<and> n \<notin> lh_block s5 ` {tail + 1..<tail + 1 + k})
      = (\<lambda>n. D n \<and> n \<notin> lh_block s ` {tail..<tail + Suc k})"
  proof -
    have "{tail..<tail + Suc k} = insert tail {tail + 1..<tail + 1 + k}" by auto
    then show ?thesis by (auto simp: lf fun_eq_iff)
  qed
  have st: "install_trans_loop (Suc k) tail s = install_trans_loop k (tail + 1) s5"
    using r(1,2) c(1-3) Suc.prems(2) by (simp add: log_frame [OF r(3)])
  show ?case
    unfolding st up list.map apply_writes_simps
    using ih fr unfolding ms im append_assoc append_Cons append_Nil by (blast intro: bio_frame_trans)
qed

subsection \<open>The header\<close>

lemma put_blocks_0: "get32 (put_blocks n bl d) 0 = get32 d 0"
  by (induction n) auto

lemma put_blocks_get: "i < n \<Longrightarrow> get32 (put_blocks n bl d) (4 + 4 * i) = bl i"
  by (induction n) (auto simp: less_Suc_eq)

lemma sint_small: "n < 2 ^ 31 \<Longrightarrow> sint (of_nat n :: u32) = int n"
  by (simp add: signed_of_nat signed_take_bit_int_eq_self)

lemma head_new: "n < 2 ^ 31 \<Longrightarrow> head_n (new_head n bl d) = int n"
  "i < n \<Longrightarrow> head_block (new_head n bl d) i = bl i"
  by (simp_all add: head_n_def head_block_def new_head_def put_blocks_0 put_blocks_get sint_small)

subsection \<open>Recovery\<close>

text \<open>The cache does not see the fields that later records add.\<close>

lemma trunc_select:
  "bheld (kbio.truncate s) = bheld s" "view (kbio.truncate s) = view s" "dirty (kbio.truncate s) = dirty s"
  "bufs (kbio.truncate s) = bufs s" "disk (kbio.truncate s) = disk s" "disk_writes (kbio.truncate s) = disk_writes s"
  "disksize (kbio.truncate s) = disksize s" "buf_inv (kbio.truncate s) = buf_inv s"
  "cpu_ok (kbio.truncate s) = cpu_ok s" "locks (kbio.truncate s) = locks s" "ptable (kbio.truncate s) = ptable s"
  by (simp_all add: kbio.truncate_def bheld_def view_def dirty_def fun_eq_iff buf_inv_def cpu_ok_def
      split: option.split)

lemma bio_inv_trunc: "bio_inv (kbio.truncate s) = bio_inv s"
  by (simp add: bio_inv_def trunc_select)

lemma bq_trunc: "bq (kbio.truncate s) d v D w = bq s d v D w"
  and one_held_trunc: "one_held (kbio.truncate s) a n d v D w = one_held s a n d v D w"
  by (simp_all add: bq_def one_held_def bio_inv_trunc trunc_select)

lemma bq_cong: "kbio.truncate s = kbio.truncate t \<Longrightarrow> bq s d v D w = bq t d v D w"
  using bq_trunc [of s] bq_trunc [of t] by simp

lemma one_held_cong: "kbio.truncate s = kbio.truncate t \<Longrightarrow> one_held s a n d v D w = one_held t a n d v D w"
  using one_held_trunc [of s] one_held_trunc [of t] by simp

lemma lh_update [simp]:
  "one_held (s\<lparr>lh_n := x\<rparr>) a n d v D w = one_held s a n d v D w"
  "one_held (s\<lparr>lh_block := y\<rparr>) a n d v D w = one_held s a n d v D w"
  "bq (s\<lparr>lh_n := x\<rparr>) d v D w = bq s d v D w" "bq (s\<lparr>lh_block := y\<rparr>) d v D w = bq s d v D w"
  by (rule one_held_cong bq_cong; simp add: kbio.truncate_def)+

lemma read_head_ok:
  assumes q: "bq s d v D w" and dev: "log_dev s = 1" and lim: "log_start s < disksize s"
    and room: "card {n. D n} < NBUF"
  shows "\<exists>t. read_head s = Ret () t \<and> bq t d v D w \<and> log_dev t = 1 \<and> log_start t = log_start s
    \<and> disksize t = disksize s \<and> lh_n t = head_n (v (log_start s))
    \<and> (\<forall>i. int i < lh_n t \<longrightarrow> lh_block t i = head_block (v (log_start s)) i)"
proof -
  let ?S = "log_start s"
  obtain a s1 where a: "bread 1 ?S s = Ret a s1" "bio_frame s s1" "one_held s1 a ?S d v D w"
    using one_bread [OF q lim] room by blast
  have da: "b_data (bufs s1 a) = v ?S" using a(3) by (simp add: one_held_def)
  let ?s2 = "s1\<lparr>lh_n := head_n (v ?S), lh_block := (\<lambda>i. if int i < head_n (v ?S) then head_block (v ?S) i else lh_block s1 i)\<rparr>"
  have "one_held ?s2 a ?S d v D w" using a(3) by simp
  then obtain t where t: "brelse a ?s2 = Ret () t" "bio_frame ?s2 t" "bq t d v D w" using one_brelse by blast
  have "read_head s = Ret () t" using a(1) t(1) da by (simp add: read_head_def dev Let_def cong: if_cong)
  then show ?thesis
    using t(3) log_frame [OF t(2)] log_frame [OF a(2)] bio_frame_select(20) [OF t(2)] bio_frame_select(20) [OF a(2)] dev
    by auto
qed

text \<open>What recovery makes of a disk.\<close>

definition recovery_writes :: "u32 \<Rightarrow> (u32 \<Rightarrow> block) \<Rightarrow> (u32 \<times> block) list" where
  "recovery_writes S d = map (\<lambda>i. (head_block (d S) i, d (S + of_nat i + 1))) [0..<nat (head_n (d S))]"

definition recovered :: "u32 \<Rightarrow> (u32 \<Rightarrow> block) \<Rightarrow> u32 \<Rightarrow> block" where
  "recovered S d = apply_writes (recovery_writes S d) d"

text \<open>
  A machine that has just booted from the disk \<open>d\<close>: the cache is clean and the log's place is known.
\<close>

definition booted :: "'x klog_scheme \<Rightarrow> (u32 \<Rightarrow> block) \<Rightarrow> u32 \<Rightarrow> u32 \<Rightarrow> bool" where
  "booted r d S N \<longleftrightarrow> (\<exists>w. bq r d d (\<lambda>_. False) w) \<and> log_dev r = 1 \<and> log_start r = S \<and> disksize r = N"

definition log_sane :: "(u32 \<Rightarrow> block) \<Rightarrow> u32 \<Rightarrow> u32 \<Rightarrow> bool" where
  "log_sane d S N \<longleftrightarrow> S < N \<and> (\<forall>i. int i < head_n (d S) \<longrightarrow>
     S + of_nat i + 1 < N \<and> head_block (d S) i < N \<and> head_block (d S) i \<noteq> S
     \<and> (\<forall>j. int j < head_n (d S) \<longrightarrow> S + of_nat i + 1 \<noteq> head_block (d S) j))"

lemma recover_ok:
  assumes b: "booted r d S N" and sane: "log_sane d S N"
  shows "\<exists>u h. recover_from_log r = Ret () u \<and> disk u = (recovered S d)(S := h) \<and> head_n h = 0"
proof -
  obtain w where q: "bq r d d (\<lambda>_. False) w" using b by (auto simp: booted_def)
  have r: "log_dev r = 1" "log_start r = S" "disksize r = N" using b by (auto simp: booted_def)
  have S: "S < N" using sane by (simp add: log_sane_def)
  obtain s1 where s1: "read_head r = Ret () s1" "bq s1 d d (\<lambda>_. False) w" "log_dev s1 = 1" "log_start s1 = S"
      "disksize s1 = N" "lh_n s1 = head_n (d S)" "\<And>i. int i < lh_n s1 \<Longrightarrow> lh_block s1 i = head_block (d S) i"
    using read_head_ok [OF q] r S by auto
  let ?n = "nat (head_n (d S))"
  let ?ws = "map (\<lambda>i. (lh_block s1 i, d (log_blk s1 i))) [0..<0 + ?n]"
  have ws: "?ws = recovery_writes S d"
    unfolding recovery_writes_def by (rule map_cong) (auto simp: s1)
  have "\<exists>t. install_trans_loop ?n 0 s1 = Ret () t \<and> bio_frame s1 t
    \<and> bq t (apply_writes ?ws d) (apply_writes ?ws d) (\<lambda>n. False \<and> n \<notin> lh_block s1 ` {0..<0 + ?n}) (w @ ?ws)"
  proof (rule install_trans_loop_ok [OF s1(2,3)])
    show "room_for (\<lambda>_. False) (lh_block s1) 0 ?n" by (simp add: room_for_def)
  next
    fix i assume "i < 0 + ?n"
    then show "log_blk s1 i < disksize s1 \<and> lh_block s1 i < disksize s1"
      using sane s1(4-7) by (auto simp: log_sane_def)
  next
    fix i j assume "i < 0 + ?n" "j < 0 + ?n"
    then show "log_blk s1 i \<noteq> lh_block s1 j" using sane s1(4-7) by (auto simp: log_sane_def)
  qed
  then obtain s2 where s2: "install_trans s1 = Ret () s2" "bio_frame s1 s2"
      "bq s2 (recovered S d) (recovered S d) (\<lambda>_. False) (w @ ?ws)"
    unfolding ws by (auto simp: install_trans_def s1(6) recovered_def)
  have q3: "bq (s2\<lparr>lh_n := 0\<rparr>) (recovered S d) (recovered S d) (\<lambda>_. False) (w @ ?ws)" using s2(3) by simp
  have l3: "log_dev (s2\<lparr>lh_n := 0\<rparr>) = 1" "log_start (s2\<lparr>lh_n := 0\<rparr>) = S" "disksize (s2\<lparr>lh_n := 0\<rparr>) = N"
    using log_frame [OF s2(2)] bio_frame_select(20) [OF s2(2)] s1 by auto
  obtain u where u: "write_head (s2\<lparr>lh_n := 0\<rparr>) = Ret () u"
      "bq u ((recovered S d)(S := new_head 0 (lh_block s2) (recovered S d S)))
        ((recovered S d)(S := new_head 0 (lh_block s2) (recovered S d S))) ((\<lambda>_. False)(S := False))
        ((w @ ?ws) @ [(S, new_head 0 (lh_block s2) (recovered S d S))])"
    using write_head_ok [OF q3 l3(1), of 0] l3 S by auto
  have "recover_from_log r = Ret () u" using s1(1) s2(1) u(1) by (simp add: recover_from_log_def)
  moreover have "disk u = (recovered S d)(S := new_head 0 (lh_block s2) (recovered S d S))" using u(2) by (simp add: bq_def)
  ultimately show ?thesis using head_new(1) [of 0 "lh_block s2" "recovered S d S"] by auto
qed

subsection \<open>Commit\<close>

text \<open>
  A transaction ready to commit: \<open>n\<close> distinct blocks, exactly these are dirty in the cache, none of
  them in the log area; \<open>d\<close> is the disk and \<open>v\<close> what the system calls have made of it.
\<close>

definition txn :: "'x klog_scheme \<Rightarrow> (u32 \<Rightarrow> block) \<Rightarrow> (u32 \<Rightarrow> block) \<Rightarrow> nat \<Rightarrow> bool" where
  "txn s d v n \<longleftrightarrow> bq s d v (\<lambda>m. m \<in> lh_block s ` {..<n}) (disk_writes s) \<and> log_dev s = 1 \<and> lh_n s = int n
     \<and> 0 < n \<and> n < NBUF \<and> inj_on (lh_block s) {..<n} \<and> log_start s < disksize s
     \<and> (\<forall>i<n. log_blk s i < disksize s \<and> lh_block s i < disksize s \<and> lh_block s i \<noteq> log_start s)
     \<and> (\<forall>i<n. \<forall>j<n. log_blk s i \<noteq> lh_block s j)"

text \<open>The blocks that are not part of the log.\<close>

definition outside :: "'x klog_scheme \<Rightarrow> nat \<Rightarrow> u32 \<Rightarrow> bool" where
  "outside s n m \<longleftrightarrow> m \<noteq> log_start s \<and> (\<forall>i<n. m \<noteq> log_blk s i)"

lemma log_blk_distinct:
  assumes "i < NBUF" "j < NBUF"
  shows "log_blk s i = log_blk s j \<longleftrightarrow> i = j" "log_blk s i \<noteq> log_start s"
proof -
  have u: "unat (of_nat k + 1 :: u32) = k + 1" if "k < NBUF" for k
    using that by (simp add: unat_word_ariths unat_of_nat)
  have "i = j" if "(of_nat i + 1 :: u32) = of_nat j + 1"
    using u [OF assms(1)] u [OF assms(2)] unfolding that by linarith
  then show "log_blk s i = log_blk s j \<longleftrightarrow> i = j" unfolding add.assoc add_left_cancel by blast
  have "(of_nat i + 1 :: u32) \<noteq> 0" using u [OF assms(1)] by (metis Suc_eq_plus1 nat.distinct(1) unat_0)
  then show "log_blk s i \<noteq> log_start s" unfolding add.assoc by (metis add_cancel_left_right)
qed

lemma apply_writes_notin: "m \<notin> fst ` set ws \<Longrightarrow> apply_writes ws d m = d m"
  by (induction ws arbitrary: d) auto

lemma apply_writes_in:
  "distinct (map fst ws) \<Longrightarrow> (m, x) \<in> set ws \<Longrightarrow> apply_writes ws d m = x"
  by (induction ws arbitrary: d) (auto simp: apply_writes_notin image_iff)

lemma apply_writes_upto:
  assumes "inj_on f {..<n}" "i < n"
  shows "apply_writes (map (\<lambda>i. (f i, g i)) [0..<n]) d (f i) = g i"
proof (rule apply_writes_in)
  have "distinct (map f [0..<n])" using assms(1) by (simp add: distinct_map atLeast0LessThan)
  then show "distinct (map fst (map (\<lambda>i. (f i, g i)) [0..<n]))" by (simp add: comp_def)
qed (use assms(2) in auto)

definition log_part :: "'x klog_scheme \<Rightarrow> (u32 \<Rightarrow> block) \<Rightarrow> nat \<Rightarrow> (u32 \<times> block) list" where
  "log_part s v n = map (\<lambda>i. (log_blk s i, v (lh_block s i))) [0..<n]"

definition home_part :: "'x klog_scheme \<Rightarrow> (u32 \<Rightarrow> block) \<Rightarrow> nat \<Rightarrow> (u32 \<times> block) list" where
  "home_part s v n = map (\<lambda>i. (lh_block s i, v (lh_block s i))) [0..<n]"

definition commit_head :: "'x klog_scheme \<Rightarrow> (u32 \<Rightarrow> block) \<Rightarrow> nat \<Rightarrow> block" where
  "commit_head s v n = new_head n (lh_block s) (v (log_start s))"

definition commit_writes :: "'x klog_scheme \<Rightarrow> (u32 \<Rightarrow> block) \<Rightarrow> nat \<Rightarrow> (u32 \<times> block) list" where
  "commit_writes s v n = log_part s v n @ (log_start s, commit_head s v n) # home_part s v n
     @ [(log_start s, new_head 0 (lh_block s) (commit_head s v n))]"

lemma log_part_at:
  assumes "txn s d v n"
  shows "i < n \<Longrightarrow> apply_writes (log_part s v n) e (log_blk s i) = v (lh_block s i)"
    and "outside s n m \<Longrightarrow> apply_writes (log_part s v n) e m = e m"
    and "apply_writes (log_part s v n) e (log_start s) = e (log_start s)"
proof -
  have n: "n < NBUF" using assms by (simp add: txn_def)
  have inj: "inj_on (log_blk s) {..<n}" using n log_blk_distinct(1) [of _ _ s] by (auto intro!: inj_onI)
  show "i < n \<Longrightarrow> apply_writes (log_part s v n) e (log_blk s i) = v (lh_block s i)"
    unfolding log_part_def by (rule apply_writes_upto [OF inj])
  show "outside s n m \<Longrightarrow> apply_writes (log_part s v n) e m = e m"
    by (intro apply_writes_notin) (auto simp: log_part_def outside_def)
  show "apply_writes (log_part s v n) e (log_start s) = e (log_start s)"
  proof (rule apply_writes_notin)
    have "log_start s \<noteq> log_blk s i" if "i < n" for i using log_blk_distinct(2) [of i i s] n that by simp
    then show "log_start s \<notin> fst ` set (log_part s v n)" unfolding log_part_def by auto
  qed
qed

lemma home_part_at:
  assumes "txn s d v n"
  shows "i < n \<Longrightarrow> apply_writes (home_part s v n) e (lh_block s i) = v (lh_block s i)"
    and "m \<notin> lh_block s ` {..<n} \<Longrightarrow> apply_writes (home_part s v n) e m = e m"
proof -
  have inj: "inj_on (lh_block s) {..<n}" using assms by (simp add: txn_def)
  show "i < n \<Longrightarrow> apply_writes (home_part s v n) e (lh_block s i) = v (lh_block s i)"
    unfolding home_part_def by (rule apply_writes_upto [OF inj])
  show "m \<notin> lh_block s ` {..<n} \<Longrightarrow> apply_writes (home_part s v n) e m = e m"
    by (intro apply_writes_notin) (auto simp: home_part_def)
qed

lemma bio_frame_lh:
  assumes "bio_frame s t"
  shows "bio_frame (s\<lparr>lh_n := x\<rparr>) (t\<lparr>lh_n := x\<rparr>)"
proof -
  have e: "s\<lparr>slocks := slocks t, bufs := bufs t, disk := disk t, disk_writes := disk_writes t\<rparr> = t"
    and c: "\<forall>c i. c \<noteq> 0 \<longrightarrow> slocks t (c, i) = slocks s (c, i)"
    using assms by (simp_all add: bio_frame_def)
  have "s\<lparr>lh_n := x\<rparr>\<lparr>slocks := slocks t, bufs := bufs t, disk := disk t, disk_writes := disk_writes t\<rparr> = t\<lparr>lh_n := x\<rparr>"
    using arg_cong [OF e, of "\<lambda>u. u\<lparr>lh_n := x\<rparr>"] by (cases s, cases t) simp
  then show ?thesis using c by (simp add: bio_frame_def)
qed

lemma commit_ok:
  assumes tx: "txn s d v n"
  shows "\<exists>t. commit s = Ret () t \<and> bq t (apply_writes (commit_writes s v n) d) (apply_writes (commit_writes s v n) v)
      (\<lambda>_. False) (disk_writes s @ commit_writes s v n)
    \<and> lh_n t = 0 \<and> bio_frame (s\<lparr>lh_n := 0\<rparr>) t"
proof -
  let ?S = "log_start s" and ?D = "\<lambda>m. m \<in> lh_block s ` {..<n}" and ?h = "commit_head s v n"
  have q: "bq s d v ?D (disk_writes s)" and dev: "log_dev s = 1" and ln: "lh_n s = int n" and n: "0 < n" "n < NBUF"
    and inj: "inj_on (lh_block s) {..<n}" and lim: "?S < disksize s"
      "\<And>i. i < n \<Longrightarrow> log_blk s i < disksize s \<and> lh_block s i < disksize s"
    and sep: "\<And>i. i < n \<Longrightarrow> lh_block s i \<noteq> ?S" "\<And>i j. i < n \<Longrightarrow> j < n \<Longrightarrow> log_blk s i \<noteq> lh_block s j"
    using tx unfolding txn_def by blast+
  have card: "card {m. ?D m} < NBUF"
    using card_image_le [of "{..<n}" "lh_block s"] n by (simp add: image_def)
  have "\<exists>t. write_log_loop n 0 s = Ret () t \<and> bio_frame s t
    \<and> bq t (apply_writes (map (\<lambda>i. (log_blk s i, v (lh_block s i))) [0..<0 + n]) d)
         (apply_writes (map (\<lambda>i. (log_blk s i, v (lh_block s i))) [0..<0 + n]) v) ?D
         (disk_writes s @ map (\<lambda>i. (log_blk s i, v (lh_block s i))) [0..<0 + n])"
    by (rule write_log_loop_ok [OF q dev card]) (use lim sep(2) in auto)
  then obtain s1 where s1: "write_log s = Ret () s1" "bio_frame s s1"
      "bq s1 (apply_writes (log_part s v n) d) (apply_writes (log_part s v n) v) ?D (disk_writes s @ log_part s v n)"
    using ln unfolding log_part_def write_log_def by auto
  let ?d1 = "apply_writes (log_part s v n) d" and ?v1 = "apply_writes (log_part s v n) v"
  let ?w1 = "disk_writes s @ log_part s v n"
  note f1 = log_frame [OF s1(2)] bio_frame_select(20) [OF s1(2)]
  have h1: "new_head n (lh_block s) (?v1 ?S) = ?h" using log_part_at(3) [OF tx] by (simp add: commit_head_def)
  have SD: "?S \<notin> lh_block s ` {..<n}" using sep(1) by (metis imageE lessThan_iff)
  then have D1: "?D(?S := False) = ?D" by (intro fun_upd_idem) simp
  obtain s2 where s2: "write_head s1 = Ret () s2" "bio_frame s1 s2"
      "bq s2 (?d1(?S := ?h)) (?v1(?S := ?h)) ?D (?w1 @ [(?S, ?h)])"
    using write_head_ok [OF s1(3), of n] card unfolding f1 dev ln h1 D1 using lim(1) by blast
  have fr2: "bio_frame s s2" using s1(2) s2(2) by (rule bio_frame_trans)
  note f2 = log_frame [OF fr2] bio_frame_select(20) [OF fr2]
  let ?v2 = "?v1(?S := ?h)"
  have "\<exists>t. install_trans_loop n 0 s2 = Ret () t \<and> bio_frame s2 t
    \<and> bq t (apply_writes (map (\<lambda>i. (lh_block s2 i, ?v2 (log_blk s2 i))) [0..<0 + n]) (?d1(?S := ?h)))
         (apply_writes (map (\<lambda>i. (lh_block s2 i, ?v2 (log_blk s2 i))) [0..<0 + n]) ?v2)
         (\<lambda>m. ?D m \<and> m \<notin> lh_block s2 ` {0..<0 + n})
         ((?w1 @ [(?S, ?h)]) @ map (\<lambda>i. (lh_block s2 i, ?v2 (log_blk s2 i))) [0..<0 + n])"
  proof (rule install_trans_loop_ok [OF s2(3)])
    show "room_for ?D (lh_block s2) 0 n"
      using card inj unfolding room_for_def f2 by (auto simp: atLeast0LessThan)
  qed (use f2 dev lim sep(2) in auto)
  moreover have "map (\<lambda>i. (lh_block s2 i, ?v2 (log_blk s2 i))) [0..<0 + n] = home_part s v n"
    unfolding home_part_def add_0
  proof (rule map_cong [OF refl])
    fix i assume "i \<in> set [0..<n]"
    then have i: "i < n" by simp
    have "log_blk s i \<noteq> ?S" using log_blk_distinct(2) [of i i s] i n by simp
    then show "(lh_block s2 i, ?v2 (log_blk s2 i)) = (lh_block s i, v (lh_block s i))"
      using log_part_at(1) [OF tx i] by (simp add: f2)
  qed
  moreover have "(\<lambda>m. ?D m \<and> m \<notin> lh_block s2 ` {0..<0 + n}) = (\<lambda>_. False)" by (auto simp: f2 atLeast0LessThan)
  ultimately obtain s3 where s3: "install_trans s2 = Ret () s3" "bio_frame s2 s3"
      "bq s3 (apply_writes (home_part s v n) (?d1(?S := ?h))) (apply_writes (home_part s v n) ?v2) (\<lambda>_. False)
        ((?w1 @ [(?S, ?h)]) @ home_part s v n)"
    using ln f2 unfolding install_trans_def by auto
  have fr3: "bio_frame s s3" using fr2 s3(2) by (rule bio_frame_trans)
  note f3 = log_frame [OF fr3] bio_frame_select(20) [OF fr3]
  let ?s3 = "s3\<lparr>lh_n := 0\<rparr>" and ?v3 = "apply_writes (home_part s v n) ?v2"
  have q3: "bq ?s3 (apply_writes (home_part s v n) (?d1(?S := ?h))) ?v3 (\<lambda>_. False) ((?w1 @ [(?S, ?h)]) @ home_part s v n)"
    using s3(3) by simp
  have l3: "log_dev ?s3 = 1" "log_start ?s3 = ?S" "disksize ?s3 = disksize s" "lh_n ?s3 = int 0" "lh_block ?s3 = lh_block s"
    using f3 dev by simp_all
  have S3: "?v3 ?S = ?h" using home_part_at(2) [OF tx SD, of ?v2] by simp
  obtain t where t: "write_head ?s3 = Ret () t" "bio_frame ?s3 t"
      "bq t ((apply_writes (home_part s v n) (?d1(?S := ?h)))(?S := new_head 0 (lh_block s) ?h))
        (?v3(?S := new_head 0 (lh_block s) ?h)) ((\<lambda>_. False)(?S := False))
        (((?w1 @ [(?S, ?h)]) @ home_part s v n) @ [(?S, new_head 0 (lh_block s) ?h)])"
    using write_head_ok [OF q3 l3(1), of 0] lim(1) unfolding l3 S3 by auto
  have "commit s = Ret () t" using s1(1) s2(1) s3(1) t(1) ln n by (simp add: commit_def)
  moreover have "bq t (apply_writes (commit_writes s v n) d) (apply_writes (commit_writes s v n) v)
      (\<lambda>_. False) (disk_writes s @ commit_writes s v n)"
  proof -
    have "((\<lambda>_ :: u32. False)(?S := False)) = (\<lambda>_. False)" by auto
    then show ?thesis using t(3) by (simp add: commit_writes_def)
  qed
  moreover have "lh_n t = 0" using log_frame [OF t(2)] l3 by simp
  moreover have "bio_frame (s\<lparr>lh_n := 0\<rparr>) ?s3" using bio_frame_lh [OF fr3] .
  ultimately show ?thesis using bio_frame_trans t(2) by blast
qed

subsection \<open>Crashes\<close>

text \<open>The disk after the first \<open>k\<close> writes of a commit, by how far the commit has come.\<close>

lemma commit_prefix:
  assumes "k \<le> length (commit_writes s v n)"
  shows "(\<exists>j. take k (commit_writes s v n) = take j (log_part s v n))
    \<or> (\<exists>j. take k (commit_writes s v n) = log_part s v n @ (log_start s, commit_head s v n) # take j (home_part s v n))
    \<or> take k (commit_writes s v n) = commit_writes s v n"
proof -
  let ?L = "log_part s v n" and ?H = "home_part s v n" and ?h = "(log_start s, commit_head s v n)"
  let ?z = "(log_start s, new_head 0 (lh_block s) (commit_head s v n))"
  have lens: "length ?L = n" "length ?H = n" by (simp_all add: log_part_def home_part_def)
  consider "k \<le> n" | "n < k" "k \<le> 2 * n + 1" | "k = 2 * n + 2"
    using assms lens by (fastforce simp: commit_writes_def)
  then show ?thesis
  proof cases
    case 1
    then show ?thesis using lens by (auto simp: commit_writes_def)
  next
    case 2
    then obtain j where j: "k = Suc (n + j)" "j \<le> n" by (metis add_Suc_right less_iff_Suc_add add_le_cancel_left
          Suc_eq_plus1 Suc_le_mono mult_2 plus_1_eq_Suc add.commute)
    have "take k (commit_writes s v n) = ?L @ ?h # take j ?H"
      using j lens by (simp add: commit_writes_def)
    then show ?thesis by blast
  next
    case 3
    then show ?thesis using lens by (simp add: commit_writes_def)
  qed
qed

lemma take_log_part_at:
  assumes "txn s d v n"
  shows "outside s n m \<Longrightarrow> apply_writes (take j (log_part s v n)) e m = e m"
    and "apply_writes (take j (log_part s v n)) e (log_start s) = e (log_start s)"
proof -
  have n: "n < NBUF" using assms by (simp add: txn_def)
  have ne: "log_start s \<noteq> log_blk s i" if "i < n" for i using log_blk_distinct(2) [of i i s] n that by simp
  have sub: "fst ` set (take j (log_part s v n)) \<subseteq> log_blk s ` {..<n}"
    using set_take_subset [of j "log_part s v n"] by (force simp: log_part_def)
  show "outside s n m \<Longrightarrow> apply_writes (take j (log_part s v n)) e m = e m"
    using sub by (intro apply_writes_notin) (auto simp: outside_def)
  show "apply_writes (take j (log_part s v n)) e (log_start s) = e (log_start s)"
    using sub ne by (intro apply_writes_notin) auto
qed

lemma recovered_nothing: "head_n (e S) = 0 \<Longrightarrow> recovered S e = e"
  by (simp add: recovered_def recovery_writes_def)

text \<open>A complete header makes recovery install the transaction, wherever the crash came.\<close>

lemma recovered_committed:
  assumes tx: "txn s d v n" and S: "e (log_start s) = commit_head s v n"
    and L: "\<And>i. i < n \<Longrightarrow> e (log_blk s i) = v (lh_block s i)"
    and H: "\<And>m. outside s n m \<Longrightarrow> m \<notin> lh_block s ` {..<n} \<Longrightarrow> e m = v m" and m: "outside s n m"
  shows "recovered (log_start s) e m = v m"
proof -
  have n: "n < NBUF" using tx by (simp add: txn_def)
  have "recovery_writes (log_start s) e = home_part s v n"
    unfolding recovery_writes_def home_part_def S commit_head_def using n L
    by (auto simp: head_new)
  then show ?thesis
    using home_part_at [OF tx] H [OF m] by (cases "m \<in> lh_block s ` {..<n}") (auto simp: recovered_def)
qed

lemma log_sane_commit:
  assumes tx: "txn s d v n" and S: "e (log_start s) = commit_head s v n \<or> head_n (e (log_start s)) = 0"
  shows "log_sane e (log_start s) (disksize s)"
proof -
  have n: "n < NBUF" using tx by (simp add: txn_def)
  show ?thesis
    using S
  proof
    assume "e (log_start s) = commit_head s v n"
    then show ?thesis using tx n by (simp add: log_sane_def commit_head_def head_new txn_def)
  next
    assume "head_n (e (log_start s)) = 0"
    then show ?thesis using tx by (simp add: log_sane_def txn_def)
  qed
qed

lemma txn_outside_view:
  assumes tx: "txn s d v n" and "m \<notin> lh_block s ` {..<n}"
  shows "v m = d m"
  using tx assms(2) bq_clean [of s d v "\<lambda>m. m \<in> lh_block s ` {..<n}" "disk_writes s" m] by (auto simp: txn_def)

lemma take_home_part_at:
  assumes "m \<notin> lh_block s ` {..<n}"
  shows "apply_writes (take j (home_part s v n)) e m = e m"
  using assms set_take_subset [of j "home_part s v n"]
  by (intro apply_writes_notin) (force simp: home_part_def)

text \<open>Before the header is on the disk recovery gives the old contents, from then on the new ones.\<close>

lemma crash_old:
  assumes tx: "txn s d v n" and head: "head_n (d (log_start s)) = 0" and m: "outside s n m"
  shows "recovered (log_start s) (apply_writes (take j (log_part s v n)) d) m = d m"
    and "log_sane (apply_writes (take j (log_part s v n)) d) (log_start s) (disksize s)"
  using take_log_part_at [OF tx] head m by (auto simp: recovered_nothing intro!: log_sane_commit [OF tx])

lemma crash_new:
  fixes j :: nat
  assumes tx: "txn s d v n" and m: "outside s n m"
  defines "e \<equiv> apply_writes (log_part s v n @ (log_start s, commit_head s v n) # take j (home_part s v n)) d"
  shows "recovered (log_start s) e m = v m" and "log_sane e (log_start s) (disksize s)"
proof -
  have n: "n < NBUF" and sep: "\<And>i. i < n \<Longrightarrow> lh_block s i \<noteq> log_start s"
      "\<And>i j. i < n \<Longrightarrow> j < n \<Longrightarrow> log_blk s i \<noteq> lh_block s j"
    using tx by (auto simp: txn_def)
  have nS: "log_start s \<notin> lh_block s ` {..<n}" using sep(1) by (metis imageE lessThan_iff)
  have nL: "log_blk s i \<notin> lh_block s ` {..<n}" if "i < n" for i using sep(2) that by (metis imageE lessThan_iff)
  have ne: "log_blk s i \<noteq> log_start s" if "i < n" for i using log_blk_distinct(2) [of i i s] n that by simp
  have S: "e (log_start s) = commit_head s v n"
    unfolding e_def apply_writes_simps take_home_part_at [OF nS] by simp
  have L: "e (log_blk s i) = v (lh_block s i)" if "i < n" for i
    unfolding e_def apply_writes_simps take_home_part_at [OF nL [OF that]]
    using ne [OF that] log_part_at(1) [OF tx that] by simp
  have H: "e k = v k" if "outside s n k" "k \<notin> lh_block s ` {..<n}" for k
    unfolding e_def apply_writes_simps take_home_part_at [OF that(2)]
    using that(1) log_part_at(2) [OF tx that(1)] txn_outside_view [OF tx that(2)] by (simp add: outside_def)
  show "recovered (log_start s) e m = v m" by (rule recovered_committed [OF tx S L H m])
  show "log_sane e (log_start s) (disksize s)" using log_sane_commit [OF tx] S by blast
qed

lemma commit_final:
  assumes tx: "txn s d v n"
  shows "outside s n m \<Longrightarrow> apply_writes (commit_writes s v n) d m = v m"
    and "head_n (apply_writes (commit_writes s v n) d (log_start s)) = 0"
proof -
  show "head_n (apply_writes (commit_writes s v n) d (log_start s)) = 0"
    by (simp add: commit_writes_def head_new)
  show "apply_writes (commit_writes s v n) d m = v m" if "outside s n m"
  proof (cases "m \<in> lh_block s ` {..<n}")
    case True
    then show ?thesis using that home_part_at(1) [OF tx] by (auto simp: commit_writes_def outside_def)
  next
    case False
    then show ?thesis
      using that home_part_at(2) [OF tx False] log_part_at(2) [OF tx that] txn_outside_view [OF tx False]
      by (simp add: commit_writes_def outside_def)
  qed
qed

lemma commit_crash:
  assumes tx: "txn s d v n" and head: "head_n (d (log_start s)) = 0" and k: "k \<le> length (commit_writes s v n)"
    and r: "booted r (apply_writes (take k (commit_writes s v n)) d) (log_start s) (disksize s)"
  shows "\<exists>u. recover_from_log r = Ret () u \<and> head_n (disk u (log_start s)) = 0
    \<and> ((\<forall>m. outside s n m \<longrightarrow> disk u m = d m) \<or> (\<forall>m. outside s n m \<longrightarrow> disk u m = v m))"
proof -
  let ?e = "apply_writes (take k (commit_writes s v n)) d" and ?S = "log_start s"
  have c: "log_sane ?e ?S (disksize s) \<and> ((\<forall>m. outside s n m \<longrightarrow> recovered ?S ?e m = d m)
      \<or> (\<forall>m. outside s n m \<longrightarrow> recovered ?S ?e m = v m))"
    using commit_prefix [OF k]
  proof (elim disjE exE)
    fix j assume "take k (commit_writes s v n) = take j (log_part s v n)"
    moreover have "log_sane (apply_writes (take j (log_part s v n)) d) ?S (disksize s)"
      using take_log_part_at(2) [OF tx] head by (intro log_sane_commit [OF tx]) simp
    ultimately show ?thesis using crash_old(1) [OF tx head] by auto
  next
    fix j assume e: "take k (commit_writes s v n) = log_part s v n @ (?S, commit_head s v n) # take j (home_part s v n)"
    have "0 < n" "\<forall>i<n. lh_block s i \<noteq> ?S" "\<forall>i<n. \<forall>j<n. log_blk s i \<noteq> lh_block s j"
      using tx unfolding txn_def by blast+
    then have "outside s n (lh_block s 0)" unfolding outside_def by metis
    then show ?thesis unfolding e using crash_new [OF tx] by blast
  next
    assume "take k (commit_writes s v n) = commit_writes s v n"
    then show ?thesis
      using commit_final [OF tx] log_sane_commit [OF tx] by (auto simp: recovered_nothing)
  qed
  then obtain u h where "recover_from_log r = Ret () u" "disk u = (recovered ?S ?e)(?S := h)" "head_n h = 0"
    using recover_ok [OF r] by blast
  then show ?thesis using c by (auto simp: outside_def)
qed

subsection \<open>Collecting a transaction\<close>

text \<open>
  While system calls run, the blocks named in the log header are exactly the dirty ones, each once.
  \<open>lgq\<close> adds this to \<open>bq\<close>, together with the place of the log.
\<close>

definition lgq :: "'x klog_scheme \<Rightarrow> (u32 \<Rightarrow> block) \<Rightarrow> (u32 \<Rightarrow> block) \<Rightarrow> u32 set \<Rightarrow> bool" where
  "lgq s d v B \<longleftrightarrow> bq s d v (\<lambda>m. m \<in> B) (disk_writes s) \<and> log_dev s = 1 \<and> 0 \<le> lh_n s
     \<and> B = lh_block s ` {..<nat (lh_n s)} \<and> inj_on (lh_block s) {..<nat (lh_n s)}"

text \<open>What \<open>log_write\<close> of a held buffer changes outside the cache.\<close>

definition logged :: "u32 \<Rightarrow> 'x klog_scheme \<Rightarrow> 'x klog_scheme" where
  "logged n s =
     (case first_idx (nat (lh_n s)) (\<lambda>i. lh_block s i = n) of
        Some i \<Rightarrow> s
      | None \<Rightarrow> s\<lparr>lh_block := (lh_block s)(nat (lh_n s) := n), lh_n := lh_n s + 1\<rparr>)"

lemma locked_by_klog [simp]:
  "log_start (locked_by l s) = log_start s" "log_size (locked_by l s) = log_size s"
  "log_outstanding (locked_by l s) = log_outstanding s" "log_committing (locked_by l s) = log_committing s"
  "lh_n (locked_by l s) = lh_n s" "lh_block (locked_by l s) = lh_block s"
  "(locked_by l s)\<lparr>lh_n := i\<rparr> = locked_by l (s\<lparr>lh_n := i\<rparr>)"
  "(locked_by l s)\<lparr>lh_block := x\<rparr> = locked_by l (s\<lparr>lh_block := x\<rparr>)"
  "(locked_by l s)\<lparr>log_outstanding := i\<rparr> = locked_by l (s\<lparr>log_outstanding := i\<rparr>)"
  "(locked_by l s)\<lparr>log_committing := c\<rparr> = locked_by l (s\<lparr>log_committing := c\<rparr>)"
  by (simp_all add: locked_by_def pushcli_def)

lemma cpu_klog_update [simp]:
  "cpu_ok (s\<lparr>lh_n := i\<rparr>) = cpu_ok s" "cpu_ok (s\<lparr>lh_block := x\<rparr>) = cpu_ok s"
  "cpu_ok (s\<lparr>log_outstanding := i\<rparr>) = cpu_ok s" "cpu_ok (s\<lparr>log_committing := c\<rparr>) = cpu_ok s"
  "holding l (s\<lparr>lh_n := i\<rparr>) = holding l s" "holding l (s\<lparr>lh_block := x\<rparr>) = holding l s"
  "holding l (s\<lparr>log_outstanding := i\<rparr>) = holding l s" "holding l (s\<lparr>log_committing := c\<rparr>) = holding l s"
  by (simp_all add: cpu_ok_def holding_def)

lemma log_write_eq:
  assumes "cpu_ok s" "\<not> holding LogLock s" "lh_n s < LOGSIZE" "lh_n s < log_size s - 1" "1 \<le> log_outstanding s"
    and "0 \<le> lh_n s"
  shows "log_write b s = Ret () (upd_buf b (\<lambda>bf. bf\<lparr>b_dirty := True\<rparr>) (logged (b_blockno (bufs s b)) s))"
proof (cases "first_idx (nat (lh_n s)) (\<lambda>i. lh_block s i = b_blockno (bufs s b))")
  case None
  then show ?thesis
    using assms by (simp add: log_write_def acquire_free logged_def Let_def release_locked_by)
next
  case (Some i)
  then have "i < nat (lh_n s)" "lh_block s i = b_blockno (bufs s b)" by (auto dest: first_idx_SomeD)
  moreover from this have "(lh_block s)(i := b_blockno (bufs s b)) = lh_block s" by (metis fun_upd_triv)
  ultimately show ?thesis
    using assms Some by (simp add: log_write_def acquire_free logged_def Let_def release_locked_by)
qed

text \<open>Frame of an operation inside a transaction: the cache and the in-memory header may change.\<close>

definition lg_frame :: "'x klog_scheme \<Rightarrow> 'x klog_scheme \<Rightarrow> bool" where
  "lg_frame s t \<longleftrightarrow> s\<lparr>slocks := slocks t, bufs := bufs t, disk := disk t, disk_writes := disk_writes t,
       lh_n := lh_n t, lh_block := lh_block t\<rparr> = t
     \<and> (\<forall>c i. c \<noteq> 0 \<longrightarrow> slocks t (c, i) = slocks s (c, i))"

lemma lg_frame_select:
  assumes "lg_frame s t"
  shows
    "ncli t = ncli s"
    "intena t = intena s"
    "eflags_IF t = eflags_IF s"
    "locks t = locks s"
    "mem t = mem s"
    "freelist t = freelist s"
    "use_lock t = use_lock s"
    "kern_end t = kern_end s"
    "ptable t = ptable s"
    "stridetable t = stridetable s"
    "current t = current s"
    "MLFQ t = MLFQ s"
    "nextpid t = nextpid s"
    "nextsid t = nextsid s"
    "initproc t = initproc s"
    "cur t = cur s"
    "kpgdir t = kpgdir s"
    "cr3 t = cr3 s"
    "ts_esp0 t = ts_esp0 s"
    "disksize t = disksize s"
    "log_start t = log_start s"
    "log_size t = log_size s"
    "log_outstanding t = log_outstanding s"
    "log_committing t = log_committing s"
    "log_dev t = log_dev s"
proof -
  have e: "s\<lparr>slocks := slocks t, bufs := bufs t, disk := disk t, disk_writes := disk_writes t,
       lh_n := lh_n t, lh_block := lh_block t\<rparr> = t"
    using assms by (simp add: lg_frame_def)
  show "ncli t = ncli s" using arg_cong [OF e, of ncli] by simp
  show "intena t = intena s" using arg_cong [OF e, of intena] by simp
  show "eflags_IF t = eflags_IF s" using arg_cong [OF e, of eflags_IF] by simp
  show "locks t = locks s" using arg_cong [OF e, of locks] by simp
  show "mem t = mem s" using arg_cong [OF e, of mem] by simp
  show "freelist t = freelist s" using arg_cong [OF e, of freelist] by simp
  show "use_lock t = use_lock s" using arg_cong [OF e, of use_lock] by simp
  show "kern_end t = kern_end s" using arg_cong [OF e, of kern_end] by simp
  show "ptable t = ptable s" using arg_cong [OF e, of ptable] by simp
  show "stridetable t = stridetable s" using arg_cong [OF e, of stridetable] by simp
  show "current t = current s" using arg_cong [OF e, of current] by simp
  show "MLFQ t = MLFQ s" using arg_cong [OF e, of MLFQ] by simp
  show "nextpid t = nextpid s" using arg_cong [OF e, of nextpid] by simp
  show "nextsid t = nextsid s" using arg_cong [OF e, of nextsid] by simp
  show "initproc t = initproc s" using arg_cong [OF e, of initproc] by simp
  show "cur t = cur s" using arg_cong [OF e, of cur] by simp
  show "kpgdir t = kpgdir s" using arg_cong [OF e, of kpgdir] by simp
  show "cr3 t = cr3 s" using arg_cong [OF e, of cr3] by simp
  show "ts_esp0 t = ts_esp0 s" using arg_cong [OF e, of ts_esp0] by simp
  show "disksize t = disksize s" using arg_cong [OF e, of disksize] by simp
  show "log_start t = log_start s" using arg_cong [OF e, of log_start] by simp
  show "log_size t = log_size s" using arg_cong [OF e, of log_size] by simp
  show "log_outstanding t = log_outstanding s" using arg_cong [OF e, of log_outstanding] by simp
  show "log_committing t = log_committing s" using arg_cong [OF e, of log_committing] by simp
  show "log_dev t = log_dev s" using arg_cong [OF e, of log_dev] by simp
qed

lemma lg_frame_refl: "lg_frame s s"
  by (simp add: lg_frame_def)

lemma lg_frame_trans:
  assumes "lg_frame s t" "lg_frame t u"
  shows "lg_frame s u"
proof -
  have "u = t\<lparr>slocks := slocks u, bufs := bufs u, disk := disk u, disk_writes := disk_writes u,
      lh_n := lh_n u, lh_block := lh_block u\<rparr>"
    using assms(2) by (simp add: lg_frame_def)
  also have "\<dots> = s\<lparr>slocks := slocks t, bufs := bufs t, disk := disk t, disk_writes := disk_writes t,
      lh_n := lh_n t, lh_block := lh_block t\<rparr>
      \<lparr>slocks := slocks u, bufs := bufs u, disk := disk u, disk_writes := disk_writes u,
      lh_n := lh_n u, lh_block := lh_block u\<rparr>"
    using assms(1) by (simp add: lg_frame_def)
  finally have "s\<lparr>slocks := slocks u, bufs := bufs u, disk := disk u, disk_writes := disk_writes u,
      lh_n := lh_n u, lh_block := lh_block u\<rparr> = u" by simp
  then show ?thesis using assms unfolding lg_frame_def by metis
qed

lemma bio_lg_frame:
  assumes "bio_frame s t"
  shows "lg_frame s t"
proof -
  have "s\<lparr>slocks := slocks t, bufs := bufs t, disk := disk t, disk_writes := disk_writes t\<rparr> = t"
    using assms by (simp add: bio_frame_def)
  moreover have "lh_n t = lh_n s" "lh_block t = lh_block s" using log_frame [OF assms] by simp_all
  ultimately have "s\<lparr>slocks := slocks t, bufs := bufs t, disk := disk t, disk_writes := disk_writes t,
       lh_n := lh_n t, lh_block := lh_block t\<rparr> = t"
    by (metis (no_types, lifting) klog.surjective klog.update_convs(6) klog.update_convs(7))
  then show ?thesis using assms by (simp add: lg_frame_def bio_frame_def)
qed

lemma logged_frame: "lg_frame s (logged n s)"
  by (simp add: logged_def lg_frame_def split: option.split)

lemma logged_trunc: "kbio.truncate (logged n s) = kbio.truncate s"
  by (simp add: logged_def kbio.truncate_def split: option.split)

lemma logged_blocks:
  assumes "0 \<le> lh_n s" "B = lh_block s ` {..<nat (lh_n s)}" "inj_on (lh_block s) {..<nat (lh_n s)}"
  shows "0 \<le> lh_n (logged n s)" "insert n B = lh_block (logged n s) ` {..<nat (lh_n (logged n s))}"
    "inj_on (lh_block (logged n s)) {..<nat (lh_n (logged n s))}" "lh_n (logged n s) \<le> lh_n s + 1"
    "n \<in> B \<Longrightarrow> lh_n (logged n s) = lh_n s"
proof -
  let ?k = "nat (lh_n s)"
  have "0 \<le> lh_n (logged n s) \<and> insert n B = lh_block (logged n s) ` {..<nat (lh_n (logged n s))}
    \<and> inj_on (lh_block (logged n s)) {..<nat (lh_n (logged n s))} \<and> lh_n (logged n s) \<le> lh_n s + 1
    \<and> (n \<in> B \<longrightarrow> lh_n (logged n s) = lh_n s)"
  proof (cases "first_idx ?k (\<lambda>i. lh_block s i = n)")
    case (Some i)
    then have "n \<in> B" using assms(2) by (auto dest: first_idx_SomeD)
    then show ?thesis using Some assms by (auto simp: logged_def)
  next
    case None
    then have no: "n \<notin> B" using assms(2) by (auto simp: first_idx_None_iff)
    have k: "nat (lh_n s + 1) = Suc ?k" using assms(1) by simp
    have "((lh_block s)(?k := n)) ` {..<Suc ?k} = insert n B"
      unfolding assms(2) by (auto simp: lessThan_Suc)
    moreover have "inj_on ((lh_block s)(?k := n)) {..<Suc ?k}"
      using assms(3) no unfolding assms(2) by (auto simp: inj_on_def less_Suc_eq)
    ultimately show ?thesis using None assms(1) no by (simp add: logged_def k)
  qed
  then show "0 \<le> lh_n (logged n s)" "insert n B = lh_block (logged n s) ` {..<nat (lh_n (logged n s))}"
    "inj_on (lh_block (logged n s)) {..<nat (lh_n (logged n s))}" "lh_n (logged n s) \<le> lh_n s + 1"
    "n \<in> B \<Longrightarrow> lh_n (logged n s) = lh_n s" by blast+
qed

text \<open>Marking a held buffer with new contents dirty.\<close>

lemma one_set_dirty:
  assumes h: "one_held s a n d v D w"
  shows "one_held (upd_buf a (\<lambda>bf. bf\<lparr>b_dirty := True\<rparr>) (set_data a da s)) a n d (v(n := da)) (D(n := True)) w"
    and "bio_frame s (upd_buf a (\<lambda>bf. bf\<lparr>b_dirty := True\<rparr>) (set_data a da s))"
proof -
  have k: "bio_inv s" "a < NBUF" "bheld s a" "\<And>c. c < NBUF \<Longrightarrow> bheld s c \<Longrightarrow> c = a" "b_blockno (bufs s a) = n"
      "disk s = d" "view s = v" "dirty s = D" "disk_writes s = w" "\<And>k. \<not> D k \<Longrightarrow> v k = d k"
    using h unfolding one_held_def by blast+
  have e: "upd_buf a (\<lambda>bf. bf\<lparr>b_dirty := True\<rparr>) (set_data a da s) = held_step a True da d w s"
    by (simp add: set_data_def upd_buf_def held_step_def k(6)[symmetric] k(9)[symmetric])
  let ?t = "held_step a True da d w s"
  have i: "bio_inv ?t" by (rule held_step_inv [OF k(1-3)]) (simp add: k(6))
  have v: "view ?t = v(n := da)" using held_step_view [OF k(1-3), of d] by (simp add: k(5-7))
  have di: "dirty ?t = D(n := True)" using held_step_dirty [OF k(1-3)] unfolding k(5,8) .
  have cl: "\<forall>k. \<not> (D(n := True)) k \<longrightarrow> (v(n := da)) k = d k" using k(10) by auto
  have b: "b_blockno (bufs ?t a) = n" "b_data (bufs ?t a) = (v(n := da)) n" "b_dirty (bufs ?t a) = (D(n := True)) n"
    using k(5) by (simp_all add: held_step_select)
  show "one_held (upd_buf a (\<lambda>bf. bf\<lparr>b_dirty := True\<rparr>) (set_data a da s)) a n d (v(n := da)) (D(n := True)) w"
    unfolding e one_held_def v di b held_step_select(2-4) using i k(2-4) cl by blast
  show "bio_frame s (upd_buf a (\<lambda>bf. bf\<lparr>b_dirty := True\<rparr>) (set_data a da s))" unfolding e by (rule held_step_select)
qed

definition txn_room :: "'x klog_scheme \<Rightarrow> bool" where
  "txn_room s \<longleftrightarrow> lh_n s < 29 \<and> lh_n s < log_size s - 1 \<and> 1 \<le> log_outstanding s"

lemma lgq_card:
  assumes "lgq s d v B" "lh_n s < 30"
  shows "card {m. m \<in> B} < NBUF"
proof -
  have "B = lh_block s ` {..<nat (lh_n s)}" using assms(1) by (simp add: lgq_def)
  then have "card B \<le> nat (lh_n s)" using card_image_le [of "{..<nat (lh_n s)}" "lh_block s"] by simp
  then show ?thesis using assms(2) by simp
qed

text \<open>\<open>log_load\<close>: \<open>bread\<close> and \<open>brelse\<close> of a block. \<open>log_store\<close>: \<open>bread\<close>, new contents, \<open>log_write\<close>, \<open>brelse\<close>.\<close>

lemma log_load:
  assumes q: "lgq s d v B" and n: "n < disksize s" and room: "lh_n s < 30"
  shows "\<exists>a s1 t. bread 1 n s = Ret a s1 \<and> b_data (bufs s1 a) = v n \<and> brelse a s1 = Ret () t
    \<and> lgq t d v B \<and> bio_frame s s1 \<and> bio_frame s t"
proof -
  have q': "bq s d v (\<lambda>m. m \<in> B) (disk_writes s)" using q unfolding lgq_def by blast
  obtain a s1 where a: "bread 1 n s = Ret a s1" "bio_frame s s1" "one_held s1 a n d v (\<lambda>m. m \<in> B) (disk_writes s)"
    using one_bread [OF q' n] lgq_card [OF q room] by blast
  obtain t where t: "brelse a s1 = Ret () t" "bio_frame s1 t" "bq t d v (\<lambda>m. m \<in> B) (disk_writes s)"
    using one_brelse [OF a(3)] by blast
  have f: "bio_frame s t" using a(2) t(2) by (rule bio_frame_trans)
  have "disk_writes t = disk_writes s" using t(3) by (simp add: bq_def)
  then have "lgq t d v B" using q t(3) log_frame [OF f] by (simp add: lgq_def)
  moreover have "b_data (bufs s1 a) = v n" using a(3) by (simp add: one_held_def)
  ultimately show ?thesis using a(1,2) t(1) f by blast
qed

lemma log_store:
  assumes q: "lgq s d v B" and n: "n < disksize s" and room: "txn_room s"
  shows "\<exists>a s1. bread 1 n s = Ret a s1 \<and> b_data (bufs s1 a) = v n \<and> bio_frame s s1
    \<and> (\<forall>da. \<exists>s2 t. log_write a (set_data a da s1) = Ret () s2 \<and> brelse a s2 = Ret () t
         \<and> lgq t d (v(n := da)) (insert n B) \<and> lg_frame s t \<and> lh_n t \<le> lh_n s + 1
         \<and> (n \<in> B \<longrightarrow> lh_n t = lh_n s))"
proof -
  have r: "lh_n s < 30" using room by (simp add: txn_room_def)
  have q': "bq s d v (\<lambda>m. m \<in> B) (disk_writes s)" using q unfolding lgq_def by blast
  obtain a s1 where a: "bread 1 n s = Ret a s1" "bio_frame s s1" "one_held s1 a n d v (\<lambda>m. m \<in> B) (disk_writes s)"
    using one_bread [OF q' n] lgq_card [OF q r] by blast
  note lf = log_frame [OF a(2)]
  have bn: "b_blockno (bufs s1 a) = n" "b_data (bufs s1 a) = v n" and inv: "bio_inv s1"
    using a(3) by (simp_all add: one_held_def)
  have "\<exists>s2 t. log_write a (set_data a da s1) = Ret () s2 \<and> brelse a s2 = Ret () t
         \<and> lgq t d (v(n := da)) (insert n B) \<and> lg_frame s t \<and> lh_n t \<le> lh_n s + 1 \<and> (n \<in> B \<longrightarrow> lh_n t = lh_n s)" for da
  proof -
    let ?u = "set_data a da s1"
    have u: "cpu_ok ?u" "\<not> holding LogLock ?u" "lh_n ?u = lh_n s" "log_size ?u = log_size s"
      "log_outstanding ?u = log_outstanding s" "b_blockno (bufs ?u a) = n" "lh_block ?u = lh_block s"
      using bio_inv_cpu [OF inv] lf bn by (simp_all add: set_data_def, simp_all add: upd_buf_def)
    let ?s2 = "upd_buf a (\<lambda>bf. bf\<lparr>b_dirty := True\<rparr>) (logged n ?u)"
    have lw: "log_write a ?u = Ret () ?s2"
      using log_write_eq [OF u(1,2), of a] u(3-6) room q by (simp add: txn_room_def lgq_def)
    let ?w = "upd_buf a (\<lambda>bf. bf\<lparr>b_dirty := True\<rparr>) ?u"
    have sw: "?s2 = logged n ?w"
      by (simp add: logged_def upd_buf_def split: option.split)
    have "one_held ?w a n d (v(n := da)) ((\<lambda>m. m \<in> B)(n := True)) (disk_writes s)"
      using one_set_dirty(1) [OF a(3)] .
    then have "one_held ?s2 a n d (v(n := da)) ((\<lambda>m. m \<in> B)(n := True)) (disk_writes s)"
      unfolding sw using one_held_cong [OF logged_trunc [of n ?w]] by blast
    then obtain t where t: "brelse a ?s2 = Ret () t" "bio_frame ?s2 t"
        "bq t d (v(n := da)) ((\<lambda>m. m \<in> B)(n := True)) (disk_writes s)"
      using one_brelse by blast
    have w: "lh_n ?w = lh_n s" "lh_block ?w = lh_block s" using u(3,7) by (simp_all add: upd_buf_def)
    note tf = log_frame [OF t(2)]
    have fr: "lg_frame s ?s2"
      unfolding sw using lg_frame_trans [OF bio_lg_frame [OF bio_frame_trans [OF a(2) one_set_dirty(2) [OF a(3)]]] logged_frame] .
    then have fr_t: "lg_frame s t" using bio_lg_frame [OF t(2)] by (rule lg_frame_trans)
    have lb: "0 \<le> lh_n t" "insert n B = lh_block t ` {..<nat (lh_n t)}" "inj_on (lh_block t) {..<nat (lh_n t)}"
      "lh_n t \<le> lh_n s + 1" "n \<in> B \<Longrightarrow> lh_n t = lh_n s"
      using logged_blocks [of ?w B n] q w unfolding tf sw by (auto simp: lgq_def)
    have "((\<lambda>m. m \<in> B)(n := True)) = (\<lambda>m. m \<in> insert n B)" by (auto simp: fun_eq_iff)
    then have "lgq t d (v(n := da)) (insert n B)"
      using t(3) lb lg_frame_select(25) [OF fr_t] q by (simp add: lgq_def bq_def)
    then show ?thesis using lw t(1) fr_t lb(4,5) by blast
  qed
  then show ?thesis using a bn by blast
qed

text \<open>The log area: the header and the blocks after it.\<close>

definition log_area :: "'x klog_scheme \<Rightarrow> u32 set" where
  "log_area s = insert (log_start s) (log_blk s ` {..<NBUF})"

lemma lgq_txn:
  assumes q: "lgq s d v B" and n: "0 < lh_n s" "lh_n s < 30" and area: "\<forall>m\<in>log_area s. m < disksize s"
    and B: "\<forall>m\<in>B. m < disksize s" "B \<inter> log_area s = {}"
  shows "txn s d v (nat (lh_n s))"
proof -
  let ?n = "nat (lh_n s)"
  have q': "bq s d v (\<lambda>m. m \<in> B) (disk_writes s)" and dev: "log_dev s = 1" and BB: "B = lh_block s ` {..<?n}"
    and inj: "inj_on (lh_block s) {..<?n}"
    using q unfolding lgq_def by blast+
  have b: "lh_block s i \<in> B" if "i < ?n" for i using that unfolding BB by blast
  have l: "log_blk s i \<in> log_area s" if "i < ?n" for i using that n by (auto simp: log_area_def)
  have S: "log_start s \<in> log_area s" by (simp add: log_area_def)
  have sep: "m \<noteq> k" if "m \<in> B" "k \<in> log_area s" for m k using that B(2) by blast
  have "lh_n s = int ?n" "0 < ?n" "?n < NBUF" using n by auto
  moreover have "\<forall>i<?n. log_blk s i < disksize s \<and> lh_block s i < disksize s \<and> lh_block s i \<noteq> log_start s"
    using area B(1) b l sep [OF _ S] by blast
  moreover have "\<forall>i<?n. \<forall>j<?n. log_blk s i \<noteq> lh_block s j" using sep b l by metis
  ultimately show ?thesis
    unfolding txn_def using q' dev inj area S unfolding BB by blast
qed

subsection \<open>An example state\<close>

definition ex_buf :: buf where
  "ex_buf = \<lparr>b_valid = False, b_dirty = False, b_dev = 0, b_blockno = 0, b_refcnt = 0, b_prev = 0, b_next = 0,
     b_data = (\<lambda>_. 0)\<rparr>"

definition ex_machine :: "(u32 \<Rightarrow> block) \<Rightarrow> klog" where
  "ex_machine D = binit \<lparr>ncli = 0, intena = True, eflags_IF = True, locks = [], mem = (\<lambda>_. 0), freelist = 0,
     use_lock = True, kern_end = 0x80110000, kern_data = 0x80109000,
     ptable = (\<lambda>i. if i = 0 then ex_proc RUNNING else ex_unused),
     stridetable = (\<lambda>k. if k = 0 then ex_MLFQ else ex_free_stride),
     current = 0, MLFQ = 0, nextpid = 2, nextsid = 2, initproc = Some 0, cur = Some 0, kpgdir = 0x803ff000,
     cr3 = 0, ts_esp0 = 0, slocks = (\<lambda>_. \<lparr>sl_locked = False, sl_pid = 0\<rparr>), bufs = (\<lambda>_. ex_buf),
     disk = D, disksize = 100, disk_writes = [], log_start = 2, log_size = 30, log_outstanding = 1,
     log_committing = False, log_dev = 1, lh_n = 0, lh_block = (\<lambda>_. 0)\<rparr>"

definition ex_klog :: klog where
  "ex_klog = ex_machine (\<lambda>_ _. 0)"

lemma ex_machine_ok:
  "lgq (ex_machine D) D D {}" "log_start (ex_machine D) = 2" "log_size (ex_machine D) = 30" "log_outstanding (ex_machine D) = 1"
  "disksize (ex_machine D) = 100" "lh_n (ex_machine D) = 0" "\<not> log_committing (ex_machine D)" "log_dev (ex_machine D) = 1"
  "disk_writes (ex_machine D) = []" "cur (ex_machine D) = Some 0"
  "ptable (ex_machine D) = (\<lambda>i. if i = 0 then ex_proc RUNNING else ex_unused)"
  "ncli (ex_machine D) = 0" "locks (ex_machine D) = []" "intena (ex_machine D)" "eflags_IF (ex_machine D)"
proof -
  let ?s = "\<lparr>ncli = 0, intena = True, eflags_IF = True, locks = [], mem = (\<lambda>_. 0), freelist = 0,
     use_lock = True, kern_end = 0x80110000, kern_data = 0x80109000,
     ptable = (\<lambda>i. if i = 0 then ex_proc RUNNING else ex_unused),
     stridetable = (\<lambda>k. if k = 0 then ex_MLFQ else ex_free_stride),
     current = 0, MLFQ = 0, nextpid = 2, nextsid = 2, initproc = Some 0, cur = Some 0, kpgdir = 0x803ff000,
     cr3 = 0, ts_esp0 = 0, slocks = (\<lambda>_. \<lparr>sl_locked = False, sl_pid = 0\<rparr>), bufs = (\<lambda>_. ex_buf),
     disk = D, disksize = 100, disk_writes = [], log_start = 2, log_size = 30, log_outstanding = 1,
     log_committing = False, log_dev = 1, lh_n = 0, lh_block = (\<lambda>_. 0)\<rparr>"
  have i: "bio_inv (binit ?s) \<and> (\<forall>b<NBUF. \<not> bheld (binit ?s) b) \<and> view (binit ?s) = disk ?s \<and> bio_frame ?s (binit ?s)
    \<and> disk (binit ?s) = disk ?s \<and> (\<forall>n. \<not> dirty (binit ?s) n)"
    by (rule binit_inv) (simp_all add: ex_buf_def cpu_ok_def ex_proc_def ex_unused_def)
  then have f: "bio_frame ?s (ex_machine D)" by (simp add: ex_machine_def)
  show "log_start (ex_machine D) = 2" "log_size (ex_machine D) = 30" "log_outstanding (ex_machine D) = 1"
    "disksize (ex_machine D) = 100" "lh_n (ex_machine D) = 0" "\<not> log_committing (ex_machine D)" "log_dev (ex_machine D) = 1" "cur (ex_machine D) = Some 0"
    "ptable (ex_machine D) = (\<lambda>i. if i = 0 then ex_proc RUNNING else ex_unused)"
    "ncli (ex_machine D) = 0" "locks (ex_machine D) = []" "intena (ex_machine D)" "eflags_IF (ex_machine D)"
    using log_frame [OF f] bio_frame_select [OF f] by simp_all
  have w: "disk_writes (fold (\<lambda>b s. link_front b (initsleeplock (0, b) s)) xs u) = disk_writes u" for xs and u :: klog
    by (induction xs arbitrary: u) simp_all
  show wr: "disk_writes (ex_machine D) = []" by (simp add: ex_machine_def binit_def Let_def w)
  have "dirty (ex_machine D) = (\<lambda>m. m \<in> {})" using i by (simp add: ex_machine_def fun_eq_iff)
  then have "bq (ex_machine D) D D (\<lambda>m. m \<in> {}) (disk_writes (ex_machine D))"
    using i by (simp add: bq_def ex_machine_def)
  then show "lgq (ex_machine D) D D {}"
    using log_frame [OF f] by (simp add: lgq_def)
qed

lemma ex_klog_ok:
  "lgq ex_klog (\<lambda>_ _. 0) (\<lambda>_ _. 0) {}" "log_start ex_klog = 2" "log_size ex_klog = 30" "log_outstanding ex_klog = 1"
  "disksize ex_klog = 100" "lh_n ex_klog = 0" "\<not> log_committing ex_klog" "log_dev ex_klog = 1"
  "disk_writes ex_klog = []" "cur ex_klog = Some 0"
  "ptable ex_klog = (\<lambda>i. if i = 0 then ex_proc RUNNING else ex_unused)"
  "ncli ex_klog = 0" "locks ex_klog = []" "intena ex_klog" "eflags_IF ex_klog"
  using ex_machine_ok [of "\<lambda>_ _. 0"] unfolding ex_klog_def by simp_all

end
