(* ===== verification/Log_Spec.thy ===== *)
theory Log_Spec
  imports Log_Props
begin

text \<open>
  The properties of the buffer cache and of the log: what a block read returns, that written blocks
  are read back, that a commit survives a crash at any point, and how transactions begin and end.
\<close>

subsection \<open>Properties: the buffer cache\<close>

text \<open>
  C22. Reading a block. In a cache that satisfies its invariant, \<open>bread\<close> of a block that nobody
  holds, with a buffer to spare, returns a locked buffer that contains what the kernel last put into
  the block; no other buffer, no other block and not the disk changes, and the invariant (one buffer
  per block, a well-formed list, clean buffers equal to the disk) holds again.
\<close>

theorem bread_returns_block:
  assumes "bio_inv s" and "can_read s n"
  shows "\<exists>b t. bread 1 n s = Ret b t \<and> bio_inv t \<and> bheld t b \<and> b_blockno (bufs t b) = n
    \<and> b_data (bufs t b) = view s n \<and> view t = view s \<and> disk t = disk s
    \<and> (\<forall>c. c \<noteq> b \<longrightarrow> bufs t c = bufs s c)"
  using bread_ok [OF assms] by (auto simp: bread_post_def)

theorem bread_returns_block_witness:
  "\<exists>b t. bread 1 7 ex_klog = Ret b t \<and> bheld t b \<and> b_data (bufs t b) = (\<lambda>_. 0)"
proof -
  have q: "bq ex_klog (\<lambda>_ _. 0) (\<lambda>_ _. 0) (\<lambda>m. m \<in> {}) []" using ex_klog_ok(1,9) unfolding lgq_def by metis
  then have i: "bio_inv ex_klog" and nh: "\<forall>b<NBUF. \<not> bheld ex_klog b" and v: "view ex_klog = (\<lambda>_ _. 0)"
    and di: "dirty ex_klog = (\<lambda>m. m \<in> {})"
    unfolding bq_def by blast+
  have "\<exists>b<NBUF. b \<notin> {} \<and> \<not> b_dirty (bufs ex_klog b)" by (rule clean_exists [OF i]) (simp_all add: di)
  then have "can_read ex_klog 7" using nh ex_klog_ok(5) by (auto simp: can_read_def)
  from bread_returns_block [OF i this] show ?thesis unfolding v by blast
qed

text \<open>
  C23. What is written is read. From a state in which no buffer is held: reading a block, storing new
  contents into the buffer, \<open>bwrite\<close> and \<open>brelse\<close> return, the disk then holds the new contents, and
  a later \<open>bread\<close> of the block returns them; every other block is as before.
\<close>

theorem bwrite_bread_roundtrip:
  assumes q: "bq s d v D w" and n: "n < disksize s" and room: "card {m. D m} < NBUF"
  shows "\<exists>a s1 s2 t b u. bread 1 n s = Ret a s1 \<and> bwrite a (set_data a da s1) = Ret () s2
    \<and> brelse a s2 = Ret () t \<and> disk t = d(n := da) \<and> view t = v(n := da)
    \<and> bread 1 n t = Ret b u \<and> b_data (bufs u b) = da"
proof -
  obtain a s1 where a: "bread 1 n s = Ret a s1" "bio_frame s s1" "one_held s1 a n d v D w"
    using one_bread [OF q n] room by blast
  obtain s2 where s2: "bwrite a (set_data a da s1) = Ret () s2" "bio_frame s1 s2"
      "one_held s2 a n (d(n := da)) (v(n := da)) (D(n := False)) (w @ [(n, da)])"
    using one_set_bwrite [OF a(3)] by blast
  obtain t where t: "brelse a s2 = Ret () t" "bio_frame s2 t"
      "bq t (d(n := da)) (v(n := da)) (D(n := False)) (w @ [(n, da)])"
    using one_brelse [OF s2(3)] by blast
  have "card {m. (D(n := False)) m} \<le> card {m. D m}" by (intro card_mono) (auto split: if_splits)
  then have room': "card {m. (D(n := False)) m} < NBUF" using room by simp
  have "disksize t = disksize s"
    using bio_frame_select(20) [OF a(2)] bio_frame_select(20) [OF s2(2)] bio_frame_select(20) [OF t(2)] by simp
  then obtain b u where b: "bread 1 n t = Ret b u" "one_held u b n (d(n := da)) (v(n := da)) (D(n := False)) (w @ [(n, da)])"
    using one_bread [OF t(3), of n] room' n by auto
  have "b_data (bufs u b) = da" using b(2) unfolding one_held_def by simp
  moreover have "disk t = d(n := da)" "view t = v(n := da)" using t(3) unfolding bq_def by blast+
  ultimately show ?thesis using a(1) s2(1) t(1) b(1) by blast
qed

theorem bwrite_bread_roundtrip_witness:
  "\<exists>a s1 s2 t. bread 1 7 ex_klog = Ret a s1 \<and> bwrite a (set_data a (\<lambda>_. 65) s1) = Ret () s2
    \<and> brelse a s2 = Ret () t \<and> disk t 7 = (\<lambda>_. 65)"
proof -
  have q: "bq ex_klog (\<lambda>_ _. 0) (\<lambda>_ _. 0) (\<lambda>m. m \<in> {}) []" using ex_klog_ok(1,9) unfolding lgq_def by metis
  have "(7 :: u32) < disksize ex_klog" "card {m. m \<in> ({} :: u32 set)} < NBUF" by (simp_all add: ex_klog_ok)
  from bwrite_bread_roundtrip [OF q this, of "\<lambda>_. 65"] show ?thesis by (metis fun_upd_same)
qed

subsection \<open>Properties: transactions\<close>

text \<open>
  C1. Crash atomicity. A transaction of \<open>n\<close> blocks is about to be committed, the log on the disk being
  empty. \<open>commit\<close> returns with the new contents of every block on the disk. And if the machine stops
  after any number \<open>k\<close> of the block writes that commit makes, and boots again from the disk as it is
  then, \<open>recover_from_log\<close> returns with an empty log, and the blocks outside the log are either all
  as before the transaction or all as after it.
\<close>

theorem commit_crash_atomic:
  assumes "txn s d v n" and "head_n (d (log_start s)) = 0"
  shows "\<exists>t ws. commit s = Ret () t \<and> disk_writes t = disk_writes s @ ws \<and> disk t = apply_writes ws d
    \<and> (\<forall>m. outside s n m \<longrightarrow> disk t m = v m) \<and> head_n (disk t (log_start s)) = 0
    \<and> (\<forall>k\<le>length ws. \<forall>r. booted r (apply_writes (take k ws) d) (log_start s) (disksize s) \<longrightarrow>
        (\<exists>u. recover_from_log r = Ret () u \<and> head_n (disk u (log_start s)) = 0
           \<and> ((\<forall>m. outside s n m \<longrightarrow> disk u m = d m) \<or> (\<forall>m. outside s n m \<longrightarrow> disk u m = v m))))"
proof -
  obtain t where t: "commit s = Ret () t" "bq t (apply_writes (commit_writes s v n) d) (apply_writes (commit_writes s v n) v)
      (\<lambda>_. False) (disk_writes s @ commit_writes s v n)"
    using commit_ok [OF assms(1)] by blast
  have "disk t = apply_writes (commit_writes s v n) d" "disk_writes t = disk_writes s @ commit_writes s v n"
    using t(2) unfolding bq_def by blast+
  then show ?thesis
    using t(1) commit_final [OF assms(1)] commit_crash [OF assms] by (intro exI [of _ t] exI [of _ "commit_writes s v n"]) auto
qed

text \<open>A transaction of one block, block 50 filled with 65, in the example state.\<close>

lemma ex_txn:
  "\<exists>a s1 s2 t. bread 1 50 ex_klog = Ret a s1 \<and> log_write a (set_data a (\<lambda>_. 65) s1) = Ret () s2
    \<and> brelse a s2 = Ret () t \<and> txn t (\<lambda>_ _. 0) ((\<lambda>_ _. 0)(50 := (\<lambda>_. 65))) 1 \<and> log_start t = 2
    \<and> log_outstanding t = 1 \<and> \<not> log_committing t \<and> lh_n t = 1 \<and> lg_frame ex_klog t"
proof -
  have n: "(50 :: u32) < disksize ex_klog" "txn_room ex_klog" by (simp_all add: ex_klog_ok txn_room_def)
  obtain a s1 s2 t where r: "bread 1 50 ex_klog = Ret a s1" "log_write a (set_data a (\<lambda>_. 65) s1) = Ret () s2"
      "brelse a s2 = Ret () t" and q: "lgq t (\<lambda>_ _. 0) ((\<lambda>_ _. 0)(50 := (\<lambda>_. 65))) (insert 50 {})"
      and f: "lg_frame ex_klog t" and l: "lh_n t \<le> lh_n ex_klog + 1"
    using log_store [OF ex_klog_ok(1) n] by blast
  have "lh_block t ` {..<nat (lh_n t)} = {50}" using q unfolding lgq_def by metis
  then have one: "lh_n t = 1" using l ex_klog_ok(6) by (cases "lh_n t \<le> 0") auto
  have sel: "log_start t = 2" "disksize t = 100" "log_outstanding t = 1" "\<not> log_committing t"
    using lg_frame_select [OF f] ex_klog_ok by auto
  have area: "m < disksize t \<and> m \<noteq> 50" if mem: "m \<in> log_area t" for m
  proof -
    consider "m = 2" | i where "i < NBUF" "m = 2 + of_nat i + 1" using mem sel by (auto simp: log_area_def)
    then have "unat m \<le> 32"
    proof cases
      case (2 i)
      then have "m = of_nat (i + 3)" by simp
      then show ?thesis using 2(1) by (simp add: unat_of_nat del: of_nat_add)
    qed simp
    then show ?thesis using sel by (auto simp: word_less_nat_alt)
  qed
  have "txn t (\<lambda>_ _. 0) ((\<lambda>_ _. 0)(50 := (\<lambda>_. 65))) (nat (lh_n t))"
    using area one sel by (intro lgq_txn [OF q]) auto
  then show ?thesis using r one sel f by auto
qed

theorem commit_crash_atomic_witness:
  "\<exists>s t ws. commit (s :: klog) = Ret () t \<and> disk t 50 = (\<lambda>_. 65) \<and> disk t = apply_writes ws (\<lambda>_ _. 0)"
proof -
  obtain s :: klog where s: "txn s (\<lambda>_ _. 0) ((\<lambda>_ _. 0)(50 := (\<lambda>_. 65))) 1" "log_start s = 2" using ex_txn by blast
  have "head_n ((\<lambda>_ _. 0) (log_start s)) = 0" by (simp add: head_n_def get32_def)
  moreover have "outside s 1 50" using s(2) by (simp add: outside_def)
  ultimately show ?thesis using commit_crash_atomic [OF s(1)] by fastforce
qed

lemma bq_log_update [simp]:
  "bq (s\<lparr>log_outstanding := x\<rparr>) d v D w = bq s d v D w" "bq (s\<lparr>log_committing := c\<rparr>) d v D w = bq s d v D w"
  by (rule bq_cong; simp add: kbio.truncate_def)+



text \<open>
  Reservation. \<open>begin_op\<close> lets an operation start only when the blocks already logged and ten
  blocks for every outstanding operation fit into 30; otherwise the process sleeps on the log.
\<close>

theorem begin_op_reserves:
  assumes "cpu_ok s" and "\<not> holding LogLock s" and "begin_op s = Ret () t"
  shows "t = s\<lparr>log_outstanding := log_outstanding s + 1\<rparr> \<and> \<not> log_committing s
    \<and> lh_n t + log_outstanding t * MAXOPBLOCKS \<le> LOGSIZE"
proof -
  have "sleep ch l u \<noteq> Ret () t" for ch l and u :: "'a klog_scheme"
    by (auto simp: sleep_def sched_def Let_def outcome_simps split: option.splits if_splits)
  then show ?thesis
    using assms by (auto simp: begin_op_def acquire_free release_locked_by algebra_simps split: if_splits)
qed

theorem begin_op_reserves_witness:
  "\<exists>s t. begin_op (s :: klog) = Ret () t \<and> lh_n t + log_outstanding t * MAXOPBLOCKS \<le> LOGSIZE"
proof -
  have "bio_inv ex_klog" using ex_klog_ok(1) unfolding lgq_def bq_def by blast
  note c = bio_inv_cpu [OF this]
  have "begin_op ex_klog = Ret () (ex_klog\<lparr>log_outstanding := 2\<rparr>)"
    using c ex_klog_ok by (simp add: begin_op_def acquire_free release_locked_by)
  then show ?thesis using begin_op_reserves [OF c] by blast
qed



end
