(* ===== verification/Inode.thy ===== *)
theory Inode
  imports Log
begin

unbundle bit_operations_syntax

text \<open>
  The lower half of \<open>src/xv6-public/fs.c\<close> (with \<open>fs.h\<close> and \<open>file.h\<close>): the free-block bitmap, the
  inode cache, and the map from a file's blocks to disk blocks with its direct, indirect and double
  indirect parts.

  An inode pointer is an index into the cache, \<open>None\<close> the null pointer; using a null inode where the
  code does not test for it is an error value. The flag word holds \<open>I_VALID\<close> only. A \<open>short\<close> is kept
  as its 16 bits.
\<close>

abbreviation NDIRECT :: nat where "NDIRECT \<equiv> 11"
abbreviation NINDIRECT :: nat where "NINDIRECT \<equiv> 128"
abbreviation NDOUBLEINDIRECT :: nat where "NDOUBLEINDIRECT \<equiv> 16384"
abbreviation MAXFILE :: nat where "MAXFILE \<equiv> 16523"
abbreviation NINODE :: nat where "NINODE \<equiv> 50"
abbreviation BPB :: nat where "BPB \<equiv> 4096"
abbreviation IPB :: u32 where "IPB \<equiv> 8"
abbreviation ROOTDEV :: u32 where "ROOTDEV \<equiv> 1"
abbreviation ROOTINO :: u32 where "ROOTINO \<equiv> 1"
abbreviation T_DIR :: u16 where "T_DIR \<equiv> 1"
abbreviation T_FILE :: u16 where "T_FILE \<equiv> 2"
abbreviation T_DEV :: u16 where "T_DEV \<equiv> 3"

record inode =
  i_dev :: u32
  i_inum :: u32
  i_ref :: int
  i_valid :: bool
  i_type :: u16
  i_major :: u16
  i_minor :: u16
  i_nlink :: u16
  i_size :: u32
  i_addrs :: "nat \<Rightarrow> u32"

record kfs = klog +
  sb :: superblock
  icache :: "nat \<Rightarrow> inode"

definition upd_inode :: "nat \<Rightarrow> (inode \<Rightarrow> inode) \<Rightarrow> 'x kfs_scheme \<Rightarrow> 'x kfs_scheme" where
  "upd_inode ip f s = s\<lparr>icache := (icache s)(ip := f (icache s ip))\<rparr>"

definition IBLOCK :: "u32 \<Rightarrow> superblock \<Rightarrow> u32" where
  "IBLOCK i b = i div IPB + sb_inodestart b"

definition BBLOCK :: "u32 \<Rightarrow> superblock \<Rightarrow> u32" where
  "BBLOCK i b = i div of_nat BPB + sb_bmapstart b"

subsection \<open>Blocks\<close>

definition bzero :: "u32 \<Rightarrow> u32 \<Rightarrow> 'x klog_scheme \<Rightarrow> (unit, 'x klog_scheme) outcome" where
  "bzero dev bno s =
     andthen (bread dev bno s) (\<lambda>bp s.
       let s = set_data bp (\<lambda>i. if i < BSIZE then 0 else b_data (bufs s bp) i) s in
       andthen (log_write bp s) (\<lambda>_ s. brelse bp s))"

definition bit_set :: "block \<Rightarrow> nat \<Rightarrow> bool" where
  "bit_set d bi \<longleftrightarrow> d (bi div 8) AND push_bit (bi mod 8) 1 \<noteq> 0"

text \<open>The outer loop runs over the numbers of the bitmap blocks, \<open>b = BPB * k\<close>.\<close>

fun balloc_loop :: "u32 \<Rightarrow> nat list \<Rightarrow> 'x kfs_scheme \<Rightarrow> (u32, 'x kfs_scheme) outcome" where
  "balloc_loop dev [] s = Panic ''balloc: out of blocks''"
| "balloc_loop dev (k # ks) s =
     andthen (bread dev (BBLOCK (of_nat (BPB * k)) (sb s)) s) (\<lambda>bp s.
       case first_idx BPB (\<lambda>bi. BPB * k + bi < unat (sb_size (sb s)) \<longrightarrow> \<not> bit_set (b_data (bufs s bp)) bi) of
         Some bi \<Rightarrow>
           if BPB * k + bi < unat (sb_size (sb s)) then
             let d = b_data (bufs s bp);
                 s = set_data bp (d(bi div 8 := d (bi div 8) OR push_bit (bi mod 8) 1)) s in
             andthen (log_write bp s) (\<lambda>_ s.
             andthen (brelse bp s) (\<lambda>_ s.
             andthen (bzero dev (of_nat (BPB * k + bi)) s) (\<lambda>_ s. Ret (of_nat (BPB * k + bi)) s)))
           else andthen (brelse bp s) (\<lambda>_ s. balloc_loop dev ks s)
       | None \<Rightarrow> andthen (brelse bp s) (\<lambda>_ s. balloc_loop dev ks s))"

definition balloc :: "u32 \<Rightarrow> 'x kfs_scheme \<Rightarrow> (u32, 'x kfs_scheme) outcome" where
  "balloc dev s = balloc_loop dev [0..<(unat (sb_size (sb s)) + BPB - 1) div BPB] s"

definition bfree :: "u32 \<Rightarrow> u32 \<Rightarrow> 'x kfs_scheme \<Rightarrow> (unit, 'x kfs_scheme) outcome" where
  "bfree dev b s =
     andthen (readsb dev s) (\<lambda>sb' s.
     let s = s\<lparr>sb := sb'\<rparr> in
     andthen (bread dev (BBLOCK b (sb s)) s) (\<lambda>bp s.
       let bi = unat b mod BPB;
           d = b_data (bufs s bp) in
       if \<not> bit_set d bi then Panic ''freeing free block''
       else
         let s = set_data bp (d(bi div 8 := d (bi div 8) AND NOT (push_bit (bi mod 8) 1))) s in
         andthen (log_write bp s) (\<lambda>_ s. brelse bp s)))"

subsection \<open>Inodes on the disk\<close>

text \<open>\<open>struct dinode\<close>: 64 bytes, eight to a block.\<close>

definition dinode_off :: "u32 \<Rightarrow> nat" where
  "dinode_off inum = 64 * unat (inum mod IPB)"

definition get_dinode :: "block \<Rightarrow> nat \<Rightarrow> inode \<Rightarrow> inode" where
  "get_dinode d k ip =
     ip\<lparr>i_type := get16 d k, i_major := get16 d (k + 2), i_minor := get16 d (k + 4), i_nlink := get16 d (k + 6),
        i_size := get32 d (k + 8),
        i_addrs := (\<lambda>i. if i < NDIRECT + 2 then get32 d (k + 12 + 4 * i) else i_addrs ip i)\<rparr>"

fun put_addrs :: "nat \<Rightarrow> nat \<Rightarrow> (nat \<Rightarrow> u32) \<Rightarrow> block \<Rightarrow> block" where
  "put_addrs 0 k a d = d"
| "put_addrs (Suc i) k a d = put32 (k + 12 + 4 * i) (a i) (put_addrs i k a d)"

definition put_dinode :: "nat \<Rightarrow> inode \<Rightarrow> block \<Rightarrow> block" where
  "put_dinode k ip d =
     (let d = put16 k (i_type ip) d;
          d = put16 (k + 2) (i_major ip) d;
          d = put16 (k + 4) (i_minor ip) d;
          d = put16 (k + 6) (i_nlink ip) d;
          d = put32 (k + 8) (i_size ip) d in
      put_addrs (NDIRECT + 2) k (i_addrs ip) d)"

definition iinit :: "u32 \<Rightarrow> 'x kfs_scheme \<Rightarrow> (unit, 'x kfs_scheme) outcome" where
  "iinit dev s =
     (let s = fold (\<lambda>i s. initsleeplock (1, i) s) [0..<NINODE] s in
      andthen (readsb dev s) (\<lambda>sb' s. Ret () (s\<lparr>sb := sb'\<rparr>)))"

subsection \<open>The inode cache\<close>

definition iget :: "u32 \<Rightarrow> u32 \<Rightarrow> 'x kfs_scheme \<Rightarrow> (nat, 'x kfs_scheme) outcome" where
  "iget dev inum s =
     andthen (acquire IcacheLock s) (\<lambda>_ s.
       case first_idx NINODE (\<lambda>i. i_ref (icache s i) > 0 \<and> i_dev (icache s i) = dev \<and> i_inum (icache s i) = inum) of
         Some ip \<Rightarrow>
           let s = upd_inode ip (\<lambda>n. n\<lparr>i_ref := i_ref n + 1\<rparr>) s in
           andthen (release IcacheLock s) (\<lambda>_ s. Ret ip s)
       | None \<Rightarrow>
         (case first_idx NINODE (\<lambda>i. i_ref (icache s i) = 0) of
            None \<Rightarrow> Panic ''iget: no inodes''
          | Some ip \<Rightarrow>
            let s = upd_inode ip (\<lambda>n. n\<lparr>i_dev := dev, i_inum := inum, i_ref := 1, i_valid := False\<rparr>) s in
            andthen (release IcacheLock s) (\<lambda>_ s. Ret ip s)))"

fun ialloc_loop :: "u32 \<Rightarrow> u16 \<Rightarrow> nat list \<Rightarrow> 'x kfs_scheme \<Rightarrow> (nat, 'x kfs_scheme) outcome" where
  "ialloc_loop dev type [] s = Panic ''ialloc: no inodes''"
| "ialloc_loop dev type (n # ns) s =
     (let inum = of_nat n in
      andthen (bread dev (IBLOCK inum (sb s)) s) (\<lambda>bp s.
        let k = dinode_off inum;
            d = b_data (bufs s bp) in
        if get16 d k = 0 then
          let d = put16 k type (\<lambda>i. if k \<le> i \<and> i < k + 64 then 0 else d i);
              s = set_data bp d s in
          andthen (log_write bp s) (\<lambda>_ s.
          andthen (brelse bp s) (\<lambda>_ s. iget dev inum s))
        else andthen (brelse bp s) (\<lambda>_ s. ialloc_loop dev type ns s)))"

definition ialloc :: "u32 \<Rightarrow> u16 \<Rightarrow> 'x kfs_scheme \<Rightarrow> (nat, 'x kfs_scheme) outcome" where
  "ialloc dev type s = ialloc_loop dev type [1..<unat (sb_ninodes (sb s))] s"

definition iupdate :: "nat \<Rightarrow> 'x kfs_scheme \<Rightarrow> (unit, 'x kfs_scheme) outcome" where
  "iupdate ip s =
     andthen (bread (i_dev (icache s ip)) (IBLOCK (i_inum (icache s ip)) (sb s)) s) (\<lambda>bp s.
       let k = dinode_off (i_inum (icache s ip));
           s = set_data bp (put_dinode k (icache s ip) (b_data (bufs s bp))) s in
       andthen (log_write bp s) (\<lambda>_ s. brelse bp s))"

definition idup :: "nat option \<Rightarrow> 'x kfs_scheme \<Rightarrow> (nat option, 'x kfs_scheme) outcome" where
  "idup ip s =
     andthen (acquire IcacheLock s) (\<lambda>_ s.
       case ip of None \<Rightarrow> Panic ''null inode''
       | Some i \<Rightarrow>
         let s = upd_inode i (\<lambda>n. n\<lparr>i_ref := i_ref n + 1\<rparr>) s in
         andthen (release IcacheLock s) (\<lambda>_ s. Ret ip s))"

definition ilock :: "nat option \<Rightarrow> 'x kfs_scheme \<Rightarrow> (unit, 'x kfs_scheme) outcome" where
  "ilock ip s =
     (case ip of None \<Rightarrow> Panic ''ilock''
      | Some i \<Rightarrow>
        if i_ref (icache s i) < 1 then Panic ''ilock''
        else
          andthen (acquiresleep (1, i) s) (\<lambda>_ s.
          if i_valid (icache s i) then Ret () s
          else
            andthen (bread (i_dev (icache s i)) (IBLOCK (i_inum (icache s i)) (sb s)) s) (\<lambda>bp s.
            let s = upd_inode i (get_dinode (b_data (bufs s bp)) (dinode_off (i_inum (icache s i)))) s in
            andthen (brelse bp s) (\<lambda>_ s.
            let s = upd_inode i (\<lambda>n. n\<lparr>i_valid := True\<rparr>) s in
            if i_type (icache s i) = 0 then Panic ''ilock: no type'' else Ret () s))))"

definition iunlock :: "nat option \<Rightarrow> 'x kfs_scheme \<Rightarrow> (unit, 'x kfs_scheme) outcome" where
  "iunlock ip s =
     (case ip of None \<Rightarrow> Panic ''iunlock''
      | Some i \<Rightarrow>
        andthen (holdingsleep (1, i) s) (\<lambda>h s.
          if \<not> h \<or> i_ref (icache s i) < 1 then Panic ''iunlock''
          else releasesleep (1, i) s))"

subsection \<open>The block map\<close>

text \<open>One entry of a block of block numbers, allocated when it is 0; the buffer is released.\<close>

definition bmap_entry :: "u32 \<Rightarrow> u32 \<Rightarrow> nat \<Rightarrow> 'x kfs_scheme \<Rightarrow> (u32, 'x kfs_scheme) outcome" where
  "bmap_entry dev blk i s =
     andthen (bread dev blk s) (\<lambda>bp s.
       let addr = get32 (b_data (bufs s bp)) (4 * i) in
       if addr = 0 then
         andthen (balloc dev s) (\<lambda>addr s.
         let s = set_data bp (put32 (4 * i) addr (b_data (bufs s bp))) s in
         andthen (log_write bp s) (\<lambda>_ s.
         andthen (brelse bp s) (\<lambda>_ s. Ret addr s)))
       else andthen (brelse bp s) (\<lambda>_ s. Ret addr s))"

text \<open>An entry of \<open>ip->addrs\<close>, allocated when it is 0.\<close>

definition bmap_addr :: "nat \<Rightarrow> nat \<Rightarrow> 'x kfs_scheme \<Rightarrow> (u32, 'x kfs_scheme) outcome" where
  "bmap_addr ip k s =
     (let addr = i_addrs (icache s ip) k in
      if addr = 0 then
        andthen (balloc (i_dev (icache s ip)) s) (\<lambda>addr s.
          Ret addr (upd_inode ip (\<lambda>n. n\<lparr>i_addrs := (i_addrs n)(k := addr)\<rparr>) s))
      else Ret addr s)"

definition bmap :: "nat \<Rightarrow> u32 \<Rightarrow> 'x kfs_scheme \<Rightarrow> (u32, 'x kfs_scheme) outcome" where
  "bmap ip bn s =
     (let bn = unat bn in
      if bn < NDIRECT then bmap_addr ip bn s
      else
        let bn = bn - NDIRECT in
        if bn < NINDIRECT then
          andthen (bmap_addr ip NDIRECT s) (\<lambda>addr s. bmap_entry (i_dev (icache s ip)) addr bn s)
        else
          let bn = bn - NINDIRECT in
          if bn < NDOUBLEINDIRECT then
            andthen (bmap_addr ip (NDIRECT + 1) s) (\<lambda>addr s.
            andthen (bmap_entry (i_dev (icache s ip)) addr (bn div NINDIRECT) s) (\<lambda>addr s.
              bmap_entry (i_dev (icache s ip)) addr (bn mod NINDIRECT) s))
          else Panic ''bmap: out of range'')"

subsection \<open>Truncating a file\<close>

fun itrunc_direct :: "nat \<Rightarrow> nat list \<Rightarrow> 'x kfs_scheme \<Rightarrow> (unit, 'x kfs_scheme) outcome" where
  "itrunc_direct ip [] s = Ret () s"
| "itrunc_direct ip (i # is) s =
     (if i_addrs (icache s ip) i \<noteq> 0 then
        andthen (bfree (i_dev (icache s ip)) (i_addrs (icache s ip) i) s) (\<lambda>_ s.
          itrunc_direct ip is (upd_inode ip (\<lambda>n. n\<lparr>i_addrs := (i_addrs n)(i := 0)\<rparr>) s))
      else itrunc_direct ip is s)"

text \<open>Free the blocks listed in the buffer \<open>bp\<close>.\<close>

fun bfree_entries :: "u32 \<Rightarrow> nat \<Rightarrow> nat list \<Rightarrow> 'x kfs_scheme \<Rightarrow> (unit, 'x kfs_scheme) outcome" where
  "bfree_entries dev bp [] s = Ret () s"
| "bfree_entries dev bp (j # js) s =
     (let a = get32 (b_data (bufs s bp)) (4 * j) in
      if a \<noteq> 0 then andthen (bfree dev a s) (\<lambda>_ s. bfree_entries dev bp js s)
      else bfree_entries dev bp js s)"

fun itrunc_double :: "u32 \<Rightarrow> nat \<Rightarrow> nat list \<Rightarrow> 'x kfs_scheme \<Rightarrow> (unit, 'x kfs_scheme) outcome" where
  "itrunc_double dev bp [] s = Ret () s"
| "itrunc_double dev bp (i # is) s =
     (let a = get32 (b_data (bufs s bp)) (4 * i) in
      if a \<noteq> 0 then
        andthen (bread dev a s) (\<lambda>bp2 s.
        andthen (bfree_entries dev bp2 [0..<NINDIRECT] s) (\<lambda>_ s.
        andthen (brelse bp2 s) (\<lambda>_ s.
        andthen (bfree dev (get32 (b_data (bufs s bp)) (4 * i)) s) (\<lambda>_ s.
          itrunc_double dev bp is (set_data bp (put32 (4 * i) 0 (b_data (bufs s bp))) s)))))
      else itrunc_double dev bp is s)"

definition itrunc :: "nat \<Rightarrow> 'x kfs_scheme \<Rightarrow> (unit, 'x kfs_scheme) outcome" where
  "itrunc ip s =
     andthen (itrunc_direct ip [0..<NDIRECT] s) (\<lambda>_ s.
     andthen
       (if i_addrs (icache s ip) NDIRECT \<noteq> 0 then
          andthen (bread (i_dev (icache s ip)) (i_addrs (icache s ip) NDIRECT) s) (\<lambda>bp s.
          andthen (bfree_entries (i_dev (icache s ip)) bp [0..<NINDIRECT] s) (\<lambda>_ s.
          andthen (brelse bp s) (\<lambda>_ s.
          andthen (bfree (i_dev (icache s ip)) (i_addrs (icache s ip) NDIRECT) s) (\<lambda>_ s.
            Ret () (upd_inode ip (\<lambda>n. n\<lparr>i_addrs := (i_addrs n)(NDIRECT := 0)\<rparr>) s)))))
        else Ret () s) (\<lambda>_ s.
     andthen
       (if i_addrs (icache s ip) (NDIRECT + 1) \<noteq> 0 then
          andthen (bread (i_dev (icache s ip)) (i_addrs (icache s ip) (NDIRECT + 1)) s) (\<lambda>bp s.
          andthen (itrunc_double (i_dev (icache s ip)) bp [0..<NINDIRECT] s) (\<lambda>_ s.
          andthen (brelse bp s) (\<lambda>_ s.
          andthen (bfree (i_dev (icache s ip)) (i_addrs (icache s ip) (NDIRECT + 1)) s) (\<lambda>_ s.
            Ret () (upd_inode ip (\<lambda>n. n\<lparr>i_addrs := (i_addrs n)(NDIRECT + 1 := 0)\<rparr>) s)))))
        else Ret () s) (\<lambda>_ s.
       iupdate ip (upd_inode ip (\<lambda>n. n\<lparr>i_size := 0\<rparr>) s))))"

definition iput :: "nat option \<Rightarrow> 'x kfs_scheme \<Rightarrow> (unit, 'x kfs_scheme) outcome" where
  "iput ip s =
     andthen (acquire IcacheLock s) (\<lambda>_ s.
       case ip of None \<Rightarrow> Panic ''null inode''
       | Some i \<Rightarrow>
         andthen
           (if i_ref (icache s i) = 1 \<and> i_valid (icache s i) \<and> i_nlink (icache s i) = 0 then
              andthen (release IcacheLock s) (\<lambda>_ s.
              andthen (itrunc i s) (\<lambda>_ s.
              andthen (iupdate i (upd_inode i (\<lambda>n. n\<lparr>i_type := 0\<rparr>) s)) (\<lambda>_ s.
              andthen (acquire IcacheLock s) (\<lambda>_ s.
                Ret () (upd_inode i (\<lambda>n. n\<lparr>i_valid := False\<rparr>) s)))))
            else Ret () s) (\<lambda>_ s.
         release IcacheLock (upd_inode i (\<lambda>n. n\<lparr>i_ref := i_ref n - 1\<rparr>) s)))"

definition iunlockput :: "nat option \<Rightarrow> 'x kfs_scheme \<Rightarrow> (unit, 'x kfs_scheme) outcome" where
  "iunlockput ip s = andthen (iunlock ip s) (\<lambda>_ s. iput ip s)"

record stat =
  st_type :: u16
  st_dev :: u32
  st_ino :: u32
  st_nlink :: u16
  st_size :: u32

definition stati :: "nat \<Rightarrow> 'x kfs_scheme \<Rightarrow> stat" where
  "stati ip s =
     \<lparr>st_type = i_type (icache s ip), st_dev = i_dev (icache s ip), st_ino = i_inum (icache s ip),
      st_nlink = i_nlink (icache s ip), st_size = i_size (icache s ip)\<rparr>"

end
