(* ===== verification/Console.thy ===== *)
theory Console
  imports Inode
begin

unbundle bit_operations_syntax

text \<open>
  \<open>src/xv6-public/console.c\<close> and \<open>src/xv6-public/kbd.c\<close>: the text screen, formatted output, the
  line-edited input buffer, and the console as a device.

  The serial port's output is the list of the bytes sent; the screen is its character memory and
  the cursor position register. The interrupt handlers take the values that \<open>getc\<close> returns, up to the
  first negative one, as a list. The process listing that control-P prints (\<open>procdump\<close>) changes no
  state and is left out, as are the traces other kernel functions print.
\<close>

abbreviation BACKSPACE :: int where "BACKSPACE \<equiv> 0x100"
abbreviation INPUT_BUF :: nat where "INPUT_BUF \<equiv> 128"
abbreviation CONSOLE :: nat where "CONSOLE \<equiv> 1"

datatype devread = Consoleread
datatype devwrite = Consolewrite

record kcons = kfs +
  panicked :: bool
  cons_locking :: bool
  uart_out :: "u8 list"
  crt :: "nat \<Rightarrow> u16"
  crt_pos :: int
  input_buf :: "nat \<Rightarrow> u8"
  input_r :: u32
  input_w :: u32
  input_e :: u32
  devsw_read :: "nat \<Rightarrow> devread option"
  devsw_write :: "nat \<Rightarrow> devwrite option"

subsection \<open>Output\<close>

definition uartputc :: "int \<Rightarrow> 'x kcons_scheme \<Rightarrow> 'x kcons_scheme" where
  "uartputc c s = s\<lparr>uart_out := uart_out s @ [of_int c]\<rparr>"

text \<open>The next cursor position, before scrolling, and the screen after scrolling up one row.\<close>

definition cga_move :: "int \<Rightarrow> int \<Rightarrow> int" where
  "cga_move c pos =
     (if c = 10 then pos + (80 - pos mod 80)
      else if c = BACKSPACE then (if pos > 0 then pos - 1 else pos)
      else pos + 1)"

definition cga_scroll :: "int \<Rightarrow> (nat \<Rightarrow> u16) \<Rightarrow> nat \<Rightarrow> u16" where
  "cga_scroll pos m = (\<lambda>i. if nat pos \<le> i \<and> i < 24 * 80 then 0 else if i < 23 * 80 then m (i + 80) else m i)"

definition cgaputc :: "int \<Rightarrow> 'x kcons_scheme \<Rightarrow> (unit, 'x kcons_scheme) outcome" where
  "cgaputc c s =
     (let pos = cga_move c (crt_pos s);
          m = (if c \<noteq> 10 \<and> c \<noteq> BACKSPACE
               then (crt s)(nat (crt_pos s) := of_int c AND 0xff OR 0x0700) else crt s) in
      if pos < 0 \<or> pos > 25 * 80 then Panic ''pos under/overflow''
      else
        let scroll = (pos div 80 \<ge> 24);
            pos = (if scroll then pos - 80 else pos);
            m = (if scroll then cga_scroll pos m else m) in
        Ret () (s\<lparr>crt_pos := pos, crt := m(nat pos := 0x0720)\<rparr>))"

text \<open>A CPU that finds that another one has panicked stops.\<close>

definition consputc :: "int \<Rightarrow> 'x kcons_scheme \<Rightarrow> (unit, 'x kcons_scheme) outcome" where
  "consputc c s =
     (if panicked s then Panic ''frozen''
      else
        let s = (if c = BACKSPACE then uartputc 8 (uartputc 32 (uartputc 8 s)) else uartputc c s) in
        cgaputc c s)"

fun consputs :: "u8 list \<Rightarrow> 'x kcons_scheme \<Rightarrow> (unit, 'x kcons_scheme) outcome" where
  "consputs [] s = Ret () s"
| "consputs (c # cs) s = andthen (consputc (uint c) s) (\<lambda>_ s. consputs cs s)"

text \<open>
  \<open>printint\<close>: the digits are produced from the last to the first and printed in reverse.
  \<open>print_digits\<close> is the loop; each digit is \<open>digits[x % base]\<close>.
\<close>

definition digit :: "u32 \<Rightarrow> u8" where
  "digit d = (if d < 10 then 48 + ucast d else 87 + ucast d)"

function print_digits :: "u32 \<Rightarrow> u32 \<Rightarrow> u8 list" where
  "print_digits base x =
     (if base \<le> 1 \<or> x div base = 0 then [digit (x mod base)]
      else digit (x mod base) # print_digits base (x div base))"
  by pat_completeness auto
termination
proof (relation "measure (\<lambda>(base, x). unat x)")
  fix base x :: u32
  assume "\<not> (base \<le> 1 \<or> x div base = 0)"
  then have "1 < unat base" "x \<noteq> 0" by (auto simp: word_less_nat_alt not_le)
  then have "0 < unat x" by (simp add: unat_gt_0)
  then show "((base, x div base), base, x) \<in> measure (\<lambda>(base, x). unat x)"
    using \<open>1 < unat base\<close> by (simp add: unat_div div_less_dividend)
qed simp

declare print_digits.simps [simp del]

definition printint :: "u32 \<Rightarrow> u32 \<Rightarrow> bool \<Rightarrow> u8 list" where
  "printint xx base sign =
     (let neg = sign \<and> sint xx < 0;
          x = (if neg then - xx else xx) in
      rev (print_digits base x @ (if neg then [45] else [])))"

text \<open>
  The text \<open>cprintf\<close> prints: \<open>args\<close> are the words after the format on the stack, \<open>strs\<close> the string at
  an address, \<open>k\<close> the number of arguments used.
\<close>

fun cprintf_text :: "(nat \<Rightarrow> u32) \<Rightarrow> (u32 \<Rightarrow> u8 list) \<Rightarrow> nat \<Rightarrow> u8 list \<Rightarrow> u8 list" where
  "cprintf_text args strs k [] = []"
| "cprintf_text args strs k (c # cs) =
     (if c \<noteq> 37 then c # cprintf_text args strs k cs
      else
        (case cs of [] \<Rightarrow> []
         | f # fs \<Rightarrow>
           if f = 100 then printint (args k) 10 True @ cprintf_text args strs (k + 1) fs
           else if f = 120 \<or> f = 112 then printint (args k) 16 False @ cprintf_text args strs (k + 1) fs
           else if f = 115 then
             (if args k = 0 then [40, 110, 117, 108, 108, 41] else strs (args k)) @ cprintf_text args strs (k + 1) fs
           else if f = 37 then 37 # cprintf_text args strs k fs
           else 37 # f # cprintf_text args strs k fs))"

definition cprintf ::
  "u8 list \<Rightarrow> (nat \<Rightarrow> u32) \<Rightarrow> (u32 \<Rightarrow> u8 list) \<Rightarrow> 'x kcons_scheme \<Rightarrow> (unit, 'x kcons_scheme) outcome" where
  "cprintf fmt args strs s =
     (let locking = cons_locking s in
      andthen (if locking then acquire ConsLock s else Ret () s) (\<lambda>_ s.
      andthen (consputs (cprintf_text args strs 0 fmt) s) (\<lambda>_ s.
      if locking then release ConsLock s else Ret () s)))"

subsection \<open>Input\<close>

definition inbuf :: "u32 \<Rightarrow> 'x kcons_scheme \<Rightarrow> u8" where
  "inbuf i s = input_buf s (unat i mod INPUT_BUF)"

lemma consputc_input:
  assumes "consputc c s = Ret u t"
  shows "input_e t = input_e s" and "input_w t = input_w s" and "input_r t = input_r s"
    and "input_buf t = input_buf s"
  using assms
  by (auto simp: consputc_def cgaputc_def uartputc_def Let_def split: if_splits)

text \<open>Control-U: back to the start of the line, in at most \<open>input.e - input.w\<close> rounds.\<close>

function kill_line :: "'x kcons_scheme \<Rightarrow> (unit, 'x kcons_scheme) outcome" where
  "kill_line s =
     (if input_e s \<noteq> input_w s \<and> inbuf (input_e s - 1) s \<noteq> 10 then
        (case consputc BACKSPACE (s\<lparr>input_e := input_e s - 1\<rparr>) of
           Ret _ s \<Rightarrow> kill_line s
         | Swtch s \<Rightarrow> Swtch s
         | Panic e \<Rightarrow> Panic e)
      else Ret () s)"
  by pat_completeness auto
termination
proof (relation "measure (\<lambda>s. unat (input_e s - input_w s))")
  fix s s' :: "'x kcons_scheme" and u
  assume "input_e s \<noteq> input_w s \<and> inbuf (input_e s - 1) s \<noteq> 10"
    and "consputc BACKSPACE (s\<lparr>input_e := input_e s - 1\<rparr>) = Ret u s'"
  then have "input_e s - input_w s \<noteq> 0" and e: "input_e s' = input_e s - 1" "input_w s' = input_w s"
    by (simp_all add: consputc_input)
  then have "unat (input_e s - input_w s - 1) < unat (input_e s - input_w s)"
    by (simp add: unat_sub word_le_nat_alt unat_gt_0 Suc_le_eq)
  moreover have "input_e s' - input_w s' = input_e s - input_w s - 1" using e by simp
  ultimately show "(s', s) \<in> measure (\<lambda>s. unat (input_e s - input_w s))" by simp
qed simp

declare kill_line.simps [simp del]

text \<open>One character typed; \<open>C(x)\<close> is \<open>x - '@'\<close>.\<close>

definition console_char :: "int \<Rightarrow> 'x kcons_scheme \<Rightarrow> (unit, 'x kcons_scheme) outcome" where
  "console_char c s =
     (if c = 16 then Ret () s
      else if c = 21 then kill_line s
      else if c = 8 \<or> c = 0x7f then
        (if input_e s \<noteq> input_w s then consputc BACKSPACE (s\<lparr>input_e := input_e s - 1\<rparr>) else Ret () s)
      else if c \<noteq> 0 \<and> input_e s - input_r s < of_nat INPUT_BUF then
        let c = (if c = 13 then 10 else c);
            s = s\<lparr>input_buf := (input_buf s)(unat (input_e s) mod INPUT_BUF := of_int c), input_e := input_e s + 1\<rparr> in
        andthen (consputc c s) (\<lambda>_ s.
          if c = 10 \<or> c = 4 \<or> input_e s = input_r s + of_nat INPUT_BUF
          then wakeup (Some InputChan) (s\<lparr>input_w := input_e s\<rparr>)
          else Ret () s)
      else Ret () s)"

fun console_chars :: "int list \<Rightarrow> 'x kcons_scheme \<Rightarrow> (unit, 'x kcons_scheme) outcome" where
  "console_chars [] s = Ret () s"
| "console_chars (c # cs) s = andthen (console_char c s) (\<lambda>_ s. console_chars cs s)"

definition consoleintr :: "int list \<Rightarrow> 'x kcons_scheme \<Rightarrow> (unit, 'x kcons_scheme) outcome" where
  "consoleintr cs s =
     andthen (acquire ConsLock s) (\<lambda>_ s.
     andthen (console_chars cs s) (\<lambda>_ s. release ConsLock s))"

text \<open>
  \<open>consoleread\<close>: \<open>n\<close> bytes still wanted of \<open>target\<close>. The result carries the bytes read.
\<close>

fun consoleread_loop :: "nat \<Rightarrow> nat \<Rightarrow> u8 list \<Rightarrow> 'x kcons_scheme \<Rightarrow> ((bool \<times> u8 list), 'x kcons_scheme) outcome" where
  "consoleread_loop 0 target acc s = Ret (True, acc) s"
| "consoleread_loop (Suc n) target acc s =
     (if input_r s = input_w s then
        (if p_killed (ptable s (the (cur s))) then Ret (False, acc) s
         else andthen (sleep (Some InputChan) (Some ConsLock) s) (\<lambda>_ s. Ret (True, acc) s))
      else
        let c = inbuf (input_r s) s;
            s = s\<lparr>input_r := input_r s + 1\<rparr> in
        if c = 4 then
          Ret (True, acc) (if Suc n < target then s\<lparr>input_r := input_r s - 1\<rparr> else s)
        else if c = 10 then Ret (True, acc @ [c]) s
        else consoleread_loop n target (acc @ [c]) s)"

definition consoleread :: "nat \<Rightarrow> int \<Rightarrow> 'x kcons_scheme \<Rightarrow> (int \<times> u8 list, 'x kcons_scheme) outcome" where
  "consoleread ip n s =
     andthen (iunlock (Some ip) s) (\<lambda>_ s.
     andthen (acquire ConsLock s) (\<lambda>_ s.
     andthen (consoleread_loop (nat n) (nat n) [] s) (\<lambda>(ok, bs) s.
     andthen (release ConsLock s) (\<lambda>_ s.
     andthen (ilock (Some ip) s) (\<lambda>_ s.
       Ret (if ok then int (length bs) else - 1, bs) s)))))"

definition consolewrite :: "nat \<Rightarrow> u8 list \<Rightarrow> 'x kcons_scheme \<Rightarrow> (int, 'x kcons_scheme) outcome" where
  "consolewrite ip bs s =
     andthen (iunlock (Some ip) s) (\<lambda>_ s.
     andthen (acquire ConsLock s) (\<lambda>_ s.
     andthen (consputs bs s) (\<lambda>_ s.
     andthen (release ConsLock s) (\<lambda>_ s.
     andthen (ilock (Some ip) s) (\<lambda>_ s. Ret (int (length bs)) s)))))"

definition consoleinit :: "'x kcons_scheme \<Rightarrow> 'x kcons_scheme" where
  "consoleinit s =
     s\<lparr>devsw_write := (devsw_write s)(CONSOLE := Some Consolewrite),
       devsw_read := (devsw_read s)(CONSOLE := Some Consoleread), cons_locking := True\<rparr>"

end
