(* ===== verification/Fs.thy ===== *)
theory Fs
  imports Console
begin

unbundle bit_operations_syntax

text \<open>
  The upper half of \<open>src/xv6-public/fs.c\<close>: reading and writing inodes, directories, and path names.

  The bytes \<open>readi\<close> copies out are part of its result, the bytes \<open>writei\<close> copies in an argument, so
  that the caller says where they live. A string is the list of its bytes before the NUL. The device
  switch is the part of the state that \<open>consoleinit\<close> fills in.
\<close>

abbreviation NDEV :: int where "NDEV \<equiv> 10"
abbreviation DIRSIZ :: nat where "DIRSIZ \<equiv> 14"
abbreviation DIRENT :: u32 where "DIRENT \<equiv> 16"

subsection \<open>Inode contents\<close>

definition chunk :: "u32 \<Rightarrow> nat \<Rightarrow> nat" where
  "chunk off r = min r (BSIZE - unat off mod BSIZE)"

lemma chunk_pos: "0 < r \<Longrightarrow> 0 < chunk off r"
  by (simp add: chunk_def)

lemma chunk_le: "chunk off r \<le> r"
  by (simp add: chunk_def)

text \<open>\<open>r\<close> bytes are left, \<open>n - tot\<close> in the code.\<close>

function readi_loop :: "nat \<Rightarrow> u32 \<Rightarrow> nat \<Rightarrow> 'x kfs_scheme \<Rightarrow> (u8 list, 'x kfs_scheme) outcome" where
  "readi_loop ip off r s =
     (if r = 0 then Ret [] s
      else
        andthen (bmap ip (off div of_nat BSIZE) s) (\<lambda>blk s.
        andthen (bread (i_dev (icache s ip)) blk s) (\<lambda>bp s.
        let m = chunk off r;
            bs = map (b_data (bufs s bp)) [unat off mod BSIZE..<unat off mod BSIZE + m] in
        andthen (brelse bp s) (\<lambda>_ s.
        andthen (readi_loop ip (off + of_nat m) (r - m) s) (\<lambda>rest s. Ret (bs @ rest) s)))))"
  by pat_completeness auto
termination
  by (relation "measure (\<lambda>(ip, off, r, s). r)") (auto simp: chunk_pos)

declare readi_loop.simps [simp del]

definition readi :: "nat \<Rightarrow> u32 \<Rightarrow> u32 \<Rightarrow> 'x kcons_scheme \<Rightarrow> (int \<times> u8 list, 'x kcons_scheme) outcome" where
  "readi ip off n s =
     (if i_type (icache s ip) = T_DEV then
        (let major = sint (i_major (icache s ip)) in
         if major < 0 \<or> major \<ge> NDEV then Ret (- 1, []) s
         else case devsw_read s (nat major) of
           None \<Rightarrow> Ret (- 1, []) s
         | Some Consoleread \<Rightarrow> consoleread ip (sint n) s)
      else if off > i_size (icache s ip) \<or> off + n < off then Ret (- 1, []) s
      else
        let n = (if off + n > i_size (icache s ip) then i_size (icache s ip) - off else n) in
        andthen (readi_loop ip off (unat n) s) (\<lambda>bs s. Ret (sint n, bs) s))"

text \<open>Store \<open>bs\<close> at offset \<open>k\<close> of a block.\<close>

definition put_bytes :: "nat \<Rightarrow> u8 list \<Rightarrow> block \<Rightarrow> block" where
  "put_bytes k bs d = (\<lambda>i. if k \<le> i \<and> i < k + length bs then bs ! (i - k) else d i)"

function writei_loop :: "nat \<Rightarrow> u32 \<Rightarrow> u8 list \<Rightarrow> 'x kfs_scheme \<Rightarrow> (u32, 'x kfs_scheme) outcome" where
  "writei_loop ip off bs s =
     (if bs = [] then Ret off s
      else
        andthen (bmap ip (off div of_nat BSIZE) s) (\<lambda>blk s.
        andthen (bread (i_dev (icache s ip)) blk s) (\<lambda>bp s.
        let m = chunk off (length bs);
            s = set_data bp (put_bytes (unat off mod BSIZE) (take m bs) (b_data (bufs s bp))) s in
        andthen (log_write bp s) (\<lambda>_ s.
        andthen (brelse bp s) (\<lambda>_ s.
          writei_loop ip (off + of_nat m) (drop m bs) s)))))"
  by pat_completeness auto
termination
  by (relation "measure (\<lambda>(ip, off, bs, s). length bs)") (auto simp: chunk_pos)

declare writei_loop.simps [simp del]

definition writei :: "nat \<Rightarrow> u8 list \<Rightarrow> u32 \<Rightarrow> 'x kcons_scheme \<Rightarrow> (int, 'x kcons_scheme) outcome" where
  "writei ip bs off s =
     (let n = of_nat (length bs) in
      if i_type (icache s ip) = T_DEV then
        (let major = sint (i_major (icache s ip)) in
         if major < 0 \<or> major \<ge> NDEV then Ret (- 1) s
         else case devsw_write s (nat major) of
           None \<Rightarrow> Ret (- 1) s
         | Some Consolewrite \<Rightarrow> consolewrite ip bs s)
      else if off > i_size (icache s ip) \<or> off + n < off then Ret (- 1) s
      else if off + n > of_nat (MAXFILE * BSIZE) then Ret (- 1) s
      else
        andthen (writei_loop ip off bs s) (\<lambda>off s.
        if n > 0 \<and> off > i_size (icache s ip) then
          andthen (iupdate ip (upd_inode ip (\<lambda>i. i\<lparr>i_size := off\<rparr>) s)) (\<lambda>_ s. Ret (sint n) s)
        else Ret (sint n) s))"

subsection \<open>Directories\<close>

definition char_at :: "u8 list \<Rightarrow> u8" where
  "char_at cs = (case cs of [] \<Rightarrow> 0 | c # _ \<Rightarrow> c)"

fun namecmp_loop :: "nat \<Rightarrow> u8 list \<Rightarrow> u8 list \<Rightarrow> int" where
  "namecmp_loop 0 p q = 0"
| "namecmp_loop (Suc n) p q =
     (if char_at p \<noteq> 0 \<and> char_at p = char_at q then namecmp_loop n (tl p) (tl q)
      else uint (char_at p) - uint (char_at q))"

definition namecmp :: "u8 list \<Rightarrow> u8 list \<Rightarrow> int" where
  "namecmp p q = namecmp_loop DIRSIZ p q"

text \<open>\<open>struct dirent\<close>: the inode number in two bytes, then the name in \<open>DIRSIZ\<close> bytes.\<close>

definition de_inum :: "u8 list \<Rightarrow> u16" where
  "de_inum bs = ucast (bs ! 0) OR push_bit 8 (ucast (bs ! 1))"

definition de_name :: "u8 list \<Rightarrow> u8 list" where
  "de_name bs = drop 2 bs"

definition mk_dirent :: "u16 \<Rightarrow> u8 list \<Rightarrow> u8 list" where
  "mk_dirent inum name = [ucast inum, ucast (drop_bit 8 inum)] @ take DIRSIZ (name @ replicate DIRSIZ 0)"

text \<open>
  The scan of a directory: \<open>n\<close> is the number of entries left, \<open>(size - off) / 16\<close> rounded up.
\<close>

definition dirents_left :: "u32 \<Rightarrow> u32 \<Rightarrow> nat" where
  "dirents_left off sz = (unat sz - unat off + 15) div 16"

fun dirlookup_loop :: "nat \<Rightarrow> nat \<Rightarrow> u8 list \<Rightarrow> u32 \<Rightarrow> 'x kcons_scheme \<Rightarrow> ((nat \<times> u32) option, 'x kcons_scheme) outcome" where
  "dirlookup_loop 0 dp name off s = Ret None s"
| "dirlookup_loop (Suc n) dp name off s =
     andthen (readi dp off DIRENT s) (\<lambda>(r, de) s.
       if r \<noteq> 16 then Panic ''dirlink read''
       else if de_inum de = 0 then dirlookup_loop n dp name (off + DIRENT) s
       else if namecmp name (de_name de) = 0 then
         andthen (iget (i_dev (icache s dp)) (ucast (de_inum de)) s) (\<lambda>ip s. Ret (Some (ip, off)) s)
       else dirlookup_loop n dp name (off + DIRENT) s)"

definition dirlookup :: "nat \<Rightarrow> u8 list \<Rightarrow> 'x kcons_scheme \<Rightarrow> ((nat \<times> u32) option, 'x kcons_scheme) outcome" where
  "dirlookup dp name s =
     (if i_type (icache s dp) \<noteq> T_DIR then Panic ''dirlookup not DIR''
      else dirlookup_loop (dirents_left 0 (i_size (icache s dp))) dp name 0 s)"

text \<open>The first empty entry, or the end of the directory.\<close>

fun dirlink_scan :: "nat \<Rightarrow> nat \<Rightarrow> u32 \<Rightarrow> 'x kcons_scheme \<Rightarrow> (u32, 'x kcons_scheme) outcome" where
  "dirlink_scan 0 dp off s = Ret off s"
| "dirlink_scan (Suc n) dp off s =
     andthen (readi dp off DIRENT s) (\<lambda>(r, de) s.
       if r \<noteq> 16 then Panic ''dirlink read''
       else if de_inum de = 0 then Ret off s
       else dirlink_scan n dp (off + DIRENT) s)"

definition dirlink :: "nat \<Rightarrow> u8 list \<Rightarrow> u32 \<Rightarrow> 'x kcons_scheme \<Rightarrow> (int, 'x kcons_scheme) outcome" where
  "dirlink dp name inum s =
     andthen (dirlookup dp name s) (\<lambda>found s.
       case found of
         Some (ip, _) \<Rightarrow> andthen (iput (Some ip) s) (\<lambda>_ s. Ret (- 1) s)
       | None \<Rightarrow>
         andthen (dirlink_scan (dirents_left 0 (i_size (icache s dp))) dp 0 s) (\<lambda>off s.
         andthen (writei dp (mk_dirent (ucast inum) name) off s) (\<lambda>r s.
           if r \<noteq> 16 then Panic ''dirlink'' else Ret 0 s)))"

subsection \<open>Paths\<close>

definition slash :: u8 where
  "slash = 47"

definition skipelem :: "u8 list \<Rightarrow> (u8 list \<times> u8 list) option" where
  "skipelem pathn =
     (let pathn = dropWhile (\<lambda>c. c = slash) pathn in
      if pathn = [] then None
      else
        let elem = takeWhile (\<lambda>c. c \<noteq> slash) pathn;
            pathn = dropWhile (\<lambda>c. c \<noteq> slash) pathn in
        Some (take DIRSIZ elem, dropWhile (\<lambda>c. c = slash) pathn))"

lemma skipelem_shorter:
  assumes "skipelem pathn = Some (name, rest)"
  shows "length rest < length pathn"
proof -
  let ?p = "dropWhile (\<lambda>c. c = slash) pathn"
  have p: "?p \<noteq> []" and r: "rest = dropWhile (\<lambda>c. c = slash) (dropWhile (\<lambda>c. c \<noteq> slash) ?p)"
    using assms by (auto simp: skipelem_def Let_def split: if_splits)
  obtain c cs where c: "?p = c # cs" using p by (cases ?p) simp_all
  have "c \<noteq> slash" using hd_dropWhile [OF p] c by simp
  then have "rest = dropWhile (\<lambda>c. c = slash) (dropWhile (\<lambda>c. c \<noteq> slash) cs)" using r c by simp
  then have "length rest \<le> length cs"
    using order_trans [OF length_dropWhile_le length_dropWhile_le] by blast
  also have "\<dots> < length ?p" using c by simp
  also have "\<dots> \<le> length pathn" by (rule length_dropWhile_le)
  finally show ?thesis .
qed

text \<open>The loop of \<open>namex\<close> with the current inode \<open>ip\<close>; the second result is \<open>name\<close>.\<close>

function namex_loop :: "nat \<Rightarrow> u8 list \<Rightarrow> bool \<Rightarrow> u8 list \<Rightarrow> 'x kcons_scheme \<Rightarrow> (nat option \<times> u8 list, 'x kcons_scheme) outcome" where
  "namex_loop ip pathn nameiparent name s =
     (case skipelem pathn of
        None \<Rightarrow>
          if nameiparent then andthen (iput (Some ip) s) (\<lambda>_ s. Ret (None, name) s)
          else Ret (Some ip, name) s
      | Some (name, rest) \<Rightarrow>
        andthen (ilock (Some ip) s) (\<lambda>_ s.
          if i_type (icache s ip) \<noteq> T_DIR then
            andthen (iunlockput (Some ip) s) (\<lambda>_ s. Ret (None, name) s)
          else if nameiparent \<and> rest = [] then
            andthen (iunlock (Some ip) s) (\<lambda>_ s. Ret (Some ip, name) s)
          else
            andthen (dirlookup ip name s) (\<lambda>next s.
              case next of
                None \<Rightarrow> andthen (iunlockput (Some ip) s) (\<lambda>_ s. Ret (None, name) s)
              | Some (nx, _) \<Rightarrow>
                andthen (iunlockput (Some ip) s) (\<lambda>_ s. namex_loop nx rest nameiparent name s))))"
  by pat_completeness auto
termination
proof (relation "measure (\<lambda>(ip, pathn, np, name, s). length pathn)", goal_cases)
  case (2 ip pathn np name s x name' rest)
  then have "skipelem pathn = Some (name', rest)" by simp
  then show ?case using skipelem_shorter by simp
qed simp

declare namex_loop.simps [simp del]

definition namex :: "u8 list \<Rightarrow> bool \<Rightarrow> 'x kcons_scheme \<Rightarrow> (nat option \<times> u8 list, 'x kcons_scheme) outcome" where
  "namex pathn nameiparent s =
     andthen (if char_at pathn = slash then andthen (iget ROOTDEV ROOTINO s) (\<lambda>ip s. Ret (Some ip) s)
              else idup (p_cwd (ptable s (the (cur s)))) s) (\<lambda>ip s.
       namex_loop (the ip) pathn nameiparent [] s)"

definition namei :: "u8 list \<Rightarrow> 'x kcons_scheme \<Rightarrow> (nat option, 'x kcons_scheme) outcome" where
  "namei pathn s = andthen (namex pathn False s) (\<lambda>(ip, _) s. Ret ip s)"

definition nameiparent :: "u8 list \<Rightarrow> 'x kcons_scheme \<Rightarrow> (nat option \<times> u8 list, 'x kcons_scheme) outcome" where
  "nameiparent pathn s = namex pathn True s"

end
