(* ===== verification/File.thy ===== *)
theory File
  imports Fs
begin

text \<open>
  \<open>src/xv6-public/file.c\<close> and \<open>src/xv6-public/pipe.c\<close>: the table of open files and pipes.

  A file pointer is an index into the table. A pipe lives in a page from \<open>kalloc\<close>; its fields are
  kept under the page's address. The bytes read are part of a call's result and the bytes to write an
  argument, as in \<open>readi\<close> and \<open>writei\<close>.
\<close>

abbreviation NFILE :: nat where "NFILE \<equiv> 100"
abbreviation PIPESIZE :: nat where "PIPESIZE \<equiv> 512"

datatype ftype = FD_NONE | FD_PIPE | FD_INODE

record file_struct =
  f_type :: ftype
  f_ref :: int
  f_readable :: bool
  f_writable :: bool
  f_pipe :: u32
  f_ip :: "nat option"
  f_off :: u32

record pipe =
  pi_data :: "nat \<Rightarrow> u8"
  pi_nread :: u32
  pi_nwrite :: u32
  pi_readopen :: bool
  pi_writeopen :: bool

record kfile = kcons +
  ftable :: "nat \<Rightarrow> file_struct"
  pipes :: "u32 \<Rightarrow> pipe"

definition upd_file :: "nat \<Rightarrow> (file_struct \<Rightarrow> file_struct) \<Rightarrow> 'x kfile_scheme \<Rightarrow> 'x kfile_scheme" where
  "upd_file f g s = s\<lparr>ftable := (ftable s)(f := g (ftable s f))\<rparr>"

definition upd_pipe :: "u32 \<Rightarrow> (pipe \<Rightarrow> pipe) \<Rightarrow> 'x kfile_scheme \<Rightarrow> 'x kfile_scheme" where
  "upd_pipe p g s = s\<lparr>pipes := (pipes s)(p := g (pipes s p))\<rparr>"

subsection \<open>Pipes\<close>

definition pipeclose :: "u32 \<Rightarrow> bool \<Rightarrow> 'x kfile_scheme \<Rightarrow> (unit, 'x kfile_scheme) outcome" where
  "pipeclose p writable s =
     andthen (acquire (PipeLock p) s) (\<lambda>_ s.
     andthen
       (if writable then wakeup (Some (PipeReadChan p)) (upd_pipe p (\<lambda>q. q\<lparr>pi_writeopen := False\<rparr>) s)
        else wakeup (Some (PipeWriteChan p)) (upd_pipe p (\<lambda>q. q\<lparr>pi_readopen := False\<rparr>) s)) (\<lambda>_ s.
     if \<not> pi_readopen (pipes s p) \<and> \<not> pi_writeopen (pipes s p) then
       andthen (release (PipeLock p) s) (\<lambda>_ s. kfree p s)
     else release (PipeLock p) s))"

definition pipe_full :: "pipe \<Rightarrow> bool" where
  "pipe_full q \<longleftrightarrow> pi_nwrite q = pi_nread q + of_nat PIPESIZE"

definition pipe_put :: "u8 \<Rightarrow> pipe \<Rightarrow> pipe" where
  "pipe_put b q =
     q\<lparr>pi_data := (pi_data q)(unat (pi_nwrite q) mod PIPESIZE := b), pi_nwrite := pi_nwrite q + 1\<rparr>"

definition pipe_get :: "pipe \<Rightarrow> u8" where
  "pipe_get q = pi_data q (unat (pi_nread q) mod PIPESIZE)"

text \<open>The writer puts its bytes one at a time; \<open>False\<close> when nobody will read them.\<close>

fun pipewrite_loop :: "u32 \<Rightarrow> u8 list \<Rightarrow> 'x kfile_scheme \<Rightarrow> (bool, 'x kfile_scheme) outcome" where
  "pipewrite_loop p [] s = Ret True s"
| "pipewrite_loop p (b # bs) s =
     (if pipe_full (pipes s p) then
        (if \<not> pi_readopen (pipes s p) \<or> p_killed (ptable s (the (cur s))) then Ret False s
         else andthen (wakeup (Some (PipeReadChan p)) s) (\<lambda>_ s.
              andthen (sleep (Some (PipeWriteChan p)) (Some (PipeLock p)) s) (\<lambda>_ s. Ret True s)))
      else pipewrite_loop p bs (upd_pipe p (pipe_put b) s))"

definition pipewrite :: "u32 \<Rightarrow> u8 list \<Rightarrow> 'x kfile_scheme \<Rightarrow> (int, 'x kfile_scheme) outcome" where
  "pipewrite p bs s =
     andthen (acquire (PipeLock p) s) (\<lambda>_ s.
     andthen (pipewrite_loop p bs s) (\<lambda>ok s.
     if \<not> ok then andthen (release (PipeLock p) s) (\<lambda>_ s. Ret (- 1) s)
     else
       andthen (wakeup (Some (PipeReadChan p)) s) (\<lambda>_ s.
       andthen (release (PipeLock p) s) (\<lambda>_ s. Ret (int (length bs)) s))))"

fun piperead_loop :: "u32 \<Rightarrow> nat \<Rightarrow> 'x kfile_scheme \<Rightarrow> u8 list \<times> 'x kfile_scheme" where
  "piperead_loop p 0 s = ([], s)"
| "piperead_loop p (Suc n) s =
     (if pi_nread (pipes s p) = pi_nwrite (pipes s p) then ([], s)
      else
        let b = pipe_get (pipes s p);
            (bs, s) = piperead_loop p n (upd_pipe p (\<lambda>q. q\<lparr>pi_nread := pi_nread q + 1\<rparr>) s) in
        (b # bs, s))"

definition piperead :: "u32 \<Rightarrow> int \<Rightarrow> 'x kfile_scheme \<Rightarrow> (int \<times> u8 list, 'x kfile_scheme) outcome" where
  "piperead p n s =
     andthen (acquire (PipeLock p) s) (\<lambda>_ s.
     if pi_nread (pipes s p) = pi_nwrite (pipes s p) \<and> pi_writeopen (pipes s p) then
       (if p_killed (ptable s (the (cur s))) then andthen (release (PipeLock p) s) (\<lambda>_ s. Ret (- 1, []) s)
        else andthen (sleep (Some (PipeReadChan p)) (Some (PipeLock p)) s) (\<lambda>_ s. Ret (0, []) s))
     else
       let (bs, s) = piperead_loop p (nat n) s in
       andthen (wakeup (Some (PipeWriteChan p)) s) (\<lambda>_ s.
       andthen (release (PipeLock p) s) (\<lambda>_ s. Ret (int (length bs), bs) s)))"

subsection \<open>The file table\<close>

definition filealloc :: "'x kfile_scheme \<Rightarrow> (nat option, 'x kfile_scheme) outcome" where
  "filealloc s =
     andthen (acquire FtableLock s) (\<lambda>_ s.
       case first_idx NFILE (\<lambda>f. f_ref (ftable s f) = 0) of
         Some f \<Rightarrow>
           andthen (release FtableLock (upd_file f (\<lambda>g. g\<lparr>f_ref := 1\<rparr>) s)) (\<lambda>_ s. Ret (Some f) s)
       | None \<Rightarrow> andthen (release FtableLock s) (\<lambda>_ s. Ret None s))"

definition filedup :: "nat \<Rightarrow> 'x kfile_scheme \<Rightarrow> (nat, 'x kfile_scheme) outcome" where
  "filedup f s =
     andthen (acquire FtableLock s) (\<lambda>_ s.
       if f_ref (ftable s f) < 1 then Panic ''filedup''
       else andthen (release FtableLock (upd_file f (\<lambda>g. g\<lparr>f_ref := f_ref g + 1\<rparr>) s)) (\<lambda>_ s. Ret f s))"

definition fileclose :: "nat \<Rightarrow> 'x kfile_scheme \<Rightarrow> (unit, 'x kfile_scheme) outcome" where
  "fileclose f s =
     andthen (acquire FtableLock s) (\<lambda>_ s.
       if f_ref (ftable s f) < 1 then Panic ''fileclose''
       else
         let s = upd_file f (\<lambda>g. g\<lparr>f_ref := f_ref g - 1\<rparr>) s in
         if f_ref (ftable s f) > 0 then release FtableLock s
         else
           let ff = ftable s f;
               s = upd_file f (\<lambda>g. g\<lparr>f_ref := 0, f_type := FD_NONE\<rparr>) s in
           andthen (release FtableLock s) (\<lambda>_ s.
           case f_type ff of
             FD_PIPE \<Rightarrow> pipeclose (f_pipe ff) (f_writable ff) s
           | FD_INODE \<Rightarrow>
             andthen (begin_op s) (\<lambda>_ s.
             andthen (iput (f_ip ff) s) (\<lambda>_ s. end_op s))
           | FD_NONE \<Rightarrow> Ret () s))"

text \<open>\<open>pipealloc\<close>: the two files, or \<open>None\<close> when a file or the page is missing.\<close>

definition pipealloc :: "'x kfile_scheme \<Rightarrow> ((nat \<times> nat) option, 'x kfile_scheme) outcome" where
  "pipealloc s =
     andthen (filealloc s) (\<lambda>f0 s.
     case f0 of None \<Rightarrow> Ret None s
     | Some f0 \<Rightarrow>
       andthen (filealloc s) (\<lambda>f1 s.
       case f1 of None \<Rightarrow> andthen (fileclose f0 s) (\<lambda>_ s. Ret None s)
       | Some f1 \<Rightarrow>
         andthen (kalloc s) (\<lambda>p s.
         if p = 0 then
           andthen (fileclose f0 s) (\<lambda>_ s. andthen (fileclose f1 s) (\<lambda>_ s. Ret None s))
         else
           let s = upd_pipe p (\<lambda>q. q\<lparr>pi_readopen := True, pi_writeopen := True, pi_nwrite := 0, pi_nread := 0\<rparr>) s;
               s = upd_file f0 (\<lambda>g. g\<lparr>f_type := FD_PIPE, f_readable := True, f_writable := False, f_pipe := p\<rparr>) s;
               s = upd_file f1 (\<lambda>g. g\<lparr>f_type := FD_PIPE, f_readable := False, f_writable := True, f_pipe := p\<rparr>) s in
           Ret (Some (f0, f1)) s)))"

definition filestat :: "nat \<Rightarrow> 'x kfile_scheme \<Rightarrow> (stat option, 'x kfile_scheme) outcome" where
  "filestat f s =
     (if f_type (ftable s f) = FD_INODE then
        andthen (ilock (f_ip (ftable s f)) s) (\<lambda>_ s.
        let st = stati (the (f_ip (ftable s f))) s in
        andthen (iunlock (f_ip (ftable s f)) s) (\<lambda>_ s. Ret (Some st) s))
      else Ret None s)"

definition fileread :: "nat \<Rightarrow> int \<Rightarrow> 'x kfile_scheme \<Rightarrow> (int \<times> u8 list, 'x kfile_scheme) outcome" where
  "fileread f n s =
     (if \<not> f_readable (ftable s f) then Ret (- 1, []) s
      else case f_type (ftable s f) of
        FD_PIPE \<Rightarrow> piperead (f_pipe (ftable s f)) n s
      | FD_INODE \<Rightarrow>
        andthen (ilock (f_ip (ftable s f)) s) (\<lambda>_ s.
        andthen (readi (the (f_ip (ftable s f))) (f_off (ftable s f)) (of_int n) s) (\<lambda>(r, bs) s.
        let s = (if r > 0 then upd_file f (\<lambda>g. g\<lparr>f_off := f_off g + of_int r\<rparr>) s else s) in
        andthen (iunlock (f_ip (ftable s f)) s) (\<lambda>_ s. Ret (r, bs) s)))
      | FD_NONE \<Rightarrow> Panic ''fileread'')"

text \<open>
  Writing a few blocks per transaction; \<open>max\<close> is \<open>((LOGSIZE - 1 - 1 - 2) / 2) * 512\<close>. The result says
  whether every byte was written.
\<close>

abbreviation filewrite_max :: nat where "filewrite_max \<equiv> 6656"

function filewrite_loop :: "nat \<Rightarrow> u8 list \<Rightarrow> 'x kfile_scheme \<Rightarrow> (bool, 'x kfile_scheme) outcome" where
  "filewrite_loop f bs s =
     (if bs = [] then Ret True s
      else
        let n1 = min (length bs) filewrite_max in
        andthen (begin_op s) (\<lambda>_ s.
        andthen (ilock (f_ip (ftable s f)) s) (\<lambda>_ s.
        andthen (writei (the (f_ip (ftable s f))) (take n1 bs) (f_off (ftable s f)) s) (\<lambda>r s.
        let s = (if r > 0 then upd_file f (\<lambda>g. g\<lparr>f_off := f_off g + of_int r\<rparr>) s else s) in
        andthen (iunlock (f_ip (ftable s f)) s) (\<lambda>_ s.
        andthen (end_op s) (\<lambda>_ s.
        if r < 0 then Ret False s
        else if r \<noteq> int n1 then Panic ''short filewrite''
        else filewrite_loop f (drop n1 bs) s))))))"
  by pat_completeness auto
termination
proof (relation "measure (\<lambda>(f, bs, s). length bs)", goal_cases)
  case (2 f bs s n1)
  then show ?case by (cases bs) auto
qed simp

declare filewrite_loop.simps [simp del]

definition filewrite :: "nat \<Rightarrow> u8 list \<Rightarrow> 'x kfile_scheme \<Rightarrow> (int, 'x kfile_scheme) outcome" where
  "filewrite f bs s =
     (if \<not> f_writable (ftable s f) then Ret (- 1) s
      else case f_type (ftable s f) of
        FD_PIPE \<Rightarrow> pipewrite (f_pipe (ftable s f)) bs s
      | FD_INODE \<Rightarrow> andthen (filewrite_loop f bs s) (\<lambda>ok s. Ret (if ok then int (length bs) else - 1) s)
      | FD_NONE \<Rightarrow> Panic ''filewrite'')"

end
