(* ===== verification/Vm.thy ===== *)
theory Vm
  imports Sched
begin

unbundle bit_operations_syntax

text \<open>
  \<open>src/xv6-public/vm.c\<close> and the page table macros of \<open>mmu.h\<close>: two-level page tables kept in
  physical pages, so that every operation reads and writes table entries in the kernel's memory.

  A page table is named by the kernel address of its directory page; 0 is the null pointer that
  \<open>kalloc\<close> and \<open>setupkvm\<close> return on failure. A loop \<open>for(; a < end; a += PGSIZE)\<close> that cannot
  wrap around is a recursion on the number of pages left, \<open>pages_left a end\<close>.
\<close>

subsection \<open>Addresses and entries\<close>

abbreviation PTE_P :: u32 where "PTE_P \<equiv> 1"
abbreviation PTE_W :: u32 where "PTE_W \<equiv> 2"
abbreviation PTE_U :: u32 where "PTE_U \<equiv> 4"

definition PDX :: "u32 \<Rightarrow> u32" where
  "PDX va = (drop_bit 22 va) AND 0x3FF"

definition PTX :: "u32 \<Rightarrow> u32" where
  "PTX va = (drop_bit 12 va) AND 0x3FF"

definition PGADDR :: "u32 \<Rightarrow> u32 \<Rightarrow> u32 \<Rightarrow> u32" where
  "PGADDR d t k = push_bit 22 d OR push_bit 12 t OR k"

definition PTE_ADDR :: "u32 \<Rightarrow> u32" where
  "PTE_ADDR pte = pte AND NOT 0xFFF"

definition PTE_FLAGS :: "u32 \<Rightarrow> u32" where
  "PTE_FLAGS pte = pte AND 0xFFF"

definition has_flag :: "u32 \<Rightarrow> u32 \<Rightarrow> bool" where
  "has_flag pte f \<longleftrightarrow> pte AND f \<noteq> 0"

definition pages_left :: "u32 \<Rightarrow> u32 \<Rightarrow> nat" where
  "pages_left a e = (unat e - unat a + 4095) div 4096"

subsection \<open>Walking and mapping\<close>

text \<open>The address of the entry for \<open>va\<close>, or 0.\<close>

definition walkpgdir :: "u32 \<Rightarrow> u32 \<Rightarrow> bool \<Rightarrow> 'x kmem_scheme \<Rightarrow> (u32, 'x kmem_scheme) outcome" where
  "walkpgdir pgdir va alloc s =
     (let pde = pgdir + 4 * PDX va in
      if has_flag (load32 (mem s) pde) PTE_P then
        Ret (P2V (PTE_ADDR (load32 (mem s) pde)) + 4 * PTX va) s
      else if \<not> alloc then Ret 0 s
      else andthen (kalloc s) (\<lambda>pgtab s.
        if pgtab = 0 then Ret 0 s
        else
          let s = s\<lparr>mem := memset (mem s) pgtab 0 PGSIZE\<rparr>;
              s = s\<lparr>mem := store32 (mem s) pde (V2P pgtab OR PTE_P OR PTE_W OR PTE_U)\<rparr> in
          Ret (pgtab + 4 * PTX va) s))"

text \<open>\<open>n\<close> is the number of pages after the one at \<open>a\<close>: \<open>a\<close> is the last one when it is 0.\<close>

fun mappages_loop :: "nat \<Rightarrow> u32 \<Rightarrow> u32 \<Rightarrow> u32 \<Rightarrow> u32 \<Rightarrow> 'x kmem_scheme \<Rightarrow> (int, 'x kmem_scheme) outcome" where
  "mappages_loop n pgdir a pa perm s =
     andthen (walkpgdir pgdir a True s) (\<lambda>pte s.
       if pte = 0 then Ret (- 1) s
       else if has_flag (load32 (mem s) pte) PTE_P then Panic ''remap''
       else
         let s = s\<lparr>mem := store32 (mem s) pte (pa OR perm OR PTE_P)\<rparr> in
         case n of 0 \<Rightarrow> Ret 0 s
         | Suc n \<Rightarrow> mappages_loop n pgdir (a + PGSIZE) (pa + PGSIZE) perm s)"

declare mappages_loop.simps [simp del]

definition mappages :: "u32 \<Rightarrow> u32 \<Rightarrow> u32 \<Rightarrow> u32 \<Rightarrow> u32 \<Rightarrow> 'x kmem_scheme \<Rightarrow> (int, 'x kmem_scheme) outcome" where
  "mappages pgdir va sz pa perm s =
     (let a = PGROUNDDOWN va;
          last = PGROUNDDOWN (va + sz - 1) in
      mappages_loop (unat (last - a) div 4096) pgdir a pa perm s)"

subsection \<open>The kernel part of an address space\<close>

abbreviation KERNLINK :: u32 where "KERNLINK \<equiv> KERNBASE + EXTMEM"

definition kmap :: "u32 \<Rightarrow> (u32 \<times> u32 \<times> u32 \<times> u32) list" where
  "kmap data =
     [(KERNBASE, 0, EXTMEM, PTE_W),
      (KERNLINK, V2P KERNLINK, V2P data, 0),
      (data, V2P data, PHYSTOP, PTE_W),
      (DEVSPACE, DEVSPACE, 0, PTE_W)]"

fun setupkvm_loop :: "u32 \<Rightarrow> (u32 \<times> u32 \<times> u32 \<times> u32) list \<Rightarrow> 'x kmem_scheme \<Rightarrow> (u32, 'x kmem_scheme) outcome" where
  "setupkvm_loop pgdir [] s = Ret pgdir s"
| "setupkvm_loop pgdir ((virt, phys_start, phys_end, perm) # ks) s =
     andthen (mappages pgdir virt (phys_end - phys_start) phys_start perm s) (\<lambda>r s.
       if r < 0 then Ret 0 s else setupkvm_loop pgdir ks s)"

definition setupkvm :: "'x kmem_scheme \<Rightarrow> (u32, 'x kmem_scheme) outcome" where
  "setupkvm s =
     andthen (kalloc s) (\<lambda>pgdir s.
       if pgdir = 0 then Ret 0 s
       else
         let s = s\<lparr>mem := memset (mem s) pgdir 0 PGSIZE\<rparr> in
         if P2V PHYSTOP > DEVSPACE then Panic ''PHYSTOP too high''
         else setupkvm_loop pgdir (kmap (kern_data s)) s)"

definition kvmalloc :: "'x kproc_scheme \<Rightarrow> (unit, 'x kproc_scheme) outcome" where
  "kvmalloc s = andthen (setupkvm s) (\<lambda>d s. Ret () (switchkvm (s\<lparr>kpgdir := d\<rparr>)))"

subsection \<open>User memory\<close>

text \<open>\<open>inituvm\<close> copies the \<open>sz\<close> bytes of the first program from the kernel address \<open>init\<close>.\<close>

definition inituvm :: "u32 \<Rightarrow> u32 \<Rightarrow> u32 \<Rightarrow> 'x kmem_scheme \<Rightarrow> (unit, 'x kmem_scheme) outcome" where
  "inituvm pgdir init sz s =
     (if sz \<ge> PGSIZE then Panic ''inituvm: more than a page''
      else andthen (kalloc s) (\<lambda>m s.
        let s = s\<lparr>mem := memset (mem s) m 0 PGSIZE\<rparr> in
        andthen (mappages pgdir 0 PGSIZE (V2P m) (PTE_W OR PTE_U) s) (\<lambda>_ s.
          Ret () (s\<lparr>mem := memmove (mem s) m init sz\<rparr>))))"

text \<open>
  \<open>deallocuvm\<close> skips to the next table where a table is missing. Callers pass \<open>oldsz \<le> KERNBASE\<close>,
  so that \<open>a + PGSIZE\<close> does not wrap around; the recursion stops where it would.
\<close>

definition dealloc_next :: "u32 \<Rightarrow> u32 \<Rightarrow> u32" where
  "dealloc_next pte a = (if pte = 0 then PGADDR (PDX a + 1) 0 0 - PGSIZE else a)"

definition dealloc_page :: "u32 \<Rightarrow> 'x kmem_scheme \<Rightarrow> (unit, 'x kmem_scheme) outcome" where
  "dealloc_page pte s =
     (if pte \<noteq> 0 \<and> has_flag (load32 (mem s) pte) PTE_P then
        let pa = PTE_ADDR (load32 (mem s) pte) in
        if pa = 0 then Panic ''kfree''
        else andthen (kfree (P2V pa) s) (\<lambda>_ s. Ret () (s\<lparr>mem := store32 (mem s) pte 0\<rparr>))
      else Ret () s)"

function deallocuvm_loop :: "u32 \<Rightarrow> u32 \<Rightarrow> u32 \<Rightarrow> 'x kmem_scheme \<Rightarrow> (unit, 'x kmem_scheme) outcome" where
  "deallocuvm_loop pgdir a oldsz s =
     (if a < oldsz then
        (case walkpgdir pgdir a False s of
           Ret pte s \<Rightarrow>
             (case dealloc_page pte s of
                Ret _ s \<Rightarrow>
                  (let a' = dealloc_next pte a + PGSIZE in
                   if a' \<le> a then Ret () s else deallocuvm_loop pgdir a' oldsz s)
              | Swtch s \<Rightarrow> Swtch s
              | Panic e \<Rightarrow> Panic e)
         | Swtch s \<Rightarrow> Swtch s
         | Panic e \<Rightarrow> Panic e)
      else Ret () s)"
  by pat_completeness auto
termination
proof (relation "measure (\<lambda>(pgdir, a, oldsz, s). 2 ^ 32 - unat a)")
  fix pgdir a oldsz b :: u32 and s s' s'' :: "'x kmem_scheme"
  assume "\<not> b \<le> a"
  then have "unat a < unat b" by (simp add: not_le word_less_nat_alt)
  then show "((pgdir, b, oldsz, s''), pgdir, a, oldsz, s) \<in> measure (\<lambda>(pgdir, a, oldsz, s). 2 ^ 32 - unat a)"
    using unsigned_less [where 'a = nat, of b] by simp
qed simp

declare deallocuvm_loop.simps [simp del]

definition deallocuvm :: "u32 \<Rightarrow> u32 \<Rightarrow> u32 \<Rightarrow> 'x kmem_scheme \<Rightarrow> (u32, 'x kmem_scheme) outcome" where
  "deallocuvm pgdir oldsz newsz s =
     (if newsz \<ge> oldsz then Ret oldsz s
      else andthen (deallocuvm_loop pgdir (PGROUNDUP newsz) oldsz s) (\<lambda>_ s. Ret newsz s))"

fun allocuvm_loop :: "nat \<Rightarrow> u32 \<Rightarrow> u32 \<Rightarrow> u32 \<Rightarrow> u32 \<Rightarrow> 'x kmem_scheme \<Rightarrow> (u32, 'x kmem_scheme) outcome" where
  "allocuvm_loop 0 pgdir a oldsz newsz s = Ret newsz s"
| "allocuvm_loop (Suc n) pgdir a oldsz newsz s =
     andthen (kalloc s) (\<lambda>m s.
       if m = 0 then andthen (deallocuvm pgdir newsz oldsz s) (\<lambda>_ s. Ret 0 s)
       else
         let s = s\<lparr>mem := memset (mem s) m 0 PGSIZE\<rparr> in
         andthen (mappages pgdir a PGSIZE (V2P m) (PTE_W OR PTE_U) s) (\<lambda>r s.
           if r < 0 then
             andthen (deallocuvm pgdir newsz oldsz s) (\<lambda>_ s.
             andthen (kfree m s) (\<lambda>_ s. Ret 0 s))
           else allocuvm_loop n pgdir (a + PGSIZE) oldsz newsz s))"

definition allocuvm :: "u32 \<Rightarrow> u32 \<Rightarrow> u32 \<Rightarrow> 'x kmem_scheme \<Rightarrow> (u32, 'x kmem_scheme) outcome" where
  "allocuvm pgdir oldsz newsz s =
     (if newsz \<ge> KERNBASE then Ret 0 s
      else if newsz < oldsz then Ret oldsz s
      else
        let a = PGROUNDUP oldsz in
        allocuvm_loop (pages_left a newsz) pgdir a oldsz newsz s)"

fun freevm_loop :: "u32 \<Rightarrow> nat list \<Rightarrow> 'x kmem_scheme \<Rightarrow> (unit, 'x kmem_scheme) outcome" where
  "freevm_loop pgdir [] s = Ret () s"
| "freevm_loop pgdir (i # is) s =
     (let pde = load32 (mem s) (pgdir + 4 * of_nat i) in
      if has_flag pde PTE_P then
        andthen (kfree (P2V (PTE_ADDR pde)) s) (\<lambda>_ s. freevm_loop pgdir is s)
      else freevm_loop pgdir is s)"

definition freevm :: "u32 \<Rightarrow> 'x kmem_scheme \<Rightarrow> (unit, 'x kmem_scheme) outcome" where
  "freevm pgdir s =
     (if pgdir = 0 then Panic ''freevm: no pgdir''
      else andthen (deallocuvm pgdir KERNBASE 0 s) (\<lambda>_ s.
        andthen (freevm_loop pgdir [0..<1024] s) (\<lambda>_ s. kfree pgdir s)))"

definition clearpteu :: "u32 \<Rightarrow> u32 \<Rightarrow> 'x kmem_scheme \<Rightarrow> (unit, 'x kmem_scheme) outcome" where
  "clearpteu pgdir uva s =
     andthen (walkpgdir pgdir uva False s) (\<lambda>pte s.
       if pte = 0 then Panic ''clearpteu''
       else Ret () (s\<lparr>mem := store32 (mem s) pte (load32 (mem s) pte AND NOT PTE_U)\<rparr>))"

text \<open>
  The two loops of \<open>copyuvm\<close> have the same body. \<open>False\<close> is the jump to \<open>bad\<close>.
\<close>

fun copyuvm_loop :: "nat \<Rightarrow> u32 \<Rightarrow> u32 \<Rightarrow> u32 \<Rightarrow> 'x kmem_scheme \<Rightarrow> (bool, 'x kmem_scheme) outcome" where
  "copyuvm_loop 0 d pgdir i s = Ret True s"
| "copyuvm_loop (Suc n) d pgdir i s =
     andthen (walkpgdir pgdir i False s) (\<lambda>pte s.
       if pte = 0 then Panic ''copyuvm: pte should exist''
       else if \<not> has_flag (load32 (mem s) pte) PTE_P then Panic ''copyuvm: page not present''
       else
         let pa = PTE_ADDR (load32 (mem s) pte);
             flags = PTE_FLAGS (load32 (mem s) pte) in
         andthen (kalloc s) (\<lambda>m s.
         if m = 0 then Ret False s
         else
           let s = s\<lparr>mem := memmove (mem s) m (P2V pa) PGSIZE\<rparr> in
           andthen (mappages d i PGSIZE (V2P m) flags s) (\<lambda>r s.
           if r < 0 then Ret False s else copyuvm_loop n d pgdir (i + PGSIZE) s)))"

definition copyuvm :: "u32 \<Rightarrow> u32 \<Rightarrow> u32 \<Rightarrow> 'x kmem_scheme \<Rightarrow> (u32, 'x kmem_scheme) outcome" where
  "copyuvm pgdir sz endofstack s =
     andthen (setupkvm s) (\<lambda>d s.
       if d = 0 then Ret 0 s
       else andthen (copyuvm_loop (pages_left 0 sz) d pgdir 0 s) (\<lambda>ok s.
         if \<not> ok then andthen (freevm d s) (\<lambda>_ s. Ret 0 s)
         else andthen (copyuvm_loop (pages_left endofstack (KERNBASE - PGSIZE)) d pgdir endofstack s) (\<lambda>ok s.
           if \<not> ok then andthen (freevm d s) (\<lambda>_ s. Ret 0 s)
           else Ret d s)))"

text \<open>
  What the processor does with a user address in the kernel: translation by the current page table,
  and a trap in the kernel, which panics, when the page is not present.
\<close>

definition hw_translate :: "memory \<Rightarrow> u32 \<Rightarrow> u32 \<Rightarrow> u32 option" where
  "hw_translate m pgdir va =
     (let pde = load32 m (pgdir + 4 * PDX va);
          pte = load32 m (P2V (PTE_ADDR pde) + 4 * PTX va) in
      if has_flag pde PTE_P \<and> has_flag pte PTE_P then Some (P2V (PTE_ADDR pte) + va mod PGSIZE) else None)"

definition uload8 :: "u32 \<Rightarrow> 'x kproc_scheme \<Rightarrow> (u8, 'x kproc_scheme) outcome" where
  "uload8 va s =
     (case hw_translate (mem s) (P2V (cr3 s)) va of
        None \<Rightarrow> Panic ''trap''
      | Some a \<Rightarrow> Ret (mem s a) s)"

definition ustore8 :: "u32 \<Rightarrow> u8 \<Rightarrow> 'x kproc_scheme \<Rightarrow> (unit, 'x kproc_scheme) outcome" where
  "ustore8 va b s =
     (case hw_translate (mem s) (P2V (cr3 s)) va of
        None \<Rightarrow> Panic ''trap''
      | Some a \<Rightarrow> Ret () (s\<lparr>mem := (mem s)(a := b)\<rparr>))"

definition uload32 :: "u32 \<Rightarrow> 'x kproc_scheme \<Rightarrow> (u32, 'x kproc_scheme) outcome" where
  "uload32 va s =
     andthen (uload8 va s) (\<lambda>b0 s. andthen (uload8 (va + 1) s) (\<lambda>b1 s.
     andthen (uload8 (va + 2) s) (\<lambda>b2 s. andthen (uload8 (va + 3) s) (\<lambda>b3 s.
       Ret (ucast b0 OR push_bit 8 (ucast b1) OR push_bit 16 (ucast b2) OR push_bit 24 (ucast b3)) s))))"

fun ustore_bytes :: "u32 \<Rightarrow> u8 list \<Rightarrow> 'x kproc_scheme \<Rightarrow> (unit, 'x kproc_scheme) outcome" where
  "ustore_bytes va [] s = Ret () s"
| "ustore_bytes va (b # bs) s = andthen (ustore8 va b s) (\<lambda>_ s. ustore_bytes (va + 1) bs s)"

fun uload_bytes :: "u32 \<Rightarrow> nat \<Rightarrow> 'x kproc_scheme \<Rightarrow> (u8 list, 'x kproc_scheme) outcome" where
  "uload_bytes va 0 s = Ret [] s"
| "uload_bytes va (Suc n) s =
     andthen (uload8 va s) (\<lambda>b s. andthen (uload_bytes (va + 1) n s) (\<lambda>bs s. Ret (b # bs) s))"

text \<open>
  \<open>uva2ka\<close> does not test for a missing table: \<open>*pte\<close> then reads address 0 of the current process.
\<close>

definition uva2ka :: "u32 \<Rightarrow> u32 \<Rightarrow> 'x kproc_scheme \<Rightarrow> (u32, 'x kproc_scheme) outcome" where
  "uva2ka pgdir uva s =
     andthen (walkpgdir pgdir uva False s) (\<lambda>pte s.
     andthen (if pte = 0 then uload32 0 s else Ret (load32 (mem s) pte) s) (\<lambda>e s.
       if \<not> has_flag e PTE_P then Ret 0 s
       else if \<not> has_flag e PTE_U then Ret 0 s
       else Ret (P2V (PTE_ADDR e)) s))"

text \<open>Storing bytes that do not come from the kernel's memory (a local array, file contents).\<close>

fun store_bytes :: "memory \<Rightarrow> u32 \<Rightarrow> u8 list \<Rightarrow> memory" where
  "store_bytes m a [] = m"
| "store_bytes m a (b # bs) = store_bytes (m(a := b)) (a + 1) bs"

function copyout :: "u32 \<Rightarrow> u32 \<Rightarrow> u8 list \<Rightarrow> 'x kproc_scheme \<Rightarrow> (int, 'x kproc_scheme) outcome" where
  "copyout pgdir va bs s =
     (if bs = [] then Ret 0 s
      else
        let va0 = PGROUNDDOWN va in
        (case uva2ka pgdir va0 s of
           Ret pa0 s \<Rightarrow>
             if pa0 = 0 then Ret (- 1) s
             else
               let n = min (4096 - unat (va - va0)) (length bs);
                   s = s\<lparr>mem := store_bytes (mem s) (pa0 + (va - va0)) (take n bs)\<rparr> in
               copyout pgdir (va0 + PGSIZE) (drop n bs) s
         | Swtch s \<Rightarrow> Swtch s
         | Panic e \<Rightarrow> Panic e))"
  by pat_completeness auto
termination
proof (relation "measure (\<lambda>(pgdir, va, bs, s). length bs)")
qed (auto simp: PGROUNDDOWN_eq unat_mod)

declare copyout.simps [simp del]

end
