(* ===== verification/Proc.thy ===== *)
theory Proc
  imports File Vm
begin

unbundle bit_operations_syntax

text \<open>
  The life of processes and threads in \<open>src/xv6-public/proc.c\<close>: the first process, growing and
  copying address spaces, \<open>fork\<close>, \<open>exit\<close>, \<open>wait\<close>, and the threads (\<open>thread_create\<close>, \<open>thread_exit\<close>,
  \<open>thread_join\<close>) that share an address space, found by their equal page table.

  A call that sleeps or exits ends in \<open>Swtch\<close>; \<open>wait\<close> and \<open>thread_join\<close> scan the table again when
  they are woken, so each definition is one pass of the scan.
\<close>

record kernel = kfile +
  forkret_first :: bool
  ticks :: u32

abbreviation myproc :: "'x kproc_scheme \<Rightarrow> nat" where
  "myproc s \<equiv> the (cur s)"

abbreviation pr :: "'x kproc_scheme \<Rightarrow> nat \<Rightarrow> proc" where
  "pr s p \<equiv> ptable s p"

definition word_bytes :: "u32 \<Rightarrow> u8 list" where
  "word_bytes w = [ucast w, ucast (drop_bit 8 w), ucast (drop_bit 16 w), ucast (drop_bit 24 w)]"

text \<open>\<open>safestrcpy\<close> into \<open>char name[16]\<close>.\<close>

definition safe_name :: "u8 list \<Rightarrow> u8 list" where
  "safe_name cs = take 15 cs"

subsection \<open>The first process\<close>

definition zero_tf :: trapframe where
  "zero_tf = \<lparr>tf_edi = 0, tf_esi = 0, tf_ebp = 0, tf_ebx = 0, tf_edx = 0, tf_ecx = 0, tf_eax = 0,
     tf_gs = 0, tf_fs = 0, tf_es = 0, tf_ds = 0, tf_trapno = 0, tf_err = 0, tf_eip = 0, tf_cs = 0,
     tf_eflags = 0, tf_esp = 0, tf_ss = 0\<rparr>"

abbreviation UCODE_SEL :: u16 where "UCODE_SEL \<equiv> 0x1B"
abbreviation UDATA_SEL :: u16 where "UDATA_SEL \<equiv> 0x23"
abbreviation FL_IF :: u32 where "FL_IF \<equiv> 0x200"

text \<open>\<open>init\<close> and \<open>sz\<close> are the linker's symbols for the image of \<open>initcode.S\<close>.\<close>

definition userinit :: "u32 \<Rightarrow> u32 \<Rightarrow> 'x kfile_scheme \<Rightarrow> (unit, 'x kfile_scheme) outcome" where
  "userinit init sz s =
     andthen (allocproc s) (\<lambda>p s.
     case p of None \<Rightarrow> Panic ''trap''
     | Some p \<Rightarrow>
       let s = s\<lparr>initproc := Some p\<rparr> in
       andthen (setupkvm s) (\<lambda>d s.
       let s = upd_proc p (\<lambda>q. q\<lparr>p_pgdir := d\<rparr>) s in
       if d = 0 then Panic ''userinit: out of memory?''
       else
         andthen (inituvm d init sz s) (\<lambda>_ s.
         let s = upd_proc p (\<lambda>q. q\<lparr>p_sz := PGSIZE, p_topofheap := PGSIZE, p_baseofstack := KERNBASE - PGSIZE,
                   p_tf := zero_tf\<lparr>tf_cs := UCODE_SEL, tf_ds := UDATA_SEL, tf_es := UDATA_SEL, tf_ss := UDATA_SEL,
                     tf_eflags := FL_IF, tf_esp := PGSIZE, tf_eip := 0\<rparr>,
                   p_name := safe_name [105, 110, 105, 116, 99, 111, 100, 101]\<rparr>) s in
         andthen (namei [slash] s) (\<lambda>ip s.
         let s = upd_proc p (\<lambda>q. q\<lparr>p_cwd := ip\<rparr>) s in
         andthen (acquire PtableLock s) (\<lambda>_ s.
         release PtableLock (upd_proc p (\<lambda>q. q\<lparr>p_state := RUNNABLE\<rparr>) s))))))"

subsection \<open>Growing the address space\<close>

text \<open>The main thread of the current thread's process.\<close>

definition main_of :: "'x kproc_scheme \<Rightarrow> nat" where
  "main_of s = (case p_threadof (pr s (myproc s)) of None \<Rightarrow> myproc s | Some m \<Rightarrow> m)"

definition growproc :: "int \<Rightarrow> 'x kproc_scheme \<Rightarrow> (int, 'x kproc_scheme) outcome" where
  "growproc n s =
     (let sz = p_topofheap (pr s (main_of s)) in
      andthen
        (if n > 0 then allocuvm (p_pgdir (pr s (myproc s))) sz (sz + of_int n) s
         else if n < 0 then deallocuvm (p_pgdir (pr s (myproc s))) sz (sz + of_int n) s
         else Ret sz s) (\<lambda>sz s.
      if n \<noteq> 0 \<and> sz = 0 then Ret (- 1) s
      else
        let th = p_threadof (pr s (myproc s));
            s = (if th \<noteq> None then upd_proc (the th) (\<lambda>q. q\<lparr>p_topofheap := sz\<rparr>) s else s);
            s = (if n > 0 \<or> th = None then upd_proc (myproc s) (\<lambda>q. q\<lparr>p_topofheap := sz\<rparr>) s else s) in
        andthen (switchuvm (cur s) s) (\<lambda>_ s. Ret 0 s)))"

text \<open>\<open>growstack\<close> returns the old base, or -1 as an unsigned number.\<close>

definition growstack :: "bool \<Rightarrow> 'x kproc_scheme \<Rightarrow> (u32, 'x kproc_scheme) outcome" where
  "growstack isgrow s =
     (let m = main_of s;
          pgdir = p_pgdir (pr s (myproc s));
          baseofstack = p_baseofstack (pr s m);
          topofheap = p_topofheap (pr s m) in
      if isgrow \<and> baseofstack - 2 * PGSIZE < topofheap then Ret (- 1) s
      else
        let new_baseofstack = (if isgrow then baseofstack - 2 * PGSIZE else baseofstack + 2 * PGSIZE) in
        andthen
          (if isgrow then
             andthen (allocuvm pgdir (baseofstack - 2 * PGSIZE) baseofstack s) (\<lambda>r s.
               if r = 0 then Ret False s
               else andthen (clearpteu pgdir new_baseofstack s) (\<lambda>_ s. Ret True s))
           else
             andthen (deallocuvm pgdir new_baseofstack baseofstack s) (\<lambda>r s. Ret (r \<noteq> 0) s)) (\<lambda>ok s.
        if \<not> ok then Ret (- 1) s
        else
          let s = upd_proc m (\<lambda>q. q\<lparr>p_baseofstack := new_baseofstack\<rparr>) s in
          andthen (switchuvm (cur s) s) (\<lambda>_ s. Ret baseofstack s)))"

subsection \<open>fork\<close>

text \<open>The child's references to the open files and the current directory.\<close>

definition dup_file :: "nat \<Rightarrow> nat \<Rightarrow> 'x kfile_scheme \<Rightarrow> (unit, 'x kfile_scheme) outcome" where
  "dup_file np i s =
     (case p_ofile (pr s (myproc s)) i of
        None \<Rightarrow> Ret () s
      | Some f \<Rightarrow> andthen (filedup f s) (\<lambda>f s.
          Ret () (upd_proc np (\<lambda>q. q\<lparr>p_ofile := (p_ofile q)(i := Some f)\<rparr>) s)))"

definition dup_files :: "nat \<Rightarrow> 'x kfile_scheme \<Rightarrow> (unit, 'x kfile_scheme) outcome" where
  "dup_files np s =
     andthen (each (dup_file np) [0..<NOFILE] s) (\<lambda>_ s.
     andthen (idup (p_cwd (pr s (myproc s))) s) (\<lambda>ip s.
       Ret () (upd_proc np (\<lambda>q. q\<lparr>p_cwd := ip\<rparr>) s)))"

definition fork :: "'x kfile_scheme \<Rightarrow> (int, 'x kfile_scheme) outcome" where
  "fork s =
     andthen (allocproc s) (\<lambda>np s.
     case np of None \<Rightarrow> Ret (- 1) s
     | Some np \<Rightarrow>
       andthen (copyuvm (p_pgdir (pr s (myproc s))) (p_topofheap (pr s (myproc s))) (p_baseofstack (pr s (myproc s))) s) (\<lambda>d s.
       let s = upd_proc np (\<lambda>q. q\<lparr>p_pgdir := d\<rparr>) s in
       if d = 0 then
         andthen (kfree (p_kstack (pr s np)) s) (\<lambda>_ s.
           Ret (- 1) (upd_proc np (\<lambda>q. q\<lparr>p_kstack := 0, p_state := UNUSED\<rparr>) s))
       else
         let me = pr s (myproc s);
             s = upd_proc np (\<lambda>q. q\<lparr>p_sz := p_sz me, p_topofheap := p_topofheap me, p_baseofstack := p_baseofstack me,
                   p_parent := cur s, p_tf := (p_tf me)\<lparr>tf_eax := 0\<rparr>\<rparr>) s in
         andthen (dup_files np s) (\<lambda>_ s.
         let s = upd_proc np (\<lambda>q. q\<lparr>p_name := safe_name (p_name (pr s (myproc s)))\<rparr>) s;
             pid = p_pid (pr s np) in
         andthen (acquire PtableLock s) (\<lambda>_ s.
         andthen (release PtableLock (upd_proc np (\<lambda>q. q\<lparr>p_state := RUNNABLE\<rparr>) s)) (\<lambda>_ s. Ret pid s)))))"

subsection \<open>exit and wait\<close>

definition close_fd :: "nat \<Rightarrow> nat \<Rightarrow> 'x kfile_scheme \<Rightarrow> (unit, 'x kfile_scheme) outcome" where
  "close_fd p fd s =
     (case p_ofile (pr s p) fd of
        None \<Rightarrow> Ret () s
      | Some f \<Rightarrow> andthen (fileclose f s) (\<lambda>_ s.
          Ret () (upd_proc p (\<lambda>q. q\<lparr>p_ofile := (p_ofile q)(fd := None)\<rparr>) s)))"

definition cleanup_fs :: "nat \<Rightarrow> 'x kfile_scheme \<Rightarrow> (unit, 'x kfile_scheme) outcome" where
  "cleanup_fs p s =
     andthen (each (close_fd p) [0..<NOFILE] s) (\<lambda>_ s.
     andthen (begin_op s) (\<lambda>_ s.
     andthen (iput (p_cwd (pr s p)) s) (\<lambda>_ s.
     andthen (end_op s) (\<lambda>_ s.
       Ret () (upd_proc p (\<lambda>q. q\<lparr>p_cwd := None\<rparr>) s)))))"

definition adopt :: "nat \<Rightarrow> nat \<Rightarrow> 'x kproc_scheme \<Rightarrow> 'x kproc_scheme" where
  "adopt p i s =
     (if p_parent (pr s i) = Some p then
        let s = upd_proc i (\<lambda>q. q\<lparr>p_parent := initproc s\<rparr>) s in
        if p_state (pr s i) = ZOMBIE then wakeup1 (map_option ProcChan (initproc s)) s else s
      else s)"

definition cleanup_child :: "nat \<Rightarrow> 'x kproc_scheme \<Rightarrow> 'x kproc_scheme" where
  "cleanup_child p s = upd_proc p (\<lambda>q. q\<lparr>p_state := ZOMBIE\<rparr>) (fold (adopt p) [0..<NPROC] s)"

definition cleanup_all :: "u32 \<Rightarrow> 'x kfile_scheme \<Rightarrow> (unit, 'x kfile_scheme) outcome" where
  "cleanup_all pgdir s =
     andthen (each (\<lambda>p s. if p_pgdir (pr s p) = pgdir then cleanup_fs p s else Ret () s) [0..<NPROC] s) (\<lambda>_ s.
     andthen (acquire PtableLock s) (\<lambda>_ s.
     let s = (if pgdir = p_pgdir (pr s (myproc s))
              then wakeup1 (map_option ProcChan (p_parent (pr s (myproc s)))) s else s);
         s = fold (\<lambda>p s. if p_pgdir (pr s p) = pgdir then cleanup_child p s else s) [0..<NPROC] s in
     if pgdir \<noteq> p_pgdir (pr s (myproc s)) then
       let new = p_pgdir (pr s (myproc s));
           s = s\<lparr>ptable := (\<lambda>p. if p < NPROC \<and> p_pgdir (pr s p) = pgdir then (pr s p)\<lparr>p_pgdir := new\<rparr> else pr s p)\<rparr> in
       release PtableLock s
     else Ret () s))"

definition exit :: "'x kfile_scheme \<Rightarrow> (unit, 'x kfile_scheme) outcome" where
  "exit s =
     (if cur s = initproc s then Panic ''init exiting''
      else
        andthen (cleanup_all (p_pgdir (pr s (myproc s))) s) (\<lambda>_ s.
        andthen (sched s) (\<lambda>_ s. Panic ''zombie exit'')))"

definition free_pcb :: "proc \<Rightarrow> proc" where
  "free_pcb q =
     q\<lparr>p_kstack := 0, p_pgdir := 0, p_pid := 0, p_parent := None, p_name := [], p_killed := False, p_sz := 0,
       p_topofheap := 0, p_baseofstack := 0, p_threadof := None, p_returnto := None, p_threadret := 0,
       p_usedticks := 0, p_level := 0, p_state := UNUSED\<rparr>"

definition freeThreadPCB :: "nat \<Rightarrow> 'x kproc_scheme \<Rightarrow> (unit, 'x kproc_scheme) outcome" where
  "freeThreadPCB p s =
     andthen (kfree (p_kstack (pr s p)) s) (\<lambda>_ s. Ret () (upd_proc p free_pcb s))"

text \<open>The threads of the zombie process \<open>p\<close>, then \<open>p\<close> itself.\<close>

definition wait_clear_thread :: "nat \<Rightarrow> nat \<Rightarrow> 'x kproc_scheme \<Rightarrow> (unit, 'x kproc_scheme) outcome" where
  "wait_clear_thread p i s =
     (if p_pgdir (pr s i) = p_pgdir (pr s p) \<and> p_threadof (pr s i) \<noteq> None then
        (if p_state (pr s i) \<noteq> ZOMBIE then Panic ''threads should be ZOMBIE if process exit''
         else andthen (freeThreadPCB i s) (\<lambda>_ s. andthen (removeProcPtr i s) (\<lambda>_ s. Ret () s)))
      else Ret () s)"

definition wait :: "'x kproc_scheme \<Rightarrow> (int, 'x kproc_scheme) outcome" where
  "wait s =
     andthen (acquire PtableLock s) (\<lambda>_ s.
     let child = (\<lambda>p. p_parent (pr s p) = cur s \<and> p_threadof (pr s p) = None) in
     case first_idx NPROC (\<lambda>p. child p \<and> p_state (pr s p) = ZOMBIE) of
       Some p \<Rightarrow>
         andthen (each (wait_clear_thread p) [0..<NPROC] s) (\<lambda>_ s.
         let pid = p_pid (pr s p) in
         andthen (freevm (p_pgdir (pr s p)) s) (\<lambda>_ s.
         andthen (freeThreadPCB p s) (\<lambda>_ s.
         andthen (removeProcPtr p s) (\<lambda>_ s.
         andthen (release PtableLock s) (\<lambda>_ s. Ret pid s)))))
     | None \<Rightarrow>
       if (\<forall>p<NPROC. \<not> child p) \<or> p_killed (pr s (myproc s)) then
         andthen (release PtableLock s) (\<lambda>_ s. Ret (- 1) s)
       else andthen (sleep (Some (ProcChan (myproc s))) (Some PtableLock) s) (\<lambda>_ s. Ret (- 1) s))"

definition forkret :: "'x kernel_scheme \<Rightarrow> (unit, 'x kernel_scheme) outcome" where
  "forkret s =
     andthen (release PtableLock s) (\<lambda>_ s.
     if forkret_first s then
       andthen (iinit ROOTDEV (s\<lparr>forkret_first := False\<rparr>)) (\<lambda>_ s. initlog ROOTDEV s)
     else Ret () s)"

subsection \<open>Threads\<close>

text \<open>Storing a word through a user pointer.\<close>

definition ustore32 :: "u32 \<Rightarrow> u32 \<Rightarrow> 'x kproc_scheme \<Rightarrow> (unit, 'x kproc_scheme) outcome" where
  "ustore32 va w s = ustore_bytes va (word_bytes w) s"

definition thread_create :: "u32 \<Rightarrow> u32 \<Rightarrow> u32 \<Rightarrow> 'x kfile_scheme \<Rightarrow> (int, 'x kfile_scheme) outcome" where
  "thread_create thread start_routine arg s =
     andthen (allocproc s) (\<lambda>np s.
     case np of None \<Rightarrow> Ret (- 1) s
     | Some np \<Rightarrow>
       andthen (ustore32 thread (of_int (p_pid (pr s np))) s) (\<lambda>_ s.
       let s = upd_proc np (\<lambda>q. q\<lparr>p_threadof := Some (main_of s), p_returnto := cur s\<rparr>) s in
       andthen (growstack True s) (\<lambda>sp s.
       if sp = - 1 then Ret (- 1) s
       else
         let sp = sp - 8 in
         andthen (copyout (p_pgdir (pr s (myproc s))) sp (word_bytes 0xffffffff @ word_bytes arg) s) (\<lambda>r s.
         if r < 0 then Ret (- 1) s
         else
           let me = pr s (myproc s);
               s = upd_proc np (\<lambda>q. q\<lparr>p_pgdir := p_pgdir me, p_sz := p_sz me, p_topofheap := p_topofheap me,
                     p_baseofstack := p_baseofstack me, p_parent := p_parent me\<rparr>) s in
           andthen (dup_files np s) (\<lambda>_ s.
           let me = pr s (myproc s);
               s = upd_proc np (\<lambda>q. q\<lparr>p_name := safe_name (p_name me),
                     p_tf := (p_tf me)\<lparr>tf_eip := start_routine, tf_esp := sp\<rparr>\<rparr>) s in
           andthen (acquire PtableLock s) (\<lambda>_ s.
           andthen (release PtableLock (upd_proc np (\<lambda>q. q\<lparr>p_state := RUNNABLE\<rparr>) s)) (\<lambda>_ s. Ret 0 s)))))))"

text \<open>
  \<open>cleanup_ustack\<close> gives back the stacks at the low end that no thread uses. Stacks lie below
  \<open>KERNBASE\<close>, so that \<open>baseofstack\<close> does not wrap around; the recursion stops where it would.
\<close>

function cleanup_ustack_loop :: "nat \<Rightarrow> u32 \<Rightarrow> 'x kproc_scheme \<Rightarrow> (int, 'x kproc_scheme) outcome" where
  "cleanup_ustack_loop mainPCB baseofstack s =
     (if \<exists>p<NPROC. p_threadof (pr s p) = Some mainPCB \<and> p_baseofstack (pr s p) = baseofstack then Ret 0 s
      else
        andthen (growstack False s) (\<lambda>r s.
        if r = - 1 then Ret (- 1) s
        else
          let base = baseofstack + 2 * PGSIZE in
          if tf_esp (p_tf (pr s mainPCB)) < base + 2 * PGSIZE \<or> base \<le> baseofstack then Ret 0 s
          else cleanup_ustack_loop mainPCB base s))"
  by pat_completeness auto
termination
proof (relation "measure (\<lambda>(m, base, s). 2 ^ 32 - unat base)", goal_cases)
  case (2 m base s r s' b)
  then have "unat base < unat b" by (simp add: not_le word_less_nat_alt)
  then show ?case using unsigned_less [where 'a = nat, of b] by simp
qed simp

declare cleanup_ustack_loop.simps [simp del]

definition cleanup_ustack :: "'x kproc_scheme \<Rightarrow> (int, 'x kproc_scheme) outcome" where
  "cleanup_ustack s = cleanup_ustack_loop (main_of s) (p_baseofstack (pr s (main_of s))) s"

definition thread_join :: "int \<Rightarrow> u32 \<Rightarrow> 'x kproc_scheme \<Rightarrow> (int, 'x kproc_scheme) outcome" where
  "thread_join thread retval s =
     andthen (acquire PtableLock s) (\<lambda>_ s.
     case first_idx NPROC (\<lambda>p. p_pid (pr s p) = thread) of
       None \<Rightarrow> andthen (release PtableLock s) (\<lambda>_ s. Ret (- 1) s)
     | Some p \<Rightarrow>
       if p_state (pr s p) = ZOMBIE then
         andthen (if retval \<noteq> 0 then ustore32 retval (p_threadret (pr s p)) s else Ret () s) (\<lambda>_ s.
         andthen (freeThreadPCB p s) (\<lambda>_ s.
         andthen (release PtableLock s) (\<lambda>_ s.
         andthen (removeProcPtr p s) (\<lambda>_ s.
         andthen (cleanup_ustack s) (\<lambda>r s.
           Ret (if r \<noteq> 0 then - 1 else 0) s)))))
       else andthen (sleep (Some (ProcChan (myproc s))) (Some PtableLock) s) (\<lambda>_ s. Ret (- 1) s))"

definition thread_exit :: "u32 \<Rightarrow> 'x kfile_scheme \<Rightarrow> (unit, 'x kfile_scheme) outcome" where
  "thread_exit retval s =
     (if p_threadof (pr s (myproc s)) = None then
        andthen (each (\<lambda>p s. if p_threadof (pr s p) = cur s
                             then andthen (thread_join (p_pid (pr s p)) 0 s) (\<lambda>_ s. Ret () s)
                             else Ret () s) [0..<NPROC] s) (\<lambda>_ s. exit s)
      else
        andthen (cleanup_fs (myproc s) s) (\<lambda>_ s.
        andthen (each (\<lambda>p s. if p_parent (pr s p) = cur s then cleanup_fs p s else Ret () s) [0..<NPROC] s) (\<lambda>_ s.
        andthen (acquire PtableLock s) (\<lambda>_ s.
        let s = wakeup1 (map_option ProcChan (p_returnto (pr s (myproc s)))) s;
            s = upd_proc (myproc s) (\<lambda>q. q\<lparr>p_threadret := retval\<rparr>) s;
            s = cleanup_child (myproc s) s;
            s = fold (\<lambda>p s. if p_parent (pr s p) = cur s then cleanup_child p s else s) [0..<NPROC] s in
        andthen (sched s) (\<lambda>_ s. Panic ''zombie thread exit'')))))"

end
