(* ===== verification/Exec.thy ===== *)
theory Exec
  imports Proc
begin

unbundle bit_operations_syntax

text \<open>
  \<open>src/xv6-public/exec.c\<close> with \<open>loaduvm\<close> of \<open>vm.c\<close> and the headers of \<open>elf.h\<close>: loading a program
  into a new address space, laying out the arguments on its stack, and replacing the process's threads
  and memory by it.
\<close>

abbreviation ELF_MAGIC :: u32 where "ELF_MAGIC \<equiv> 0x464C457F"
abbreviation MAXARG :: nat where "MAXARG \<equiv> 32"

subsection \<open>Headers\<close>

definition le16 :: "u8 list \<Rightarrow> nat \<Rightarrow> u16" where
  "le16 bs k = ucast (bs ! k) OR push_bit 8 (ucast (bs ! (k + 1)))"

definition le32 :: "u8 list \<Rightarrow> nat \<Rightarrow> u32" where
  "le32 bs k = ucast (bs ! k) OR push_bit 8 (ucast (bs ! (k + 1))) OR push_bit 16 (ucast (bs ! (k + 2)))
     OR push_bit 24 (ucast (bs ! (k + 3)))"

record elfhdr =
  e_magic :: u32
  e_entry :: u32
  e_phoff :: u32
  e_phnum :: u16

definition decode_elf :: "u8 list \<Rightarrow> elfhdr" where
  "decode_elf bs = \<lparr>e_magic = le32 bs 0, e_entry = le32 bs 24, e_phoff = le32 bs 28, e_phnum = le16 bs 44\<rparr>"

record proghdr =
  ph_type :: u32
  ph_off :: u32
  ph_vaddr :: u32
  ph_filesz :: u32
  ph_memsz :: u32

definition decode_ph :: "u8 list \<Rightarrow> proghdr" where
  "decode_ph bs = \<lparr>ph_type = le32 bs 0, ph_off = le32 bs 4, ph_vaddr = le32 bs 8, ph_filesz = le32 bs 16,
     ph_memsz = le32 bs 20\<rparr>"

subsection \<open>Loading a segment\<close>

text \<open>\<open>k\<close> pages are left; \<open>i\<close> is the offset in the segment.\<close>

fun loaduvm_loop :: "nat \<Rightarrow> u32 \<Rightarrow> u32 \<Rightarrow> nat \<Rightarrow> u32 \<Rightarrow> u32 \<Rightarrow> u32 \<Rightarrow> 'x kfile_scheme \<Rightarrow> (int, 'x kfile_scheme) outcome" where
  "loaduvm_loop 0 pgdir addr ip off sz i s = Ret 0 s"
| "loaduvm_loop (Suc k) pgdir addr ip off sz i s =
     andthen (walkpgdir pgdir (addr + i) False s) (\<lambda>pte s.
       if pte = 0 then Panic ''loaduvm: address should exist''
       else
         let pa = PTE_ADDR (load32 (mem s) pte);
             n = (if sz - i < PGSIZE then sz - i else PGSIZE) in
         andthen (readi ip (off + i) n s) (\<lambda>(r, bs) s.
         let s = s\<lparr>mem := store_bytes (mem s) (P2V pa) bs\<rparr> in
         if r \<noteq> sint n then Ret (- 1) s
         else loaduvm_loop k pgdir addr ip off sz (i + PGSIZE) s))"

definition loaduvm :: "u32 \<Rightarrow> u32 \<Rightarrow> nat \<Rightarrow> u32 \<Rightarrow> u32 \<Rightarrow> 'x kfile_scheme \<Rightarrow> (int, 'x kfile_scheme) outcome" where
  "loaduvm pgdir addr ip off sz s =
     (if addr mod PGSIZE \<noteq> 0 then Panic ''loaduvm: addr must be page aligned''
      else loaduvm_loop (pages_left 0 sz) pgdir addr ip off sz 0 s)"

text \<open>The program headers; \<open>None\<close> is the jump to \<open>bad\<close>, otherwise the size reached.\<close>

fun exec_load :: "nat \<Rightarrow> u32 \<Rightarrow> nat \<Rightarrow> u32 \<Rightarrow> u32 \<Rightarrow> 'x kfile_scheme \<Rightarrow> (u32 option, 'x kfile_scheme) outcome" where
  "exec_load 0 pgdir ip off sz s = Ret (Some sz) s"
| "exec_load (Suc k) pgdir ip off sz s =
     andthen (readi ip off 32 s) (\<lambda>(r, bs) s.
       if r \<noteq> 32 then Ret None s
       else
         let ph = decode_ph bs in
         if ph_type ph \<noteq> 1 then exec_load k pgdir ip (off + 32) sz s
         else if ph_memsz ph < ph_filesz ph then Ret None s
         else if ph_vaddr ph + ph_memsz ph < ph_vaddr ph then Ret None s
         else
           andthen (allocuvm pgdir sz (ph_vaddr ph + ph_memsz ph) s) (\<lambda>sz s.
           if sz = 0 then Ret None s
           else if ph_vaddr ph mod PGSIZE \<noteq> 0 then Ret None s
           else
             andthen (loaduvm pgdir (ph_vaddr ph) ip (ph_off ph) (ph_filesz ph) s) (\<lambda>r s.
             if r < 0 then Ret None s
             else exec_load k pgdir ip (off + 32) sz s)))"

subsection \<open>The argument strings\<close>

text \<open>Each string goes below the previous one, aligned to a word; the results are the addresses.\<close>

fun exec_args :: "u32 \<Rightarrow> nat \<Rightarrow> u8 list list \<Rightarrow> u32 \<Rightarrow> 'x kfile_scheme \<Rightarrow> ((u32 list \<times> u32) option, 'x kfile_scheme) outcome" where
  "exec_args pgdir argc [] sp s = Ret (Some ([], sp)) s"
| "exec_args pgdir argc (a # as) sp s =
     (if argc \<ge> MAXARG then Ret None s
      else
        let sp = (sp - (of_nat (length a) + 1)) AND NOT 3 in
        andthen (copyout pgdir sp (a @ [0]) s) (\<lambda>r s.
        if r < 0 then Ret None s
        else
          andthen (exec_args pgdir (argc + 1) as sp s) (\<lambda>res s.
          Ret (map_option (\<lambda>(sps, sp'). (sp # sps, sp')) res) s)))"

definition last_elem :: "u8 list \<Rightarrow> u8 list" where
  "last_elem pn = rev (takeWhile (\<lambda>c. c \<noteq> slash) (rev pn))"

definition exec_bad :: "u32 \<Rightarrow> nat option \<Rightarrow> 'x kfile_scheme \<Rightarrow> (int, 'x kfile_scheme) outcome" where
  "exec_bad pgdir ip s =
     andthen (if pgdir \<noteq> 0 then freevm pgdir s else Ret () s) (\<lambda>_ s.
     andthen (case ip of None \<Rightarrow> Ret () s
              | Some _ \<Rightarrow> andthen (iunlockput ip s) (\<lambda>_ s. end_op s)) (\<lambda>_ s. Ret (- 1) s))"

text \<open>After the program is loaded: the stack, the arguments, and the switch to the new image.\<close>

definition exec_image :: "u8 list \<Rightarrow> u8 list list \<Rightarrow> u32 \<Rightarrow> elfhdr \<Rightarrow> u32 \<Rightarrow> 'x kfile_scheme \<Rightarrow> (int, 'x kfile_scheme) outcome" where
  "exec_image pn argv pgdir elf sz s =
     (let base = PGROUNDUP (KERNBASE - 3 * PGSIZE);
          s = upd_proc (myproc s) (\<lambda>q. q\<lparr>p_topofheap := sz, p_baseofstack := base\<rparr>) s in
      andthen (allocuvm pgdir base (base + 2 * PGSIZE) s) (\<lambda>sz s.
      if sz = 0 then exec_bad pgdir None s
      else
        andthen (clearpteu pgdir (sz - 2 * PGSIZE) s) (\<lambda>_ s.
        andthen (exec_args pgdir 0 argv sz s) (\<lambda>res s.
        case res of None \<Rightarrow> exec_bad pgdir None s
        | Some (sps, sp) \<Rightarrow>
          let argc = of_nat (length sps);
              ustack = [0xffffffff, argc, sp - (argc + 1) * 4] @ sps @ [0];
              sp = sp - (3 + argc + 1) * 4 in
          andthen (copyout pgdir sp (concat (map word_bytes ustack)) s) (\<lambda>r s.
          if r < 0 then exec_bad pgdir None s
          else
            let oldpgdir = p_pgdir (pr s (myproc s));
                s = upd_proc (myproc s) (\<lambda>q. q\<lparr>p_name := safe_name (last_elem pn), p_pgdir := pgdir\<rparr>) s in
            andthen (cleanup_all oldpgdir s) (\<lambda>_ s.
            let s = upd_proc (myproc s) (\<lambda>q. q\<lparr>p_sz := sz,
                      p_tf := (p_tf q)\<lparr>tf_eip := e_entry elf, tf_esp := sp\<rparr>\<rparr>) s in
            andthen (switchuvm (cur s) s) (\<lambda>_ s.
            andthen (freevm oldpgdir s) (\<lambda>_ s. Ret 0 s))))))))"

definition exec :: "u8 list \<Rightarrow> u8 list list \<Rightarrow> 'x kfile_scheme \<Rightarrow> (int, 'x kfile_scheme) outcome" where
  "exec pn argv s =
     andthen (begin_op s) (\<lambda>_ s.
     andthen (namei pn s) (\<lambda>ip s.
     case ip of None \<Rightarrow> andthen (end_op s) (\<lambda>_ s. Ret (- 1) s)
     | Some i \<Rightarrow>
       andthen (ilock ip s) (\<lambda>_ s.
       andthen (readi i 0 52 s) (\<lambda>(r, bs) s.
       if r \<noteq> 52 then exec_bad 0 ip s
       else
         let elf = decode_elf bs in
         if e_magic elf \<noteq> ELF_MAGIC then exec_bad 0 ip s
         else
           andthen (setupkvm s) (\<lambda>pgdir s.
           if pgdir = 0 then exec_bad 0 ip s
           else
             andthen (exec_load (unat (e_phnum elf)) pgdir i (e_phoff elf) 0 s) (\<lambda>sz s.
             case sz of None \<Rightarrow> exec_bad pgdir ip s
             | Some sz \<Rightarrow>
               andthen (iunlockput ip s) (\<lambda>_ s.
               andthen (end_op s) (\<lambda>_ s.
                 exec_image pn argv pgdir elf sz s))))))))"

end
