(* ===== verification/Syscall.thy ===== *)
theory Syscall
  imports Exec
begin

unbundle bit_operations_syntax

text \<open>
  \<open>src/xv6-public/syscall.c\<close>, \<open>sysfile.c\<close>, \<open>sysproc.c\<close>, \<open>prac_syscall.c\<close>, \<open>getppid.c\<close> and \<open>trap.c\<close>: fetching
  arguments from the user's stack, the system calls, their table, and the trap handler.

  A fetch returns \<open>None\<close> where the code returns -1. The kernel reads user memory through the current
  page table, so that an address that passes the checks but is not mapped traps in the kernel.
\<close>

subsection \<open>Arguments\<close>

definition fetchint :: "u32 \<Rightarrow> 'x kernel_scheme \<Rightarrow> (u32 option, 'x kernel_scheme) outcome" where
  "fetchint addr s =
     (let sz = p_sz (pr s (myproc s)) in
      if addr \<ge> sz \<or> addr + 4 > sz then Ret None s
      else andthen (uload32 addr s) (\<lambda>w s. Ret (Some w) s))"

text \<open>The string at \<open>addr\<close>, read up to \<open>n\<close> bytes; \<open>None\<close> when none of them is NUL.\<close>

fun fetchstr_loop :: "nat \<Rightarrow> u32 \<Rightarrow> 'x kernel_scheme \<Rightarrow> (u8 list option, 'x kernel_scheme) outcome" where
  "fetchstr_loop 0 addr s = Ret None s"
| "fetchstr_loop (Suc n) addr s =
     andthen (uload8 addr s) (\<lambda>b s.
       if b = 0 then Ret (Some []) s
       else andthen (fetchstr_loop n (addr + 1) s) (\<lambda>r s. Ret (map_option (\<lambda>bs. b # bs) r) s))"

definition fetchstr :: "u32 \<Rightarrow> 'x kernel_scheme \<Rightarrow> (u8 list option, 'x kernel_scheme) outcome" where
  "fetchstr addr s =
     (let sz = p_sz (pr s (myproc s)) in
      if addr \<ge> sz then Ret None s
      else fetchstr_loop (unat (sz - addr)) addr s)"

definition argint :: "nat \<Rightarrow> 'x kernel_scheme \<Rightarrow> (u32 option, 'x kernel_scheme) outcome" where
  "argint n s = fetchint (tf_esp (p_tf (pr s (myproc s))) + 4 + 4 * of_nat n) s"

definition argptr :: "nat \<Rightarrow> int \<Rightarrow> 'x kernel_scheme \<Rightarrow> (u32 option, 'x kernel_scheme) outcome" where
  "argptr n sz s =
     andthen (argint n s) (\<lambda>i s.
     case i of None \<Rightarrow> Ret None s
     | Some i \<Rightarrow>
       if sz < 0 \<or> i \<ge> p_sz (pr s (myproc s)) \<or> i + of_int sz > p_sz (pr s (myproc s)) then Ret None s
       else Ret (Some i) s)"

definition argstr :: "nat \<Rightarrow> 'x kernel_scheme \<Rightarrow> (u8 list option, 'x kernel_scheme) outcome" where
  "argstr n s =
     andthen (argint n s) (\<lambda>addr s.
     case addr of None \<Rightarrow> Ret None s | Some addr \<Rightarrow> fetchstr addr s)"

text \<open>Early return of -1.\<close>

definition orfail :: "('a option, 's) outcome \<Rightarrow> ('a \<Rightarrow> 's \<Rightarrow> (int, 's) outcome) \<Rightarrow> (int, 's) outcome" where
  "orfail m f = andthen m (\<lambda>x s. case x of None \<Rightarrow> Ret (- 1) s | Some x \<Rightarrow> f x s)"

subsection \<open>File descriptors\<close>

definition argfd :: "nat \<Rightarrow> 'x kernel_scheme \<Rightarrow> ((nat \<times> nat) option, 'x kernel_scheme) outcome" where
  "argfd n s =
     andthen (argint n s) (\<lambda>fd s.
     case fd of None \<Rightarrow> Ret None s
     | Some fd \<Rightarrow>
       if sint fd < 0 \<or> sint fd \<ge> int NOFILE then Ret None s
       else case p_ofile (pr s (myproc s)) (unat fd) of
         None \<Rightarrow> Ret None s
       | Some f \<Rightarrow> Ret (Some (unat fd, f)) s)"

definition set_fd :: "nat \<Rightarrow> nat option \<Rightarrow> 'x kernel_scheme \<Rightarrow> 'x kernel_scheme" where
  "set_fd fd f s = upd_proc (myproc s) (\<lambda>q. q\<lparr>p_ofile := (p_ofile q)(fd := f)\<rparr>) s"

definition fdalloc :: "nat \<Rightarrow> 'x kernel_scheme \<Rightarrow> nat option \<times> 'x kernel_scheme" where
  "fdalloc f s =
     (case first_idx NOFILE (\<lambda>fd. p_ofile (pr s (myproc s)) fd = None) of
        None \<Rightarrow> (None, s)
      | Some fd \<Rightarrow> (Some fd, set_fd fd (Some f) s))"

definition sys_dup :: "'x kernel_scheme \<Rightarrow> (int, 'x kernel_scheme) outcome" where
  "sys_dup s =
     orfail (argfd 0 s) (\<lambda>(_, f) s.
     case fdalloc f s of
       (None, s) \<Rightarrow> Ret (- 1) s
     | (Some fd, s) \<Rightarrow> andthen (filedup f s) (\<lambda>_ s. Ret (int fd) s))"

definition sys_read :: "'x kernel_scheme \<Rightarrow> (int, 'x kernel_scheme) outcome" where
  "sys_read s =
     orfail (argfd 0 s) (\<lambda>(_, f) s.
     orfail (argint 2 s) (\<lambda>n s.
     orfail (argptr 1 (sint n) s) (\<lambda>p s.
     andthen (fileread f (sint n) s) (\<lambda>(r, bs) s.
     andthen (ustore_bytes p bs s) (\<lambda>_ s. Ret r s)))))"

definition sys_write :: "'x kernel_scheme \<Rightarrow> (int, 'x kernel_scheme) outcome" where
  "sys_write s =
     orfail (argfd 0 s) (\<lambda>(_, f) s.
     orfail (argint 2 s) (\<lambda>n s.
     orfail (argptr 1 (sint n) s) (\<lambda>p s.
     andthen (uload_bytes p (unat n) s) (\<lambda>bs s. filewrite f bs s))))"

definition sys_close :: "'x kernel_scheme \<Rightarrow> (int, 'x kernel_scheme) outcome" where
  "sys_close s =
     orfail (argfd 0 s) (\<lambda>(fd, f) s.
     andthen (fileclose f (set_fd fd None s)) (\<lambda>_ s. Ret 0 s))"

text \<open>\<open>struct stat\<close> in memory: 20 bytes with two bytes of padding after each \<open>short\<close>, left as they are.\<close>

definition store_stat :: "u32 \<Rightarrow> stat \<Rightarrow> 'x kernel_scheme \<Rightarrow> (unit, 'x kernel_scheme) outcome" where
  "store_stat p st s =
     andthen (ustore_bytes (p + 4) (word_bytes (st_dev st)) s) (\<lambda>_ s.
     andthen (ustore_bytes (p + 8) (word_bytes (st_ino st)) s) (\<lambda>_ s.
     andthen (ustore_bytes p (take 2 (word_bytes (ucast (st_type st)))) s) (\<lambda>_ s.
     andthen (ustore_bytes (p + 12) (take 2 (word_bytes (ucast (st_nlink st)))) s) (\<lambda>_ s.
       ustore_bytes (p + 16) (word_bytes (st_size st)) s))))"

definition sys_fstat :: "'x kernel_scheme \<Rightarrow> (int, 'x kernel_scheme) outcome" where
  "sys_fstat s =
     orfail (argfd 0 s) (\<lambda>(_, f) s.
     orfail (argptr 1 20 s) (\<lambda>p s.
     andthen (filestat f s) (\<lambda>st s.
     case st of None \<Rightarrow> Ret (- 1) s
     | Some st \<Rightarrow> andthen (store_stat p st s) (\<lambda>_ s. Ret 0 s))))"

subsection \<open>Links\<close>

definition link_bad :: "nat \<Rightarrow> 'x kernel_scheme \<Rightarrow> (int, 'x kernel_scheme) outcome" where
  "link_bad ip s =
     andthen (ilock (Some ip) s) (\<lambda>_ s.
     andthen (iupdate ip (upd_inode ip (\<lambda>n. n\<lparr>i_nlink := i_nlink n - 1\<rparr>) s)) (\<lambda>_ s.
     andthen (iunlockput (Some ip) s) (\<lambda>_ s.
     andthen (end_op s) (\<lambda>_ s. Ret (- 1) s))))"

definition sys_link :: "'x kernel_scheme \<Rightarrow> (int, 'x kernel_scheme) outcome" where
  "sys_link s =
     orfail (argstr 0 s) (\<lambda>old s.
     orfail (argstr 1 s) (\<lambda>new s.
     andthen (begin_op s) (\<lambda>_ s.
     andthen (namei old s) (\<lambda>ip s.
     case ip of None \<Rightarrow> andthen (end_op s) (\<lambda>_ s. Ret (- 1) s)
     | Some ip \<Rightarrow>
       andthen (ilock (Some ip) s) (\<lambda>_ s.
       if i_type (icache s ip) = T_DIR then
         andthen (iunlockput (Some ip) s) (\<lambda>_ s. andthen (end_op s) (\<lambda>_ s. Ret (- 1) s))
       else
         andthen (iupdate ip (upd_inode ip (\<lambda>n. n\<lparr>i_nlink := i_nlink n + 1\<rparr>) s)) (\<lambda>_ s.
         andthen (iunlock (Some ip) s) (\<lambda>_ s.
         andthen (nameiparent new s) (\<lambda>(dp, name) s.
         case dp of None \<Rightarrow> link_bad ip s
         | Some dp \<Rightarrow>
           andthen (ilock (Some dp) s) (\<lambda>_ s.
           andthen (if i_dev (icache s dp) \<noteq> i_dev (icache s ip) then Ret (- 1) s
                    else dirlink dp name (i_inum (icache s ip)) s) (\<lambda>r s.
           if r < 0 then andthen (iunlockput (Some dp) s) (\<lambda>_ s. link_bad ip s)
           else
             andthen (iunlockput (Some dp) s) (\<lambda>_ s.
             andthen (iput (Some ip) s) (\<lambda>_ s.
             andthen (end_op s) (\<lambda>_ s. Ret 0 s)))))))))))))"

fun isdirempty_loop :: "nat \<Rightarrow> nat \<Rightarrow> u32 \<Rightarrow> 'x kcons_scheme \<Rightarrow> (bool, 'x kcons_scheme) outcome" where
  "isdirempty_loop 0 dp off s = Ret True s"
| "isdirempty_loop (Suc n) dp off s =
     andthen (readi dp off DIRENT s) (\<lambda>(r, de) s.
       if r \<noteq> 16 then Panic ''isdirempty: readi''
       else if de_inum de \<noteq> 0 then Ret False s
       else isdirempty_loop n dp (off + DIRENT) s)"

definition isdirempty :: "nat \<Rightarrow> 'x kcons_scheme \<Rightarrow> (bool, 'x kcons_scheme) outcome" where
  "isdirempty dp s = isdirempty_loop (dirents_left 32 (i_size (icache s dp))) dp 32 s"

definition unlink_bad :: "nat \<Rightarrow> 'x kernel_scheme \<Rightarrow> (int, 'x kernel_scheme) outcome" where
  "unlink_bad dp s =
     andthen (iunlockput (Some dp) s) (\<lambda>_ s. andthen (end_op s) (\<lambda>_ s. Ret (- 1) s))"

text \<open>The entry \<open>(ip, off)\<close> of \<open>dp\<close> is removed; both inodes are locked.\<close>

definition unlink_entry :: "nat \<Rightarrow> nat \<Rightarrow> u32 \<Rightarrow> 'x kernel_scheme \<Rightarrow> (int, 'x kernel_scheme) outcome" where
  "unlink_entry dp ip off s =
     andthen (writei dp (replicate 16 0) off s) (\<lambda>r s.
     if r \<noteq> 16 then Panic ''unlink: writei''
     else
       andthen (if i_type (icache s ip) = T_DIR
                then iupdate dp (upd_inode dp (\<lambda>n. n\<lparr>i_nlink := i_nlink n - 1\<rparr>) s) else Ret () s) (\<lambda>_ s.
       andthen (iunlockput (Some dp) s) (\<lambda>_ s.
       andthen (iupdate ip (upd_inode ip (\<lambda>n. n\<lparr>i_nlink := i_nlink n - 1\<rparr>) s)) (\<lambda>_ s.
       andthen (iunlockput (Some ip) s) (\<lambda>_ s.
       andthen (end_op s) (\<lambda>_ s. Ret 0 s))))))"

definition sys_unlink :: "'x kernel_scheme \<Rightarrow> (int, 'x kernel_scheme) outcome" where
  "sys_unlink s =
     orfail (argstr 0 s) (\<lambda>pn s.
     andthen (begin_op s) (\<lambda>_ s.
     andthen (nameiparent pn s) (\<lambda>(dp, name) s.
     case dp of None \<Rightarrow> andthen (end_op s) (\<lambda>_ s. Ret (- 1) s)
     | Some dp \<Rightarrow>
       andthen (ilock (Some dp) s) (\<lambda>_ s.
       if namecmp name [46] = 0 \<or> namecmp name [46, 46] = 0 then unlink_bad dp s
       else
         andthen (dirlookup dp name s) (\<lambda>res s.
         case res of None \<Rightarrow> unlink_bad dp s
         | Some (ip, off) \<Rightarrow>
           andthen (ilock (Some ip) s) (\<lambda>_ s.
           if sint (i_nlink (icache s ip)) < 1 then Panic ''unlink: nlink < 1''
           else
             andthen (if i_type (icache s ip) = T_DIR then isdirempty ip s else Ret True s) (\<lambda>ok s.
             if \<not> ok then andthen (iunlockput (Some ip) s) (\<lambda>_ s. unlink_bad dp s)
             else unlink_entry dp ip off s)))))))"

subsection \<open>Creating and opening\<close>

definition create :: "u8 list \<Rightarrow> u16 \<Rightarrow> u16 \<Rightarrow> u16 \<Rightarrow> 'x kcons_scheme \<Rightarrow> (nat option, 'x kcons_scheme) outcome" where
  "create pn type major minor s =
     andthen (nameiparent pn s) (\<lambda>(dp, name) s.
     case dp of None \<Rightarrow> Ret None s
     | Some dp \<Rightarrow>
       andthen (ilock (Some dp) s) (\<lambda>_ s.
       andthen (dirlookup dp name s) (\<lambda>res s.
       case res of
         Some (ip, _) \<Rightarrow>
           andthen (iunlockput (Some dp) s) (\<lambda>_ s.
           andthen (ilock (Some ip) s) (\<lambda>_ s.
           if type = T_FILE \<and> i_type (icache s ip) = T_FILE then Ret (Some ip) s
           else andthen (iunlockput (Some ip) s) (\<lambda>_ s. Ret None s)))
       | None \<Rightarrow>
         andthen (ialloc (i_dev (icache s dp)) type s) (\<lambda>ip s.
         andthen (ilock (Some ip) s) (\<lambda>_ s.
         andthen (iupdate ip (upd_inode ip (\<lambda>n. n\<lparr>i_major := major, i_minor := minor, i_nlink := 1\<rparr>) s)) (\<lambda>_ s.
         andthen
           (if type = T_DIR then
              andthen (iupdate dp (upd_inode dp (\<lambda>n. n\<lparr>i_nlink := i_nlink n + 1\<rparr>) s)) (\<lambda>_ s.
              andthen (dirlink ip [46] (i_inum (icache s ip)) s) (\<lambda>r s.
              if r < 0 then Panic ''create dots''
              else andthen (dirlink ip [46, 46] (i_inum (icache s dp)) s) (\<lambda>r s.
                if r < 0 then Panic ''create dots'' else Ret () s)))
            else Ret () s) (\<lambda>_ s.
         andthen (dirlink dp name (i_inum (icache s ip)) s) (\<lambda>r s.
         if r < 0 then Panic ''create: dirlink''
         else andthen (iunlockput (Some dp) s) (\<lambda>_ s. Ret (Some ip) s)))))))))"

abbreviation O_WRONLY :: u32 where "O_WRONLY \<equiv> 1"
abbreviation O_RDWR :: u32 where "O_RDWR \<equiv> 2"
abbreviation O_CREATE :: u32 where "O_CREATE \<equiv> 0x200"

text \<open>The locked inode to open, or \<open>None\<close> after the transaction has been ended.\<close>

definition open_inode :: "u8 list \<Rightarrow> u32 \<Rightarrow> 'x kernel_scheme \<Rightarrow> (nat option, 'x kernel_scheme) outcome" where
  "open_inode pn omode s =
     (if omode AND O_CREATE \<noteq> 0 then
        andthen (create pn T_FILE 0 0 s) (\<lambda>ip s.
        if ip = None then andthen (end_op s) (\<lambda>_ s. Ret None s) else Ret ip s)
      else
        andthen (namei pn s) (\<lambda>ip s.
        case ip of None \<Rightarrow> andthen (end_op s) (\<lambda>_ s. Ret None s)
        | Some i \<Rightarrow>
          andthen (ilock ip s) (\<lambda>_ s.
          if i_type (icache s i) = T_DIR \<and> omode \<noteq> 0 then
            andthen (iunlockput ip s) (\<lambda>_ s. andthen (end_op s) (\<lambda>_ s. Ret None s))
          else Ret ip s)))"

definition sys_open :: "'x kernel_scheme \<Rightarrow> (int, 'x kernel_scheme) outcome" where
  "sys_open s =
     orfail (argstr 0 s) (\<lambda>pn s.
     orfail (argint 1 s) (\<lambda>omode s.
     andthen (begin_op s) (\<lambda>_ s.
     orfail (open_inode pn omode s) (\<lambda>ip s.
     andthen (filealloc s) (\<lambda>f s.
     case f of
       None \<Rightarrow> andthen (iunlockput (Some ip) s) (\<lambda>_ s. andthen (end_op s) (\<lambda>_ s. Ret (- 1) s))
     | Some f \<Rightarrow>
       (case fdalloc f s of
          (None, s) \<Rightarrow>
            andthen (fileclose f s) (\<lambda>_ s.
            andthen (iunlockput (Some ip) s) (\<lambda>_ s. andthen (end_op s) (\<lambda>_ s. Ret (- 1) s)))
        | (Some fd, s) \<Rightarrow>
          andthen (iunlock (Some ip) s) (\<lambda>_ s.
          andthen (end_op s) (\<lambda>_ s.
          Ret (int fd) (upd_file f (\<lambda>g. g\<lparr>f_type := FD_INODE, f_ip := Some ip, f_off := 0,
            f_readable := (omode AND O_WRONLY = 0),
            f_writable := (omode AND O_WRONLY \<noteq> 0 \<or> omode AND O_RDWR \<noteq> 0)\<rparr>) s)))))))))"

definition sys_mkdir :: "'x kernel_scheme \<Rightarrow> (int, 'x kernel_scheme) outcome" where
  "sys_mkdir s =
     andthen (begin_op s) (\<lambda>_ s.
     andthen (argstr 0 s) (\<lambda>pn s.
     andthen (case pn of None \<Rightarrow> Ret None s | Some pn \<Rightarrow> create pn T_DIR 0 0 s) (\<lambda>ip s.
     if ip = None then andthen (end_op s) (\<lambda>_ s. Ret (- 1) s)
     else andthen (iunlockput ip s) (\<lambda>_ s. andthen (end_op s) (\<lambda>_ s. Ret 0 s)))))"

definition sys_mknod :: "'x kernel_scheme \<Rightarrow> (int, 'x kernel_scheme) outcome" where
  "sys_mknod s =
     andthen (begin_op s) (\<lambda>_ s.
     andthen (argstr 0 s) (\<lambda>pn s.
     andthen (if pn = None then Ret None s else argint 1 s) (\<lambda>major s.
     andthen (if major = None then Ret None s else argint 2 s) (\<lambda>minor s.
     andthen (if minor = None then Ret None s
              else create (the pn) T_DEV (ucast (the major)) (ucast (the minor)) s) (\<lambda>ip s.
     if ip = None then andthen (end_op s) (\<lambda>_ s. Ret (- 1) s)
     else andthen (iunlockput ip s) (\<lambda>_ s. andthen (end_op s) (\<lambda>_ s. Ret 0 s)))))))"

definition sys_chdir :: "'x kernel_scheme \<Rightarrow> (int, 'x kernel_scheme) outcome" where
  "sys_chdir s =
     andthen (begin_op s) (\<lambda>_ s.
     andthen (argstr 0 s) (\<lambda>pn s.
     andthen (case pn of None \<Rightarrow> Ret None s | Some pn \<Rightarrow> namei pn s) (\<lambda>ip s.
     case ip of None \<Rightarrow> andthen (end_op s) (\<lambda>_ s. Ret (- 1) s)
     | Some i \<Rightarrow>
       andthen (ilock ip s) (\<lambda>_ s.
       if i_type (icache s i) \<noteq> T_DIR then
         andthen (iunlockput ip s) (\<lambda>_ s. andthen (end_op s) (\<lambda>_ s. Ret (- 1) s))
       else
         andthen (iunlock ip s) (\<lambda>_ s.
         andthen (iput (p_cwd (pr s (myproc s))) s) (\<lambda>_ s.
         andthen (end_op s) (\<lambda>_ s.
         Ret 0 (upd_proc (myproc s) (\<lambda>q. q\<lparr>p_cwd := ip\<rparr>) s))))))))"

text \<open>The words of \<open>argv\<close>, at most \<open>MAXARG\<close> with the null pointer at the end.\<close>

fun fetch_argv :: "nat \<Rightarrow> u32 \<Rightarrow> 'x kernel_scheme \<Rightarrow> (u8 list list option, 'x kernel_scheme) outcome" where
  "fetch_argv 0 uargv s = Ret None s"
| "fetch_argv (Suc n) uargv s =
     andthen (fetchint uargv s) (\<lambda>uarg s.
     case uarg of None \<Rightarrow> Ret None s
     | Some uarg \<Rightarrow>
       if uarg = 0 then Ret (Some []) s
       else
         andthen (fetchstr uarg s) (\<lambda>a s.
         case a of None \<Rightarrow> Ret None s
         | Some a \<Rightarrow> andthen (fetch_argv n (uargv + 4) s) (\<lambda>r s. Ret (map_option (\<lambda>as. a # as) r) s)))"

definition sys_exec :: "'x kernel_scheme \<Rightarrow> (int, 'x kernel_scheme) outcome" where
  "sys_exec s =
     orfail (argstr 0 s) (\<lambda>pn s.
     orfail (argint 1 s) (\<lambda>uargv s.
     orfail (fetch_argv MAXARG uargv s) (\<lambda>argv s. exec pn argv s)))"

definition sys_pipe :: "'x kernel_scheme \<Rightarrow> (int, 'x kernel_scheme) outcome" where
  "sys_pipe s =
     orfail (argptr 0 8 s) (\<lambda>fd s.
     orfail (pipealloc s) (\<lambda>(rf, wf) s.
     let (fd0, s) = fdalloc rf s;
         (fd1, s) = (if fd0 = None then (None, s) else fdalloc wf s) in
     if fd1 = None then
       let s = (case fd0 of None \<Rightarrow> s | Some fd0 \<Rightarrow> set_fd fd0 None s) in
       andthen (fileclose rf s) (\<lambda>_ s. andthen (fileclose wf s) (\<lambda>_ s. Ret (- 1) s))
     else
       andthen (ustore32 fd (of_nat (the fd0)) s) (\<lambda>_ s.
       andthen (ustore32 (fd + 4) (of_nat (the fd1)) s) (\<lambda>_ s. Ret 0 s))))"

subsection \<open>Processes\<close>

definition sys_exit :: "'x kernel_scheme \<Rightarrow> (int, 'x kernel_scheme) outcome" where
  "sys_exit s = andthen (exit s) (\<lambda>_ s. Ret 0 s)"

definition sys_kill :: "'x kernel_scheme \<Rightarrow> (int, 'x kernel_scheme) outcome" where
  "sys_kill s = orfail (argint 0 s) (\<lambda>pid s. kill (sint pid) s)"

definition sys_getpid :: "'x kernel_scheme \<Rightarrow> (int, 'x kernel_scheme) outcome" where
  "sys_getpid s = Ret (p_pid (pr s (myproc s))) s"

definition sys_sbrk :: "'x kernel_scheme \<Rightarrow> (int, 'x kernel_scheme) outcome" where
  "sys_sbrk s =
     orfail (argint 0 s) (\<lambda>n s.
     let addr = p_topofheap (pr s (main_of s)) in
     andthen (growproc (sint n) s) (\<lambda>r s. Ret (if r < 0 then - 1 else sint addr) s))"

definition sys_sleep :: "'x kernel_scheme \<Rightarrow> (int, 'x kernel_scheme) outcome" where
  "sys_sleep s =
     orfail (argint 0 s) (\<lambda>n s.
     andthen (acquire TicksLock s) (\<lambda>_ s.
     if 0 < n then
       (if p_killed (pr s (myproc s)) then andthen (release TicksLock s) (\<lambda>_ s. Ret (- 1) s)
        else andthen (sleep (Some TicksChan) (Some TicksLock) s) (\<lambda>_ s. Ret 0 s))
     else andthen (release TicksLock s) (\<lambda>_ s. Ret 0 s)))"

text \<open>The loop of \<open>sys_sleep\<close> when the process is woken again; \<open>tickslock\<close> is held.\<close>

definition sys_sleep_again :: "u32 \<Rightarrow> u32 \<Rightarrow> 'x kernel_scheme \<Rightarrow> (int, 'x kernel_scheme) outcome" where
  "sys_sleep_again n ticks0 s =
     (if ticks s - ticks0 < n then
        (if p_killed (pr s (myproc s)) then andthen (release TicksLock s) (\<lambda>_ s. Ret (- 1) s)
         else andthen (sleep (Some TicksChan) (Some TicksLock) s) (\<lambda>_ s. Ret 0 s))
      else andthen (release TicksLock s) (\<lambda>_ s. Ret 0 s))"

definition sys_uptime :: "'x kernel_scheme \<Rightarrow> (int, 'x kernel_scheme) outcome" where
  "sys_uptime s =
     andthen (acquire TicksLock s) (\<lambda>_ s.
     let xticks = ticks s in
     andthen (release TicksLock s) (\<lambda>_ s. Ret (sint xticks) s))"

definition sys_yield :: "'x kernel_scheme \<Rightarrow> (int, 'x kernel_scheme) outcome" where
  "sys_yield s = andthen (yield s) (\<lambda>_ s. Ret 0 s)"

definition sys_getlev :: "'x kernel_scheme \<Rightarrow> (int, 'x kernel_scheme) outcome" where
  "sys_getlev s = Ret (int (p_level (pr s (myproc s)))) s"

definition sys_set_cpu_share :: "'x kernel_scheme \<Rightarrow> (int, 'x kernel_scheme) outcome" where
  "sys_set_cpu_share s = orfail (argint 0 s) (\<lambda>percent s. set_cpu_share (sint percent) s)"

definition sys_thread_create :: "'x kernel_scheme \<Rightarrow> (int, 'x kernel_scheme) outcome" where
  "sys_thread_create s =
     orfail (argint 0 s) (\<lambda>thread s.
     orfail (argint 1 s) (\<lambda>start_routine s.
     orfail (argint 2 s) (\<lambda>arg s. thread_create thread start_routine arg s)))"

definition sys_thread_exit :: "'x kernel_scheme \<Rightarrow> (int, 'x kernel_scheme) outcome" where
  "sys_thread_exit s =
     orfail (argint 0 s) (\<lambda>retval s. andthen (thread_exit retval s) (\<lambda>_ s. Ret 0 s))"

definition sys_thread_join :: "'x kernel_scheme \<Rightarrow> (int, 'x kernel_scheme) outcome" where
  "sys_thread_join s =
     orfail (argint 0 s) (\<lambda>thread s.
     orfail (argint 1 s) (\<lambda>retval s. thread_join (sint thread) retval s))"

definition my_syscall :: "u8 list \<Rightarrow> 'x kernel_scheme \<Rightarrow> (int, 'x kernel_scheme) outcome" where
  "my_syscall str s =
     andthen (cprintf [37, 115, 10] (\<lambda>_. 1) (\<lambda>_. str) s) (\<lambda>_ s. Ret (sint (0xABCDABCD :: u32)) s)"

definition sys_my_syscall :: "'x kernel_scheme \<Rightarrow> (int, 'x kernel_scheme) outcome" where
  "sys_my_syscall s = orfail (argstr 0 s) (\<lambda>str s. my_syscall str s)"

text \<open>
  \<open>getppid\<close> follows the parent pointer. The first process has none: the kernel then reads the word
  at offset 24, the place of \<open>pid\<close> in \<open>struct proc\<close>, of the process's own memory.
\<close>

definition sys_getppid :: "'x kernel_scheme \<Rightarrow> (int, 'x kernel_scheme) outcome" where
  "sys_getppid s =
     (case p_parent (pr s (myproc s)) of
        None \<Rightarrow> andthen (uload32 24 s) (\<lambda>w s. Ret (sint w) s)
      | Some p \<Rightarrow> Ret (p_pid (pr s p)) s)"

subsection \<open>Dispatch\<close>

definition syscalls :: "int \<Rightarrow> ('x kernel_scheme \<Rightarrow> (int, 'x kernel_scheme) outcome) option" where
  "syscalls num =
     (if num < 1 \<or> num > 29 then None
      else Some ([fork, sys_exit, wait, sys_pipe, sys_read, sys_kill, sys_exec, sys_fstat, sys_chdir, sys_dup,
        sys_getpid, sys_sbrk, sys_sleep, sys_uptime, sys_open, sys_write, sys_mknod, sys_unlink, sys_link,
        sys_mkdir, sys_close, sys_my_syscall, sys_getppid, sys_yield, sys_getlev, sys_set_cpu_share,
        sys_thread_create, sys_thread_exit, sys_thread_join] ! nat (num - 1)))"

definition set_eax :: "int \<Rightarrow> 'x kernel_scheme \<Rightarrow> 'x kernel_scheme" where
  "set_eax r s = upd_proc (myproc s) (\<lambda>q. q\<lparr>p_tf := (p_tf q)\<lparr>tf_eax := of_int r\<rparr>\<rparr>) s"

definition syscall :: "'x kernel_scheme \<Rightarrow> (unit, 'x kernel_scheme) outcome" where
  "syscall s =
     (case syscalls (sint (tf_eax (p_tf (pr s (myproc s))))) of
        None \<Rightarrow> Ret () (set_eax (- 1) s)
      | Some f \<Rightarrow> andthen (f s) (\<lambda>r s. Ret () (set_eax r s)))"

subsection \<open>Traps\<close>

text \<open>
  \<open>trap(tf)\<close> on CPU number \<open>cpunum\<close>; \<open>keys\<close> is what the keyboard or the serial port delivers. The
  trap frame of a system call becomes the process's. What follows the \<open>yield\<close> of a clock tick is
  \<open>trap_return\<close>.
\<close>

definition killed_in_user :: "trapframe \<Rightarrow> 'x kernel_scheme \<Rightarrow> bool" where
  "killed_in_user tf s \<longleftrightarrow> cur s \<noteq> None \<and> p_killed (pr s (myproc s)) \<and> tf_cs tf AND 3 = 3"

definition trap_event :: "nat \<Rightarrow> int list \<Rightarrow> trapframe \<Rightarrow> 'x kernel_scheme \<Rightarrow> (unit, 'x kernel_scheme) outcome" where
  "trap_event cpunum keys tf s =
     (if tf_trapno tf = 32 then
        (if cpunum = 0 then
           andthen (acquire TicksLock s) (\<lambda>_ s.
           andthen (wakeup (Some TicksChan) (s\<lparr>ticks := ticks s + 1\<rparr>)) (\<lambda>_ s. release TicksLock s))
         else Ret () s)
      else if tf_trapno tf = 46 \<or> tf_trapno tf = 47 then Ret () s
      else if tf_trapno tf = 33 \<or> tf_trapno tf = 36 then consoleintr keys s
      else if tf_trapno tf = 39 \<or> tf_trapno tf = 63 then Ret () s
      else if cur s = None \<or> tf_cs tf AND 3 = 0 then Panic ''trap''
      else Ret () (upd_proc (myproc s) (\<lambda>q. q\<lparr>p_killed := True\<rparr>) s))"

definition trap :: "nat \<Rightarrow> int list \<Rightarrow> trapframe \<Rightarrow> 'x kernel_scheme \<Rightarrow> (unit, 'x kernel_scheme) outcome" where
  "trap cpunum keys tf s =
     (if tf_trapno tf = 128 then Ret () s
      else if tf_trapno tf = 64 then
        andthen (if p_killed (pr s (myproc s)) then exit s else Ret () s) (\<lambda>_ s.
        andthen (syscall (upd_proc (myproc s) (\<lambda>q. q\<lparr>p_tf := tf\<rparr>) s)) (\<lambda>_ s.
        if p_killed (pr s (myproc s)) then exit s else Ret () s))
      else
        andthen (trap_event cpunum keys tf s) (\<lambda>_ s.
        andthen (if killed_in_user tf s then exit s else Ret () s) (\<lambda>_ s.
        andthen (if cur s \<noteq> None \<and> p_state (pr s (myproc s)) = RUNNING \<and> tf_trapno tf = 32 then yield s else Ret () s) (\<lambda>_ s.
        if killed_in_user tf s then exit s else Ret () s))))"

definition trap_return :: "bool \<Rightarrow> trapframe \<Rightarrow> 'x kernel_scheme \<Rightarrow> (unit, 'x kernel_scheme) outcome" where
  "trap_return saved tf s =
     andthen (yield_return saved s) (\<lambda>_ s.
     if killed_in_user tf s then exit s else Ret () s)"

end
