(* ===== verification/Example.thy ===== *)
theory Example
  imports Proc Log_Spec
begin

text \<open>
  One concrete machine, used to show that the hypotheses of properties can hold: the file system and
  log state \<open>ex_klog\<close> of theory \<open>Log_Props\<close>, an empty inode cache, a console, an empty file table and
  one pipe whose indices are about to wrap around. Process 0 is running and holds no lock.
\<close>

definition ex_inode :: inode where
  "ex_inode = \<lparr>i_dev = 0, i_inum = 0, i_ref = 0, i_valid = False, i_type = 0, i_major = 0, i_minor = 0,
     i_nlink = 0, i_size = 0, i_addrs = (\<lambda>_. 0)\<rparr>"

definition ex_sb :: superblock where
  "ex_sb = \<lparr>sb_size = 100, sb_nblocks = 60, sb_ninodes = 16, sb_nlog = 30, sb_logstart = 2, sb_inodestart = 32,
     sb_bmapstart = 34\<rparr>"

definition ex_file :: file_struct where
  "ex_file = \<lparr>f_type = FD_NONE, f_ref = 0, f_readable = False, f_writable = False, f_pipe = 0, f_ip = None,
     f_off = 0\<rparr>"

definition ex_pipe :: pipe where
  "ex_pipe = \<lparr>pi_data = (\<lambda>_. 0), pi_nread = - 1, pi_nwrite = - 1, pi_readopen = True, pi_writeopen = True\<rparr>"

definition ex_kernel :: kernel where
  "ex_kernel =
     kfile.extend
       (kcons.extend
         (kfs.extend
           (klog.extend ex_klog (kfs.fields ex_sb (\<lambda>_. ex_inode)))
           (kcons.fields False True [] (\<lambda>_. 0) 0 (\<lambda>_. 0) 0 0 0 (\<lambda>_. None) (\<lambda>_. None)))
         (kfile.fields (\<lambda>_. ex_file) (\<lambda>_. ex_pipe)))
       (kernel.fields True 0)"

lemmas ex_kernel_unfold = ex_kernel_def kfile.defs kcons.defs kfs.defs klog.defs kernel.defs

lemma ex_kernel_select:
  "pipes ex_kernel = (\<lambda>_. ex_pipe)" "ftable ex_kernel = (\<lambda>_. ex_file)" "icache ex_kernel = (\<lambda>_. ex_inode)"
  "sb ex_kernel = ex_sb" "panicked ex_kernel = False" "crt_pos ex_kernel = 0"
  "input_r ex_kernel = 0" "input_w ex_kernel = 0" "input_e ex_kernel = 0"
  "ptable ex_kernel = ptable ex_klog" "cur ex_kernel = cur ex_klog"
  "ncli ex_kernel = ncli ex_klog" "locks ex_kernel = locks ex_klog" "intena ex_kernel = intena ex_klog"
  "eflags_IF ex_kernel = eflags_IF ex_klog"
  by (simp_all add: ex_kernel_unfold)

lemma klog_truncate_extend:
  "klog.truncate (klog.extend r m) = r" "klog.truncate (kfs.extend a b) = klog.truncate a"
  "klog.truncate (kcons.extend c d) = klog.truncate c" "klog.truncate (kfile.extend e f) = klog.truncate e"
  by (simp_all add: kfile.defs kcons.defs kfs.defs klog.defs)

lemma ex_kernel_klog: "klog.truncate ex_kernel = ex_klog"
  by (simp add: ex_kernel_def klog_truncate_extend)

lemma ex_kernel_rest:
  "ncli ex_kernel = 0" "locks ex_kernel = []" "cpu_ok ex_kernel" "\<not> holding l ex_kernel"
  by (simp_all add: ex_kernel_select ex_klog_ok cpu_ok_def holding_def)

end
