(* ===== verification/Ring.thy ===== *)
theory Ring
  imports Prelude
begin

text \<open>
  Ring buffers with free-running 32-bit indices, as pipes and the console's input use them: the
  element at index \<open>i\<close> is in slot \<open>i mod N\<close>, and the buffer holds what lies between the read and
  the write index, also after the indices have wrapped around.

  The locale \<open>byte_fifo\<close> is the contract of a bounded queue of bytes; it is interpreted on \<open>struct pipe\<close>
  (theory \<open>File_Props\<close>) and on the console's \<open>input\<close> (theory \<open>Console_Props\<close>).
\<close>

definition ring_list :: "nat \<Rightarrow> (nat \<Rightarrow> u8) \<Rightarrow> u32 \<Rightarrow> u32 \<Rightarrow> u8 list" where
  "ring_list N d r w = map (\<lambda>k. d (unat (r + of_nat k) mod N)) [0..<unat (w - r)]"

lemma length_ring_list [simp]: "length (ring_list N d r w) = unat (w - r)"
  by (simp add: ring_list_def)

lemma unat_add_mod:
  assumes "N dvd 2 ^ 32"
  shows "unat (r + of_nat k :: u32) mod N = (unat r + k) mod N"
proof -
  have "unat (r + of_nat k :: u32) = (unat r + k mod 2 ^ 32) mod 2 ^ 32"
    by (simp add: unat_word_ariths unat_of_nat)
  then have "unat (r + of_nat k :: u32) mod N = (unat r + k mod 2 ^ 32) mod N"
    using assms by (simp add: mod_mod_cancel)
  also have "\<dots> = (unat r + (k mod 2 ^ 32) mod N) mod N" by (simp add: mod_add_right_eq)
  also have "\<dots> = (unat r + k) mod N" using assms by (simp add: mod_mod_cancel mod_add_right_eq)
  finally show ?thesis .
qed

lemma unat_next:
  assumes "unat (w - r :: u32) < 2 ^ 32 - 1"
  shows "unat (w + 1 - r) = Suc (unat (w - r))"
proof -
  have e: "w + 1 - r = (w - r) + 1" by simp
  show ?thesis unfolding e using assms by (simp add: unat_word_ariths(1) [of "w - r" 1])
qed

text \<open>Storing at the write index appends; the element at the read index is the first one.\<close>

lemma ring_list_put:
  assumes "N dvd 2 ^ 32" "N < 2 ^ 32" "unat (w - r) < N"
  shows "ring_list N (d(unat w mod N := b)) r (w + 1) = ring_list N d r w @ [b]"
proof -
  let ?n = "unat (w - r)"
  have w: "w = r + of_nat ?n" by simp
  have lt: "?n < 2 ^ 32 - 1" using assms(2,3) by simp
  have slot: "unat w mod N = (unat r + ?n) mod N" using unat_add_mod [OF assms(1), of r ?n] w by simp
  have other: "(unat r + k) mod N \<noteq> (unat r + ?n) mod N" if "k < ?n" for k
  proof
    assume "(unat r + k) mod N = (unat r + ?n) mod N"
    then have "k mod N = ?n mod N" by (simp add: nat_mod_eq_iff)
    then show False using that assms(3) by simp
  qed
  show ?thesis
    using assms other slot by (auto simp: ring_list_def unat_next [OF lt] unat_add_mod)
qed

lemma ring_list_get:
  assumes "r \<noteq> w"
  shows "ring_list N d r w = d (unat r mod N) # ring_list N d (r + 1) w"
proof -
  let ?n = "unat (w - r)"
  have pos: "0 < ?n" using assms by (simp add: unat_gt_0)
  have "unat (w - (r + 1)) = ?n - 1"
  proof -
    have e: "w - (r + 1) = (w - r) - 1" by simp
    show ?thesis unfolding e using pos by (subst unat_sub) (simp_all add: word_le_nat_alt)
  qed
  moreover have "[0..<?n] = 0 # map Suc [0..<?n - 1]"
    using pos by (simp add: upt_conv_Cons map_Suc_upt)
  ultimately show ?thesis by (simp add: ring_list_def add.assoc)
qed

lemma ring_list_empty_iff: "ring_list N d r w = [] \<longleftrightarrow> r = w"
proof -
  have "ring_list N d r w = [] \<longleftrightarrow> unat (w - r) = 0" by (simp add: ring_list_def)
  also have "\<dots> \<longleftrightarrow> w - r = 0" by (rule unat_eq_0)
  finally show ?thesis by auto
qed

lemma ring_list_last:
  assumes "r \<noteq> w"
  shows "ring_list N d r w = ring_list N d r (w - 1) @ [d (unat (w - 1) mod N)]"
proof -
  let ?n = "unat (w - r)"
  have pos: "0 < ?n" using assms by (simp add: unat_gt_0)
  have e: "w - 1 - r = (w - r) - 1" by simp
  have n: "unat (w - 1 - r) = ?n - 1" unfolding e using pos by (subst unat_sub) (simp_all add: word_le_nat_alt)
  have "of_nat (unat (w - 1 - r)) = w - 1 - r" by simp
  then have "r + of_nat (?n - 1) = w - 1" unfolding n by simp
  moreover have "[0..<?n] = [0..<?n - 1] @ [?n - 1]" using pos by (metis Suc_diff_1 le0 upt_Suc)
  ultimately show ?thesis unfolding ring_list_def n by (simp del: upt_Suc)
qed

text \<open>The committed part of a buffer: between \<open>r\<close> and an index \<open>w\<close> before its end \<open>e\<close>.\<close>

lemma ring_list_take:
  assumes "unat (w - r) \<le> unat (e - r)"
  shows "ring_list N d r w = take (unat (w - r)) (ring_list N d r e)"
  using assms by (simp add: ring_list_def take_map)

subsection \<open>The contract of a bounded byte queue\<close>

locale byte_fifo =
  fixes contents :: "'q \<Rightarrow> u8 list" and cap :: nat and ok :: "'q \<Rightarrow> bool"
    and put :: "u8 \<Rightarrow> 'q \<Rightarrow> 'q" and first :: "'q \<Rightarrow> u8" and skip :: "'q \<Rightarrow> 'q"
  assumes put: "ok q \<Longrightarrow> length (contents q) < cap \<Longrightarrow> ok (put b q) \<and> contents (put b q) = contents q @ [b]"
    and first: "ok q \<Longrightarrow> contents q = b # bs \<Longrightarrow> first q = b"
    and skip: "ok q \<Longrightarrow> contents q = b # bs \<Longrightarrow> ok (skip q) \<and> contents (skip q) = bs"
begin

lemma put_many:
  assumes "ok q" "length (contents q) + length bs \<le> cap"
  shows "ok (fold put bs q) \<and> contents (fold put bs q) = contents q @ bs"
  using assms
proof (induction bs arbitrary: q)
  case (Cons b bs)
  then have "ok (put b q)" "contents (put b q) = contents q @ [b]" using put [of q b] by simp_all
  then show ?case using Cons.IH [of "put b q"] Cons.prems(2) by simp
qed simp

lemma skip_many:
  assumes "ok q" "n \<le> length (contents q)"
  shows "ok ((skip ^^ n) q) \<and> contents ((skip ^^ n) q) = drop n (contents q)"
  using assms
proof (induction n)
  case (Suc n)
  then have ih: "ok ((skip ^^ n) q)" "contents ((skip ^^ n) q) = drop n (contents q)" by simp_all
  then have "contents ((skip ^^ n) q) = contents q ! n # drop (Suc n) (contents q)"
    using Suc.prems(2) by (simp add: Cons_nth_drop_Suc)
  then show ?case using skip [OF ih(1)] by simp
qed simp

text \<open>First in, first out: what has been put comes out again in order, after what was there.\<close>

lemma fifo:
  assumes "ok q" "length (contents q) + length bs \<le> cap" "k < length (contents q) + length bs"
  shows "first ((skip ^^ k) (fold put bs q)) = (contents q @ bs) ! k"
proof -
  have p: "ok (fold put bs q)" "contents (fold put bs q) = contents q @ bs" using put_many [OF assms(1,2)] by simp_all
  then have s: "ok ((skip ^^ k) (fold put bs q))" "contents ((skip ^^ k) (fold put bs q)) = drop k (contents q @ bs)"
    using skip_many [OF p(1), of k] assms(3) by simp_all
  have "drop k (contents q @ bs) = (contents q @ bs) ! k # drop (Suc k) (contents q @ bs)"
    using assms(3) by (simp add: Cons_nth_drop_Suc del: drop_append)
  then show ?thesis using first [OF s(1)] s(2) by simp
qed

end

end
