(* ===== verification/File_Props.thy ===== *)
theory File_Props
  imports Example Ring
begin

text \<open>
  Properties of pipes and of the file table (\<open>File\<close>). A pipe is a queue of bytes: the lemmas relate the
  ring buffer to the list of the bytes in it, through the contract \<open>byte_fifo\<close>.
\<close>

subsection \<open>Locks and updates\<close>

lemma locked_by_kfile [simp]:
  "ftable (locked_by l s) = ftable s" "pipes (locked_by l s) = pipes s"
  "upd_file f g (locked_by l s) = locked_by l (upd_file f g s)"
  "upd_pipe p h (locked_by l s) = locked_by l (upd_pipe p h s)"
  by (simp_all add: locked_by_def pushcli_def upd_file_def upd_pipe_def)

lemma upd_file_pipe_select [simp]:
  "ftable (upd_file f g s) = (ftable s)(f := g (ftable s f))" "pipes (upd_file f g s) = pipes s"
  "pipes (upd_pipe p h s) = (pipes s)(p := h (pipes s p))" "ftable (upd_pipe p h s) = ftable s"
  "ptable (upd_file f g s) = ptable s" "ptable (upd_pipe p h s) = ptable s"
  "cur (upd_file f g s) = cur s" "cur (upd_pipe p h s) = cur s"
  "ncli (upd_pipe p h s) = ncli s" "locks (upd_pipe p h s) = locks s" "eflags_IF (upd_pipe p h s) = eflags_IF s"
  "intena (upd_pipe p h s) = intena s"
  "cpu_ok (upd_file f g s) = cpu_ok s" "cpu_ok (upd_pipe p h s) = cpu_ok s"
  "holding l (upd_file f g s) = holding l s" "holding l (upd_pipe p h s) = holding l s"
  by (simp_all add: upd_file_def upd_pipe_def cpu_ok_def holding_def)

lemma wakeup1_select [simp]:
  "pipes (wakeup1 ch s) = pipes s" "ftable (wakeup1 ch s) = ftable s"
  "cur (wakeup1 ch s') = cur s'" "ncli (wakeup1 ch s') = ncli s'" "locks (wakeup1 ch s') = locks s'"
  "eflags_IF (wakeup1 ch s') = eflags_IF s'" "intena (wakeup1 ch s') = intena s'"
  by (simp_all add: wakeup1_def)

text \<open>Sleeping with one lock held: the state the scheduler finds.\<close>

definition slept :: "chan \<Rightarrow> 'x kproc_scheme \<Rightarrow> 'x kproc_scheme" where
  "slept ch s = charged (asleep ch (s\<lparr>ncli := 1, intena := eflags_IF s, eflags_IF := False, locks := [PtableLock]\<rparr>))"

lemma sleep_slept:
  assumes "ncli s = 0" "locks s = []" "cur s = Some p" "l \<noteq> PtableLock"
  shows "sleep (Some ch) (Some l) (locked_by l s) = Swtch (slept ch s)"
proof -
  let ?v = "locked_by PtableLock (locked_by l s)"
  let ?u = "s\<lparr>ncli := 1, intena := eflags_IF s, eflags_IF := False, locks := [PtableLock]\<rparr>"
  have rel: "release l ?v = Ret () ?u"
    using assms by (cases s) (auto simp: release_def holding_def popcli_def locked_by_def pushcli_def)
  have acq: "acquire PtableLock (locked_by l s) = Ret () ?v"
    using assms by (intro acquire_free) (simp add: holding_def locked_by_top)
  have "sched (asleep ch ?u) = Swtch (charged (asleep ch ?u))"
    using assms by (intro sched_switches [where p = p]) (simp_all add: asleep_def upd_proc_def)
  then show ?thesis using assms acq rel by (simp add: sleep_def asleep_def slept_def)
qed

lemma slept_select [simp]:
  "pipes (slept ch s) = pipes s" "ftable (slept ch s) = ftable s"
  by (simp_all add: slept_def charged_def asleep_def Let_def boost_def upd_proc_def upd_stride_def)

subsection \<open>A pipe as a queue\<close>

definition pipe_bytes :: "pipe \<Rightarrow> u8 list" where
  "pipe_bytes q = ring_list PIPESIZE (pi_data q) (pi_nread q) (pi_nwrite q)"

definition pipe_ok :: "pipe \<Rightarrow> bool" where
  "pipe_ok q \<longleftrightarrow> unat (pi_nwrite q - pi_nread q) \<le> PIPESIZE"

definition pipe_skip :: "pipe \<Rightarrow> pipe" where
  "pipe_skip q = q\<lparr>pi_nread := pi_nread q + 1\<rparr>"

lemma pipe_dvd: "PIPESIZE dvd 2 ^ 32" "PIPESIZE < 2 ^ 32"
  by simp_all

lemma pipe_length: "length (pipe_bytes q) = unat (pi_nwrite q - pi_nread q)"
  by (simp add: pipe_bytes_def)

lemma pipe_empty_iff: "pipe_bytes q = [] \<longleftrightarrow> pi_nread q = pi_nwrite q"
  by (simp add: pipe_bytes_def ring_list_empty_iff)

lemma pipe_full_iff: "pipe_ok q \<Longrightarrow> pipe_full q \<longleftrightarrow> length (pipe_bytes q) = PIPESIZE"
proof -
  have "pi_nwrite q = pi_nread q + of_nat PIPESIZE \<longleftrightarrow> pi_nwrite q - pi_nread q = of_nat PIPESIZE"
    by (auto simp: algebra_simps)
  also have "\<dots> \<longleftrightarrow> unat (pi_nwrite q - pi_nread q) = unat (of_nat PIPESIZE :: u32)"
    by (rule word_unat_eq_iff)
  finally show ?thesis by (simp add: pipe_full_def pipe_bytes_def)
qed

interpretation pipe: byte_fifo pipe_bytes PIPESIZE pipe_ok pipe_put pipe_get pipe_skip
proof
  show "pipe_ok (pipe_put b q) \<and> pipe_bytes (pipe_put b q) = pipe_bytes q @ [b]"
    if "pipe_ok q" "length (pipe_bytes q) < PIPESIZE" for q b
  proof -
    have n: "unat (pi_nwrite q - pi_nread q) < PIPESIZE" using that(2) by (simp add: pipe_bytes_def)
    have "unat (pi_nwrite q + 1 - pi_nread q) = Suc (unat (pi_nwrite q - pi_nread q))"
      using n by (intro unat_next) simp
    then show ?thesis
      using n ring_list_put [OF pipe_dvd n] by (simp add: pipe_ok_def pipe_bytes_def pipe_put_def)
  qed
  show "pipe_get q = b" if "pipe_ok q" "pipe_bytes q = b # bs" for q b bs
    using that ring_list_get [of "pi_nread q" "pi_nwrite q"] ring_list_empty_iff [of PIPESIZE "pi_data q"]
    by (metis list.distinct(1) list.inject pipe_bytes_def pipe_get_def)
  show "pipe_ok (pipe_skip q) \<and> pipe_bytes (pipe_skip q) = bs" if "pipe_ok q" "pipe_bytes q = b # bs" for q b bs
  proof -
    have ne: "pi_nread q \<noteq> pi_nwrite q" using that(2) pipe_empty_iff [of q] by simp
    have "pipe_bytes (pipe_skip q) = bs"
      using that(2) ring_list_get [OF ne, of PIPESIZE "pi_data q"] by (simp add: pipe_bytes_def pipe_skip_def)
    moreover from this have "length (pipe_bytes (pipe_skip q)) \<le> length (pipe_bytes q)" using that(2) by simp
    ultimately show ?thesis using that(1) pipe_length [of "pipe_skip q"] by (simp add: pipe_ok_def pipe_length)
  qed
qed

text \<open>The writer's loop: it puts bytes until the pipe is full or there are no more.\<close>

lemma upd_pipe_twice: "upd_pipe p g (upd_pipe p f s) = upd_pipe p (\<lambda>q. g (f q)) s"
  by (simp add: upd_pipe_def)

lemma upd_pipe_id [simp]: "upd_pipe p (\<lambda>q. q) s = s"
  by (simp add: upd_pipe_def)

lemma pipewrite_loop_room:
  assumes "pipe_ok (pipes s p)" "length (pipe_bytes (pipes s p)) + length bs \<le> PIPESIZE"
  shows "pipewrite_loop p bs s = Ret True (upd_pipe p (fold pipe_put bs) s)"
  using assms
proof (induction bs arbitrary: s)
  case (Cons b bs)
  let ?s = "upd_pipe p (pipe_put b) s"
  have lt: "length (pipe_bytes (pipes s p)) < PIPESIZE" using Cons.prems(2) by simp
  then have "\<not> pipe_full (pipes s p)" using pipe_full_iff [OF Cons.prems(1)] by simp
  moreover have "pipe_ok (pipes ?s p)" "pipe_bytes (pipes ?s p) = pipe_bytes (pipes s p) @ [b]"
    using pipe.put [OF Cons.prems(1) lt, of b] by simp_all
  then have "pipewrite_loop p bs ?s = Ret True (upd_pipe p (fold pipe_put bs) ?s)"
    using Cons.prems(2) by (intro Cons.IH) simp_all
  ultimately show ?case by (simp add: upd_pipe_twice comp_def)
qed (simp add: upd_pipe_def)

lemma pipewrite_loop_append:
  assumes "pipe_ok (pipes s p)" "length (pipe_bytes (pipes s p)) + length bs \<le> PIPESIZE"
  shows "pipewrite_loop p (bs @ cs) s = pipewrite_loop p cs (upd_pipe p (fold pipe_put bs) s)"
  using assms
proof (induction bs arbitrary: s)
  case (Cons b bs)
  let ?s = "upd_pipe p (pipe_put b) s"
  have lt: "length (pipe_bytes (pipes s p)) < PIPESIZE" using Cons.prems(2) by simp
  then have "\<not> pipe_full (pipes s p)" using pipe_full_iff [OF Cons.prems(1)] by simp
  moreover have "pipe_ok (pipes ?s p)" "pipe_bytes (pipes ?s p) = pipe_bytes (pipes s p) @ [b]"
    using pipe.put [OF Cons.prems(1) lt, of b] by simp_all
  then have "pipewrite_loop p (bs @ cs) ?s = pipewrite_loop p cs (upd_pipe p (fold pipe_put bs) ?s)"
    using Cons.prems(2) by (intro Cons.IH) simp_all
  ultimately show ?case by (simp add: upd_pipe_twice comp_def)
qed (simp add: upd_pipe_def)

lemma piperead_loop_takes:
  assumes "pipe_ok (pipes s p)"
  shows "piperead_loop p n s = (take n (pipe_bytes (pipes s p)),
    upd_pipe p (pipe_skip ^^ min n (length (pipe_bytes (pipes s p)))) s)"
  using assms
proof (induction n arbitrary: s)
  case (Suc n)
  show ?case
  proof (cases "pipe_bytes (pipes s p)")
    case Nil
    then have "pi_nread (pipes s p) = pi_nwrite (pipes s p)" by (simp add: pipe_empty_iff)
    then show ?thesis using Nil by (simp add: upd_pipe_def)
  next
    case (Cons b bs)
    then have ne: "pi_nread (pipes s p) \<noteq> pi_nwrite (pipes s p)"
      using pipe_empty_iff [of "pipes s p"] by simp
    let ?s = "upd_pipe p pipe_skip s"
    have s: "pipe_ok (pipes ?s p)" "pipe_bytes (pipes ?s p) = bs" using pipe.skip [OF Suc.prems Cons] by simp_all
    have "(\<lambda>q. q\<lparr>pi_nread := pi_nread q + 1\<rparr>) = pipe_skip" by (simp add: fun_eq_iff pipe_skip_def)
    then show ?thesis
      using ne Cons Suc.IH [OF s(1)] pipe.first [OF Suc.prems Cons] s(2)
      by (simp add: Let_def upd_pipe_twice funpow_swap1 comp_def)
  qed
qed (simp add: upd_pipe_def)

subsection \<open>Properties\<close>

text \<open>
  C35. A pipe is first in, first out. When the bytes fit, \<open>pipewrite\<close> returns their number, and a later
  \<open>piperead\<close> of up to \<open>n\<close> bytes returns the first \<open>n\<close> of what was in the pipe followed by what was
  written, also when the indices have wrapped around; the rest stays in the pipe.
\<close>

theorem pipe_write_read:
  fixes s :: "'x kfile_scheme"
  assumes rest: "cpu_ok s" "\<not> holding (PipeLock p) s" "\<not> holding PtableLock s" and ok: "pipe_ok (pipes s p)"
    and room: "length (pipe_bytes (pipes s p)) + length bs \<le> PIPESIZE"
    and some: "pipe_bytes (pipes s p) @ bs \<noteq> []" and n: "0 \<le> n"
  shows "\<exists>t u. pipewrite p bs s = Ret (int (length bs)) t
    \<and> piperead p n t = Ret (int (length (take (nat n) (pipe_bytes (pipes s p) @ bs))), take (nat n) (pipe_bytes (pipes s p) @ bs)) u
    \<and> pipe_bytes (pipes u p) = drop (nat n) (pipe_bytes (pipes s p) @ bs)"
proof -
  let ?c = "pipe_bytes (pipes s p) @ bs"
  let ?w = "upd_pipe p (fold pipe_put bs) s"
  let ?t = "wakeup1 (Some (PipeReadChan p)) ?w"
  have w: "pipe_ok (pipes ?w p)" "pipe_bytes (pipes ?w p) = ?c" using pipe.put_many [OF ok room] by simp_all
  have loop: "pipewrite_loop p bs (locked_by (PipeLock p) s) = Ret True (locked_by (PipeLock p) ?w)"
    using pipewrite_loop_room [of "locked_by (PipeLock p) s" p bs] ok room by simp
  have wr: "pipewrite p bs s = Ret (int (length bs)) ?t"
    using rest loop
    by (simp add: pipewrite_def acquire_free wakeup_eq cpu_ok_locked_by release_locked_by)
  have ne: "pi_nread (pipes ?t p) \<noteq> pi_nwrite (pipes ?t p)"
    using w(2) some pipe_empty_iff [of "pipes ?t p"] by auto
  let ?m = "min (nat n) (length ?c)"
  let ?v = "upd_pipe p (pipe_skip ^^ ?m) ?t"
  have rd: "piperead_loop p (nat n) (locked_by (PipeLock p) ?t) = (take (nat n) ?c, locked_by (PipeLock p) ?v)"
    using piperead_loop_takes [of "locked_by (PipeLock p) ?t" p "nat n"] w by simp
  let ?u = "wakeup1 (Some (PipeWriteChan p)) ?v"
  have "piperead p n ?t = Ret (int (length (take (nat n) ?c)), take (nat n) ?c) ?u"
    using rest ne rd
    by (simp add: piperead_def acquire_free wakeup_eq cpu_ok_locked_by release_locked_by)
  moreover have "pipe_bytes (pipes ?u p) = drop (nat n) ?c"
    using pipe.skip_many [OF w(1), of ?m] w(2) by (auto simp: min_def)
  ultimately show ?thesis using wr by blast
qed

theorem pipe_write_read_witness:
  "\<exists>t u. pipewrite 4096 [7, 8] ex_kernel = Ret 2 t \<and> piperead 4096 5 t = Ret (2, [7, 8]) u"
proof -
  have "pipe_bytes (pipes ex_kernel 4096) = []" "pipe_ok (pipes ex_kernel 4096)"
    by (simp_all add: ex_kernel_select ex_pipe_def pipe_empty_iff pipe_ok_def)
  then show ?thesis using pipe_write_read [of ex_kernel 4096 "[7, 8]" 5] ex_kernel_rest by auto
qed

lemma pipewrite_loop_stops:
  assumes full: "pipe_full (pipes s p)" "bs \<noteq> []" and top: "ncli s = 0" "locks s = []" "cur s = Some q"
  shows "pipewrite_loop p bs (locked_by (PipeLock p) s) =
    (if \<not> pi_readopen (pipes s p) \<or> p_killed (ptable s q) then Ret False (locked_by (PipeLock p) s)
     else Swtch (slept (PipeWriteChan p) (wakeup1 (Some (PipeReadChan p)) s)))"
proof -
  have "wakeup (Some (PipeReadChan p)) (locked_by (PipeLock p) s) = Ret () (locked_by (PipeLock p) (wakeup1 (Some (PipeReadChan p)) s))"
    using top by (subst wakeup_eq) (simp_all add: cpu_ok_def locked_by_top, simp add: holding_def locked_by_top)
  moreover have "sleep (Some (PipeWriteChan p)) (Some (PipeLock p)) (locked_by (PipeLock p) (wakeup1 (Some (PipeReadChan p)) s))
      = Swtch (slept (PipeWriteChan p) (wakeup1 (Some (PipeReadChan p)) s))"
    using top by (intro sleep_slept [where p = q]) simp_all
  ultimately show ?thesis using full top by (cases bs) simp_all
qed



end
