(* ===== verification/Console_Props.thy ===== *)
theory Console_Props
  imports Example Ring
begin

text \<open>
  Properties of the console (\<open>Console\<close>): the cursor stays on the screen, numbers are printed as
  decimal numerals, and the input buffer with its three indices implements a line editor.
\<close>

subsection \<open>Output\<close>

definition cga_ok :: "'x kcons_scheme \<Rightarrow> bool" where
  "cga_ok s \<longleftrightarrow> 0 \<le> crt_pos s \<and> crt_pos s < 24 * 80"

text \<open>What \<open>consputc\<close> changes.\<close>

definition shown :: "u8 list \<Rightarrow> (nat \<Rightarrow> u16) \<Rightarrow> int \<Rightarrow> 'x kcons_scheme \<Rightarrow> 'x kcons_scheme" where
  "shown u c p s = s\<lparr>uart_out := u, crt := c, crt_pos := p\<rparr>"

lemma cgaputc_ok:
  assumes "cga_ok s"
  shows "\<exists>c p. cgaputc x s = Ret () (s\<lparr>crt_pos := p, crt := c\<rparr>) \<and> 0 \<le> p \<and> p < 24 * 80
    \<and> (\<forall>i\<ge>24 * 80. c i = crt s i)"
proof -
  define p1 where "p1 = cga_move x (crt_pos s)"
  define m where "m = (if x \<noteq> 10 \<and> x \<noteq> BACKSPACE
    then (crt s)(nat (crt_pos s) := or (and (of_int x) 0xff) 0x0700) else crt s)"
  define p2 where "p2 = (if p1 div 80 \<ge> 24 then p1 - 80 else p1)"
  define m' where "m' = (if p1 div 80 \<ge> 24 then cga_scroll p2 m else m)"
  have q: "0 \<le> crt_pos s" "crt_pos s < 1920" using assms by (simp_all add: cga_ok_def)
  have "crt_pos s + (80 - crt_pos s mod 80) = (crt_pos s div 80 + 1) * 80"
    by (simp add: minus_mod_eq_div_mult [symmetric])
  moreover have "crt_pos s div 80 < 24" using q by simp
  ultimately have "crt_pos s + (80 - crt_pos s mod 80) \<le> 1920" "0 \<le> crt_pos s + (80 - crt_pos s mod 80)"
    using q by simp_all
  then have p1: "0 \<le> p1" "p1 \<le> 1920" using q by (auto simp: p1_def cga_move_def)
  then have p2: "0 \<le> p2" "p2 < 1920" by (auto simp: p2_def)
  have "cgaputc x s = Ret () (s\<lparr>crt_pos := p2, crt := m'(nat p2 := 0x0720)\<rparr>)"
    using p1 unfolding cgaputc_def Let_def p1_def [symmetric] m_def [symmetric] p2_def [symmetric] m'_def [symmetric]
    by simp
  moreover have "(m'(nat p2 := 0x0720)) i = crt s i" if "i \<ge> 24 * 80" for i
    using that q p2 by (auto simp: m'_def m_def cga_scroll_def)
  ultimately show ?thesis using p2 by (intro exI [of _ "m'(nat p2 := 0x0720)"] exI [of _ p2]) simp
qed

lemma consputc_ok:
  assumes "cga_ok s" "\<not> panicked s"
  shows "\<exists>u c p. consputc x s = Ret () (shown u c p s) \<and> 0 \<le> p \<and> p < 24 * 80 \<and> (\<forall>i\<ge>24 * 80. c i = crt s i)
    \<and> (x \<noteq> BACKSPACE \<longrightarrow> u = uart_out s @ [of_int x])"
proof -
  define u where "u = (if x = BACKSPACE then uart_out s @ [8, 32, 8] else uart_out s @ [of_int x])"
  have u: "(if x = BACKSPACE then uartputc 8 (uartputc 32 (uartputc 8 s)) else uartputc x s) = s\<lparr>uart_out := u\<rparr>"
    by (cases "x = BACKSPACE") (simp_all add: uartputc_def u_def)
  have b: "x \<noteq> BACKSPACE \<longrightarrow> u = uart_out s @ [of_int x]" by (simp add: u_def)
  have e: "consputc x s = cgaputc x (s\<lparr>uart_out := u\<rparr>)"
    using assms(2) unfolding consputc_def Let_def u by (rule if_not_P)
  have "cga_ok (s\<lparr>uart_out := u\<rparr>)" using assms(1) by (simp add: cga_ok_def)
  from cgaputc_ok [OF this, of x] obtain c p where
    r: "cgaputc x (s\<lparr>uart_out := u\<rparr>) = Ret () (s\<lparr>uart_out := u\<rparr>\<lparr>crt_pos := p, crt := c\<rparr>)" "0 \<le> p" "p < 24 * 80"
    and i: "\<forall>i\<ge>24 * 80. c i = crt (s\<lparr>uart_out := u\<rparr>) i"
    by blast
  have "s\<lparr>uart_out := u\<rparr>\<lparr>crt_pos := p, crt := c\<rparr> = shown u c p s" by (simp add: shown_def)
  then have "consputc x s = Ret () (shown u c p s)" using e r(1) by simp
  moreover have "\<forall>i\<ge>24 * 80. c i = crt s i" using i by simp
  ultimately show ?thesis using r(2,3) b by blast
qed

lemma shown_select [simp]:
  "input_r (shown u c p s) = input_r s" "input_w (shown u c p s) = input_w s" "input_e (shown u c p s) = input_e s"
  "input_buf (shown u c p s) = input_buf s" "panicked (shown u c p s) = panicked s" "crt_pos (shown u c p s) = p"
  "ncli (shown u c p s) = ncli s" "locks (shown u c p s) = locks s" "eflags_IF (shown u c p s) = eflags_IF s"
  "intena (shown u c p s) = intena s" "ptable (shown u c p s) = ptable s" "cur (shown u c p s) = cur s"
  "crt (shown u c p s) = c" "uart_out (shown u c p s) = u"
  by (simp_all add: shown_def)

lemma shown_shown: "shown u c p (shown u' c' p' s) = shown u c p s"
  by (simp add: shown_def)

lemma shown_id: "shown (uart_out s) (crt s) (crt_pos s) s = s"
  by (simp add: shown_def)

lemma consputs_ok:
  assumes "cga_ok s" "\<not> panicked s"
  shows "\<exists>c p. consputs bs s = Ret () (shown (uart_out s @ bs) c p s) \<and> 0 \<le> p \<and> p < 24 * 80 \<and> (\<forall>i\<ge>24 * 80. c i = crt s i)"
  using assms
proof (induction bs arbitrary: s)
  case Nil
  then show ?case
    using shown_id [of s] by (intro exI [of _ "crt s"] exI [of _ "crt_pos s"]) (simp add: cga_ok_def)
next
  case (Cons b bs)
  have "uint b < 256" by (rule order_less_le_trans [OF uint_lt2p]) simp
  then have nb: "uint b \<noteq> BACKSPACE" by simp
  obtain u c p where p: "consputc (uint b) s = Ret () (shown u c p s)" "0 \<le> p" "p < 24 * 80"
      "\<forall>i\<ge>24 * 80. c i = crt s i" "u = uart_out s @ [of_int (uint b)]"
    using consputc_ok [OF Cons.prems, of "uint b"] nb by blast
  let ?s = "shown u c p s"
  have u: "uart_out ?s = uart_out s @ [b]" using p(5) by simp
  have "cga_ok ?s" "\<not> panicked ?s" using Cons.prems(2) p(2,3) by (simp_all add: cga_ok_def)
  from Cons.IH [OF this] obtain c' p' where
    q: "consputs bs ?s = Ret () (shown (uart_out ?s @ bs) c' p' ?s)" "0 \<le> p'" "p' < 24 * 80" "\<forall>i\<ge>24 * 80. c' i = crt ?s i"
    by blast
  have "consputs (b # bs) s = Ret () (shown (uart_out s @ b # bs) c' p' s)"
    using p(1) q(1) u by (simp add: shown_shown)
  moreover have "\<forall>i\<ge>24 * 80. c' i = crt s i" using q(4) p(4) by simp
  ultimately show ?case using q(2,3) by blast
qed

subsection \<open>The line editor\<close>

text \<open>
  What the input buffer means: the bytes of finished lines that nobody has read, and the line being
  typed. \<open>ed_char\<close> is the editor's reaction to a key.
\<close>

type_synonym editor = "u8 list \<times> u8 list"

definition ed_char :: "int \<Rightarrow> editor \<Rightarrow> editor" where
  "ed_char c = (\<lambda>(lines, line).
     if c = 16 then (lines, line)
     else if c = 21 then (lines, [])
     else if c = 8 \<or> c = 0x7f then (lines, butlast line)
     else if c \<noteq> 0 \<and> length lines + length line < INPUT_BUF then
       let c = (if c = 13 then 10 else c);
           line = line @ [of_int c] in
       if c = 10 \<or> c = 4 \<or> length lines + length line = INPUT_BUF then (lines @ line, []) else (lines, line)
     else (lines, line))"

definition input_ring :: "'x kcons_scheme \<Rightarrow> u8 list" where
  "input_ring s = ring_list INPUT_BUF (input_buf s) (input_r s) (input_e s)"

definition edits :: "'x kcons_scheme \<Rightarrow> editor \<Rightarrow> bool" where
  "edits s = (\<lambda>(lines, line). unat (input_e s - input_r s) \<le> INPUT_BUF \<and> unat (input_w s - input_r s) = length lines
     \<and> input_ring s = lines @ line \<and> 10 \<notin> set line)"

definition cons_held :: "'x kcons_scheme \<Rightarrow> bool" where
  "cons_held s \<longleftrightarrow> ncli s = 1 \<and> locks s = [ConsLock] \<and> \<not> eflags_IF s \<and> cga_ok s \<and> \<not> panicked s"

lemma input_dvd: "INPUT_BUF dvd 2 ^ 32" "INPUT_BUF < 2 ^ 32"
  by simp_all

definition input_put :: "u8 \<Rightarrow> 'x kcons_scheme \<Rightarrow> 'x kcons_scheme" where
  "input_put b s = s\<lparr>input_buf := (input_buf s)(unat (input_e s) mod INPUT_BUF := b), input_e := input_e s + 1\<rparr>"

definition input_skip :: "'x kcons_scheme \<Rightarrow> 'x kcons_scheme" where
  "input_skip s = s\<lparr>input_r := input_r s + 1\<rparr>"

definition input_ok :: "'x kcons_scheme \<Rightarrow> bool" where
  "input_ok s \<longleftrightarrow> unat (input_e s - input_r s) \<le> INPUT_BUF"

lemma input_length: "length (input_ring s) = unat (input_e s - input_r s)"
  by (simp add: input_ring_def)

lemma input_empty_iff: "input_ring s = [] \<longleftrightarrow> input_r s = input_e s"
  by (simp add: input_ring_def ring_list_empty_iff)

interpretation input: byte_fifo input_ring INPUT_BUF input_ok input_put "\<lambda>s. inbuf (input_r s) s" input_skip
proof
  show "input_ok (input_put b s) \<and> input_ring (input_put b s) = input_ring s @ [b]"
    if "input_ok s" "length (input_ring s) < INPUT_BUF" for s :: "'x kcons_scheme" and b
  proof -
    have n: "unat (input_e s - input_r s) < INPUT_BUF" using that(2) by (simp add: input_length)
    have "unat (input_e s + 1 - input_r s) = Suc (unat (input_e s - input_r s))"
      using n by (intro unat_next) simp
    then show ?thesis
      using n ring_list_put [OF input_dvd n] by (simp add: input_ok_def input_ring_def input_put_def)
  qed
  show "inbuf (input_r s) s = b" if "input_ok s" "input_ring s = b # bs" for s :: "'x kcons_scheme" and b bs
    using that ring_list_get [of "input_r s" "input_e s"] input_empty_iff [of s]
    by (metis list.distinct(1) list.inject input_ring_def inbuf_def)
  show "input_ok (input_skip s) \<and> input_ring (input_skip s) = bs" if "input_ok s" "input_ring s = b # bs"
    for s :: "'x kcons_scheme" and b bs
  proof -
    have ne: "input_r s \<noteq> input_e s" using that(2) input_empty_iff [of s] by simp
    have "input_ring (input_skip s) = bs"
      using that(2) ring_list_get [OF ne, of INPUT_BUF "input_buf s"] by (simp add: input_ring_def input_skip_def)
    moreover from this have "length (input_ring (input_skip s)) \<le> length (input_ring s)" using that(2) by simp
    ultimately show ?thesis using that(1) input_length [of "input_skip s"] by (simp add: input_ok_def input_length)
  qed
qed

lemma edits_lengths:
  assumes "edits s (lines, line)"
  shows "unat (input_e s - input_r s) = length lines + length line" "input_e s \<noteq> input_w s \<longleftrightarrow> line \<noteq> []"
    "length lines + length line \<le> INPUT_BUF" "input_ok s"
proof -
  have "length (input_ring s) = length lines + length line" using assms by (simp add: edits_def)
  then show l: "unat (input_e s - input_r s) = length lines + length line" by (simp add: input_length)
  have "input_e s = input_w s \<longleftrightarrow> input_e s - input_r s = input_w s - input_r s" by simp
  also have "\<dots> \<longleftrightarrow> unat (input_e s - input_r s) = unat (input_w s - input_r s)" by (simp only: word_unat_eq_iff)
  finally show "input_e s \<noteq> input_w s \<longleftrightarrow> line \<noteq> []" using l assms by (simp add: edits_def)
  show "length lines + length line \<le> INPUT_BUF" "input_ok s" using l assms by (simp_all add: edits_def input_ok_def)
qed

text \<open>Backspace takes the last byte off the line.\<close>

lemma edits_erase:
  assumes "edits s (lines, line)" "line \<noteq> []"
  shows "edits (s\<lparr>input_e := input_e s - 1\<rparr>) (lines, butlast line)" "inbuf (input_e s - 1) s = last line"
proof -
  have ne: "input_r s \<noteq> input_e s"
    using assms input_empty_iff [of s] by (auto simp: edits_def)
  have r: "lines @ line = ring_list INPUT_BUF (input_buf s) (input_r s) (input_e s - 1) @ [inbuf (input_e s - 1) s]"
    using ring_list_last [OF ne, of INPUT_BUF "input_buf s"] assms(1) by (simp add: edits_def input_ring_def inbuf_def)
  have "butlast (lines @ line) = ring_list INPUT_BUF (input_buf s) (input_r s) (input_e s - 1)"
    unfolding r by simp
  then have b: "input_ring (s\<lparr>input_e := input_e s - 1\<rparr>) = lines @ butlast line"
    using assms(2) by (simp add: input_ring_def butlast_append)
  have "last (lines @ line) = inbuf (input_e s - 1) s" unfolding r by simp
  then show "inbuf (input_e s - 1) s = last line" using assms(2) by simp
  have "unat (input_e s - 1 - input_r s) = length lines + length (butlast line)"
    using input_length [of "s\<lparr>input_e := input_e s - 1\<rparr>"] b by simp
  then show "edits (s\<lparr>input_e := input_e s - 1\<rparr>) (lines, butlast line)"
    using assms b edits_lengths(3) [OF assms(1)] by (auto simp: edits_def dest: in_set_butlastD)
qed

lemma edits_shown [simp]: "edits (shown u c p s) x = edits s x"
  by (simp add: edits_def input_ring_def)

lemma cons_held_shown: "cons_held s \<Longrightarrow> 0 \<le> p \<Longrightarrow> p < 24 * 80 \<Longrightarrow> cons_held (shown u c p s)"
  by (simp add: cons_held_def cga_ok_def)

lemma kill_line_ok:
  assumes "edits s (lines, line)" "cons_held s"
  shows "\<exists>t. kill_line s = Ret () t \<and> edits t (lines, []) \<and> cons_held t \<and> intena t = intena s"
  using assms
proof (induction "length line" arbitrary: s line)
  case 0
  then have "input_e s = input_w s" using edits_lengths(2) [OF 0(2)] by simp
  then show ?case using 0 by (subst kill_line.simps) simp
next
  case (Suc n)
  then have ne: "line \<noteq> []" by auto
  let ?s = "s\<lparr>input_e := input_e s - 1\<rparr>"
  have e: "edits ?s (lines, butlast line)" "inbuf (input_e s - 1) s = last line" using edits_erase [OF Suc.prems(1) ne] by simp_all
  have "last line \<noteq> 10" using Suc.prems(1) ne by (auto simp: edits_def) (metis last_in_set)
  moreover have "input_e s \<noteq> input_w s" using edits_lengths(2) [OF Suc.prems(1)] ne by simp
  moreover have h: "cga_ok ?s" "\<not> panicked ?s" using Suc.prems(2) by (simp_all add: cons_held_def cga_ok_def)
  obtain u c p where p: "consputc BACKSPACE ?s = Ret () (shown u c p ?s)" "0 \<le> p" "p < 24 * 80"
    using consputc_ok [OF h] by blast
  ultimately have k: "kill_line s = kill_line (shown u c p ?s)"
    using e(2) by (subst kill_line.simps) simp
  have "cons_held ?s" using Suc.prems(2) by (simp add: cons_held_def cga_ok_def)
  then have "\<exists>t. kill_line (shown u c p ?s) = Ret () t \<and> edits t (lines, []) \<and> cons_held t \<and> intena t = intena (shown u c p ?s)"
    using e(1) Suc.hyps(2) p(2,3) by (intro Suc.hyps(1) [of "butlast line"]) (simp_all add: cons_held_shown)
  then show ?case using k by simp
qed

text \<open>A key that goes into the line.\<close>

lemma edits_put:
  assumes "edits s (lines, line)" "length lines + length line < INPUT_BUF" "b \<noteq> 10"
  shows "edits (input_put b s) (lines, line @ [b])"
proof -
  have "length (input_ring s) < INPUT_BUF" using assms(1,2) by (simp add: edits_def)
  then have "input_ok (input_put b s)" "input_ring (input_put b s) = input_ring s @ [b]"
    using input.put [OF edits_lengths(4) [OF assms(1)]] by blast+
  then show ?thesis using assms by (simp add: edits_def input_ok_def) (simp add: input_put_def)
qed

lemma edits_commit:
  assumes "edits s (lines, line)" "length lines + length line < INPUT_BUF"
  shows "edits ((input_put b s)\<lparr>input_w := input_e (input_put b s)\<rparr>) (lines @ line @ [b], [])"
proof -
  let ?t = "(input_put b s)\<lparr>input_w := input_e (input_put b s)\<rparr>"
  have "length (input_ring s) < INPUT_BUF" using assms by (simp add: edits_def)
  then have p: "input_ok (input_put b s)" "input_ring (input_put b s) = input_ring s @ [b]"
    using input.put [OF edits_lengths(4) [OF assms(1)]] by blast+
  moreover have "input_ring ?t = input_ring (input_put b s)" by (simp add: input_ring_def)
  ultimately have r: "input_ring ?t = lines @ line @ [b]" using assms(1) by (simp add: edits_def)
  have "unat (input_w ?t - input_r ?t) = length (input_ring (input_put b s))" by (simp add: input_length)
  then show ?thesis using p r assms(1) by (simp add: edits_def input_ok_def)
qed

lemma edits_wakeup1 [simp]: "edits (wakeup1 ch s) x = edits s x"
  by (simp add: edits_def input_ring_def wakeup1_def)

lemma cons_held_wakeup1: "cons_held s \<Longrightarrow> cons_held (wakeup1 ch s)"
  by (simp add: cons_held_def cga_ok_def wakeup1_def)

lemma cons_held_cpu: "cons_held s \<Longrightarrow> cpu_ok s" "cons_held s \<Longrightarrow> \<not> holding PtableLock s"
  by (simp_all add: cons_held_def cpu_ok_def holding_def)

lemma of_int_newline: "0 \<le> c \<Longrightarrow> c < 256 \<Longrightarrow> (of_int c :: u8) = 10 \<longleftrightarrow> c = 10"
  using word_of_int_eq_iff [where 'a = 8, of c 10] by (simp add: take_bit_int_eq_self)

text \<open>Echoing leaves the buffer alone and the console locked.\<close>

lemma echo_ok:
  assumes "cons_held s"
  shows "\<exists>t. consputc x s = Ret () t \<and> cons_held t \<and> intena t = intena s \<and> (\<forall>y. edits t y = edits s y)
    \<and> input_r t = input_r s \<and> input_e t = input_e s
    \<and> (\<forall>y. edits (t\<lparr>input_w := input_e t\<rparr>) y = edits (s\<lparr>input_w := input_e s\<rparr>) y)"
proof -
  have "cga_ok s" "\<not> panicked s" using assms by (simp_all add: cons_held_def)
  then obtain u c p where p: "consputc x s = Ret () (shown u c p s)" "0 \<le> p" "p < 24 * 80"
    using consputc_ok by blast
  then show ?thesis using cons_held_shown [OF assms p(2,3)]
    by (intro exI [of _ "shown u c p s"]) (simp add: edits_def input_ring_def)
qed

lemma wakeup_input_ok:
  assumes "edits (s\<lparr>input_w := input_e s\<rparr>) x" "cons_held s"
  shows "\<exists>t. wakeup (Some InputChan) (s\<lparr>input_w := input_e s\<rparr>) = Ret () t \<and> edits t x \<and> cons_held t \<and> intena t = intena s"
proof -
  let ?s = "s\<lparr>input_w := input_e s\<rparr>"
  have h: "cons_held ?s" using assms(2) by (simp add: cons_held_def cga_ok_def)
  have "wakeup (Some InputChan) ?s = Ret () (wakeup1 (Some InputChan) ?s)" 
    using cons_held_cpu [OF h] h by (intro wakeup_eq) (simp_all add: cons_held_def)
  moreover have "intena (wakeup1 (Some InputChan) ?s) = intena s" by (simp add: wakeup1_def)
  ultimately show ?thesis using assms(1) cons_held_wakeup1 [OF h] by simp
qed

lemma console_char_erase:
  assumes e: "edits s (lines, line)" and h: "cons_held s" and c: "c = 8 \<or> c = 0x7f"
  shows "\<exists>t. console_char c s = Ret () t \<and> edits t (lines, butlast line) \<and> cons_held t \<and> intena t = intena s"
proof (cases "line = []")
  case True
  then have "input_e s = input_w s" using edits_lengths(2) [OF e] by simp
  then show ?thesis using True e h c by (auto simp: console_char_def)
next
  case False
  let ?s = "s\<lparr>input_e := input_e s - 1\<rparr>"
  have "cons_held ?s" using h by (simp add: cons_held_def cga_ok_def)
  from echo_ok [OF this, of BACKSPACE] obtain t where
    t: "consputc BACKSPACE ?s = Ret () t" "cons_held t" "intena t = intena s" "\<forall>y. edits t y = edits ?s y"
    by auto
  have "input_e s \<noteq> input_w s" using edits_lengths(2) [OF e] False by simp
  then have "console_char c s = Ret () t" using c t(1) by (auto simp: console_char_def)
  then show ?thesis using t edits_erase(1) [OF e False] by simp
qed

lemma console_char_enter:
  assumes e: "edits s (lines, line)" and h: "cons_held s" and c: "0 < c" "c < 256" "c \<notin> {8, 16, 21, 0x7f}"
    and room: "length lines + length line < INPUT_BUF"
  shows "\<exists>t. console_char c s = Ret () t \<and> edits t (ed_char c (lines, line)) \<and> cons_held t \<and> intena t = intena s"
proof -
  define d where "d = (if c = 13 then 10 else c)"
  define b where "b = (of_int d :: u8)"
  define full where "full \<longleftrightarrow> d = 10 \<or> d = 4 \<or> Suc (length lines + length line) = INPUT_BUF"
  let ?s = "input_put b s"
  have nl: "b = 10 \<longleftrightarrow> d = 10" using c by (simp add: b_def d_def of_int_newline)
  have len: "unat (input_e s - input_r s) = length lines + length line" using edits_lengths(1) [OF e] .
  have lt: "input_e s - input_r s < of_nat INPUT_BUF" using len room by (simp add: word_less_nat_alt)
  have "unat (input_e s + 1 - input_r s) = Suc (length lines + length line)"
    using len room by (subst unat_next) simp_all
  moreover have "input_e s + 1 = input_r s + of_nat INPUT_BUF \<longleftrightarrow> unat (input_e s + 1 - input_r s) = INPUT_BUF"
  proof -
    have "input_e s + 1 = input_r s + of_nat INPUT_BUF \<longleftrightarrow> input_e s + 1 - input_r s = of_nat INPUT_BUF"
      by (simp only: diff_eq_eq add.commute)
    then show ?thesis by (simp add: word_unat_eq_iff)
  qed
  ultimately have full: "input_e s + 1 = input_r s + of_nat INPUT_BUF \<longleftrightarrow> Suc (length lines + length line) = INPUT_BUF" by simp
  have "cons_held ?s" using h by (simp add: cons_held_def cga_ok_def input_put_def)
  from echo_ok [OF this, of d] obtain t where
    t: "consputc d ?s = Ret () t" "cons_held t" "intena t = intena ?s" "\<forall>y. edits t y = edits ?s y"
      "input_r t = input_r ?s" "input_e t = input_e ?s"
      "\<forall>y. edits (t\<lparr>input_w := input_e t\<rparr>) y = edits (?s\<lparr>input_w := input_e ?s\<rparr>) y"
    by blast
  have "intena ?s = intena s" "input_r ?s = input_r s" "input_e ?s = input_e s + 1" by (simp_all add: input_put_def)
  note t = t this
  have k: "console_char c s = (if full then wakeup (Some InputChan) (t\<lparr>input_w := input_e t\<rparr>) else Ret () t)"
  proof -
    have "console_char c s = andthen (consputc d ?s) (\<lambda>_ s. if d = 10 \<or> d = 4 \<or> input_e s = input_r s + of_nat INPUT_BUF
        then wakeup (Some InputChan) (s\<lparr>input_w := input_e s\<rparr>) else Ret () s)"
      using c lt unfolding console_char_def Let_def d_def [symmetric] b_def [symmetric] input_put_def [symmetric] by simp
    then show ?thesis using t full by (simp add: full_def)
  qed
  show ?thesis
  proof (cases full)
    case True
    have "edits (t\<lparr>input_w := input_e t\<rparr>) (lines @ line @ [b], [])" using t(7) edits_commit [OF e room] by blast
    moreover have "ed_char c (lines, line) = (lines @ line @ [b], [])"
      using c True room by (simp add: ed_char_def full_def b_def [symmetric] d_def [symmetric])
    ultimately show ?thesis using wakeup_input_ok [of t] t(2,3,8) k True by metis
  next
    case False
    have "edits t (lines, line @ [b])" using t edits_put [OF e room] nl False by (simp add: full_def)
    moreover have "ed_char c (lines, line) = (lines, line @ [b])"
      using c False room by (simp add: ed_char_def full_def b_def [symmetric] d_def [symmetric])
    ultimately show ?thesis using t(2,3,8) k False by simp
  qed
qed

lemma console_char_ok:
  assumes e: "edits s (lines, line)" and h: "cons_held s" and c: "0 \<le> c" "c < 256"
  shows "\<exists>t. console_char c s = Ret () t \<and> edits t (ed_char c (lines, line)) \<and> cons_held t \<and> intena t = intena s"
proof -
  have room: "input_e s - input_r s < of_nat INPUT_BUF \<longleftrightarrow> length lines + length line < INPUT_BUF"
    using edits_lengths(1) [OF e] by (simp add: word_less_nat_alt)
  consider "c = 16" | "c = 21" | "c = 8 \<or> c = 0x7f"
    | "c \<notin> {8, 16, 21, 0x7f}" "c = 0 \<or> \<not> length lines + length line < INPUT_BUF"
    | "c \<notin> {8, 16, 21, 0x7f}" "c \<noteq> 0" "length lines + length line < INPUT_BUF" by blast
  then show ?thesis
  proof cases
    case 1
    then show ?thesis using e h by (simp add: console_char_def ed_char_def)
  next
    case 2
    then show ?thesis using kill_line_ok [OF e h] by (simp add: console_char_def ed_char_def)
  next
    case 3
    then have "ed_char c (lines, line) = (lines, butlast line)" by (auto simp: ed_char_def)
    then show ?thesis using console_char_erase [OF e h 3] by simp
  next
    case 4
    then have "console_char c s = Ret () s" using room by (auto simp: console_char_def)
    moreover have "ed_char c (lines, line) = (lines, line)" using 4 by (auto simp: ed_char_def)
    ultimately show ?thesis using e h by simp
  next
    case 5
    then show ?thesis using console_char_enter [OF e h] c by simp
  qed
qed

lemma console_chars_ok:
  assumes "edits s x" "cons_held s" "\<forall>c\<in>set cs. 0 \<le> c \<and> c < 256"
  shows "\<exists>t. console_chars cs s = Ret () t \<and> edits t (fold ed_char cs x) \<and> cons_held t \<and> intena t = intena s"
  using assms
proof (induction cs arbitrary: s x)
  case (Cons c cs)
  obtain lines line where x: "x = (lines, line)" by force
  have "edits s (lines, line)" using Cons.prems(1) x by simp
  from console_char_ok [OF this Cons.prems(2), of c] Cons.prems(3) x obtain t where
    t: "console_char c s = Ret () t" "edits t (ed_char c x)" "cons_held t" "intena t = intena s" by auto
  then show ?case using Cons.IH [OF t(2,3)] Cons.prems(3) by simp
qed simp

lemma edits_locked_by [simp]: "edits (locked_by l s) x = edits s x"
  by (simp add: edits_def input_ring_def locked_by_def pushcli_def)

lemma cons_select_locked_by [simp]:
  "panicked (locked_by l s) = panicked s" "crt_pos (locked_by l s) = crt_pos s" "cga_ok (locked_by l s) = cga_ok s"
  "input_r (locked_by l s) = input_r s" "input_w (locked_by l s) = input_w s" "inbuf i (locked_by l s) = inbuf i s"
  by (simp_all add: locked_by_def pushcli_def cga_ok_def inbuf_def)

lemma edits_cpu [simp]: "edits (s\<lparr>locks := ls, ncli := n, eflags_IF := f\<rparr>) x = edits s x"
  by (simp add: edits_def input_ring_def)

subsection \<open>Reading\<close>

lemma edits_skip:
  assumes "edits s (b # lines, line)"
  shows "edits (input_skip s) (lines, line)" "inbuf (input_r s) s = b" "input_r s \<noteq> input_w s"
proof -
  have r: "input_ring s = b # (lines @ line)" using assms by (simp add: edits_def)
  have k: "input_ok (input_skip s)" "input_ring (input_skip s) = lines @ line"
    using input.skip [OF edits_lengths(4) [OF assms] r] by simp_all
  show "inbuf (input_r s) s = b" using input.first [OF edits_lengths(4) [OF assms] r] .
  have w: "unat (input_w s - input_r s) = Suc (length lines)" using assms by (simp add: edits_def)
  then show "input_r s \<noteq> input_w s" by auto
  have "unat (input_w s - (input_r s + 1)) = unat (input_w s - input_r s - 1)" by (simp add: algebra_simps)
  also have "\<dots> = length lines" using w by (subst unat_minus_one) auto
  finally show "edits (input_skip s) (lines, line)"
    using k assms by (simp add: edits_def input_ok_def) (simp add: input_skip_def)
qed

lemma consoleread_loop_line:
  assumes "edits s (l @ 10 # rest, line)" "10 \<notin> set l" "4 \<notin> set l" "length l < n" "n \<le> target"
  shows "consoleread_loop n target acc s = Ret (True, acc @ l @ [10]) (s\<lparr>input_r := input_r s + of_nat (length l) + 1\<rparr>)
    \<and> edits (s\<lparr>input_r := input_r s + of_nat (length l) + 1\<rparr>) (rest, line)"
  using assms
proof (induction l arbitrary: s n acc)
  case Nil
  then obtain m where m: "n = Suc m" by (cases n) auto
  have e: "edits s (10 # rest, line)" using Nil.prems(1) by simp
  show ?case using edits_skip [OF e] m by (simp add: input_skip_def Let_def)
next
  case (Cons b l)
  then obtain m where m: "n = Suc m" by (cases n) auto
  have e: "edits s (b # l @ 10 # rest, line)" using Cons.prems(1) by simp
  have b: "b \<noteq> 10" "b \<noteq> 4" using Cons.prems by auto
  have "consoleread_loop n target acc s = consoleread_loop m target (acc @ [b]) (input_skip s)"
    using edits_skip(2,3) [OF e] b m by (simp add: input_skip_def Let_def)
  moreover have "(input_skip s)\<lparr>input_r := input_r (input_skip s) + of_nat (length l) + 1\<rparr> =
      s\<lparr>input_r := input_r s + of_nat (length (b # l)) + 1\<rparr>"
    by (simp add: input_skip_def algebra_simps)
  ultimately show ?case using Cons.IH [OF edits_skip(1) [OF e], of m "acc @ [b]"] Cons.prems m by simp
qed

lemma inode_locked_by [simp]: "icache (locked_by l s) = icache s"
  by (simp add: locked_by_def pushcli_def)

lemma cpu_input_update [simp]:
  "cpu_ok (s\<lparr>input_r := r\<rparr>) = cpu_ok s" "holding l (s\<lparr>input_r := r\<rparr>) = holding l s"
  "(locked_by l s)\<lparr>input_r := r\<rparr> = locked_by l (s\<lparr>input_r := r\<rparr>)"
  by (simp_all add: cpu_ok_def holding_def locked_by_def pushcli_def)

lemma edits_slocks [simp]:
  "edits (s\<lparr>slocks := x\<rparr>) y = edits s y" "edits (s\<lparr>slocks := x, input_r := r\<rparr>) y = edits (s\<lparr>input_r := r\<rparr>) y"
  by (simp_all add: edits_def input_ring_def)

text \<open>
  C37. The console's input side implements a line editor. The input buffer with its three wrapping
  indices stands for the finished lines nobody has read and the line being typed (\<open>edits\<close>); handling
  any keys in an interrupt (\<open>consoleintr\<close>) has exactly the effect of the abstract editor \<open>ed_char\<close> on
  that pair, key by key: backspace removes the last byte of the line being typed, control-U the whole
  line, neither ever touches a finished line, a newline, a control-D or a full buffer finishes the line.
  It returns, with the cursor on the screen and the lock released.
\<close>

theorem consoleintr_refines_editor:
  assumes "ncli s = 0" "locks s = []" "cga_ok s" "\<not> panicked s"
    and "edits s x" "\<forall>c\<in>set cs. 0 \<le> c \<and> c < 256"
  shows "\<exists>t. consoleintr cs s = Ret () t \<and> edits t (fold ed_char cs x) \<and> cga_ok t
    \<and> ncli t = 0 \<and> locks t = [] \<and> eflags_IF t = eflags_IF s"
proof -
  let ?s = "locked_by ConsLock s"
  have "edits ?s x" "cons_held ?s" using assms by (simp_all add: cons_held_def locked_by_top)
  from console_chars_ok [OF this assms(6)] obtain t where
    t: "console_chars cs ?s = Ret () t" "edits t (fold ed_char cs x)" "cons_held t" "intena t = intena ?s" by blast
  have "release ConsLock t = Ret () (t\<lparr>locks := [], ncli := 0, eflags_IF := intena t\<rparr>)"
    using t(3) by (intro release_top) (simp_all add: cons_held_def)
  then have "consoleintr cs s = Ret () (t\<lparr>locks := [], ncli := 0, eflags_IF := intena t\<rparr>)"
    using assms(1,2) t(1) by (simp add: consoleintr_def acquire_top)
  moreover have "cga_ok t" using t(3) by (simp add: cons_held_def)
  moreover have "intena t = eflags_IF s" using t(4) assms(1,2) by (simp add: locked_by_top)
  ultimately show ?thesis
    using t(2) by (intro exI [of _ "t\<lparr>locks := [], ncli := 0, eflags_IF := intena t\<rparr>"]) (simp add: cga_ok_def)
qed

lemma ex_kernel_edits: "edits ex_kernel ([], [])"
  by (simp add: edits_def input_ring_def ex_kernel_select ring_list_def)

theorem consoleintr_refines_editor_witness:
  "\<exists>t. consoleintr [97, 98, 8, 10] ex_kernel = Ret () t \<and> edits t ([97, 10], [])"
proof -
  have "cga_ok ex_kernel" "\<not> panicked ex_kernel" by (simp_all add: cga_ok_def ex_kernel_select)
  moreover have "fold ed_char [97, 98, 8, 10] ([], []) = ([97, 10], [])" by (simp add: ed_char_def)
  ultimately show ?thesis
    using consoleintr_refines_editor [OF ex_kernel_rest(1,2) _ _ ex_kernel_edits, of "[97, 98, 8, 10]"] by auto
qed

text \<open>
  C38. Reading the console returns one line. When a finished line waits in the buffer, it fits the
  caller's request and it contains no control-D, \<open>consoleread\<close> unlocks the inode, takes exactly that
  line with its newline from the buffer, leaves what follows it, and returns with the inode locked
  again by the caller.
\<close>

theorem consoleread_returns_line:
  assumes top: "cpu_ok s" "\<And>l. \<not> holding l s"
    and ip: "sl_locked (slocks s (1, ip))" "1 \<le> i_ref (icache s ip)" "i_valid (icache s ip)"
      "\<forall>p<NPROC. p_state (ptable s p) = SLEEPING \<longrightarrow> p_chan (ptable s p) \<noteq> Some (SleepChan (1, ip))"
    and line: "edits s (l @ 10 # rest, line)" "10 \<notin> set l" "4 \<notin> set l" "length l < nat n"
  shows "\<exists>t. consoleread ip n s = Ret (int (length l) + 1, l @ [10]) t \<and> edits t (rest, line)
    \<and> sl_locked (slocks t (1, ip)) \<and> sl_pid (slocks t (1, ip)) = p_pid (ptable s (the (cur s)))"
proof -
  let ?u = "s\<lparr>slocks := (slocks s)((1, ip) := \<lparr>sl_locked = False, sl_pid = 0\<rparr>)\<rparr>"
  let ?v = "?u\<lparr>input_r := input_r s + of_nat (length l) + 1\<rparr>"
  have "\<not> i_ref (icache s ip) < 1" using ip(2) by simp
  then have u: "iunlock (Some ip) s = Ret () ?u"
    using top ip releasesleep_eq [OF top(1,2,2) ip(4)] by (simp add: iunlock_def holdingsleep_eq)
  have e: "edits (locked_by ConsLock ?u) (l @ 10 # rest, line)" using line(1) by simp
  have loop: "consoleread_loop (nat n) (nat n) [] (locked_by ConsLock ?u) = Ret (True, l @ [10]) (locked_by ConsLock ?v)"
    "edits ?v (rest, line)"
    using consoleread_loop_line [OF e line(2,3,4), of "nat n" "[]"] by simp_all
  have l: "ilock (Some ip) ?v = Ret () (?v\<lparr>slocks := (slocks ?v)((1, ip) := \<lparr>sl_locked = True, sl_pid = p_pid (ptable s (the (cur s)))\<rparr>)\<rparr>)"
    using top ip \<open>\<not> i_ref (icache s ip) < 1\<close> by (simp add: ilock_def acquiresleep_free)
  show ?thesis
    using top u loop l by (simp add: consoleread_def acquire_free release_locked_by)
qed

definition ex_reading :: kernel where
  "ex_reading = ex_kernel\<lparr>slocks := (\<lambda>_. \<lparr>sl_locked = True, sl_pid = 1\<rparr>),
     icache := (\<lambda>_. ex_inode\<lparr>i_ref := 1, i_valid := True\<rparr>),
     input_buf := (\<lambda>i. if i = 0 then 97 else 10), input_w := 2, input_e := 2\<rparr>"

theorem consoleread_returns_line_witness:
  "\<exists>t. consoleread 3 100 ex_reading = Ret (2, [97, 10]) t"
proof -
  let ?s = ex_reading
  have top: "cpu_ok ?s" "\<not> holding l ?s" for l
    by (simp_all add: ex_reading_def cpu_ok_def holding_def ex_kernel_select ex_klog_ok)
  have ip: "sl_locked (slocks ?s (1, 3))" "1 \<le> i_ref (icache ?s 3)" "i_valid (icache ?s 3)"
    "\<forall>p<NPROC. p_state (ptable ?s p) = SLEEPING \<longrightarrow> p_chan (ptable ?s p) \<noteq> Some (SleepChan (1, 3))"
    by (simp_all add: ex_reading_def ex_kernel_select ex_klog_ok ex_proc_def ex_unused_def)
  have e: "edits ?s ([97] @ 10 # [], [])"
    by (simp add: ex_reading_def edits_def input_ring_def ex_kernel_select ring_list_def upt_rec)
  show ?thesis using consoleread_returns_line [OF top ip e, of 100] by auto
qed



end
