(* ===== verification/Vm_Tables.thy ===== *)
theory Vm_Tables
  imports Vm
begin

unbundle bit_operations_syntax

text \<open>
  The two-level page tables of \<open>Vm\<close> as a map from virtual pages to entries (\<open>pmap\<close>). \<open>role\<close> says what
  each physical page is used for; \<open>pt_inv\<close> is the invariant of the tables and the free list, \<open>vm_step\<close> what
  an operation on one address space may touch. \<open>walkpgdir\<close> and \<open>mappages\<close> are described by their effect on
  the map.
\<close>

subsection \<open>Indices\<close>

lemma unat_PDX: "unat (PDX va) = unat va div 2 ^ 22"
proof -
  have "PDX va = take_bit 10 (drop_bit 22 va)"
    by (simp add: PDX_def take_bit_eq_mask mask_eq_exp_minus_1)
  moreover have "unat va < 2 ^ 32" using unsigned_less [where 'a = nat, of va] by simp
  ultimately have "unat (PDX va) = take_bit 10 (drop_bit 22 (unat va))" by (simp add: unsigned_take_bit_eq unsigned_drop_bit_eq take_bit_nat_eq_self)
  moreover have "unat va div 2 ^ 22 < 2 ^ 10" using unsigned_less [where 'a = nat, of va] by simp
  ultimately show ?thesis by (simp add: take_bit_eq_mod drop_bit_eq_div)
qed

lemma unat_PTX: "unat (PTX va) = unat va div 4096 mod 1024"
proof -
  have "PTX va = take_bit 10 (drop_bit 12 va)"
    by (simp add: PTX_def take_bit_eq_mask mask_eq_exp_minus_1)
  moreover have "unat va < 2 ^ 32" using unsigned_less [where 'a = nat, of va] by simp
  ultimately have "unat (PTX va) = take_bit 10 (drop_bit 12 (unat va))" by (simp add: unsigned_take_bit_eq unsigned_drop_bit_eq take_bit_nat_eq_self)
  then show ?thesis by (simp add: take_bit_eq_mod drop_bit_eq_div)
qed

lemma PDX_less: "PDX va < 1024" and PTX_less: "PTX va < 1024"
  using unsigned_less [where 'a = nat, of va] by (simp_all add: word_less_nat_alt unat_PDX unat_PTX)

text \<open>The page of an address.\<close>

lemma page_eq_iff: "PGROUNDDOWN a = PGROUNDDOWN b \<longleftrightarrow> unat a div 4096 = unat b div 4096"
proof -
  have "x - x mod 4096 = x div 4096 * 4096" for x :: nat by (simp add: minus_mod_eq_div_mult)
  then show ?thesis by (simp add: word_unat_eq_iff unat_PGROUNDDOWN)
qed

lemma page_eq_index: "PGROUNDDOWN a = PGROUNDDOWN b \<longleftrightarrow> PDX a = PDX b \<and> PTX a = PTX b"
proof -
  have "x div 4096 = y div 4096 \<longleftrightarrow> x div 4194304 = y div 4194304 \<and> x div 4096 mod 1024 = y div 4096 mod 1024" for x y :: nat
  proof -
    have d: "z div 4194304 = z div 4096 div 1024" for z :: nat by (simp flip: div_mult2_eq)
    have "p = q" if "p div 1024 = q div 1024" "p mod 1024 = q mod 1024" for p q :: nat
      using that by (metis div_mult_mod_eq)
    then show ?thesis unfolding d by metis
  qed
  then show ?thesis unfolding page_eq_iff by (simp add: word_unat_eq_iff unat_PDX unat_PTX)
qed

lemma PGROUNDDOWN_id: "a mod PGSIZE = 0 \<Longrightarrow> PGROUNDDOWN a = a"
  by (simp add: PGROUNDDOWN_eq)

lemma PDX_page [simp]: "PDX (PGROUNDDOWN va) = PDX va" and PTX_page [simp]: "PTX (PGROUNDDOWN va) = PTX va"
  using page_eq_index [of "PGROUNDDOWN va" va] by (simp_all add: PGROUNDDOWN_id PGROUNDDOWN_aligned)

subsection \<open>Entries in a page\<close>

lemma unat_slot: "i < 1024 \<Longrightarrow> unat (4 * i :: u32) = 4 * unat i"
  by (subst unat_mult_lem [THEN iffD1]) (simp_all add: word_less_nat_alt)

lemma slot_cells:
  assumes "i < 1024" "k < 4"
  shows "t + 4 * i + of_nat k \<in> cells t 4096"
proof -
  have "unat i < 1024" using assms(1) by (simp add: word_less_nat_alt)
  then have "t + of_nat (4 * unat i + k) \<in> cells t 4096" using assms(2) by (intro cellsI) simp_all
  then show ?thesis by (simp add: add.assoc)
qed

lemma slot_inj:
  assumes "i < 1024" "j < 1024" "k < 4" "l < 4" "4 * i + of_nat k = 4 * j + (of_nat l :: u32)"
  shows "i = j"
proof -
  have b: "unat i < 1024" "unat j < 1024" using assms(1,2) by (simp_all add: word_less_nat_alt)
  have u: "unat (of_nat n :: u32) = n" if "n < 4096" for n using that by (simp add: unat_of_nat take_bit_nat_eq_self)
  have e: "(of_nat (4 * unat i + k) :: u32) = of_nat (4 * unat j + l)" using assms(5) by simp
  have "4 * unat i + k < 4096" "4 * unat j + l < 4096" using b assms(3,4) by simp_all
  then have "4 * unat i + k = 4 * unat j + l" using e u by metis
  then show ?thesis using assms(3,4) by (simp add: word_unat_eq_iff)
qed

text \<open>An entry of one page read after another entry was stored.\<close>

lemma load_slot:
  assumes "t mod PGSIZE = 0" "u mod PGSIZE = 0" "i < 1024" "j < 1024"
  shows "load32 (store32 m (t + 4 * i) v) (u + 4 * j) = (if t = u \<and> i = j then v else load32 m (u + 4 * j))"
proof (cases "t = u \<and> i = j")
  case True
  then show ?thesis by (simp add: load32_store32_same)
next
  case False
  have "u + 4 * j + of_nat l \<noteq> t + 4 * i + of_nat k" if kl: "k < 4" "l < 4" for k l
  proof
    assume e: "u + 4 * j + of_nat l = t + 4 * i + of_nat k"
    show False
    proof (cases "t = u")
      case True
      then have "4 * i + of_nat k = 4 * j + (of_nat l :: u32)" using e by (simp add: add.assoc)
      then show False using slot_inj [OF assms(3,4) kl] False True by blast
    next
      case ne: False
      then show False using pages_disjoint [OF assms(1,2)] slot_cells [OF assms(3) kl(1), of t]
          slot_cells [OF assms(4) kl(2), of u] e by auto
    qed
  qed
  then have "u + 4 * j + of_nat l \<notin> cells (t + 4 * i) 4" if "l < 4" for l using that by (auto elim!: cellsE)
  from this [of 0] this [of 1] this [of 2] this [of 3]
  show ?thesis using load32_store32_other [of "u + 4 * j" "t + 4 * i" m v] False by auto
qed

lemma load_same_page:
  assumes "\<And>b. b \<in> cells t 4096 \<Longrightarrow> m' b = m b" "i < 1024"
  shows "load32 m' (t + 4 * i) = load32 m (t + 4 * i)"
  using slot_cells [OF assms(2), of 0 t] slot_cells [OF assms(2), of 1 t] slot_cells [OF assms(2), of 2 t]
    slot_cells [OF assms(2), of 3 t] by (simp add: load32_def assms(1))

subsection \<open>Flags\<close>

lemma aligned_and_mask: "(x :: u32) mod PGSIZE = 0 \<Longrightarrow> x AND 0xFFF = 0"
proof -
  have "(0xFFF :: u32) = mask 12" by (simp add: mask_eq_exp_minus_1)
  then show "x mod PGSIZE = 0 \<Longrightarrow> ?thesis" by (simp add: mod_PGSIZE take_bit_eq_mask)
qed

lemma PTE_ADDR_aligned: "PTE_ADDR e mod PGSIZE = 0"
  using PGROUNDDOWN_aligned [of e] by (simp add: PTE_ADDR_def PGROUNDDOWN_def)

lemma PTE_ADDR_or:
  assumes "x mod PGSIZE = 0" "f AND NOT 0xFFF = 0"
  shows "PTE_ADDR (x OR f) = x"
proof -
  have "x AND NOT 0xFFF = x" using PGROUNDDOWN_id [OF assms(1)] by (simp add: PGROUNDDOWN_def)
  then show ?thesis using assms(2) by (simp add: PTE_ADDR_def bit.conj_disj_distrib2)
qed

lemma has_flag_or: "has_flag (x OR PTE_P) PTE_P" "has_flag (x OR PTE_P OR y) PTE_P"
  by (simp_all add: has_flag_def bit.conj_disj_distrib2 or_eq_0_iff)

lemma aligned_add:
  assumes "x mod PGSIZE = 0" "y mod PGSIZE = 0"
  shows "(x + y) mod PGSIZE = 0"
proof -
  have "(unat x + unat y) mod 2 ^ 32 mod 4096 = (unat x + unat y) mod 4096" by (rule mod_mod_cancel) simp
  then show ?thesis using assms by (simp add: aligned_unat unat_word_ariths) (metis mod_add_eq add_0 mod_0)
qed

lemma aligned_P2V: "x mod PGSIZE = 0 \<Longrightarrow> P2V x mod PGSIZE = 0"
  unfolding P2V_def by (rule aligned_add) simp_all

lemma aligned_V2P: "x mod PGSIZE = 0 \<Longrightarrow> V2P x mod PGSIZE = 0"
proof -
  have "V2P x = P2V x" by (simp add: V2P_def P2V_def)
  then show "x mod PGSIZE = 0 \<Longrightarrow> ?thesis" by (simp only: aligned_P2V)
qed

subsection \<open>The tables as a map\<close>

definition pde :: "memory \<Rightarrow> u32 \<Rightarrow> u32 \<Rightarrow> u32" where
  "pde m d i = load32 m (d + 4 * i)"

definition has_table :: "memory \<Rightarrow> u32 \<Rightarrow> u32 \<Rightarrow> bool" where
  "has_table m d i = has_flag (pde m d i) PTE_P"

definition table :: "memory \<Rightarrow> u32 \<Rightarrow> u32 \<Rightarrow> u32" where
  "table m d i = P2V (PTE_ADDR (pde m d i))"

definition pte_of :: "memory \<Rightarrow> u32 \<Rightarrow> u32 \<Rightarrow> u32" where
  "pte_of m d va = (if has_table m d (PDX va) then load32 m (table m d (PDX va) + 4 * PTX va) else 0)"

text \<open>The entry the processor uses for an address, if there is one.\<close>

definition pmap :: "memory \<Rightarrow> u32 \<Rightarrow> u32 \<Rightarrow> u32 option" where
  "pmap m d va = (if has_flag (pte_of m d va) PTE_P then Some (pte_of m d va) else None)"

definition frame_of :: "u32 \<Rightarrow> u32" where
  "frame_of e = P2V (PTE_ADDR e)"

lemma hw_translate_pmap: "hw_translate m d va = map_option (\<lambda>e. frame_of e + va mod PGSIZE) (pmap m d va)"
  by (auto simp: hw_translate_def pmap_def pte_of_def has_table_def table_def pde_def frame_of_def has_flag_def)

lemma pmap_page [simp]: "pmap m d (PGROUNDDOWN va) = pmap m d va"
  by (simp add: pmap_def pte_of_def)

text \<open>What a physical page is used for; the tables and frames of an address space are named by its directory.\<close>

datatype role = Free | Dir u32 | Tab u32 u32 | Frame u32 u32 | Other

definition same_page :: "memory \<Rightarrow> memory \<Rightarrow> u32 \<Rightarrow> bool" where
  "same_page m m' p \<longleftrightarrow> (\<forall>b\<in>cells p 4096. m' b = m b)"

definition pt_inv :: "'x kmem_scheme \<Rightarrow> u32 \<Rightarrow> (u32 \<Rightarrow> role) \<Rightarrow> u32 list \<Rightarrow> bool" where
  "pt_inv s d \<rho> fs \<longleftrightarrow> free_pages s fs \<and> KERNBASE < kern_end s \<and> kpage s d
     \<and> (\<forall>p. \<rho> p = Free \<longleftrightarrow> p \<in> set fs) \<and> (\<forall>p. \<rho> p = Dir d \<longleftrightarrow> p = d)
     \<and> (\<forall>p i. \<rho> p = Tab d i \<longleftrightarrow> i < 1024 \<and> has_table (mem s) d i \<and> p = table (mem s) d i)
     \<and> (\<forall>p i. \<rho> p = Tab d i \<longrightarrow> kpage s p)"

definition frames_inv :: "'x kmem_scheme \<Rightarrow> u32 \<Rightarrow> (u32 \<Rightarrow> role) \<Rightarrow> bool" where
  "frames_inv s d \<rho> \<longleftrightarrow>
     (\<forall>p v. \<rho> p = Frame d v \<longleftrightarrow> v < KERNBASE \<and> v mod PGSIZE = 0 \<and> (\<exists>e. pmap (mem s) d v = Some e \<and> p = frame_of e))
     \<and> (\<forall>p v. \<rho> p = Frame d v \<longrightarrow> kpage s p)"

lemma kpage_update [simp]:
  "kpage (s\<lparr>mem := m\<rparr>) p = kpage s p" "kpage (s\<lparr>freelist := f\<rparr>) p = kpage s p"
  by (simp_all add: kpage_def)

lemma kpage_aligned: "kpage s p \<Longrightarrow> p mod PGSIZE = 0"
  by (simp add: kpage_def)

lemma same_page_trans: "same_page m m' p \<Longrightarrow> same_page m' m'' p \<Longrightarrow> same_page m m'' p"
  by (simp add: same_page_def)

lemma same_page_load: "same_page m m' t \<Longrightarrow> i < 1024 \<Longrightarrow> load32 m' (t + 4 * i) = load32 m (t + 4 * i)"
  by (rule load_same_page) (simp_all add: same_page_def)

lemma same_page_store:
  assumes "t mod PGSIZE = 0" "p mod PGSIZE = 0" "p \<noteq> t" "i < 1024"
  shows "same_page m (store32 m (t + 4 * i) v) p"
proof -
  have "t + 4 * i + of_nat k \<notin> cells p 4096" if "k < 4" for k
    using pages_disjoint [OF assms(1,2)] assms(3) slot_cells [OF assms(4) that, of t] by auto
  from this [of 0] this [of 1] this [of 2] this [of 3]
  show ?thesis by (auto simp: same_page_def store32_def)
qed

lemma same_page_memset:
  assumes "t mod PGSIZE = 0" "p mod PGSIZE = 0" "p \<noteq> t"
  shows "same_page m (memset m t c PGSIZE) p"
  using pages_disjoint [OF assms(1,2)] assms(3) by (auto simp: same_page_def memset_apply)

lemma free_pages_mem:
  assumes "free_pages s fs" "\<forall>p\<in>set fs. same_page (mem s) m' p"
  shows "free_pages (s\<lparr>mem := m'\<rparr>) fs"
proof -
  have "run_chain m' q xs = run_chain (mem s) q xs" if "set xs \<subseteq> set fs" for q xs
    using that
  proof (induction xs arbitrary: q)
    case (Cons x xs)
    then have "load32 m' x = load32 (mem s) x" using assms(2) same_page_load [of "mem s" m' x 0] by simp
    then show ?case using Cons by simp
  qed simp
  then show ?thesis using assms(1) by (simp add: free_pages_def)
qed

lemma same_tables:
  assumes "pt_inv s d \<rho> fs" and "\<forall>p. \<rho> p = Dir d \<or> (\<exists>i. \<rho> p = Tab d i) \<longrightarrow> same_page (mem s) m' p"
  shows "i < 1024 \<Longrightarrow> pde m' d i = pde (mem s) d i" "pte_of m' d = pte_of (mem s) d" "pmap m' d = pmap (mem s) d"
proof -
  have "same_page (mem s) m' d" using assms by (simp add: pt_inv_def)
  then have p: "pde m' d i = pde (mem s) d i" if "i < 1024" for i using that same_page_load by (simp add: pde_def)
  then show "i < 1024 \<Longrightarrow> pde m' d i = pde (mem s) d i" .
  show e: "pte_of m' d = pte_of (mem s) d"
  proof
    fix va
    have eq: "has_table m' d (PDX va) = has_table (mem s) d (PDX va)" "table m' d (PDX va) = table (mem s) d (PDX va)"
      using p [OF PDX_less] by (simp_all add: has_table_def table_def)
    have "same_page (mem s) m' (table (mem s) d (PDX va))" if "has_table (mem s) d (PDX va)"
      using assms that PDX_less unfolding pt_inv_def by blast
    then show "pte_of m' d va = pte_of (mem s) d va"
      using eq same_page_load [OF _ PTX_less] by (simp add: pte_of_def)
  qed
  show "pmap m' d = pmap (mem s) d" by (simp add: pmap_def fun_eq_iff e)
qed

lemma pt_inv_mem:
  assumes "pt_inv s d \<rho> fs"
    and "\<forall>p. \<rho> p = Free \<or> \<rho> p = Dir d \<or> (\<exists>i. \<rho> p = Tab d i) \<longrightarrow> same_page (mem s) m' p"
  shows "pt_inv (s\<lparr>mem := m'\<rparr>) d \<rho> fs"
proof -
  have p: "pde m' d i = pde (mem s) d i" if "i < 1024" for i
    using same_tables(1) [OF assms(1) _ that] assms(2) by blast
  have "\<forall>p\<in>set fs. same_page (mem s) m' p" using assms unfolding pt_inv_def by blast
  then have "free_pages (s\<lparr>mem := m'\<rparr>) fs" using assms(1) free_pages_mem unfolding pt_inv_def by blast
  moreover have "(i < 1024 \<and> has_table m' d i \<and> q = table m' d i) = (i < 1024 \<and> has_table (mem s) d i \<and> q = table (mem s) d i)" for i q
    using p [of i] by (auto simp: has_table_def table_def)
  ultimately show ?thesis using assms(1) unfolding pt_inv_def by simp metis
qed

lemma pt_inv_table:
  assumes "pt_inv s d \<rho> fs" "i < 1024" "has_table (mem s) d i"
  shows "\<rho> (table (mem s) d i) = Tab d i" "kpage s (table (mem s) d i)"
proof -
  show "\<rho> (table (mem s) d i) = Tab d i" using assms unfolding pt_inv_def by blast
  then show "kpage s (table (mem s) d i)" using assms(1) unfolding pt_inv_def by blast
qed

lemma pt_inv_free: "pt_inv s d \<rho> fs \<Longrightarrow> \<rho> p = Free \<longleftrightarrow> p \<in> set fs"
  by (simp add: pt_inv_def)

lemma pt_inv_dir: "pt_inv s d \<rho> fs \<Longrightarrow> \<rho> d = Dir d" "pt_inv s d \<rho> fs \<Longrightarrow> d mod PGSIZE = 0"
  by (simp add: pt_inv_def) (auto simp: pt_inv_def dest: kpage_aligned)

lemma pt_inv_aligned:
  assumes "pt_inv s d \<rho> fs" "\<rho> p = Free \<or> \<rho> p = Dir d \<or> (\<exists>i. \<rho> p = Tab d i)"
  shows "kpage s p" "p mod PGSIZE = 0"
proof -
  have "p \<in> set fs \<Longrightarrow> kpage s p" using assms(1) by (simp add: pt_inv_def free_pages_def)
  then show "kpage s p" using assms unfolding pt_inv_def by metis
  then show "p mod PGSIZE = 0" by (rule kpage_aligned)
qed

subsection \<open>Storing an entry\<close>

lemma store_pte:
  fixes v :: u32
  assumes inv: "pt_inv s d \<rho> fs" and t: "has_table (mem s) d (PDX va)"
  defines "m' \<equiv> store32 (mem s) (table (mem s) d (PDX va) + 4 * PTX va) v"
  shows "pt_inv (s\<lparr>mem := m'\<rparr>) d \<rho> fs"
    and "pte_of m' d w = (if PGROUNDDOWN w = PGROUNDDOWN va then v else pte_of (mem s) d w)"
    and "p mod PGSIZE = 0 \<Longrightarrow> \<forall>i. \<rho> p \<noteq> Tab d i \<Longrightarrow> same_page (mem s) m' p"
proof -
  let ?t = "table (mem s) d (PDX va)"
  note tab = pt_inv_table [OF inv PDX_less t]
  have al: "?t mod PGSIZE = 0" "d mod PGSIZE = 0" using tab(2) pt_inv_dir [OF inv] by (simp_all add: kpage_aligned)
  have ne: "?t \<noteq> d" using tab(1) pt_inv_dir(1) [OF inv] by auto
  have p: "pde m' d i = pde (mem s) d i" if "i < 1024" for i
    using load_slot [OF al PTX_less that] ne by (simp add: pde_def m'_def)
  then have ht: "has_table m' d i = has_table (mem s) d i" "table m' d i = table (mem s) d i" if "i < 1024" for i
    using that by (simp_all add: has_table_def table_def)
  show same: "same_page (mem s) m' p" if "p mod PGSIZE = 0" "\<forall>i. \<rho> p \<noteq> Tab d i" for p
    unfolding m'_def using that tab al(1) by (intro same_page_store PTX_less) auto
  have "\<forall>p\<in>set fs. same_page (mem s) m' p"
  proof
    fix p assume "p \<in> set fs"
    then have "\<rho> p = Free" using inv by (simp add: pt_inv_def)
    then show "same_page (mem s) m' p" using pt_inv_aligned(2) [OF inv] by (intro same) auto
  qed
  then have "free_pages (s\<lparr>mem := m'\<rparr>) fs" using inv free_pages_mem unfolding pt_inv_def by blast
  moreover have "(i < 1024 \<and> has_table m' d i \<and> q = table m' d i) = (i < 1024 \<and> has_table (mem s) d i \<and> q = table (mem s) d i)" for i q
    using ht [of i] by auto
  ultimately show "pt_inv (s\<lparr>mem := m'\<rparr>) d \<rho> fs" using inv unfolding pt_inv_def by simp metis
  show "pte_of m' d w = (if PGROUNDDOWN w = PGROUNDDOWN va then v else pte_of (mem s) d w)"
  proof (cases "has_table (mem s) d (PDX w)")
    case False
    then have "PDX w \<noteq> PDX va" using t by auto
    then show ?thesis using False ht [OF PDX_less] by (simp add: pte_of_def page_eq_index)
  next
    case True
    note tw = pt_inv_table [OF inv PDX_less True]
    have "?t = table (mem s) d (PDX w) \<longleftrightarrow> PDX w = PDX va" using tab(1) tw(1) by (metis role.inject(2))
    then show ?thesis using True ht [OF PDX_less] load_slot [OF al(1) kpage_aligned [OF tw(2)] PTX_less PTX_less]
      by (auto simp: pte_of_def page_eq_index m'_def)
  qed
qed

subsection \<open>Adding a table\<close>

lemma load_zero: "\<forall>b\<in>cells t 4096. m b = 0 \<Longrightarrow> i < 1024 \<Longrightarrow> load32 m (t + 4 * i) = 0"
  using load_same_page [of t "\<lambda>_. 0" m i] by (simp add: load32_def)

lemma new_table:
  assumes inv: "pt_inv s d \<rho> (p # fs)" and i: "i < 1024" and t: "\<not> has_table (mem s) d i"
  defines "m' \<equiv> store32 (memset (mem s) p 0 PGSIZE) (d + 4 * i) (V2P p OR PTE_P OR PTE_W OR PTE_U)"
    and "\<rho>' \<equiv> \<rho>(p := Tab d i)"
  shows "pt_inv (s\<lparr>freelist := load32 (mem s) p, mem := m'\<rparr>) d \<rho>' fs"
    and "has_table m' d i" "table m' d i = p" "pte_of m' d = pte_of (mem s) d"
    and "q mod PGSIZE = 0 \<Longrightarrow> q \<noteq> p \<Longrightarrow> q \<noteq> d \<Longrightarrow> same_page (mem s) m' q"
proof -
  have fr: "\<rho> p = Free" using inv by (simp add: pt_inv_def)
  have al: "p mod PGSIZE = 0" "d mod PGSIZE = 0" using pt_inv_aligned(2) [OF inv] fr pt_inv_dir(2) [OF inv] by simp_all
  have ne: "p \<noteq> d" using fr pt_inv_dir(1) [OF inv] by auto
  let ?m = "memset (mem s) p 0 PGSIZE"
  have pd: "pde m' d j = (if j = i then V2P p OR PTE_P OR PTE_W OR PTE_U else pde (mem s) d j)" if "j < 1024" for j
    using load_slot [OF al(2,2) i that, of ?m] same_page_load [OF same_page_memset [OF al] that] ne
    by (simp add: pde_def m'_def)
  have e: "has_flag (V2P p OR PTE_P OR PTE_W OR PTE_U) PTE_P" "PTE_ADDR (V2P p OR PTE_P OR PTE_W OR PTE_U) = V2P p"
    using aligned_V2P [OF al(1)] by (simp_all add: has_flag_def bit.conj_disj_distrib2 or_eq_0_iff PTE_ADDR_or)
  have ht: "has_table m' d j = (j = i \<or> has_table (mem s) d j)" "table m' d j = (if j = i then p else table (mem s) d j)"
    if "j < 1024" for j
    using pd [OF that] e by (auto simp: has_table_def table_def)
  then show "has_table m' d i" "table m' d i = p" using i by simp_all
  show same: "same_page (mem s) m' q" if "q mod PGSIZE = 0" "q \<noteq> p" "q \<noteq> d" for q
    unfolding m'_def using same_page_trans [OF same_page_memset [OF al(1) that(1,2)] same_page_store [OF al(2) that(1,3) i]] .
  have notp: "table (mem s) d j \<noteq> p" if "has_table (mem s) d j" "j < 1024" for j
    using pt_inv_table(1) [OF inv that(2,1)] fr by auto
  have fp: "free_pages s (p # fs)" using inv by (simp add: pt_inv_def)
  have "\<forall>q\<in>set fs. same_page (mem s) m' q"
  proof
    fix q assume q: "q \<in> set fs"
    then have "\<rho> q = Free" "q \<noteq> p" using inv fp by (auto simp: pt_inv_def free_pages_def)
    then show "same_page (mem s) m' q" using pt_inv_aligned(2) [OF inv] pt_inv_dir(1) [OF inv] by (intro same) auto
  qed
  moreover have "free_pages (s\<lparr>freelist := load32 (mem s) p\<rparr>) fs" using fp by (simp add: free_pages_def)
  ultimately have "free_pages (s\<lparr>freelist := load32 (mem s) p, mem := m'\<rparr>) fs" using free_pages_mem by fastforce
  moreover have "\<rho>' q = Free \<longleftrightarrow> q \<in> set fs" for q using inv fp by (auto simp: \<rho>'_def pt_inv_def free_pages_def)
  moreover have "\<rho>' q = Dir d \<longleftrightarrow> q = d" for q using inv ne by (auto simp: \<rho>'_def pt_inv_def)
  moreover have "\<rho>' q = Tab d j \<longleftrightarrow> j < 1024 \<and> has_table m' d j \<and> q = table m' d j" for q j
  proof -
    have "\<rho> q = Tab d j \<longleftrightarrow> j < 1024 \<and> has_table (mem s) d j \<and> q = table (mem s) d j" using inv unfolding pt_inv_def by blast
    then show ?thesis using ht [of j] t i notp [of j] by (cases "j = i"; cases "q = p") (auto simp: \<rho>'_def)
  qed
  moreover have "\<rho>' q = Tab d j \<Longrightarrow> kpage s q" for q j
    using pt_inv_aligned(1) [OF inv, of p] pt_inv_aligned(1) [OF inv, of q] fr by (cases "q = p") (auto simp: \<rho>'_def)
  ultimately show "pt_inv (s\<lparr>freelist := load32 (mem s) p, mem := m'\<rparr>) d \<rho>' fs"
    using inv unfolding pt_inv_def by simp
  show "pte_of m' d = pte_of (mem s) d"
  proof
    fix w
    have z: "\<forall>b\<in>cells p 4096. m' b = 0"
      using same_page_store [OF al(2,1) ne i, of ?m] unfolding same_page_def m'_def by (simp add: memset_apply)
    consider "PDX w = i" | "PDX w \<noteq> i" "\<not> has_table (mem s) d (PDX w)" | "PDX w \<noteq> i" "has_table (mem s) d (PDX w)" by blast
    then show "pte_of m' d w = pte_of (mem s) d w"
    proof cases
      case 1
      then show ?thesis using ht [OF i] t load_zero [OF z PTX_less] by (simp add: pte_of_def)
    next
      case 2
      then show ?thesis using ht [OF PDX_less] by (simp add: pte_of_def)
    next
      case 3
      note tw = pt_inv_table [OF inv PDX_less 3(2)]
      have "same_page (mem s) m' (table (mem s) d (PDX w))"
        using tw fr pt_inv_dir(1) [OF inv] by (intro same kpage_aligned) auto
      then show ?thesis using 3 ht [OF PDX_less] same_page_load [OF _ PTX_less] by (simp add: pte_of_def)
    qed
  qed
qed

subsection \<open>Steps of an address space\<close>

text \<open>
  A step of the address space \<open>d\<close> touches only free pages, its directory, its tables and its frames for
  the virtual pages \<open>R\<close>.
\<close>

definition mine :: "u32 \<Rightarrow> u32 set \<Rightarrow> role \<Rightarrow> bool" where
  "mine d R r \<longleftrightarrow> r = Free \<or> r = Dir d \<or> (\<exists>i. r = Tab d i) \<or> (\<exists>v\<in>R. r = Frame d v)"

definition mem_frame :: "'x kmem_scheme \<Rightarrow> 'x kmem_scheme \<Rightarrow> bool" where
  "mem_frame s t \<longleftrightarrow> t = s\<lparr>mem := mem t, freelist := freelist t\<rparr>"

definition vm_step ::
  "u32 \<Rightarrow> u32 set \<Rightarrow> 'x kmem_scheme \<Rightarrow> (u32 \<Rightarrow> role) \<Rightarrow> 'x kmem_scheme \<Rightarrow> (u32 \<Rightarrow> role) \<Rightarrow> bool" where
  "vm_step d R s \<rho> t \<rho>' \<longleftrightarrow> mem_frame s t
     \<and> (\<forall>p. \<not> mine d R (\<rho> p) \<longrightarrow> \<rho>' p = \<rho> p \<and> (p mod PGSIZE = 0 \<longrightarrow> same_page (mem s) (mem t) p))
     \<and> (\<forall>p. mine d R (\<rho> p) \<longrightarrow> mine d R (\<rho>' p))"

lemma mem_frame_refl: "mem_frame s s"
  by (simp add: mem_frame_def)

lemma mem_frame_trans: "mem_frame s t \<Longrightarrow> mem_frame t u \<Longrightarrow> mem_frame s u"
  by (cases s, cases t, cases u) (simp add: mem_frame_def)

lemma mem_frame_select:
  "mem_frame s t \<Longrightarrow> kern_end t = kern_end s" "mem_frame s t \<Longrightarrow> kpage t p = kpage s p"
  "mem_frame s t \<Longrightarrow> cpu_ok t = cpu_ok s" "mem_frame s t \<Longrightarrow> holding l t = holding l s"
  by (cases s, cases t, simp add: mem_frame_def kpage_def cpu_ok_def holding_def)+

lemma vm_step_refl: "vm_step d R s \<rho> s \<rho>"
  by (simp add: vm_step_def mem_frame_refl same_page_def)

lemma vm_step_trans:
  assumes "vm_step d R s \<rho> t \<rho>'" "vm_step d R t \<rho>' u \<rho>''"
  shows "vm_step d R s \<rho> u \<rho>''"
proof -
  have "\<rho>'' p = \<rho> p \<and> (p mod PGSIZE = 0 \<longrightarrow> same_page (mem s) (mem u) p)" if "\<not> mine d R (\<rho> p)" for p
  proof -
    have "\<rho>' p = \<rho> p \<and> (p mod PGSIZE = 0 \<longrightarrow> same_page (mem s) (mem t) p)" using assms(1) that by (simp add: vm_step_def)
    moreover from this have "\<rho>'' p = \<rho>' p \<and> (p mod PGSIZE = 0 \<longrightarrow> same_page (mem t) (mem u) p)"
      using assms(2) that by (simp add: vm_step_def)
    ultimately show ?thesis using same_page_trans by auto
  qed
  then show ?thesis using assms mem_frame_trans unfolding vm_step_def by blast
qed

lemma mine_mono: "R \<subseteq> R' \<Longrightarrow> mine d R r \<Longrightarrow> mine d R' r"
  by (auto simp: mine_def)

lemma vm_step_mono:
  assumes "vm_step d R s \<rho> t \<rho>'" "R \<subseteq> R'"
  shows "vm_step d R' s \<rho> t \<rho>'"
proof -
  have "mine d R' (\<rho>' p)" if "mine d R' (\<rho> p)" for p
    using assms that mine_mono [OF assms(2)] by (cases "mine d R (\<rho> p)") (simp_all add: vm_step_def)
  moreover have "\<rho>' p = \<rho> p \<and> (p mod PGSIZE = 0 \<longrightarrow> same_page (mem s) (mem t) p)" if "\<not> mine d R' (\<rho> p)" for p
  proof -
    have "\<not> mine d R (\<rho> p)" using that mine_mono [OF assms(2)] by metis
    then show ?thesis using assms(1) by (simp add: vm_step_def)
  qed
  moreover have "mem_frame s t" using assms(1) by (simp add: vm_step_def)
  ultimately show ?thesis by (simp add: vm_step_def)
qed

subsection \<open>Walking\<close>

lemma table_slot_nonzero:
  assumes "kpage s p" "i < 1024"
  shows "p + 4 * i \<noteq> 0"
proof
  assume "p + 4 * i = 0"
  then have "0 \<in> cells p 4096" using slot_cells [OF assms(2), of 0 p] by simp
  moreover have "0 \<in> cells 0 4096" by (simp add: cells_def)
  ultimately show False using pages_disjoint [of p 0] kpage_aligned [OF assms(1)] zero_not_kpage [OF assms(1)] by auto
qed

lemma walk_present:
  "has_table (mem s) d (PDX va) \<Longrightarrow> walkpgdir d va alloc s = Ret (table (mem s) d (PDX va) + 4 * PTX va) s"
  by (simp add: walkpgdir_def has_table_def table_def pde_def)

lemma walk_absent: "\<not> has_table (mem s) d (PDX va) \<Longrightarrow> walkpgdir d va False s = Ret 0 s"
  by (simp add: walkpgdir_def has_table_def pde_def)

lemma walk_alloc:
  assumes inv: "pt_inv s d \<rho> fs"
  shows "\<exists>r t \<rho>' fs'. walkpgdir d va True s = Ret r t \<and> vm_step d {} s \<rho> t \<rho>' \<and> pt_inv t d \<rho>' fs'
    \<and> pte_of (mem t) d = pte_of (mem s) d \<and> (r = 0 \<longrightarrow> fs = [] \<and> fs' = []) \<and> length fs \<le> Suc (length fs')
    \<and> (r \<noteq> 0 \<longrightarrow> has_table (mem t) d (PDX va) \<and> r = table (mem t) d (PDX va) + 4 * PTX va)"
proof (cases "has_table (mem s) d (PDX va)")
  case True
  have "table (mem s) d (PDX va) + 4 * PTX va \<noteq> 0"
    using table_slot_nonzero [OF pt_inv_table(2) [OF inv PDX_less True] PTX_less] .
  then show ?thesis using walk_present [OF True] True inv
    by (intro exI [of _ "table (mem s) d (PDX va) + 4 * PTX va"] exI [of _ s] exI [of _ \<rho>] exI [of _ fs])
      (simp add: vm_step_refl)
next
  case False
  have fp: "free_pages s fs" using inv by (simp add: pt_inv_def)
  have w: "\<not> has_flag (load32 (mem s) (d + 4 * PDX va)) PTE_P" using False by (simp add: has_table_def pde_def)
  show ?thesis
  proof (cases fs)
    case Nil
    then have "walkpgdir d va True s = Ret 0 s" using w fp by (simp add: walkpgdir_def free_pages_def kalloc_eq)
    then show ?thesis using inv Nil
      by (intro exI [of _ 0] exI [of _ s] exI [of _ \<rho>] exI [of _ fs]) (simp add: vm_step_refl)
  next
    case (Cons p fs')
    let ?m = "store32 (memset (mem s) p 0 PGSIZE) (d + 4 * PDX va) (V2P p OR PTE_P OR PTE_W OR PTE_U)"
    let ?t = "s\<lparr>freelist := load32 (mem s) p, mem := ?m\<rparr>"
    let ?\<rho> = "\<rho>(p := Tab d (PDX va))"
    have inv': "pt_inv s d \<rho> (p # fs')" using inv Cons by simp
    have pf: "p \<noteq> 0" "freelist s = p" "cpu_ok s" "\<not> holding KmemLock s" using fp Cons by (simp_all add: free_pages_def)
    then have "kalloc s = Ret p (s\<lparr>freelist := load32 (mem s) p\<rparr>)" by (simp add: kalloc_eq)
    then have r: "walkpgdir d va True s = Ret (p + 4 * PTX va) ?t" using w pf(1) by (simp add: walkpgdir_def Let_def)
    note n = new_table [OF inv' PDX_less False]
    have fr: "\<rho> p = Free" using inv' by (simp add: pt_inv_def)
    have st: "vm_step d {} s \<rho> ?t ?\<rho>"
      unfolding vm_step_def
    proof (intro conjI allI impI)
      show "mem_frame s ?t" by (cases s) (simp add: mem_frame_def)
    next
      fix q assume q: "\<not> mine d {} (\<rho> q)"
      then have "q \<noteq> p" "q \<noteq> d" using fr pt_inv_dir(1) [OF inv] by (auto simp: mine_def)
      then show "?\<rho> q = \<rho> q" by simp
      assume "q mod PGSIZE = 0"
      then show "same_page (mem s) (mem ?t) q" using n(5) [of q] \<open>q \<noteq> p\<close> \<open>q \<noteq> d\<close> by simp
    next
      fix q assume "mine d {} (\<rho> q)"
      then show "mine d {} (?\<rho> q)" by (simp add: mine_def)
    qed
    have "p + 4 * PTX va \<noteq> 0"
      using pt_inv_aligned(1) [OF inv] fr table_slot_nonzero [OF _ PTX_less] by blast
    then show ?thesis using r st n(1-4) Cons
      by (intro exI [of _ "p + 4 * PTX va"] exI [of _ ?t] exI [of _ ?\<rho>] exI [of _ fs']) simp
  qed
qed

subsection \<open>Mapping\<close>

abbreviation pn :: "u32 \<Rightarrow> nat" where "pn va \<equiv> unat va div 4096"

text \<open>The map with \<open>n\<close> pages from \<open>a\<close> on mapped to the physical addresses from \<open>pa\<close> on.\<close>

definition map_range :: "u32 \<Rightarrow> nat \<Rightarrow> u32 \<Rightarrow> u32 \<Rightarrow> (u32 \<Rightarrow> u32 option) \<Rightarrow> u32 \<Rightarrow> u32 option" where
  "map_range a n pa perm f va =
     (if pn a \<le> pn va \<and> pn va < pn a + n then Some ((pa + of_nat (4096 * (pn va - pn a))) OR perm OR PTE_P) else f va)"

lemma pn_next:
  assumes "unat a + 4096 < 2 ^ 32"
  shows "pn (a + PGSIZE) = Suc (pn a)" "unat (a + PGSIZE) = unat a + 4096"
proof -
  show u: "unat (a + PGSIZE) = unat a + 4096" using unat_add_of_nat [of a 4096] assms by simp
  show "pn (a + PGSIZE) = Suc (pn a)" by (simp add: u)
qed

lemma map_range_0: "map_range a 0 pa perm f = f"
  by (rule ext) (auto simp: map_range_def)

lemma map_range_Suc:
  assumes "unat a + 4096 < 2 ^ 32"
  shows "map_range (a + PGSIZE) n (pa + PGSIZE) perm (map_range a 1 pa perm f) = map_range a (Suc n) pa perm f"
proof
  fix va
  have e: "pa + PGSIZE + of_nat (4096 * (pn va - Suc (pn a))) = pa + of_nat (4096 * (pn va - pn a))" if "pn a < pn va"
  proof -
    have "4096 * (pn va - pn a) = 4096 + 4096 * (pn va - Suc (pn a))" using that by simp
    then have "of_nat (4096 * (pn va - pn a)) = PGSIZE + of_nat (4096 * (pn va - Suc (pn a)))" by (simp only: of_nat_add of_nat_numeral)
    then show ?thesis by (simp only: add.assoc)
  qed
  show "map_range (a + PGSIZE) n (pa + PGSIZE) perm (map_range a 1 pa perm f) va = map_range a (Suc n) pa perm f va"
    using pn_next(1) [OF assms] e by (cases "pn va = pn a") (auto simp: map_range_def)
qed

lemma store_pte_pmap:
  assumes "pt_inv s d \<rho> fs" "has_table (mem s) d (PDX a)" "a mod PGSIZE = 0"
  shows "pmap (store32 (mem s) (table (mem s) d (PDX a) + 4 * PTX a) (pa OR perm OR PTE_P)) d
    = map_range a 1 pa perm (pmap (mem s) d)"
proof
  fix w
  have "has_flag (pa OR perm OR PTE_P) PTE_P" using has_flag_or(1) [of "pa OR perm"] by (simp add: or.assoc)
  moreover have "PGROUNDDOWN w = PGROUNDDOWN a \<longleftrightarrow> pn w = pn a" by (rule page_eq_iff)
  ultimately show "pmap (store32 (mem s) (table (mem s) d (PDX a) + 4 * PTX a) (pa OR perm OR PTE_P)) d w
      = map_range a 1 pa perm (pmap (mem s) d) w"
    unfolding pmap_def [of _ d w] store_pte(2) [OF assms(1,2)] by (auto simp: map_range_def pmap_def)
qed

lemma store_pte_step:
  assumes "pt_inv s d \<rho> fs" "has_table (mem s) d (PDX a)"
  shows "vm_step d {} s \<rho> (s\<lparr>mem := store32 (mem s) (table (mem s) d (PDX a) + 4 * PTX a) v\<rparr>) \<rho>"
  using store_pte(3) [OF assms] by (auto simp: vm_step_def mem_frame_def mine_def)

lemma map_one:
  assumes inv: "pt_inv s d \<rho> fs" and a: "a mod PGSIZE = 0" "pmap (mem s) d a = None"
  shows "\<exists>r t u \<rho>' fs'. walkpgdir d a True s = Ret r t \<and> (r = 0 \<longrightarrow> fs = [] \<and> fs' = [] \<and> t = u \<and> pmap (mem u) d = pmap (mem s) d)
    \<and> (r \<noteq> 0 \<longrightarrow> \<not> has_flag (load32 (mem t) r) PTE_P \<and> u = t\<lparr>mem := store32 (mem t) r (pa OR perm OR PTE_P)\<rparr>
        \<and> pmap (mem u) d = map_range a 1 pa perm (pmap (mem s) d))
    \<and> vm_step d {} s \<rho> u \<rho>' \<and> pt_inv u d \<rho>' fs' \<and> length fs \<le> Suc (length fs')"
proof -
  obtain r t \<rho>' fs' where w: "walkpgdir d a True s = Ret r t" "vm_step d {} s \<rho> t \<rho>'" "pt_inv t d \<rho>' fs'"
    "pte_of (mem t) d = pte_of (mem s) d" "r = 0 \<longrightarrow> fs = [] \<and> fs' = []" "length fs \<le> Suc (length fs')"
    "r \<noteq> 0 \<longrightarrow> has_table (mem t) d (PDX a) \<and> r = table (mem t) d (PDX a) + 4 * PTX a"
    using walk_alloc [OF inv, of a] by blast
  have pm: "pmap (mem t) d = pmap (mem s) d" by (simp add: pmap_def fun_eq_iff w(4))
  show ?thesis
  proof (cases "r = 0")
    case True
    then show ?thesis using w pm by (intro exI [of _ r] exI [of _ t] exI [of _ \<rho>'] exI [of _ fs']) simp
  next
    case False
    let ?u = "t\<lparr>mem := store32 (mem t) r (pa OR perm OR PTE_P)\<rparr>"
    have ht: "has_table (mem t) d (PDX a)" "r = table (mem t) d (PDX a) + 4 * PTX a" using w(7) False by simp_all
    have "pmap (mem t) d a = None" using pm a(2) by simp
    then have "\<not> has_flag (load32 (mem t) r) PTE_P" using ht by (simp add: pmap_def pte_of_def split: if_splits)
    moreover have "pmap (mem ?u) d = map_range a 1 pa perm (pmap (mem s) d)"
      using store_pte_pmap [OF w(3) ht(1) a(1)] ht(2) pm by simp
    moreover have "vm_step d {} s \<rho> ?u \<rho>'"
      using vm_step_trans [OF w(2)] store_pte_step [OF w(3) ht(1)] ht(2) by simp
    moreover have "pt_inv ?u d \<rho>' fs'" using store_pte(1) [OF w(3) ht(1)] ht(2) by simp
    ultimately show ?thesis using w(1,6) False
      by (intro exI [of _ r] exI [of _ t] exI [of _ ?u] exI [of _ \<rho>'] exI [of _ fs']) simp
  qed
qed

lemma mappages_loop_ok:
  assumes "pt_inv s d \<rho> fs" "a mod PGSIZE = 0" "unat a + 4096 * n < 2 ^ 32"
    and "\<forall>va. pn a \<le> pn va \<and> pn va \<le> pn a + n \<longrightarrow> pmap (mem s) d va = None"
  shows "\<exists>r t \<rho>' fs' k. mappages_loop n d a pa perm s = Ret r t \<and> vm_step d {} s \<rho> t \<rho>' \<and> pt_inv t d \<rho>' fs'
    \<and> pmap (mem t) d = map_range a k pa perm (pmap (mem s) d) \<and> (r = 0 \<and> k = Suc n \<or> r = - 1 \<and> k \<le> n)
    \<and> (r = - 1 \<longrightarrow> length fs \<le> n \<and> fs' = []) \<and> length fs \<le> length fs' + Suc n"
  using assms
proof (induction n arbitrary: a pa s \<rho> fs)
  case (0 a pa s \<rho> fs)
  have "pmap (mem s) d a = None" using 0(4) by simp
  from map_one [OF 0(1,2) this, of pa perm] obtain r t u \<rho>' fs' where
    w: "walkpgdir d a True s = Ret r t" "r = 0 \<longrightarrow> fs = [] \<and> fs' = [] \<and> t = u \<and> pmap (mem u) d = pmap (mem s) d"
      "r \<noteq> 0 \<longrightarrow> \<not> has_flag (load32 (mem t) r) PTE_P \<and> u = t\<lparr>mem := store32 (mem t) r (pa OR perm OR PTE_P)\<rparr>
        \<and> pmap (mem u) d = map_range a 1 pa perm (pmap (mem s) d)"
      "vm_step d {} s \<rho> u \<rho>'" "pt_inv u d \<rho>' fs'" "length fs \<le> Suc (length fs')"
    by blast
  have "mappages_loop 0 d a pa perm s = (if r = 0 then Ret (- 1) t else Ret 0 u)"
    using w(1,3) by (subst mappages_loop.simps) (simp add: Let_def)
  moreover have "pmap (mem u) d = map_range a (if r = 0 then 0 else 1) pa perm (pmap (mem s) d)"
  proof (cases "r = 0")
    case False
    then have "pmap (mem u) d = map_range a 1 pa perm (pmap (mem s) d)" using w(3) by blast
    then show ?thesis using False by presburger
  qed (use w(2) in \<open>simp add: map_range_0\<close>)
  ultimately show ?case using w(2,4-6)
    by (intro exI [of _ "if r = 0 then - 1 else 0"] exI [of _ u] exI [of _ \<rho>'] exI [of _ fs'] exI [of _ "if r = 0 then 0 else 1"])
      (simp del: One_nat_def)
next
  case (Suc n a pa s \<rho> fs)
  have "pmap (mem s) d a = None" using Suc.prems(4) by simp
  from map_one [OF Suc.prems(1,2) this, of pa perm] obtain r t u \<rho>' fs' where
    w: "walkpgdir d a True s = Ret r t" "r = 0 \<longrightarrow> fs = [] \<and> fs' = [] \<and> t = u \<and> pmap (mem u) d = pmap (mem s) d"
      "r \<noteq> 0 \<longrightarrow> \<not> has_flag (load32 (mem t) r) PTE_P \<and> u = t\<lparr>mem := store32 (mem t) r (pa OR perm OR PTE_P)\<rparr>
        \<and> pmap (mem u) d = map_range a 1 pa perm (pmap (mem s) d)"
      "vm_step d {} s \<rho> u \<rho>'" "pt_inv u d \<rho>' fs'" "length fs \<le> Suc (length fs')"
    by blast
  show ?case
  proof (cases "r = 0")
    case True
    then have "mappages_loop (Suc n) d a pa perm s = Ret (- 1) u"
      using w(1,2) by (subst mappages_loop.simps) simp
    then show ?thesis using w True
      by (intro exI [of _ "- 1"] exI [of _ u] exI [of _ \<rho>'] exI [of _ fs'] exI [of _ 0]) (simp add: map_range_0)
  next
    case False
    then have l: "mappages_loop (Suc n) d a pa perm s = mappages_loop n d (a + PGSIZE) (pa + PGSIZE) perm u"
      using w(1,3) by (subst mappages_loop.simps) (simp add: Let_def)
    have u1: "pmap (mem u) d = map_range a 1 pa perm (pmap (mem s) d)" using w(3) False by blast
    have room: "unat a + 4096 < 2 ^ 32" using Suc.prems(3) by simp
    note nx = pn_next [OF room]
    have p1: "(a + PGSIZE) mod PGSIZE = 0" using aligned_add [OF Suc.prems(2), of PGSIZE] by simp
    have p2: "unat (a + PGSIZE) + 4096 * n < 2 ^ 32" using nx Suc.prems(3) by simp
    have "\<forall>va. pn (a + PGSIZE) \<le> pn va \<and> pn va \<le> pn (a + PGSIZE) + n \<longrightarrow> pmap (mem u) d va = None"
      using u1 nx Suc.prems(4) by (simp add: map_range_def)
    from Suc.IH [OF w(5) p1 p2 this, of "pa + PGSIZE"] obtain r' t' \<sigma> fs'' k where
      i: "mappages_loop n d (a + PGSIZE) (pa + PGSIZE) perm u = Ret r' t'" "vm_step d {} u \<rho>' t' \<sigma>" "pt_inv t' d \<sigma> fs''"
        "pmap (mem t') d = map_range (a + PGSIZE) k (pa + PGSIZE) perm (pmap (mem u) d)"
        "r' = 0 \<and> k = Suc n \<or> r' = - 1 \<and> k \<le> n" "r' = - 1 \<longrightarrow> length fs' \<le> n \<and> fs'' = []" "length fs' \<le> length fs'' + Suc n"
      by blast
    have "pmap (mem t') d = map_range a (Suc k) pa perm (pmap (mem s) d)"
      using i(4) map_range_Suc [OF room, of k pa perm "pmap (mem s) d"] by (simp only: u1)
    moreover have "vm_step d {} s \<rho> t' \<sigma>" using vm_step_trans [OF w(4) i(2)] .
    ultimately show ?thesis using l i w(6)
      by (intro exI [of _ r'] exI [of _ t'] exI [of _ \<sigma>] exI [of _ fs''] exI [of _ "Suc k"]) auto
  qed
qed

end
