(* ===== verification/Vm_Space.thy ===== *)
theory Vm_Space
  imports Vm_Tables
begin

unbundle bit_operations_syntax

text \<open>
  User memory (\<open>allocuvm\<close>, \<open>deallocuvm\<close>, \<open>mappages\<close> of theory \<open>Vm\<close>): the invariant \<open>vm_inv\<close> says that every
  mapped user page has a frame of its own, \<open>uread\<close> is the byte a process sees at a virtual address. Growing
  and shrinking a process change what it sees as specified and touch no page of anything else.
\<close>

subsection \<open>User memory\<close>

definition vm_inv :: "'x kmem_scheme \<Rightarrow> u32 \<Rightarrow> (u32 \<Rightarrow> role) \<Rightarrow> u32 list \<Rightarrow> bool" where
  "vm_inv s d \<rho> fs \<longleftrightarrow> pt_inv s d \<rho> fs \<and> frames_inv s d \<rho>"

text \<open>The byte at a virtual address, if it is mapped.\<close>

definition uread :: "memory \<Rightarrow> u32 \<Rightarrow> u32 \<Rightarrow> u8 option" where
  "uread m d va = map_option m (hw_translate m d va)"

lemma frames_inv_iff:
  "frames_inv s d \<rho> \<Longrightarrow> \<rho> p = Frame d v \<longleftrightarrow>
    v < KERNBASE \<and> v mod PGSIZE = 0 \<and> (\<exists>e. pmap (mem s) d v = Some e \<and> p = frame_of e)"
  by (simp add: frames_inv_def)

lemma frames_inv_kpage: "frames_inv s d \<rho> \<Longrightarrow> \<rho> p = Frame d v \<Longrightarrow> kpage s p"
  by (simp only: frames_inv_def)

lemma frames_inv_frame:
  assumes "frames_inv s d \<rho>" "va < KERNBASE" "pmap (mem s) d va = Some e"
  shows "\<rho> (frame_of e) = Frame d (PGROUNDDOWN va)" "kpage s (frame_of e)"
proof -
  have "PGROUNDDOWN va \<le> va" by (simp add: word_le_nat_alt unat_PGROUNDDOWN)
  then have "PGROUNDDOWN va < KERNBASE" using assms(2) by simp
  then show "\<rho> (frame_of e) = Frame d (PGROUNDDOWN va)"
    using assms(1,3) PGROUNDDOWN_aligned [of va] unfolding frames_inv_def by simp
  then show "kpage s (frame_of e)" using assms(1) unfolding frames_inv_def by blast
qed

lemma page_offset_cells: "p + va mod PGSIZE \<in> cells p 4096"
  by (simp add: cells_def unat_mod)

text \<open>Pages outside the step keep what a user sees.\<close>

lemma uread_kept:
  assumes "frames_inv s d \<rho>" "vm_step d' R s \<rho> t \<rho>'" "va < KERNBASE" "pmap (mem t) d va = pmap (mem s) d va"
    and "d' = d \<longrightarrow> PGROUNDDOWN va \<notin> R"
  shows "uread (mem t) d va = uread (mem s) d va"
proof (cases "pmap (mem s) d va")
  case None
  then show ?thesis using assms(4) by (simp add: uread_def hw_translate_pmap)
next
  case (Some e)
  note f = frames_inv_frame [OF assms(1,3) Some]
  have "\<not> mine d' R (\<rho> (frame_of e))" using f(1) assms(5) by (auto simp: mine_def)
  then have "same_page (mem s) (mem t) (frame_of e)" using assms(2) kpage_aligned [OF f(2)] by (simp add: vm_step_def)
  then show ?thesis using Some assms(4) page_offset_cells [of "frame_of e" va]
    by (simp add: uread_def hw_translate_pmap same_page_def)
qed

subsection \<open>Freeing a page\<close>

lemma pt_inv_frame:
  assumes "pt_inv s d \<rho> fs" "mem_frame s t" "free_pages t fs'" "\<And>p. \<rho>' p = Free \<longleftrightarrow> p \<in> set fs'"
    and roles: "\<And>p. \<rho>' p = Dir d \<longleftrightarrow> \<rho> p = Dir d" "\<And>p i. \<rho>' p = Tab d i \<longleftrightarrow> \<rho> p = Tab d i"
    and pd: "\<And>i. i < 1024 \<Longrightarrow> pde (mem t) d i = pde (mem s) d i"
  shows "pt_inv t d \<rho>' fs'"
proof -
  have q: "(i < 1024 \<and> has_table (mem t) d i \<and> p = table (mem t) d i) = (i < 1024 \<and> has_table (mem s) d i \<and> p = table (mem s) d i)" for i p
    using pd [of i] by (auto simp: has_table_def table_def)
  show ?thesis unfolding pt_inv_def roles mem_frame_select [OF assms(2)] q
    using assms(1) [unfolded pt_inv_def] assms(3,4) by blast
qed

lemma kfree_inv:
  assumes inv: "pt_inv s d \<rho> fs" and p: "kpage s p" "\<rho> p \<noteq> Free" "\<rho> p \<noteq> Dir d" "\<forall>i. \<rho> p \<noteq> Tab d i"
  shows "\<exists>t. kfree p s = Ret () t \<and> mem_frame s t \<and> pt_inv t d (\<rho>(p := Free)) (p # fs) \<and> pte_of (mem t) d = pte_of (mem s) d
    \<and> (\<forall>q. q mod PGSIZE = 0 \<and> q \<noteq> p \<longrightarrow> same_page (mem s) (mem t) q)"
proof -
  let ?m = "store32 (memset (mem s) p 1 PGSIZE) p (freelist s)"
  let ?t = "s\<lparr>mem := ?m, freelist := p\<rparr>"
  have fp: "free_pages s fs" "cpu_ok s" "\<not> holding KmemLock s" using inv by (simp_all add: pt_inv_def free_pages_def)
  have k: "kfree p s = Ret () ?t" using kfree_eq [OF p(1) fp(2,3)] by simp
  have nz: "p \<noteq> 0" using zero_not_kpage [OF p(1)] .
  have same: "same_page (mem s) ?m q" if "q mod PGSIZE = 0" "q \<noteq> p" for q
    unfolding same_page_def using pages_disjoint [OF that(1) kpage_aligned [OF p(1)] that(2)]
    by (intro ballI kfree_page_frame) blast
  have pf: "p \<notin> set fs" using inv p(2) by (simp add: pt_inv_def)
  from kmem.free_push [OF fp(1) p(1) nz pf] k have fr: "free_pages ?t (p # fs)" by simp
  have "same_page (mem s) ?m q" if "\<rho> q = Free \<or> \<rho> q = Dir d \<or> (\<exists>i. \<rho> q = Tab d i)" for q
    using that pt_inv_aligned(2) [OF inv that] p(2-4) by (intro same) auto
  then have e: "pte_of ?m d = pte_of (mem s) d" "\<And>i. i < 1024 \<Longrightarrow> pde ?m d i = pde (mem s) d i"
    using same_tables(1,2) [OF inv] by blast+
  have "pt_inv ?t d (\<rho>(p := Free)) (p # fs)"
  proof (rule pt_inv_frame [OF inv _ fr])
    show "(\<rho>(p := Free)) q = Free \<longleftrightarrow> q \<in> set (p # fs)" for q using inv by (simp add: pt_inv_def)
  qed (use p e in \<open>simp_all add: mem_frame_def\<close>)
  then show ?thesis using k e same by (intro exI [of _ ?t]) (simp add: mem_frame_def)
qed

subsection \<open>Unmapping\<close>

definition vpages :: "u32 \<Rightarrow> u32 \<Rightarrow> u32 set" where
  "vpages a e = {v. v mod PGSIZE = 0 \<and> a \<le> v \<and> v < e}"

definition unmap :: "u32 set \<Rightarrow> (u32 \<Rightarrow> u32 option) \<Rightarrow> u32 \<Rightarrow> u32 option" where
  "unmap R f va = (if PGROUNDDOWN va \<in> R then None else f va)"

definition frames_in :: "u32 set \<Rightarrow> (u32 \<Rightarrow> u32 option) \<Rightarrow> u32 set" where
  "frames_in R f = {frame_of e |e v. v \<in> R \<and> f v = Some e}"

lemma frames_in_insert: "frames_in (insert a R) f = frames_in {a} f \<union> frames_in R f"
  by (auto simp: frames_in_def)

lemma frames_in_unmap:
  assumes "R \<inter> R' = {}" "\<forall>v\<in>R. v mod PGSIZE = 0"
  shows "frames_in R (unmap R' f) = frames_in R f"
proof -
  have "unmap R' f v = f v" if "v \<in> R" for v using assms that PGROUNDDOWN_id [of v] by (auto simp: unmap_def)
  then show ?thesis unfolding frames_in_def by (metis (no_types, opaque_lifting))
qed

lemma dealloc_page_ok:
  assumes inv: "vm_inv s d \<rho> fs" and a: "a mod PGSIZE = 0" "a < KERNBASE" and t: "has_table (mem s) d (PDX a)"
  shows "\<exists>t \<rho>' fs'. dealloc_page (table (mem s) d (PDX a) + 4 * PTX a) s = Ret () t \<and> vm_step d {a} s \<rho> t \<rho>'
    \<and> vm_inv t d \<rho>' fs' \<and> pmap (mem t) d = unmap {a} (pmap (mem s) d) \<and> set fs' = set fs \<union> frames_in {a} (pmap (mem s) d)"
proof -
  let ?pte = "table (mem s) d (PDX a) + 4 * PTX a"
  have pt: "pt_inv s d \<rho> fs" and fr: "frames_inv s d \<rho>" using inv by (simp_all add: vm_inv_def)
  have nz: "?pte \<noteq> 0" using table_slot_nonzero [OF pt_inv_table(2) [OF pt PDX_less t] PTX_less] .
  have e: "load32 (mem s) ?pte = pte_of (mem s) d a" using t by (simp add: pte_of_def)
  show ?thesis
  proof (cases "pmap (mem s) d a")
    case None
    then have "dealloc_page ?pte s = Ret () s" using e nz by (simp add: dealloc_page_def pmap_def split: if_splits)
    moreover have "pmap (mem s) d = unmap {a} (pmap (mem s) d)"
    proof
      fix w show "pmap (mem s) d w = unmap {a} (pmap (mem s) d) w"
        using None pmap_page [of "mem s" d w] by (auto simp: unmap_def)
    qed
    moreover have "frames_in {a} (pmap (mem s) d) = {}" using None by (simp add: frames_in_def)
    ultimately show ?thesis using inv by (intro exI [of _ s] exI [of _ \<rho>] exI [of _ fs]) (simp add: vm_step_refl)
  next
    case (Some x)
    let ?f = "frame_of x"
    have x: "x = load32 (mem s) ?pte" "has_flag x PTE_P" using Some e by (auto simp: pmap_def split: if_splits)
    have f: "\<rho> ?f = Frame d a" "kpage s ?f" using frames_inv_frame [OF fr a(2) Some] PGROUNDDOWN_id [OF a(1)] by simp_all
    from kfree_inv [OF pt f(2)] f(1) obtain u where
      u: "kfree ?f s = Ret () u" "mem_frame s u" "pt_inv u d (\<rho>(?f := Free)) (?f # fs)" "pte_of (mem u) d = pte_of (mem s) d"
        "\<forall>q. q mod PGSIZE = 0 \<and> q \<noteq> ?f \<longrightarrow> same_page (mem s) (mem u) q"
      by auto
    let ?\<rho> = "\<rho>(?f := Free)"
    let ?t = "u\<lparr>mem := store32 (mem u) ?pte 0\<rparr>"
    have "?\<rho> (table (mem s) d (PDX a)) = Tab d (PDX a)" using pt_inv_table(1) [OF pt PDX_less t] f(1) by auto
    then have tu: "has_table (mem u) d (PDX a)" "table (mem s) d (PDX a) = table (mem u) d (PDX a)"
      using u(3) unfolding pt_inv_def by blast+
    have "PTE_ADDR x \<noteq> 0"
    proof
      assume "PTE_ADDR x = 0"
      then have "?f = KERNBASE" by (simp add: frame_of_def P2V_def)
      then have "kern_end s \<le> KERNBASE" using f(2) by (simp add: kpage_def)
      moreover have "KERNBASE < kern_end s" using pt by (simp add: pt_inv_def)
      ultimately show False by (simp add: not_le [symmetric])
    qed
    then have r: "dealloc_page ?pte s = Ret () ?t" using nz x u(1) by (simp add: dealloc_page_def frame_of_def)
    have pt': "pt_inv ?t d ?\<rho> (?f # fs)" using store_pte(1) [OF u(3) tu(1)] tu(2) by simp
    have pm: "pmap (mem ?t) d = unmap {a} (pmap (mem s) d)"
    proof
      fix w
      have "pte_of (mem ?t) d w = (if PGROUNDDOWN w = a then 0 else pte_of (mem s) d w)"
        using store_pte(2) [OF u(3) tu(1), of 0 w] tu(2) u(4) PGROUNDDOWN_id [OF a(1)] by simp
      then show "pmap (mem ?t) d w = unmap {a} (pmap (mem s) d) w" by (simp add: pmap_def unmap_def has_flag_def)
    qed
    have "frames_inv ?t d ?\<rho>"
      unfolding frames_inv_def
    proof (intro conjI allI impI)
      fix p v
      have i: "\<rho> p = Frame d v \<longleftrightarrow> v < KERNBASE \<and> v mod PGSIZE = 0 \<and> (\<exists>e. pmap (mem s) d v = Some e \<and> p = frame_of e)"
        using frames_inv_iff [OF fr] .
      show "?\<rho> p = Frame d v \<longleftrightarrow> v < KERNBASE \<and> v mod PGSIZE = 0 \<and> (\<exists>e. pmap (mem ?t) d v = Some e \<and> p = frame_of e)"
      proof (cases "v = a")
        case True
        then have "?\<rho> p \<noteq> Frame d v" using i Some by (cases "p = ?f") simp_all
        moreover have "pmap (mem ?t) d v = None" unfolding pm using True PGROUNDDOWN_id [OF a(1)] by (simp add: unmap_def)
        ultimately show ?thesis by simp
      next
        case False
        then have "?\<rho> p = Frame d v \<longleftrightarrow> \<rho> p = Frame d v" using f(1) by auto
        moreover have "v mod PGSIZE = 0 \<Longrightarrow> pmap (mem ?t) d v = pmap (mem s) d v"
          unfolding pm using False PGROUNDDOWN_id [of v] by (simp add: unmap_def)
        ultimately show ?thesis using i by metis
      qed
      assume "?\<rho> p = Frame d v"
      then have "\<rho> p = Frame d v" by (simp split: if_splits)
      then have "kpage s p" using frames_inv_kpage [OF fr] by simp
      then show "kpage ?t p" using mem_frame_select(2) [OF u(2)] by simp
    qed
    moreover have "vm_step d {a} s \<rho> ?t ?\<rho>"
      unfolding vm_step_def
    proof (intro conjI allI impI)
      show "mem_frame s ?t" using u(2) by (cases s, cases u) (simp add: mem_frame_def)
      fix q
      show "mine d {a} (\<rho> q) \<Longrightarrow> mine d {a} (?\<rho> q)" by (simp add: mine_def)
      assume q: "\<not> mine d {a} (\<rho> q)"
      then have "q \<noteq> ?f" "\<forall>i. ?\<rho> q \<noteq> Tab d i" using f(1) by (auto simp: mine_def)
      then show "?\<rho> q = \<rho> q" by simp
      assume al: "q mod PGSIZE = 0"
      show "same_page (mem s) (mem ?t) q"
        using same_page_trans [of "mem s" "mem u" q] u(5) al \<open>q \<noteq> ?f\<close> store_pte(3) [OF u(3) tu(1) al \<open>\<forall>i. ?\<rho> q \<noteq> Tab d i\<close>] tu(2) by simp
    qed
    moreover have "frames_in {a} (pmap (mem s) d) = {?f}" using Some by (simp add: frames_in_def)
    ultimately show ?thesis using r pt' pm
      by (intro exI [of _ ?t] exI [of _ ?\<rho>] exI [of _ "?f # fs"]) (simp add: vm_inv_def)
  qed
qed

lemma aligned_next:
  assumes "a mod PGSIZE = 0" "v mod PGSIZE = 0" "unat a + 4096 < 2 ^ 32" "a \<le> v" "v \<noteq> a"
  shows "a + PGSIZE \<le> v"
proof -
  obtain q r where q: "unat a = 4096 * q" "unat v = 4096 * r"
    using assms(1,2) [unfolded aligned_unat mod_eq_0_iff_dvd dvd_def] by blast
  have "q < r" using assms(4,5) q by (simp add: word_le_nat_alt word_unat_eq_iff)
  then have "unat a + 4096 \<le> unat v" using q by simp
  then show ?thesis using pn_next(2) [OF assms(3)] by (simp add: word_le_nat_alt)
qed

lemma vpages_step:
  assumes "a mod PGSIZE = 0" "a < e" "e \<le> KERNBASE"
  shows "vpages a e = insert a (vpages (a + PGSIZE) e)" "unat (a + PGSIZE) = unat a + 4096"
proof -
  have u: "unat a + 4096 < 2 ^ 32" using assms(2,3) by (simp add: word_less_nat_alt word_le_nat_alt)
  show n: "unat (a + PGSIZE) = unat a + 4096" using pn_next(2) [OF u] .
  have "a \<le> a + PGSIZE" using n by (simp add: word_le_nat_alt)
  then show "vpages a e = insert a (vpages (a + PGSIZE) e)"
  proof (intro set_eqI iffI)
    fix v
    show "v \<in> insert a (vpages (a + PGSIZE) e)" if "v \<in> vpages a e"
      using that aligned_next [OF assms(1) _ u, of v] by (cases "v = a") (simp_all add: vpages_def)
    assume "a \<le> a + PGSIZE" and v: "v \<in> insert a (vpages (a + PGSIZE) e)"
    then have "v = a \<or> a \<le> v" using order_trans [of a "a + PGSIZE" v] by (auto simp: vpages_def)
    then show "v \<in> vpages a e" using v assms by (cases "v = a") (simp_all add: vpages_def)
  qed
qed

lemma unat_next_table:
  assumes "a < KERNBASE"
  shows "unat (PGADDR (PDX a + 1) 0 0) = (unat a div 2 ^ 22 + 1) * 2 ^ 22"
proof -
  have "unat (PDX a) < 512" using assms by (simp add: unat_PDX word_less_nat_alt)
  moreover from this have s: "unat (PDX a + 1) = unat (PDX a) + 1" using unat_add_of_nat [of "PDX a" 1] by simp
  moreover have "unat (push_bit 22 x) = unat x * 2 ^ 22" if "unat x < 1024" for x :: u32
  proof -
    have "push_bit 22 x = x * of_nat (2 ^ 22)" by (simp add: push_bit_eq_mult)
    then show ?thesis using that unat_mult_lem [of x "of_nat (2 ^ 22)"] by simp
  qed
  ultimately show ?thesis by (simp add: PGADDR_def unat_PDX)
qed

lemma deallocuvm_loop_ok:
  assumes "vm_inv s d \<rho> fs" "a mod PGSIZE = 0" "e \<le> KERNBASE"
  shows "\<exists>t \<rho>' fs'. deallocuvm_loop d a e s = Ret () t \<and> vm_step d (vpages a e) s \<rho> t \<rho>'
    \<and> vm_inv t d \<rho>' fs' \<and> pmap (mem t) d = unmap (vpages a e) (pmap (mem s) d)
    \<and> set fs' = set fs \<union> frames_in (vpages a e) (pmap (mem s) d)"
  using assms
proof (induction "unat e - unat a" arbitrary: a s \<rho> fs rule: less_induct)
  case less
  show ?case
  proof (cases "a < e")
    case False
    then have "vpages a e = {}" by (auto simp: vpages_def)
    then have "unmap (vpages a e) (pmap (mem s) d) = pmap (mem s) d" by (auto simp: unmap_def)
    then show ?thesis using False less.prems(1) \<open>vpages a e = {}\<close>
      by (intro exI [of _ s] exI [of _ \<rho>] exI [of _ fs]) (subst deallocuvm_loop.simps, simp add: vm_step_refl frames_in_def)
  next
    case True
    have aK: "a < KERNBASE" using True less.prems(3) by simp
    show ?thesis
    proof (cases "has_table (mem s) d (PDX a)")
      case t: True
      note vp = vpages_step [OF less.prems(2) True less.prems(3)]
      have pt: "pt_inv s d \<rho> fs" using less.prems(1) by (simp add: vm_inv_def)
      have nz: "table (mem s) d (PDX a) + 4 * PTX a \<noteq> 0"
        using table_slot_nonzero [OF pt_inv_table(2) [OF pt PDX_less t] PTX_less] .
      obtain u \<sigma> gs where u: "dealloc_page (table (mem s) d (PDX a) + 4 * PTX a) s = Ret () u" "vm_step d {a} s \<rho> u \<sigma>"
          "vm_inv u d \<sigma> gs" "pmap (mem u) d = unmap {a} (pmap (mem s) d)" "set gs = set fs \<union> frames_in {a} (pmap (mem s) d)"
        using dealloc_page_ok [OF less.prems(1,2) aK t] by blast
      have "\<not> a + PGSIZE \<le> a" using vp(2) by (simp add: word_le_nat_alt)
      then have l: "deallocuvm_loop d a e s = deallocuvm_loop d (a + PGSIZE) e u"
        using True walk_present [OF t, of False] u(1) nz by (subst deallocuvm_loop.simps) (simp add: dealloc_next_def Let_def)
      have "unat e - unat (a + PGSIZE) < unat e - unat a" using vp(2) True by (simp add: word_less_nat_alt)
      moreover have al: "(a + PGSIZE) mod PGSIZE = 0" using aligned_add [OF less.prems(2), of PGSIZE] by simp
      ultimately obtain t \<rho>' fs' where
        i: "deallocuvm_loop d (a + PGSIZE) e u = Ret () t" "vm_step d (vpages (a + PGSIZE) e) u \<sigma> t \<rho>'"
          "vm_inv t d \<rho>' fs'" "pmap (mem t) d = unmap (vpages (a + PGSIZE) e) (pmap (mem u) d)"
          "set fs' = set gs \<union> frames_in (vpages (a + PGSIZE) e) (pmap (mem u) d)"
        using less.hyps [OF _ u(3) al less.prems(3)] by blast
      have "vm_step d (vpages a e) s \<rho> t \<rho>'"
        using vm_step_trans [OF vm_step_mono [OF u(2)] vm_step_mono [OF i(2)]] vp(1) by blast
      moreover have "pmap (mem t) d = unmap (vpages a e) (pmap (mem s) d)"
        unfolding i(4) u(4) vp(1) by (auto simp: unmap_def)
      moreover have "frames_in (vpages (a + PGSIZE) e) (unmap {a} (pmap (mem s) d)) = frames_in (vpages (a + PGSIZE) e) (pmap (mem s) d)"
        using vp(2) by (intro frames_in_unmap) (auto simp: vpages_def word_le_nat_alt)
      then have "set fs' = set fs \<union> frames_in (vpages a e) (pmap (mem s) d)"
        using i(5) u(5) frames_in_insert [of a "vpages (a + PGSIZE) e" "pmap (mem s) d"] by (simp add: u(4) vp(1) Un_assoc)
      ultimately show ?thesis using l i(1,3) by auto
    next
      case f: False
      let ?b = "PGADDR (PDX a + 1) 0 0"
      note ub = unat_next_table [OF aK]
      have gt: "unat a < unat ?b" unfolding ub by (simp add: dividend_less_div_times)
      then have "\<not> ?b \<le> a" by (simp add: word_le_nat_alt)
      then have l: "deallocuvm_loop d a e s = deallocuvm_loop d ?b e s"
        using True walk_absent [OF f] by (subst deallocuvm_loop.simps) (simp add: dealloc_next_def dealloc_page_def Let_def)
      have al: "?b mod PGSIZE = 0" using ub by (simp add: aligned_unat)
      have "unat e - unat ?b < unat e - unat a" using gt True by (simp add: word_less_nat_alt)
      then obtain t \<rho>' fs' where
        i: "deallocuvm_loop d ?b e s = Ret () t" "vm_step d (vpages ?b e) s \<rho> t \<rho>'"
          "vm_inv t d \<rho>' fs'" "pmap (mem t) d = unmap (vpages ?b e) (pmap (mem s) d)"
          "set fs' = set fs \<union> frames_in (vpages ?b e) (pmap (mem s) d)"
        using less.hyps [OF _ less.prems(1) al less.prems(3)] by blast
      have sub: "vpages ?b e \<subseteq> vpages a e" using gt by (intro subsetI) (simp add: vpages_def word_le_nat_alt)
      have nn: "pmap (mem s) d w = None" if w: "PGROUNDDOWN w \<in> vpages a e" "PGROUNDDOWN w \<notin> vpages ?b e" for w
      proof -
        have "unat a \<le> unat (PGROUNDDOWN w)" "unat (PGROUNDDOWN w) < unat ?b"
          using w by (simp_all add: vpages_def word_le_nat_alt not_le)
        then have "unat (PGROUNDDOWN w) div 2 ^ 22 = unat a div 2 ^ 22" unfolding ub
          by (metis add.commute div_le_mono le_antisym less_Suc_eq_le less_mult_imp_div_less plus_1_eq_Suc)
        then have "PDX w = PDX a" using PDX_page [of w] by (metis unat_PDX word_unat_eq_iff)
        then show ?thesis using f by (simp add: pmap_def pte_of_def has_flag_def)
      qed
      then have "unmap (vpages ?b e) (pmap (mem s) d) = unmap (vpages a e) (pmap (mem s) d)"
        using sub by (auto simp: unmap_def fun_eq_iff)
      moreover have "frames_in (vpages ?b e) (pmap (mem s) d) = frames_in (vpages a e) (pmap (mem s) d)"
      proof -
        have "v \<in> vpages ?b e" if v: "v \<in> vpages a e" "pmap (mem s) d v = Some x" for v x
        proof -
          have "PGROUNDDOWN v = v" using v(1) by (intro PGROUNDDOWN_id) (simp add: vpages_def)
          then show ?thesis using nn [of v] v by (cases "v \<in> vpages ?b e") simp_all
        qed
        then show ?thesis using sub unfolding frames_in_def by blast
      qed
      ultimately show ?thesis using l i vm_step_mono [OF i(2) sub] by auto
    qed
  qed
qed

subsection \<open>Taking a page and mapping it\<close>

lemma vm_step_limbo:
  assumes "vm_step d R s (\<rho>(m := Other)) t \<rho>'" "mine d R (\<rho> m)" "mine d R r"
  shows "vm_step d R s \<rho> t (\<rho>'(m := r))"
proof -
  have "(\<rho>'(m := r)) p = \<rho> p \<and> (p mod PGSIZE = 0 \<longrightarrow> same_page (mem s) (mem t) p)" if "\<not> mine d R (\<rho> p)" for p
  proof -
    have "p \<noteq> m" using assms(2) that by auto
    then have "(\<rho>(m := Other)) p = \<rho> p" by simp
    then have "\<rho>' p = \<rho> p \<and> (p mod PGSIZE = 0 \<longrightarrow> same_page (mem s) (mem t) p)"
      using assms(1) that unfolding vm_step_def by metis
    then show ?thesis using \<open>p \<noteq> m\<close> by simp
  qed
  moreover have "mine d R ((\<rho>'(m := r)) p)" if "mine d R (\<rho> p)" for p
  proof (cases "p = m")
    case False
    then have "mine d R ((\<rho>(m := Other)) p)" using that by simp
    then have "mine d R (\<rho>' p)" using assms(1) unfolding vm_step_def by blast
    then show ?thesis using False by simp
  qed (simp add: assms(3))
  ultimately show ?thesis using assms(1) unfolding vm_step_def by simp
qed

lemma vm_step_mem:
  assumes "mem_frame s t" "\<And>q. q mod PGSIZE = 0 \<Longrightarrow> q \<noteq> m \<Longrightarrow> same_page (mem s) (mem t) q" "mine d R (\<rho> m)"
  shows "vm_step d R s \<rho> t \<rho>"
proof -
  have "same_page (mem s) (mem t) p" if "\<not> mine d R (\<rho> p)" "p mod PGSIZE = 0" for p
    using assms(2) [OF that(2)] assms(3) that(1) by metis
  then show ?thesis using assms(1) by (simp add: vm_step_def)
qed

lemma alloc_page:
  assumes inv: "vm_inv s d \<rho> (m # fs)" and same: "\<And>q. q mod PGSIZE = 0 \<Longrightarrow> q \<noteq> m \<Longrightarrow> same_page (mem s) m' q"
  defines "t \<equiv> s\<lparr>freelist := load32 (mem s) m, mem := m'\<rparr>"
  shows "kalloc s = Ret m (s\<lparr>freelist := load32 (mem s) m\<rparr>)" "m \<noteq> 0" "kpage s m" "\<rho> m = Free"
    and "vm_inv t d (\<rho>(m := Other)) fs" "pmap (mem t) d = pmap (mem s) d" "mem_frame s t"
proof -
  have pt: "pt_inv s d \<rho> (m # fs)" and fr: "frames_inv s d \<rho>" using inv by (simp_all add: vm_inv_def)
  have fp: "free_pages s (m # fs)" using pt by (simp add: pt_inv_def)
  then have f: "m \<noteq> 0" "freelist s = m" "cpu_ok s" "\<not> holding KmemLock s" "distinct (m # fs)" by (simp_all add: free_pages_def)
  then show "kalloc s = Ret m (s\<lparr>freelist := load32 (mem s) m\<rparr>)" "m \<noteq> 0" by (simp_all add: kalloc_eq)
  show rm: "\<rho> m = Free" using pt by (simp add: pt_inv_def)
  then show "kpage s m" using pt_inv_aligned(1) [OF pt] by simp
  show mf: "mem_frame s t" by (simp add: t_def mem_frame_def)
  have sp: "same_page (mem s) m' q" if "\<rho> q = Dir d \<or> (\<exists>i. \<rho> q = Tab d i) \<or> q \<in> set fs" for q
  proof -
    have "q \<in> set fs \<Longrightarrow> \<rho> q = Free" using pt by (simp add: pt_inv_def)
    then have "\<rho> q = Free \<or> \<rho> q = Dir d \<or> (\<exists>i. \<rho> q = Tab d i)" using that by metis
    moreover have "q \<noteq> m" using that rm f(5) by auto
    ultimately show ?thesis using pt_inv_aligned(2) [OF pt] same by metis
  qed
  have "free_pages (s\<lparr>freelist := load32 (mem s) m\<rparr>) fs" using fp by (simp add: free_pages_def)
  then have "free_pages t fs" unfolding t_def using sp by (intro free_pages_mem) simp_all
  moreover have "(\<rho>(m := Other)) q = Free \<longleftrightarrow> q \<in> set fs" for q using pt f(5) by (auto simp: pt_inv_def)
  moreover have "pde (mem t) d i = pde (mem s) d i" if "i < 1024" for i
    unfolding t_def using same_tables(1) [OF pt _ that, of m'] sp by simp
  ultimately have pt': "pt_inv t d (\<rho>(m := Other)) fs" using rm by (intro pt_inv_frame [OF pt mf]) auto
  show pm: "pmap (mem t) d = pmap (mem s) d" unfolding t_def using same_tables(3) [OF pt, of m'] sp by simp
  have fo: "(\<rho>(m := Other)) q = Frame d v \<longleftrightarrow> \<rho> q = Frame d v" for q v using rm by auto
  have "frames_inv t d (\<rho>(m := Other))"
    unfolding frames_inv_def pm mem_frame_select [OF mf]
    unfolding fo using frames_inv_iff [OF fr] frames_inv_kpage [OF fr] by blast
  then show "vm_inv t d (\<rho>(m := Other)) fs" using pt' by (simp add: vm_inv_def)
qed

lemma mappages_eq:
  assumes "va mod PGSIZE = 0" "0 < sz" "unat va + unat sz \<le> 2 ^ 32"
  shows "mappages d va sz pa perm s = mappages_loop ((unat sz - 1) div 4096) d va pa perm s"
    and "unat va + 4096 * ((unat sz - 1) div 4096) < 2 ^ 32"
proof -
  obtain q where q: "unat va = 4096 * q" using assms(1) [unfolded aligned_unat mod_eq_0_iff_dvd dvd_def] by blast
  have pos: "0 < unat sz" using assms(2) by (simp add: word_less_nat_alt)
  have e: "va + sz - 1 = va + of_nat (unat sz - 1)" using pos by (simp add: of_nat_diff)
  have lt: "unat va + (unat sz - 1) < 2 ^ 32" using pos assms(3) by simp
  have u: "unat (va + sz - 1) = unat va + (unat sz - 1)" unfolding e using unat_add_of_nat [of va "unat sz - 1"] lt by simp
  define x where "x = unat sz - 1"
  have "unat (PGROUNDDOWN (va + sz - 1)) = 4096 * (q + x div 4096)"
  proof -
    have "unat (PGROUNDDOWN (va + sz - 1)) = 4096 * q + x - (4096 * q + x) mod 4096"
      by (simp only: unat_PGROUNDDOWN u q x_def)
    also have "\<dots> = 4096 * ((4096 * q + x) div 4096)" by (rule minus_mod_eq_mult_div)
    finally show ?thesis by simp
  qed
  moreover from this have "va \<le> PGROUNDDOWN (va + sz - 1)" by (simp add: word_le_nat_alt q)
  ultimately have "unat (PGROUNDDOWN (va + sz - 1) - va) div 4096 = x div 4096" by (simp add: unat_sub q)
  then show "mappages d va sz pa perm s = mappages_loop ((unat sz - 1) div 4096) d va pa perm s"
    using PGROUNDDOWN_id [OF assms(1)] by (simp add: mappages_def x_def)
  have "4096 * ((unat sz - 1) div 4096) \<le> unat sz - 1" by simp
  then show "unat va + 4096 * ((unat sz - 1) div 4096) < 2 ^ 32" using lt by linarith
qed

lemma mappages_page:
  assumes "a mod PGSIZE = 0"
  shows "mappages d a PGSIZE pa perm s = mappages_loop 0 d a pa perm s"
proof -
  obtain q where "unat a = 4096 * q" using assms [unfolded aligned_unat mod_eq_0_iff_dvd dvd_def] by blast
  then have "unat a + unat PGSIZE \<le> 2 ^ 32" using unsigned_less [where 'a = nat, of a] by simp
  then show ?thesis using mappages_eq(1) [OF assms, of PGSIZE] by simp
qed

lemma map_range_page:
  "map_range a 1 pa perm f va = (if PGROUNDDOWN va = PGROUNDDOWN a then Some (pa OR perm OR PTE_P) else f va)"
  by (auto simp: map_range_def page_eq_iff)

lemma frames_inv_step:
  assumes "frames_inv s d \<rho>" "vm_step d {} s \<rho> t \<rho>'" "pmap (mem t) d = pmap (mem s) d"
  shows "frames_inv t d \<rho>'"
proof -
  have mf: "mem_frame s t" using assms(2) by (simp add: vm_step_def)
  have "\<rho>' p = Frame d v \<longleftrightarrow> \<rho> p = Frame d v" for p v
  proof (cases "mine d {} (\<rho> p)")
    case True
    then have "mine d {} (\<rho>' p)" using assms(2) unfolding vm_step_def by blast
    then show ?thesis using True by (auto simp: mine_def)
  qed (use assms(2) in \<open>simp add: vm_step_def\<close>)
  then show ?thesis
    unfolding frames_inv_def assms(3) mem_frame_select [OF mf] using frames_inv_iff [OF assms(1)] frames_inv_kpage [OF assms(1)] by simp
qed

lemma map_frame:
  assumes inv: "vm_inv s d \<rho> fs" and m: "\<rho> m = Other" "kpage s m" and a: "a mod PGSIZE = 0" "a < KERNBASE"
    and none: "pmap (mem s) d a = None" and perm: "perm AND NOT 0xFFF = 0"
  shows "\<exists>r t \<rho>' fs'. mappages d a PGSIZE (V2P m) perm s = Ret r t \<and> vm_step d {} s \<rho> t \<rho>' \<and> length fs \<le> Suc (length fs')
    \<and> (r = 0 \<and> vm_inv t d (\<rho>'(m := Frame d a)) fs'
         \<and> pmap (mem t) d = (\<lambda>va. if PGROUNDDOWN va = a then Some (V2P m OR perm OR PTE_P) else pmap (mem s) d va)
       \<or> r = - 1 \<and> fs = [] \<and> fs' = [] \<and> vm_inv t d \<rho>' fs' \<and> pmap (mem t) d = pmap (mem s) d)"
proof -
  have pt: "pt_inv s d \<rho> fs" and fr: "frames_inv s d \<rho>" using inv by (simp_all add: vm_inv_def)
  have u: "unat a + 4096 * 0 < 2 ^ 32" using unsigned_less [where 'a = nat, of a] by simp
  have "\<forall>va. pn a \<le> pn va \<and> pn va \<le> pn a + 0 \<longrightarrow> pmap (mem s) d va = None"
  proof (intro allI impI)
    fix va assume "pn a \<le> pn va \<and> pn va \<le> pn a + 0"
    then have "PGROUNDDOWN va = PGROUNDDOWN a" by (simp add: page_eq_iff)
    then show "pmap (mem s) d va = None" using none pmap_page [of "mem s" d va] pmap_page [of "mem s" d a] by simp
  qed
  from mappages_loop_ok [OF pt a(1) u this, of "V2P m" perm] obtain r t \<rho>' fs' k where
    l: "mappages_loop 0 d a (V2P m) perm s = Ret r t" "vm_step d {} s \<rho> t \<rho>'" "pt_inv t d \<rho>' fs'"
      "pmap (mem t) d = map_range a k (V2P m) perm (pmap (mem s) d)" "r = 0 \<and> k = Suc 0 \<or> r = - 1 \<and> k \<le> 0"
      "r = - 1 \<longrightarrow> length fs \<le> 0 \<and> fs' = []" "length fs \<le> length fs' + Suc 0" by blast
  have r: "mappages d a PGSIZE (V2P m) perm s = Ret r t" using l(1) by (simp add: mappages_page [OF a(1)])
  have mf: "mem_frame s t" using l(2) by (simp add: vm_step_def)
  from l(5) show ?thesis
  proof (elim disjE conjE)
    assume k: "r = - 1" "k \<le> 0"
    then have pm: "pmap (mem t) d = pmap (mem s) d" using l(4) by (simp add: map_range_0)
    then have "vm_inv t d \<rho>' fs'" using frames_inv_step [OF fr l(2)] l(3) by (simp add: vm_inv_def)
    then show ?thesis using r l(2,6) k pm by auto
  next
    assume k: "r = 0" "k = Suc 0"
    let ?e = "V2P m OR perm OR PTE_P"
    have pm: "pmap (mem t) d = (\<lambda>va. if PGROUNDDOWN va = a then Some ?e else pmap (mem s) d va)"
      using l(4) k map_range_page [of a "V2P m" perm "pmap (mem s) d"] PGROUNDDOWN_id [OF a(1)] by (simp add: fun_eq_iff)
    have "(perm OR PTE_P) AND NOT 0xFFF = 0" using perm by (simp add: bit.conj_disj_distrib2)
    then have fe: "frame_of ?e = m" using PTE_ADDR_or [OF aligned_V2P [OF kpage_aligned [OF m(2)]]] by (simp add: frame_of_def)
    have rm: "\<rho>' m = Other" using l(2) m(1) unfolding vm_step_def by (simp add: mine_def)
    have fo: "\<rho>' p = Frame d v \<longleftrightarrow> \<rho> p = Frame d v" for p v
    proof (cases "mine d {} (\<rho> p)")
      case True
      then have "mine d {} (\<rho>' p)" using l(2) unfolding vm_step_def by blast
      then show ?thesis using True by (auto simp: mine_def)
    qed (use l(2) in \<open>simp add: vm_step_def\<close>)
    have "frames_inv t d (\<rho>'(m := Frame d a))"
      unfolding frames_inv_def
    proof (intro conjI allI impI)
      fix p v
      show "(\<rho>'(m := Frame d a)) p = Frame d v \<longleftrightarrow>
          v < KERNBASE \<and> v mod PGSIZE = 0 \<and> (\<exists>e. pmap (mem t) d v = Some e \<and> p = frame_of e)"
      proof (cases "v = a")
        case True
        have "\<rho>' p \<noteq> Frame d a" using fo frames_inv_iff [OF fr, of p a] none by simp
        then show ?thesis using True fe a PGROUNDDOWN_id [OF a(1)] by (cases "p = m") (simp_all add: pm)
      next
        case False
        have "(\<rho>'(m := Frame d a)) p = Frame d v \<longleftrightarrow> \<rho> p = Frame d v" using False fo rm m(1) by (cases "p = m") simp_all
        moreover have "v mod PGSIZE = 0 \<Longrightarrow> pmap (mem t) d v = pmap (mem s) d v" using False PGROUNDDOWN_id [of v] by (simp add: pm)
        ultimately show ?thesis using frames_inv_iff [OF fr, of p v] by metis
      qed
      show "kpage t p" if "(\<rho>'(m := Frame d a)) p = Frame d v"
        unfolding mem_frame_select [OF mf] using that m(2) fo frames_inv_kpage [OF fr, of p v] by (cases "p = m") simp_all
    qed
    moreover have "pt_inv t d (\<rho>'(m := Frame d a)) fs'"
    proof (rule pt_inv_frame [OF l(3) mem_frame_refl])
      show "free_pages t fs'" using l(3) by (simp add: pt_inv_def)
      show "(\<rho>'(m := Frame d a)) p = Free \<longleftrightarrow> p \<in> set fs'" for p using pt_inv_free [OF l(3), of p] rm by (cases "p = m") simp_all
    qed (use rm in auto)
    moreover have "length fs \<le> Suc (length fs')" using l(7) by simp
    ultimately show ?thesis using r l(2) k pm unfolding vm_inv_def by blast
  qed
qed

subsection \<open>Growing and shrinking\<close>

lemma pages_left_step:
  assumes "a mod PGSIZE = 0" "e \<le> KERNBASE" "pages_left a e = Suc n"
  shows "a < e" "pages_left (a + PGSIZE) e = n"
proof -
  have "0 < unat e - unat a" using assms(3) by (cases "unat e - unat a") (simp_all add: pages_left_def)
  then show l: "a < e" by (simp add: word_less_nat_alt)
  have "unat (a + PGSIZE) = unat a + 4096" using vpages_step(2) [OF assms(1) l assms(2)] .
  then have "unat e - unat (a + PGSIZE) = unat e - unat a - 4096" by simp
  moreover have "(x - 4096 + 4095) div 4096 = n" if "(x + 4095) div 4096 = Suc n" "0 < x" for x :: nat
    using that by (cases "x \<le> 4096") (auto simp: not_le dest: less_imp_add_positive)
  ultimately show "pages_left (a + PGSIZE) e = n"
    using assms(3) \<open>0 < unat e - unat a\<close> by (simp add: pages_left_def)
qed

lemma deallocuvm_ok:
  assumes "vm_inv s d \<rho> fs" "newsz < oldsz" "oldsz \<le> KERNBASE"
  shows "\<exists>t \<rho>' fs'. deallocuvm d oldsz newsz s = Ret newsz t \<and> vm_step d (vpages (PGROUNDUP newsz) oldsz) s \<rho> t \<rho>'
    \<and> vm_inv t d \<rho>' fs' \<and> pmap (mem t) d = unmap (vpages (PGROUNDUP newsz) oldsz) (pmap (mem s) d)
    \<and> set fs' = set fs \<union> frames_in (vpages (PGROUNDUP newsz) oldsz) (pmap (mem s) d)"
proof -
  obtain t \<rho>' fs' where "deallocuvm_loop d (PGROUNDUP newsz) oldsz s = Ret () t"
      "vm_step d (vpages (PGROUNDUP newsz) oldsz) s \<rho> t \<rho>'" "vm_inv t d \<rho>' fs'"
      "pmap (mem t) d = unmap (vpages (PGROUNDUP newsz) oldsz) (pmap (mem s) d)"
      "set fs' = set fs \<union> frames_in (vpages (PGROUNDUP newsz) oldsz) (pmap (mem s) d)"
    using deallocuvm_loop_ok [OF assms(1) PGROUNDUP_aligned assms(3), of newsz] by blast
  moreover from this have "deallocuvm d oldsz newsz s = Ret newsz t" using assms(2) not_le [of oldsz newsz] by (simp add: deallocuvm_def)
  ultimately show ?thesis by blast
qed

text \<open>What \<open>allocuvm\<close> adds: a fresh page of zeros, writable and accessible to the user.\<close>

definition fresh_zero :: "memory \<Rightarrow> u32 option \<Rightarrow> bool" where
  "fresh_zero m x = (case x of None \<Rightarrow> False
     | Some e \<Rightarrow> PTE_FLAGS e = PTE_P OR PTE_W OR PTE_U \<and> (\<forall>b\<in>cells (frame_of e) 4096. m b = 0))"

lemma kfree_limbo:
  assumes inv: "vm_inv s d \<rho> fs" and m: "\<rho> m = Other" "kpage s m"
  shows "\<exists>t. kfree m s = Ret () t \<and> vm_inv t d (\<rho>(m := Free)) (m # fs) \<and> pmap (mem t) d = pmap (mem s) d
    \<and> (\<forall>R. vm_step d R s (\<rho>(m := Free)) t (\<rho>(m := Free)))"
proof -
  have pt: "pt_inv s d \<rho> fs" and fr: "frames_inv s d \<rho>" using inv by (simp_all add: vm_inv_def)
  from kfree_inv [OF pt m(2)] m(1) obtain t where
    t: "kfree m s = Ret () t" "mem_frame s t" "pt_inv t d (\<rho>(m := Free)) (m # fs)" "pte_of (mem t) d = pte_of (mem s) d"
      "\<forall>q. q mod PGSIZE = 0 \<and> q \<noteq> m \<longrightarrow> same_page (mem s) (mem t) q" by auto
  have pm: "pmap (mem t) d = pmap (mem s) d" by (simp add: pmap_def fun_eq_iff t(4))
  have fo: "(\<rho>(m := Free)) q = Frame d v \<longleftrightarrow> \<rho> q = Frame d v" for q v using m(1) by auto
  have "frames_inv t d (\<rho>(m := Free))"
    unfolding frames_inv_def pm mem_frame_select [OF t(2)] fo using frames_inv_iff [OF fr] frames_inv_kpage [OF fr] by blast
  moreover have "vm_step d R s (\<rho>(m := Free)) t (\<rho>(m := Free))" for R
    using t(2,5) by (intro vm_step_mem [of _ _ m]) (simp_all add: mine_def)
  ultimately show ?thesis using t(1,3) pm by (auto simp: vm_inv_def)
qed

lemma take_page_step:
  assumes "vm_inv s d \<rho> (m # fs)" "\<And>q. q mod PGSIZE = 0 \<Longrightarrow> q \<noteq> m \<Longrightarrow> same_page (mem s) m' q"
    and "vm_step d R (s\<lparr>freelist := load32 (mem s) m, mem := m'\<rparr>) (\<rho>(m := Other)) t \<rho>'" "mine d R r"
  shows "vm_step d R s \<rho> t (\<rho>'(m := r))"
proof -
  note a = alloc_page [OF assms(1), of m', OF assms(2)]
  have "mine d R (\<rho> m)" using a(4) by (simp add: mine_def)
  from vm_step_limbo [OF assms(3) this assms(4)]
  have "vm_step d R (s\<lparr>freelist := load32 (mem s) m, mem := m'\<rparr>) \<rho> t (\<rho>'(m := r))" .
  moreover have "vm_step d R s \<rho> (s\<lparr>freelist := load32 (mem s) m, mem := m'\<rparr>) \<rho>"
    using a(7) assms(2) \<open>mine d R (\<rho> m)\<close> by (intro vm_step_mem [of _ _ m]) simp_all
  ultimately show ?thesis using vm_step_trans by blast
qed

text \<open>One iteration that succeeds, and the two ways it can fail.\<close>

abbreviation zeroed :: "u32 \<Rightarrow> 'x kmem_scheme \<Rightarrow> 'x kmem_scheme" where
  "zeroed m s \<equiv> s\<lparr>freelist := load32 (mem s) m, mem := memset (mem s) m 0 PGSIZE\<rparr>"

lemma zeroed_same: "kpage s m \<Longrightarrow> q mod PGSIZE = 0 \<Longrightarrow> q \<noteq> m \<Longrightarrow> same_page (mem s) (memset (mem s) m 0 PGSIZE) q"
  by (rule same_page_memset [OF kpage_aligned])

lemma alloc_fails:
  assumes inv: "vm_inv s d \<rho> (m # fs)" and sz: "oldsz < e" "e \<le> KERNBASE"
    and fail: "vm_step d {} (zeroed m s) (\<rho>(m := Other)) t \<rho>'" "vm_inv t d \<rho>' gs" "pmap (mem t) d = pmap (mem s) d"
  shows "\<exists>u v \<sigma> hs. deallocuvm d e oldsz t = Ret oldsz u \<and> kfree m u = Ret () v \<and> vm_inv v d \<sigma> hs
    \<and> vm_step d (vpages (PGROUNDUP oldsz) e) s \<rho> v \<sigma> \<and> pmap (mem v) d = unmap (vpages (PGROUNDUP oldsz) e) (pmap (mem s) d)"
proof -
  let ?R = "vpages (PGROUNDUP oldsz) e"
  have pt: "pt_inv s d \<rho> (m # fs)" using inv by (simp add: vm_inv_def)
  have "\<rho> m = Free" using pt_inv_free [OF pt] by simp
  then have km: "kpage s m" using pt_inv_aligned(1) [OF pt] by simp
  obtain u \<sigma> hs where u: "deallocuvm d e oldsz t = Ret oldsz u" "vm_step d ?R t \<rho>' u \<sigma>" "vm_inv u d \<sigma> hs"
      "pmap (mem u) d = unmap ?R (pmap (mem t) d)"
    using deallocuvm_ok [OF fail(2) sz] by blast
  have st: "vm_step d ?R (zeroed m s) (\<rho>(m := Other)) u \<sigma>"
    using vm_step_trans [OF vm_step_mono [OF fail(1)] u(2)] by simp
  have "(\<rho>(m := Other)) m = Other" by simp
  then have so: "\<sigma> m = Other" using st unfolding vm_step_def mine_def by (metis role.distinct)
  have "mem_frame (zeroed m s) u" using st by (simp add: vm_step_def)
  then have "kpage u m" using km by (simp add: mem_frame_select(2))
  from kfree_limbo [OF u(3) so this] obtain v where v: "kfree m u = Ret () v" "vm_inv v d (\<sigma>(m := Free)) (m # hs)"
      "pmap (mem v) d = pmap (mem u) d" "vm_step d ?R u (\<sigma>(m := Free)) v (\<sigma>(m := Free))" by blast
  have "vm_step d ?R s \<rho> u (\<sigma>(m := Free))"
    using take_page_step [OF inv zeroed_same [OF km] st] by (simp add: mine_def)
  then have "vm_step d ?R s \<rho> v (\<sigma>(m := Free))" using vm_step_trans v(4) by blast
  then show ?thesis using u(1,4) v fail(3) by auto
qed

lemma alloc_one:
  assumes inv: "vm_inv s d \<rho> fs" and a: "a mod PGSIZE = 0" "a < KERNBASE" "pmap (mem s) d a = None"
    and sz: "oldsz < e" "e \<le> KERNBASE"
  shows "(\<exists>m t \<sigma> gs x. kalloc s = Ret m (s\<lparr>freelist := load32 (mem s) m\<rparr>) \<and> m \<noteq> 0
      \<and> mappages d a PGSIZE (V2P m) (PTE_W OR PTE_U) (zeroed m s) = Ret 0 t \<and> vm_inv t d \<sigma> gs \<and> vm_step d {a} s \<rho> t \<sigma>
      \<and> length fs \<le> length gs + 2
      \<and> \<sigma> (frame_of x) = Frame d a \<and> fresh_zero (mem t) (Some x)
      \<and> pmap (mem t) d = (\<lambda>va. if PGROUNDDOWN va = a then Some x else pmap (mem s) d va))
    \<or> (\<exists>t \<sigma> gs. (\<forall>n. allocuvm_loop (Suc n) d a oldsz e s = Ret 0 t) \<and> vm_inv t d \<sigma> gs \<and> length fs \<le> 1
      \<and> vm_step d (vpages (PGROUNDUP oldsz) e) s \<rho> t \<sigma> \<and> pmap (mem t) d = unmap (vpages (PGROUNDUP oldsz) e) (pmap (mem s) d))"
proof (cases fs)
  case Nil
  then have "kalloc s = Ret 0 s" using inv by (simp add: vm_inv_def pt_inv_def free_pages_def kalloc_eq)
  moreover obtain t \<sigma> gs where "deallocuvm d e oldsz s = Ret oldsz t" "vm_inv t d \<sigma> gs"
      "vm_step d (vpages (PGROUNDUP oldsz) e) s \<rho> t \<sigma>" "pmap (mem t) d = unmap (vpages (PGROUNDUP oldsz) e) (pmap (mem s) d)"
    using deallocuvm_ok [OF inv sz] by blast
  ultimately show ?thesis using Nil by (intro disjI2 exI [of _ t] exI [of _ \<sigma>] exI [of _ gs]) simp
next
  case (Cons m fs')
  have inv: "vm_inv s d \<rho> (m # fs')" using inv Cons by simp
  have pt: "pt_inv s d \<rho> (m # fs')" using inv by (simp add: vm_inv_def)
  have "\<rho> m = Free" using pt_inv_free [OF pt] by simp
  then have km: "kpage s m" using pt_inv_aligned(1) [OF pt] by simp
  let ?s = "zeroed m s"
  note al = alloc_page [OF inv zeroed_same [OF km]]
  have none: "pmap (mem ?s) d a = None" using a(3) al(6) by simp
  have km': "kpage ?s m" using km by simp
  from map_frame [OF al(5) _ km' a(1,2) none, of "PTE_W OR PTE_U"] obtain r t \<rho>' gs where
    t: "mappages d a PGSIZE (V2P m) (PTE_W OR PTE_U) ?s = Ret r t" "vm_step d {} ?s (\<rho>(m := Other)) t \<rho>'" "length fs' \<le> Suc (length gs)"
    and c: "r = 0 \<and> vm_inv t d (\<rho>'(m := Frame d a)) gs
       \<and> pmap (mem t) d = (\<lambda>va. if PGROUNDDOWN va = a then Some (V2P m OR (PTE_W OR PTE_U) OR PTE_P) else pmap (mem ?s) d va)
     \<or> r = - 1 \<and> fs' = [] \<and> vm_inv t d \<rho>' gs \<and> pmap (mem t) d = pmap (mem ?s) d" by auto
  from c show ?thesis
  proof (elim disjE conjE)
    assume f: "r = - 1" "vm_inv t d \<rho>' gs" "pmap (mem t) d = pmap (mem ?s) d" and e: "fs' = []"
    have "pmap (mem t) d = pmap (mem s) d" using f(3) al(6) by simp
    from alloc_fails [OF inv sz t(2) f(2) this] obtain u v \<sigma> hs where
      v: "deallocuvm d e oldsz t = Ret oldsz u" "kfree m u = Ret () v" "vm_inv v d \<sigma> hs"
        "vm_step d (vpages (PGROUNDUP oldsz) e) s \<rho> v \<sigma>" "pmap (mem v) d = unmap (vpages (PGROUNDUP oldsz) e) (pmap (mem s) d)"
      by blast
    then have "allocuvm_loop (Suc n) d a oldsz e s = Ret 0 v" for n
      using al(1,2) t(1) f(1) by (simp add: Let_def)
    moreover have "length fs \<le> 1" using Cons e by simp
    ultimately show ?thesis using v(3-5) by blast
  next
    let ?x = "V2P m OR (PTE_W OR PTE_U) OR PTE_P"
    assume g: "r = 0" "vm_inv t d (\<rho>'(m := Frame d a)) gs"
      "pmap (mem t) d = (\<lambda>va. if PGROUNDDOWN va = a then Some ?x else pmap (mem ?s) d va)"
    have "vm_step d {a} ?s (\<rho>(m := Other)) t \<rho>'" using vm_step_mono [OF t(2)] by simp
    then have st: "vm_step d {a} s \<rho> t (\<rho>'(m := Frame d a))"
      using take_page_step [OF inv zeroed_same [OF km]] by (simp add: mine_def)
    have x: "frame_of ?x = m" using PTE_ADDR_or [OF aligned_V2P [OF kpage_aligned [OF km]]] by (simp add: frame_of_def or.assoc)
    have "same_page (mem ?s) (mem t) m" using t(2) kpage_aligned [OF km] unfolding vm_step_def by (simp add: mine_def)
    then have z: "\<forall>b\<in>cells m 4096. mem t b = 0" by (simp add: same_page_def memset_apply)
    have "PTE_FLAGS ?x = 7"
      using aligned_and_mask [OF aligned_V2P [OF kpage_aligned [OF km]]] by (simp add: PTE_FLAGS_def bit.conj_disj_distrib2)
    then have "fresh_zero (mem t) (Some ?x)" using z x by (simp add: fresh_zero_def)
    moreover have "pmap (mem t) d = (\<lambda>va. if PGROUNDDOWN va = a then Some ?x else pmap (mem s) d va)"
      using al(6) by (simp add: g(3) fun_eq_iff)
    ultimately show ?thesis using al(1,2) t(1,3) g(1,2) st x Cons
      by (intro disjI1 exI [of _ m] exI [of _ t] exI [of _ "\<rho>'(m := Frame d a)"] exI [of _ gs] exI [of _ ?x]) simp
  qed
qed

lemma allocuvm_loop_ok:
  assumes "vm_inv s d \<rho> fs" "a mod PGSIZE = 0" "oldsz < e" "e \<le> KERNBASE" "pages_left a e = n"
    and "\<forall>va. PGROUNDDOWN va \<in> vpages a e \<longrightarrow> pmap (mem s) d va = None" and "PGROUNDUP oldsz \<le> a"
  shows "\<exists>r t \<rho>' fs'. allocuvm_loop n d a oldsz e s = Ret r t \<and> vm_inv t d \<rho>' fs'
    \<and> (r = e \<and> length fs \<le> length fs' + 2 * n \<and> vm_step d (vpages a e) s \<rho> t \<rho>' \<and> (\<forall>va. if PGROUNDDOWN va \<in> vpages a e then fresh_zero (mem t) (pmap (mem t) d va)
           else pmap (mem t) d va = pmap (mem s) d va)
       \<or> r = 0 \<and> length fs < 2 * n \<and> vm_step d (vpages (PGROUNDUP oldsz) e) s \<rho> t \<rho>'
         \<and> pmap (mem t) d = unmap (vpages (PGROUNDUP oldsz) e) (pmap (mem s) d))"
  using assms
proof (induction n arbitrary: a s \<rho> fs)
  case (0 a s \<rho> fs)
  have "(unat e - unat a + 4095) div 4096 = 0" using 0(5) by (simp add: pages_left_def)
  then have "\<not> a < e" by (simp add: word_less_nat_alt)
  then have "vpages a e = {}" by (auto simp: vpages_def)
  then show ?case using 0(1) by (intro exI [of _ e] exI [of _ s] exI [of _ \<rho>] exI [of _ fs]) (simp add: vm_step_refl)
next
  case (Suc n a s \<rho> fs)
  let ?b = "a + PGSIZE"
  note ps = pages_left_step [OF Suc.prems(2,4,5)]
  note vp = vpages_step [OF Suc.prems(2) ps(1) Suc.prems(4)]
  have aK: "a < KERNBASE" using ps(1) Suc.prems(4) by simp
  have "PGROUNDDOWN a \<in> vpages a e" using vp(1) PGROUNDDOWN_id [OF Suc.prems(2)] by simp
  then have none: "pmap (mem s) d a = None" using Suc.prems(6) by blast
  from alloc_one [OF Suc.prems(1,2) aK none Suc.prems(3,4)] show ?case
  proof (elim disjE exE conjE)
    fix t \<sigma> gs
    assume "\<forall>n. allocuvm_loop (Suc n) d a oldsz e s = Ret 0 t" "vm_inv t d \<sigma> gs" and short: "length fs \<le> 1"
      "vm_step d (vpages (PGROUNDUP oldsz) e) s \<rho> t \<sigma>" "pmap (mem t) d = unmap (vpages (PGROUNDUP oldsz) e) (pmap (mem s) d)"
    moreover have "length fs < 2 * Suc n" using short by simp
    ultimately show ?thesis by (intro exI [of _ 0] exI [of _ t] exI [of _ \<sigma>] exI [of _ gs]) blast
  next
    fix m t \<sigma> gs x
    assume k: "kalloc s = Ret m (s\<lparr>freelist := load32 (mem s) m\<rparr>)" "m \<noteq> 0"
        "mappages d a PGSIZE (V2P m) (PTE_W OR PTE_U) (zeroed m s) = Ret 0 t"
      and t: "vm_inv t d \<sigma> gs" "vm_step d {a} s \<rho> t \<sigma>" "\<sigma> (frame_of x) = Frame d a" "fresh_zero (mem t) (Some x)"
        "length fs \<le> length gs + 2"
      and pm: "pmap (mem t) d = (\<lambda>va. if PGROUNDDOWN va = a then Some x else pmap (mem s) d va)"
    have l: "allocuvm_loop (Suc n) d a oldsz e s = allocuvm_loop n d ?b oldsz e t" using k by (simp add: Let_def)
    have al: "?b mod PGSIZE = 0" using aligned_add [OF Suc.prems(2), of PGSIZE] by simp
    have nin: "a \<notin> vpages ?b e" using vp(2) by (simp add: vpages_def word_le_nat_alt)
    have "\<forall>va. PGROUNDDOWN va \<in> vpages ?b e \<longrightarrow> pmap (mem t) d va = None"
      using Suc.prems(6) nin vp(1) by (auto simp: pm)
    moreover have "PGROUNDUP oldsz \<le> ?b" using Suc.prems(7) vp(2) by (simp add: word_le_nat_alt)
    ultimately obtain r u \<rho>' fs' where u: "allocuvm_loop n d ?b oldsz e t = Ret r u" "vm_inv u d \<rho>' fs'"
      and c: "r = e \<and> length gs \<le> length fs' + 2 * n \<and> vm_step d (vpages ?b e) t \<sigma> u \<rho>' \<and> (\<forall>va. if PGROUNDDOWN va \<in> vpages ?b e then fresh_zero (mem u) (pmap (mem u) d va)
           else pmap (mem u) d va = pmap (mem t) d va)
       \<or> r = 0 \<and> length gs < 2 * n \<and> vm_step d (vpages (PGROUNDUP oldsz) e) t \<sigma> u \<rho>'
         \<and> pmap (mem u) d = unmap (vpages (PGROUNDUP oldsz) e) (pmap (mem t) d)"
      using Suc.IH [OF t(1) al Suc.prems(3,4) ps(2)] by blast
    from c show ?thesis
    proof (elim disjE conjE)
      assume f: "r = 0" "vm_step d (vpages (PGROUNDUP oldsz) e) t \<sigma> u \<rho>'"
        "pmap (mem u) d = unmap (vpages (PGROUNDUP oldsz) e) (pmap (mem t) d)" and short: "length gs < 2 * n"
      have ain: "a \<in> vpages (PGROUNDUP oldsz) e" using Suc.prems(2,7) ps(1) by (simp add: vpages_def)
      then have "vm_step d (vpages (PGROUNDUP oldsz) e) s \<rho> u \<rho>'" using vm_step_trans [OF vm_step_mono [OF t(2)] f(2)] by simp
      moreover have "pmap (mem u) d = unmap (vpages (PGROUNDUP oldsz) e) (pmap (mem s) d)"
        using ain by (auto simp: f(3) pm unmap_def fun_eq_iff)
      moreover have "length fs < 2 * Suc n" using short t(5) by simp
      ultimately show ?thesis using l u f(1) by (intro exI [of _ 0] exI [of _ u] exI [of _ \<rho>'] exI [of _ fs']) simp
    next
      assume room: "length gs \<le> length fs' + 2 * n"
      assume g: "r = e" "vm_step d (vpages ?b e) t \<sigma> u \<rho>'"
        "\<forall>va. if PGROUNDDOWN va \<in> vpages ?b e then fresh_zero (mem u) (pmap (mem u) d va) else pmap (mem u) d va = pmap (mem t) d va"
      have "vm_step d (vpages a e) s \<rho> u \<rho>'"
        using vm_step_trans [OF vm_step_mono [OF t(2)] vm_step_mono [OF g(2)]] vp(1) by blast
      moreover have "\<forall>va. if PGROUNDDOWN va \<in> vpages a e then fresh_zero (mem u) (pmap (mem u) d va) else pmap (mem u) d va = pmap (mem s) d va"
      proof
        fix va
        have "\<not> mine d (vpages ?b e) (\<sigma> (frame_of x))" using t(3) nin by (auto simp: mine_def)
        moreover have "frame_of x mod PGSIZE = 0" by (simp add: frame_of_def aligned_P2V PTE_ADDR_aligned)
        ultimately have "same_page (mem t) (mem u) (frame_of x)" using g(2) by (simp add: vm_step_def)
        then have z: "fresh_zero (mem u) (Some x)" using t(4) by (simp add: fresh_zero_def same_page_def)
        have "if PGROUNDDOWN va \<in> vpages ?b e then fresh_zero (mem u) (pmap (mem u) d va) else pmap (mem u) d va = pmap (mem t) d va"
          using g(3) by blast
        then show "if PGROUNDDOWN va \<in> vpages a e then fresh_zero (mem u) (pmap (mem u) d va) else pmap (mem u) d va = pmap (mem s) d va"
          using z nin vp(1) by (cases "PGROUNDDOWN va = a") (simp_all add: pm)
      qed
      moreover have "length fs \<le> length fs' + 2 * Suc n" using room t(5) by simp
      ultimately show ?thesis using l u g(1) by (intro exI [of _ e] exI [of _ u] exI [of _ \<rho>'] exI [of _ fs']) simp
    qed
  qed
qed

subsection \<open>An example address space\<close>

text \<open>An empty directory at 2 MB and two free pages, the first linked to the second.\<close>

definition ex_vm :: kmem where
  "ex_vm = ex_kmem\<lparr>mem := store32 (\<lambda>_. 0) 0x80201000 0x80202000, freelist := 0x80201000\<rparr>"

definition ex_role :: "u32 \<Rightarrow> role" where
  "ex_role p = (if p = 0x80200000 then Dir 0x80200000 else if p \<in> {0x80201000, 0x80202000} then Free else Other)"

lemma ex_vm_tables: "\<not> has_table (mem ex_vm) 0x80200000 i" if "i < 1024"
proof -
  have "load32 (store32 (\<lambda>_. 0) 0x80201000 0x80202000) (0x80200000 + 4 * i) = 0"
    using load_slot [of "0x80201000" "0x80200000" 0 i] that by (simp add: load32_def)
  then show ?thesis by (simp add: has_table_def pde_def ex_vm_def has_flag_def)
qed

lemma ex_vm_inv: "vm_inv ex_vm 0x80200000 ex_role [0x80201000, 0x80202000]"
proof -
  have l: "load32 (mem ex_vm) 0x80202000 = 0"
    using load_slot [of "0x80201000" "0x80202000" 0 0] by (simp add: ex_vm_def load32_def)
  have "free_pages ex_vm [0x80201000, 0x80202000]"
    using l by (simp add: ex_vm_def ex_kmem_def free_pages_def load32_store32_same kpage_def V2P_def cpu_ok_def holding_def)
  moreover have "KERNBASE < kern_end ex_vm" "kpage ex_vm 0x80200000" by (simp_all add: ex_vm_def ex_kmem_def kpage_def V2P_def)
  ultimately have "pt_inv ex_vm 0x80200000 ex_role [0x80201000, 0x80202000]"
    using ex_vm_tables by (auto simp: pt_inv_def ex_role_def)
  moreover have "pmap (mem ex_vm) 0x80200000 va = None" for va
    using ex_vm_tables [OF PDX_less] by (simp add: pmap_def pte_of_def has_flag_def)
  then have "frames_inv ex_vm 0x80200000 ex_role" by (simp add: frames_inv_def ex_role_def)
  ultimately show ?thesis by (simp add: vm_inv_def)
qed

lemma ex_vm_empty: "pmap (mem ex_vm) 0x80200000 va = None"
  using ex_vm_tables [OF PDX_less] by (simp add: pmap_def pte_of_def has_flag_def)

subsection \<open>Properties: an address space grows and shrinks\<close>

lemma uread_None_iff: "uread m d va = None \<longleftrightarrow> pmap m d va = None"
  by (simp add: uread_def hw_translate_pmap)

text \<open>
  C10. Growing a process is all or nothing. \<open>allocuvm\<close> on a well-formed address space whose new pages
  are not mapped returns: either the new size, and then every new page reads as zeros and every other
  user address reads as before, or 0, and then every user address reads as before; 0 is returned only if
  fewer than two pages (a frame and a page table) are free for each page to add.
  In both cases the address space is again well-formed (every mapped page has a frame of its own) and no
  page that belongs to anything else is touched.
\<close>

theorem allocuvm_all_or_nothing:
  assumes inv: "vm_inv s d \<rho> fs" and sz: "oldsz \<le> newsz" "newsz < KERNBASE"
    and none: "\<forall>va. PGROUNDDOWN va \<in> vpages (PGROUNDUP oldsz) newsz \<longrightarrow> uread (mem s) d va = None"
  shows "\<exists>r t \<rho>' fs'. allocuvm d oldsz newsz s = Ret r t \<and> vm_inv t d \<rho>' fs'
    \<and> vm_step d (vpages (PGROUNDUP oldsz) newsz) s \<rho> t \<rho>'
    \<and> (r = newsz \<and> (\<forall>va<KERNBASE. uread (mem t) d va =
           (if PGROUNDDOWN va \<in> vpages (PGROUNDUP oldsz) newsz then Some 0 else uread (mem s) d va))
       \<or> r = 0 \<and> length fs < 2 * pages_left (PGROUNDUP oldsz) newsz
         \<and> (\<forall>va<KERNBASE. uread (mem t) d va = uread (mem s) d va))"
proof (cases "oldsz = newsz")
  case True
  have "unat newsz + 4095 < 2 ^ 32" using sz(2) by (simp add: word_less_nat_alt)
  then have "unat (PGROUNDUP newsz) = (unat newsz + 4095) div 4096 * 4096" by (rule unat_PGROUNDUP)
  moreover have "n \<le> (n + 4095) div 4096 * 4096" for n :: nat
  proof -
    have "(n + 4095) div 4096 * 4096 + (n + 4095) mod 4096 = n + 4095" "(n + 4095) mod 4096 < 4096" by simp_all
    then show ?thesis by linarith
  qed
  ultimately have ge: "unat newsz \<le> unat (PGROUNDUP newsz)" by metis
  then have "vpages (PGROUNDUP oldsz) newsz = {}" using True by (auto simp: vpages_def word_le_nat_alt word_less_nat_alt)
  moreover have "pages_left (PGROUNDUP oldsz) newsz = 0" using ge True by (simp add: pages_left_def)
  then have "allocuvm d oldsz newsz s = Ret newsz s" using sz True by (simp add: allocuvm_def not_le [symmetric])
  ultimately show ?thesis using inv
    by (intro exI [of _ newsz] exI [of _ s] exI [of _ \<rho>] exI [of _ fs]) (simp add: vm_step_refl)
next
  case False
  let ?R = "vpages (PGROUNDUP oldsz) newsz"
  have lt: "oldsz < newsz" "newsz \<le> KERNBASE" using sz False by simp_all
  have fr: "frames_inv s d \<rho>" using inv by (simp add: vm_inv_def)
  have none': "\<forall>va. PGROUNDDOWN va \<in> ?R \<longrightarrow> pmap (mem s) d va = None" using none by (simp add: uread_None_iff)
  have "allocuvm d oldsz newsz s = allocuvm_loop (pages_left (PGROUNDUP oldsz) newsz) d (PGROUNDUP oldsz) oldsz newsz s"
    using sz not_le [of KERNBASE newsz] not_less [of newsz oldsz] by (simp add: allocuvm_def Let_def)
  with allocuvm_loop_ok [OF inv PGROUNDUP_aligned lt refl none' order_refl] obtain r t \<rho>' fs' where
    t: "allocuvm d oldsz newsz s = Ret r t" "vm_inv t d \<rho>' fs'"
    and c: "r = newsz \<and> length fs \<le> length fs' + 2 * pages_left (PGROUNDUP oldsz) newsz \<and> vm_step d ?R s \<rho> t \<rho>' \<and> (\<forall>va. if PGROUNDDOWN va \<in> ?R then fresh_zero (mem t) (pmap (mem t) d va)
           else pmap (mem t) d va = pmap (mem s) d va)
       \<or> r = 0 \<and> length fs < 2 * pages_left (PGROUNDUP oldsz) newsz
         \<and> vm_step d ?R s \<rho> t \<rho>' \<and> pmap (mem t) d = unmap ?R (pmap (mem s) d)" by auto
  from c show ?thesis
  proof (elim disjE conjE)
    assume g: "r = newsz" "vm_step d ?R s \<rho> t \<rho>'"
      "\<forall>va. if PGROUNDDOWN va \<in> ?R then fresh_zero (mem t) (pmap (mem t) d va) else pmap (mem t) d va = pmap (mem s) d va"
    have "uread (mem t) d va = (if PGROUNDDOWN va \<in> ?R then Some 0 else uread (mem s) d va)" if "va < KERNBASE" for va
    proof (cases "PGROUNDDOWN va \<in> ?R")
      case True
      then have "fresh_zero (mem t) (pmap (mem t) d va)" using g(3) by metis
      then show ?thesis using True page_offset_cells
        by (auto simp: fresh_zero_def uread_def hw_translate_pmap split: option.splits)
    next
      case f: False
      then have "pmap (mem t) d va = pmap (mem s) d va" using g(3) by metis
      then show ?thesis using f uread_kept [OF fr g(2) that] by simp
    qed
    then show ?thesis using t g(1,2) by (intro exI [of _ r] exI [of _ t] exI [of _ \<rho>'] exI [of _ fs']) simp
  next
    assume f: "r = 0" "vm_step d ?R s \<rho> t \<rho>'" "pmap (mem t) d = unmap ?R (pmap (mem s) d)"
      and short: "length fs < 2 * pages_left (PGROUNDUP oldsz) newsz"
    have pm: "pmap (mem t) d va = pmap (mem s) d va" for va using none' by (simp add: f(3) unmap_def)
    have "uread (mem t) d va = uread (mem s) d va" if "va < KERNBASE" for va
    proof (cases "PGROUNDDOWN va \<in> ?R")
      case True
      then have "pmap (mem s) d va = None" using none' by blast
      then show ?thesis using pm by (simp add: uread_def hw_translate_pmap)
    next
      case False
      then show ?thesis using uread_kept [OF fr f(2) that pm] by simp
    qed
    then show ?thesis using t f(1,2) short by (intro exI [of _ r] exI [of _ t] exI [of _ \<rho>'] exI [of _ fs']) simp
  qed
qed

theorem allocuvm_all_or_nothing_witness:
  "\<exists>t. allocuvm 0x80200000 0 4096 ex_vm = Ret 4096 t \<and> uread (mem t) 0x80200000 5 = Some 0"
proof -
  have "PGROUNDUP 0 = 0" "PGROUNDDOWN 5 = 0" by (simp_all add: PGROUNDUP_def PGROUNDDOWN_def)
  then have v: "PGROUNDDOWN 5 \<in> vpages (PGROUNDUP 0) 4096" and p: "pages_left (PGROUNDUP 0) 4096 = 1"
    by (simp_all add: vpages_def pages_left_def)
  have "\<exists>r t \<rho>' fs'. allocuvm 0x80200000 0 4096 ex_vm = Ret r t \<and> vm_inv t 0x80200000 \<rho>' fs'
    \<and> vm_step 0x80200000 (vpages (PGROUNDUP 0) 4096) ex_vm ex_role t \<rho>'
    \<and> (r = 4096 \<and> (\<forall>va<KERNBASE. uread (mem t) 0x80200000 va =
           (if PGROUNDDOWN va \<in> vpages (PGROUNDUP 0) 4096 then Some 0 else uread (mem ex_vm) 0x80200000 va))
       \<or> r = 0 \<and> length [0x80201000 :: u32, 0x80202000] < 2 * pages_left (PGROUNDUP 0) 4096
         \<and> (\<forall>va<KERNBASE. uread (mem t) 0x80200000 va = uread (mem ex_vm) 0x80200000 va))"
    by (rule allocuvm_all_or_nothing [OF ex_vm_inv]) (simp_all add: uread_None_iff ex_vm_empty)
  then show ?thesis unfolding p using v by (elim exE conjE disjE) (auto simp del: not_less)
qed

text \<open>
  Shrinking a process removes exactly the pages above the new size: \<open>deallocuvm\<close> returns, every user
  address in a removed page is unmapped, every other user address reads as before, the free pages
  afterwards are those from before and the frames of the removed pages, and the address space is again
  well-formed.
\<close>

theorem deallocuvm_unmaps:
  assumes inv: "vm_inv s d \<rho> fs" and sz: "newsz < oldsz" "oldsz \<le> KERNBASE"
  shows "\<exists>t \<rho>' fs'. deallocuvm d oldsz newsz s = Ret newsz t \<and> vm_inv t d \<rho>' fs'
    \<and> vm_step d (vpages (PGROUNDUP newsz) oldsz) s \<rho> t \<rho>'
    \<and> (\<forall>va<KERNBASE. uread (mem t) d va =
         (if PGROUNDDOWN va \<in> vpages (PGROUNDUP newsz) oldsz then None else uread (mem s) d va))
    \<and> set fs' = set fs \<union> frames_in (vpages (PGROUNDUP newsz) oldsz) (pmap (mem s) d)"
proof -
  let ?R = "vpages (PGROUNDUP newsz) oldsz"
  obtain t \<rho>' fs' where t: "deallocuvm d oldsz newsz s = Ret newsz t" "vm_step d ?R s \<rho> t \<rho>'" "vm_inv t d \<rho>' fs'"
      "pmap (mem t) d = unmap ?R (pmap (mem s) d)" "set fs' = set fs \<union> frames_in ?R (pmap (mem s) d)"
    using deallocuvm_ok [OF assms] by blast
  have fr: "frames_inv s d \<rho>" using inv by (simp add: vm_inv_def)
  have "uread (mem t) d va = (if PGROUNDDOWN va \<in> ?R then None else uread (mem s) d va)" if "va < KERNBASE" for va
  proof (cases "PGROUNDDOWN va \<in> ?R")
    case True
    then show ?thesis by (simp add: uread_def hw_translate_pmap t(4) unmap_def)
  next
    case False
    then have "pmap (mem t) d va = pmap (mem s) d va" by (simp add: t(4) unmap_def)
    then show ?thesis using False uread_kept [OF fr t(2) that] by simp
  qed
  then show ?thesis using t by blast
qed

theorem deallocuvm_unmaps_witness:
  "\<exists>t. deallocuvm 0x80200000 4096 0 ex_vm = Ret 0 t \<and> uread (mem t) 0x80200000 8192 = uread (mem ex_vm) 0x80200000 8192"
proof -
  have "PGROUNDUP 0 = 0" "PGROUNDDOWN 8192 = 8192" by (simp_all add: PGROUNDUP_def PGROUNDDOWN_def)
  then have v: "PGROUNDDOWN 8192 \<notin> vpages (PGROUNDUP 0) 4096" by (simp add: vpages_def)
  have "(8192 :: u32) < KERNBASE" by simp
  then show ?thesis using deallocuvm_unmaps [OF ex_vm_inv, of 0 4096] v by auto
qed

text \<open>
  C25. \<open>mappages\<close> maps exactly the range it is given. On a well-formed page table in which no page of the
  range is mapped it returns; on success the processor translates each address of the range's pages to
  the physical address at the same distance from \<open>pa\<close>, and every other address as before. It fails,
  with -1, only when it ran out of pages for tables, which needs no more than one per page mapped.
\<close>

theorem mappages_maps:
  assumes inv: "pt_inv s d \<rho> fs" and va: "va mod PGSIZE = 0" "pa mod PGSIZE = 0" "perm AND NOT 0xFFF = 0"
    and sz: "0 < sz" "unat va + unat sz \<le> 2 ^ 32"
    and none: "\<forall>w. pn va \<le> pn w \<and> pn w \<le> pn va + (unat sz - 1) div 4096 \<longrightarrow> hw_translate (mem s) d w = None"
  shows "\<exists>r t \<rho>' fs'. mappages d va sz pa perm s = Ret r t \<and> pt_inv t d \<rho>' fs'
    \<and> (r = 0 \<and> (\<forall>w. hw_translate (mem t) d w =
           (if pn va \<le> pn w \<and> pn w \<le> pn va + (unat sz - 1) div 4096 then Some (P2V (pa + (w - va)))
            else hw_translate (mem s) d w))
       \<or> r = - 1 \<and> length fs \<le> (unat sz - 1) div 4096)"
proof -
  define n where "n = (unat sz - 1) div 4096"
  have "\<forall>w. pn va \<le> pn w \<and> pn w \<le> pn va + n \<longrightarrow> pmap (mem s) d w = None"
    using none by (simp add: hw_translate_pmap n_def)
  from mappages_loop_ok [OF inv va(1) mappages_eq(2) [OF va(1) sz, folded n_def] this, of pa perm] obtain r t \<rho>' fs' k where
    l: "mappages_loop n d va pa perm s = Ret r t" and t: "pt_inv t d \<rho>' fs'"
      "pmap (mem t) d = map_range va k pa perm (pmap (mem s) d)" "r = 0 \<and> k = Suc n \<or> r = - 1 \<and> k \<le> n" "r = - 1 \<longrightarrow> length fs \<le> n \<and> fs' = []"
    by blast
  have "mappages d va sz pa perm s = Ret r t" using l by (simp only: mappages_eq(1) [OF va(1) sz] n_def)
  note t = this t
  have "hw_translate (mem t) d w = (if pn va \<le> pn w \<and> pn w \<le> pn va + n then Some (P2V (pa + (w - va))) else hw_translate (mem s) d w)"
    if "k = Suc n" for w
  proof (cases "pn va \<le> pn w \<and> pn w \<le> pn va + n")
    case True
    let ?k = "of_nat (4096 * (pn w - pn va)) :: u32"
    have e: "PTE_ADDR ((pa + ?k) OR (perm OR PTE_P)) = pa + ?k"
    proof (rule PTE_ADDR_or [OF aligned_add [OF va(2)]])
      have "?k = of_nat (pn w - pn va) * PGSIZE" by simp
      then show "?k mod PGSIZE = 0" unfolding aligned_unat unat_of_nat by (simp add: take_bit_eq_mod mod_mod_cancel)
      show "(perm OR PTE_P) AND NOT 0xFFF = 0" using va(3) by (simp add: bit.conj_disj_distrib2)
    qed
    have o: "w - va = ?k + w mod PGSIZE"
    proof -
      obtain q where q: "unat va = 4096 * q" using va(1) [unfolded aligned_unat mod_eq_0_iff_dvd dvd_def] by blast
      have "pn va = q" by (simp add: q)
      then obtain j where j: "pn w = q + j" using True le_Suc_ex by auto
      have "unat w = 4096 * pn w + unat w mod 4096" by simp
      then have "unat va + (4096 * (pn w - pn va) + unat w mod 4096) = unat w" unfolding j \<open>pn va = q\<close> q by simp
      then have "(of_nat (unat va + (4096 * (pn w - pn va) + unat w mod 4096)) :: u32) = of_nat (unat w)" by simp
      then have "va + (?k + of_nat (unat w mod 4096)) = w" by (simp only: of_nat_add of_nat_unat ucast_id)
      moreover have "(of_nat (unat w mod 4096) :: u32) = w mod PGSIZE" by (simp add: word_unat_eq_iff unat_mod unat_of_nat)
      ultimately show ?thesis by (metis add_diff_cancel_left')
    qed
    have "frame_of ((pa + ?k) OR perm OR PTE_P) + w mod PGSIZE = P2V (pa + (w - va))"
      unfolding frame_of_def e o P2V_def by (simp only: ac_simps)
    then show ?thesis using True that by (simp add: hw_translate_pmap t(3) map_range_def)
  next
    case False
    then show ?thesis using that by (auto simp: hw_translate_pmap t(3) map_range_def)
  qed
  then show ?thesis using t unfolding n_def by (intro exI [of _ r] exI [of _ t] exI [of _ \<rho>'] exI [of _ fs']) blast
qed

theorem mappages_maps_witness:
  "\<exists>t. mappages 0x80200000 0x80000000 4096 0 PTE_W ex_vm = Ret 0 t
    \<and> hw_translate (mem t) 0x80200000 0x80000123 = Some 0x80000123"
proof -
  have inv: "pt_inv ex_vm 0x80200000 ex_role [0x80201000, 0x80202000]" using ex_vm_inv by (simp add: vm_inv_def)
  have "\<exists>r t \<rho>' fs'. mappages 0x80200000 0x80000000 4096 0 PTE_W ex_vm = Ret r t \<and> pt_inv t 0x80200000 \<rho>' fs'
    \<and> (r = 0 \<and> (\<forall>w. hw_translate (mem t) 0x80200000 w =
           (if pn 0x80000000 \<le> pn w \<and> pn w \<le> pn 0x80000000 + (unat (4096 :: u32) - 1) div 4096 then Some (P2V (0 + (w - 0x80000000)))
            else hw_translate (mem ex_vm) 0x80200000 w))
       \<or> r = - 1 \<and> length [0x80201000 :: u32, 0x80202000] \<le> (unat (4096 :: u32) - 1) div 4096)"
    by (rule mappages_maps [OF inv]) (simp_all add: hw_translate_pmap ex_vm_empty)
  then show ?thesis by (elim exE conjE disjE) (auto simp: P2V_def)
qed

end
