(* ===== verification/Vm_Fork.thy ===== *)
theory Vm_Fork
  imports Vm_Space
begin

unbundle bit_operations_syntax

text \<open>
  Whole address spaces (\<open>setupkvm\<close>, \<open>copyuvm\<close>, \<open>freevm\<close> of theory \<open>Vm\<close>): freeing one returns every page it
  owns, and the copy that \<open>fork\<close> makes reads the same as the original and shares no page with it.
\<close>

subsection \<open>Freeing an address space\<close>

lemma kfree_page:
  assumes "free_pages s fs" "kpage s p" "p \<notin> set fs"
  shows "\<exists>t. kfree p s = Ret () t \<and> mem_frame s t \<and> free_pages t (p # fs)
    \<and> (\<forall>q. q mod PGSIZE = 0 \<and> q \<noteq> p \<longrightarrow> same_page (mem s) (mem t) q)"
proof -
  let ?m = "store32 (memset (mem s) p 1 PGSIZE) p (freelist s)"
  let ?t = "s\<lparr>mem := ?m, freelist := p\<rparr>"
  have c: "cpu_ok s" "\<not> holding KmemLock s" using assms(1) by (simp_all add: free_pages_def)
  have k: "kfree p s = Ret () ?t" using kfree_eq [OF assms(2) c] by simp
  have "same_page (mem s) ?m q" if "q mod PGSIZE = 0" "q \<noteq> p" for q
    unfolding same_page_def using pages_disjoint [OF that(1) kpage_aligned [OF assms(2)] that(2)]
    by (intro ballI kfree_page_frame) blast
  moreover from kmem.free_push [OF assms(1,2) zero_not_kpage [OF assms(2)] assms(3)] k
  have "free_pages ?t (p # fs)" by simp
  ultimately show ?thesis using k by (intro exI [of _ ?t]) (simp add: mem_frame_def)
qed

text \<open>The tables of a directory among the indices \<open>I\<close>.\<close>

definition tables :: "memory \<Rightarrow> u32 \<Rightarrow> nat set \<Rightarrow> u32 set" where
  "tables m d I = {table m d (of_nat i) |i. i \<in> I \<and> has_table m d (of_nat i)}"

lemma freevm_loop_ok:
  assumes "free_pages s fs" "kpage s d" "distinct js" "set js \<subseteq> {..<1024}"
    and "\<forall>p\<in>tables (mem s) d (set js). kpage s p \<and> p \<notin> set fs \<and> p \<noteq> d"
    and "\<forall>i\<in>set js. \<forall>j\<in>set js. has_table (mem s) d (of_nat i) \<and> has_table (mem s) d (of_nat j)
      \<and> table (mem s) d (of_nat i) = table (mem s) d (of_nat j) \<longrightarrow> i = j"
  shows "\<exists>t fs'. freevm_loop d js s = Ret () t \<and> mem_frame s t \<and> free_pages t fs'
    \<and> set fs' = set fs \<union> tables (mem s) d (set js)
    \<and> (\<forall>q. q mod PGSIZE = 0 \<and> q \<notin> tables (mem s) d (set js) \<longrightarrow> same_page (mem s) (mem t) q)"
  using assms
proof (induction js arbitrary: s fs)
  case Nil
  then show ?case by (intro exI [of _ s] exI [of _ fs]) (simp add: tables_def mem_frame_refl same_page_def)
next
  case (Cons i js)
  have pd: "load32 (mem s) (d + 4 * of_nat i) = pde (mem s) d (of_nat i)" by (simp add: pde_def)
  show ?case
  proof (cases "has_table (mem s) d (of_nat i)")
    case False
    then have e: "tables (mem s) d (set (i # js)) = tables (mem s) d (set js)" by (auto simp: tables_def)
    have "freevm_loop d (i # js) s = freevm_loop d js s" using False pd by (simp add: has_table_def)
    then show ?thesis using Cons.IH [OF Cons.prems(1,2)] Cons.prems(3-6) unfolding e by simp
  next
    case True
    let ?p = "table (mem s) d (of_nat i)"
    have e: "tables (mem s) d (set (i # js)) = insert ?p (tables (mem s) d (set js))" using True by (auto simp: tables_def)
    have p: "kpage s ?p" "?p \<notin> set fs" "?p \<noteq> d" using Cons.prems(5) unfolding e by simp_all
    obtain u where u: "kfree ?p s = Ret () u" "mem_frame s u" "free_pages u (?p # fs)"
        "\<forall>q. q mod PGSIZE = 0 \<and> q \<noteq> ?p \<longrightarrow> same_page (mem s) (mem u) q"
      using kfree_page [OF Cons.prems(1) p(1,2)] by blast
    have l: "freevm_loop d (i # js) s = freevm_loop d js u" using True pd u(1) by (simp add: has_table_def table_def)
    have "same_page (mem s) (mem u) d" using u(4) p(3) kpage_aligned [OF Cons.prems(2)] by metis
    then have "pde (mem u) d j = pde (mem s) d j" if "j < 1024" for j using that same_page_load by (simp add: pde_def)
    then have "pde (mem u) d (of_nat j) = pde (mem s) d (of_nat j)" if "j < 1024" for j
      using that by (simp add: word_less_nat_alt unat_of_nat take_bit_nat_eq_self)
    then have tb: "has_table (mem u) d (of_nat j) = has_table (mem s) d (of_nat j)" "table (mem u) d (of_nat j) = table (mem s) d (of_nat j)"
      if "j \<in> set js" for j using that Cons.prems(4) by (auto simp: has_table_def table_def)
    then have tu: "tables (mem u) d (set js) = tables (mem s) d (set js)" unfolding tables_def by (metis (no_types, opaque_lifting))
    have nin: "?p \<notin> tables (mem s) d (set js)" using True Cons.prems(3,6) by (auto simp: tables_def)
    have "\<exists>t fs'. freevm_loop d js u = Ret () t \<and> mem_frame u t \<and> free_pages t fs'
      \<and> set fs' = set (?p # fs) \<union> tables (mem u) d (set js)
      \<and> (\<forall>q. q mod PGSIZE = 0 \<and> q \<notin> tables (mem u) d (set js) \<longrightarrow> same_page (mem u) (mem t) q)"
    proof (rule Cons.IH [OF u(3)])
      show "kpage u d" using Cons.prems(2) mem_frame_select(2) [OF u(2)] by simp
      show "\<forall>p\<in>tables (mem u) d (set js). kpage u p \<and> p \<notin> set (?p # fs) \<and> p \<noteq> d"
        using Cons.prems(5) nin mem_frame_select(2) [OF u(2)] unfolding tu e by auto
      show "\<forall>i\<in>set js. \<forall>j\<in>set js. has_table (mem u) d (of_nat i) \<and> has_table (mem u) d (of_nat j)
        \<and> table (mem u) d (of_nat i) = table (mem u) d (of_nat j) \<longrightarrow> i = j"
        using Cons.prems(6) tb by simp
    qed (use Cons.prems(3,4) in simp_all)
    then obtain t fs' where t: "freevm_loop d js u = Ret () t" "mem_frame u t" "free_pages t fs'"
        "set fs' = set (?p # fs) \<union> tables (mem s) d (set js)"
        "\<forall>q. q mod PGSIZE = 0 \<and> q \<notin> tables (mem s) d (set js) \<longrightarrow> same_page (mem u) (mem t) q" unfolding tu by blast
    have "same_page (mem s) (mem t) q" if "q mod PGSIZE = 0" "q \<notin> insert ?p (tables (mem s) d (set js))" for q
      using that t(5) u(4) same_page_trans [of "mem s" "mem u" q "mem t"] by simp
    then show ?thesis using l t(1,3,4) mem_frame_trans [OF u(2) t(2)] unfolding e
      by (intro exI [of _ t] exI [of _ fs']) simp
  qed
qed

definition owned :: "(u32 \<Rightarrow> role) \<Rightarrow> u32 \<Rightarrow> u32 set" where
  "owned \<rho> d = {p. \<rho> p = Dir d \<or> (\<exists>i. \<rho> p = Tab d i) \<or> (\<exists>v. \<rho> p = Frame d v)}"

lemma tables_roles:
  assumes "pt_inv s d \<rho> fs"
  shows "tables (mem s) d {..<1024} = {p. \<exists>i. \<rho> p = Tab d i}"
proof -
  have r: "\<rho> p = Tab d i \<longleftrightarrow> i < 1024 \<and> has_table (mem s) d i \<and> p = table (mem s) d i" for p i
    using assms by (simp add: pt_inv_def)
  have w: "(of_nat j :: u32) < 1024" if "j < 1024" for j
    using that by (simp add: word_less_nat_alt unat_of_nat take_bit_nat_eq_self)
  show ?thesis
  proof (intro set_eqI iffI)
    fix p assume "p \<in> tables (mem s) d {..<1024}"
    then obtain j where "j < 1024" "has_table (mem s) d (of_nat j)" "p = table (mem s) d (of_nat j)" by (auto simp: tables_def)
    then show "p \<in> {p. \<exists>i. \<rho> p = Tab d i}" using r w by blast
  next
    fix p assume "p \<in> {p. \<exists>i. \<rho> p = Tab d i}"
    then obtain i where i: "i < 1024" "has_table (mem s) d i" "p = table (mem s) d i" using r by blast
    then have "unat i < 1024" by (simp add: word_less_nat_alt)
    then show "p \<in> tables (mem s) d {..<1024}" using i by (auto simp: tables_def intro!: exI [of _ "unat i"])
  qed
qed

lemma freevm_ok:
  assumes inv: "vm_inv s d \<rho> fs"
  shows "\<exists>t fs'. freevm d s = Ret () t \<and> mem_frame s t \<and> free_pages t fs' \<and> set fs' = set fs \<union> owned \<rho> d
    \<and> (\<forall>q. q mod PGSIZE = 0 \<and> q \<notin> set fs \<union> owned \<rho> d \<longrightarrow> same_page (mem s) (mem t) q)"
proof -
  let ?R = "vpages (PGROUNDUP 0) KERNBASE"
  have pt: "pt_inv s d \<rho> fs" and fr: "frames_inv s d \<rho>" using inv by (simp_all add: vm_inv_def)
  have kd: "kpage s d" using pt by (simp add: pt_inv_def)
  obtain u \<sigma> gs where u: "deallocuvm d KERNBASE 0 s = Ret 0 u" "vm_step d ?R s \<rho> u \<sigma>" "vm_inv u d \<sigma> gs"
      "pmap (mem u) d = unmap ?R (pmap (mem s) d)"
    using deallocuvm_ok [OF inv, of 0 KERNBASE] by auto
  have pu: "pt_inv u d \<sigma> gs" using u(3) by (simp add: vm_inv_def)
  have mf: "mem_frame s u" using u(2) by (simp add: vm_step_def)
  have ku: "kpage u d" using kd mem_frame_select(2) [OF mf] by simp
  have own: "{p. mine d ?R (\<rho> p)} = set fs \<union> owned \<rho> d"
  proof -
    have "PGROUNDUP 0 = 0" by (simp add: PGROUNDUP_def)
    then have "v \<in> ?R" if "\<rho> p = Frame d v" for p v using frames_inv_iff [OF fr] that by (simp add: vpages_def)
    then show ?thesis using pt_inv_free [OF pt] by (auto simp: mine_def owned_def)
  qed
  have own': "{p. mine d ?R (\<sigma> p)} = insert d (set gs \<union> {p. \<exists>i. \<sigma> p = Tab d i})"
  proof -
    have "frames_inv u d \<sigma>" using u(3) by (simp add: vm_inv_def)
    then have "\<sigma> p \<noteq> Frame d v" if "v \<in> ?R" for p v
      using that PGROUNDDOWN_id [of v] frames_inv_iff [of u d \<sigma> p v] by (auto simp: u(4) unmap_def vpages_def)
    then show ?thesis using pt_inv_free [OF pu] pu by (auto simp: mine_def pt_inv_def)
  qed
  have same: "{p. mine d ?R (\<sigma> p)} = {p. mine d ?R (\<rho> p)}"
    using u(2) unfolding vm_step_def by (intro set_eqI) (metis mem_Collect_eq)
  have js: "set [0..<1024] = {..<1024 :: nat}" by auto
  have tr: "tables (mem u) d (set [0..<1024]) = {p. \<exists>i. \<sigma> p = Tab d i}" unfolding js by (rule tables_roles [OF pu])
  have "\<exists>t fs'. freevm_loop d [0..<1024] u = Ret () t \<and> mem_frame u t \<and> free_pages t fs'
    \<and> set fs' = set gs \<union> tables (mem u) d (set [0..<1024])
    \<and> (\<forall>q. q mod PGSIZE = 0 \<and> q \<notin> tables (mem u) d (set [0..<1024]) \<longrightarrow> same_page (mem u) (mem t) q)"
  proof (rule freevm_loop_ok [OF _ ku])
    show "free_pages u gs" using pu by (simp add: pt_inv_def)
    show "\<forall>p\<in>tables (mem u) d (set [0..<1024]). kpage u p \<and> p \<notin> set gs \<and> p \<noteq> d"
    proof
      fix p assume "p \<in> tables (mem u) d (set [0..<1024])"
      then obtain i where i: "\<sigma> p = Tab d i" unfolding tr by blast
      then have "p \<notin> set gs" "p \<noteq> d" using pt_inv_free [OF pu, of p] pt_inv_dir(1) [OF pu] by auto
      then show "kpage u p \<and> p \<notin> set gs \<and> p \<noteq> d" using pt_inv_aligned(1) [OF pu] i by blast
    qed
    show "\<forall>i\<in>set [0..<1024]. \<forall>j\<in>set [0..<1024]. has_table (mem u) d (of_nat i) \<and> has_table (mem u) d (of_nat j)
      \<and> table (mem u) d (of_nat i) = table (mem u) d (of_nat j) \<longrightarrow> i = j"
    proof (intro ballI impI)
      fix i j assume ij: "i \<in> set [0..<1024]" "j \<in> set [0..<1024]" and h: "has_table (mem u) d (of_nat i) \<and> has_table (mem u) d (of_nat j)
        \<and> table (mem u) d (of_nat i) = table (mem u) d (of_nat j)"
      have w: "(of_nat k :: u32) < 1024" "unat (of_nat k :: u32) = k" if "k \<in> set [0..<1024]" for k
        using that by (simp_all add: word_less_nat_alt unat_of_nat take_bit_nat_eq_self)
      have "Tab d (of_nat i) = Tab d (of_nat j)"
        using pt_inv_table(1) [OF pu w(1) [OF ij(1)]] pt_inv_table(1) [OF pu w(1) [OF ij(2)]] h by metis
      then show "i = j" using w(2) [OF ij(1)] w(2) [OF ij(2)] by (metis role.inject(2))
    qed
  qed auto
  then obtain v hs where v: "freevm_loop d [0..<1024] u = Ret () v" "mem_frame u v" "free_pages v hs"
      "set hs = set gs \<union> {p. \<exists>i. \<sigma> p = Tab d i}"
      "\<forall>q. q mod PGSIZE = 0 \<and> q \<notin> {p. \<exists>i. \<sigma> p = Tab d i} \<longrightarrow> same_page (mem u) (mem v) q"
    unfolding tr by blast
  have "kpage v d" using ku mem_frame_select(2) [OF v(2)] by simp
  moreover have "d \<notin> set hs" unfolding v(4) using pt_inv_dir(1) [OF pu] pt_inv_free [OF pu, of d] by simp
  ultimately obtain t where t: "kfree d v = Ret () t" "mem_frame v t" "free_pages t (d # hs)"
      "\<forall>q. q mod PGSIZE = 0 \<and> q \<noteq> d \<longrightarrow> same_page (mem v) (mem t) q"
    using kfree_page [OF v(3)] by blast
  have "d \<noteq> 0" using zero_not_kpage [OF kd] .
  then have r: "freevm d s = Ret () t" using u(1) v(1) t(1) by (simp add: freevm_def)
  have st: "set (d # hs) = set fs \<union> owned \<rho> d" using own own' same v(4) by simp
  have "same_page (mem s) (mem t) q" if q: "q mod PGSIZE = 0" "q \<notin> set fs \<union> owned \<rho> d" for q
  proof -
    have nm: "\<not> mine d ?R (\<rho> q)" using q(2) own by blast
    then have "same_page (mem s) (mem u) q" using u(2) q(1) by (simp add: vm_step_def)
    moreover have "q \<noteq> d" "q \<notin> {p. \<exists>i. \<sigma> p = Tab d i}" using q(2) unfolding st [symmetric] by (simp_all add: v(4))
    moreover from this have "same_page (mem u) (mem v) q" "same_page (mem v) (mem t) q" using v(5) t(4) q(1) by simp_all
    ultimately show ?thesis using same_page_trans [of "mem s"] by blast
  qed
  then show ?thesis using r t(3) st mem_frame_trans [OF mf mem_frame_trans [OF v(2) t(2)]]
    by (intro exI [of _ t] exI [of _ "d # hs"]) simp
qed

subsection \<open>A new address space\<close>

text \<open>
  The roles are consistent: free pages are the pool's, and what belongs to an address space has a
  directory. \<open>kern_layout\<close> is the placement of the kernel by its linker script.
\<close>

definition pool_inv :: "'x kmem_scheme \<Rightarrow> (u32 \<Rightarrow> role) \<Rightarrow> u32 list \<Rightarrow> bool" where
  "pool_inv s \<rho> fs \<longleftrightarrow> free_pages s fs \<and> KERNBASE < kern_end s \<and> (\<forall>p. \<rho> p = Free \<longleftrightarrow> p \<in> set fs)
     \<and> (\<forall>p d. p \<in> owned \<rho> d \<longrightarrow> \<rho> d = Dir d) \<and> (\<forall>p d. \<rho> p = Dir d \<longrightarrow> p = d)"

definition kern_layout :: "'x kmem_scheme \<Rightarrow> bool" where
  "kern_layout s \<longleftrightarrow> kern_data s mod PGSIZE = 0 \<and> KERNLINK < kern_data s \<and> kern_data s < P2V PHYSTOP"

lemma new_directory:
  assumes pool: "pool_inv s \<rho> (d # fs)"
  shows "kalloc s = Ret d (s\<lparr>freelist := load32 (mem s) d\<rparr>)" "d \<noteq> 0" "pt_inv (zeroed d s) d (\<rho>(d := Dir d)) fs"
    "pmap (mem (zeroed d s)) d va = None" "\<And>q. q mod PGSIZE = 0 \<Longrightarrow> q \<noteq> d \<Longrightarrow> same_page (mem s) (mem (zeroed d s)) q"
proof -
  have fp: "free_pages s (d # fs)" using pool by (simp add: pool_inv_def)
  then have f: "d \<noteq> 0" "freelist s = d" "cpu_ok s" "\<not> holding KmemLock s" "distinct (d # fs)" "kpage s d" "\<forall>p\<in>set fs. kpage s p"
    by (simp_all add: free_pages_def)
  then show "kalloc s = Ret d (s\<lparr>freelist := load32 (mem s) d\<rparr>)" "d \<noteq> 0" by (simp_all add: kalloc_eq)
  show same: "same_page (mem s) (mem (zeroed d s)) q" if "q mod PGSIZE = 0" "q \<noteq> d" for q
    using zeroed_same [OF f(6) that] by simp
  have z: "pde (mem (zeroed d s)) d i = 0" if "i < 1024" for i
    unfolding pde_def using that by (intro load_zero) (simp_all add: memset_apply)
  then have nt: "\<not> has_table (mem (zeroed d s)) d i" if "i < 1024" for i using that by (simp add: has_table_def has_flag_def)
  then show "pmap (mem (zeroed d s)) d va = None" using PDX_less by (simp add: pmap_def pte_of_def has_flag_def)
  have rd: "\<rho> d = Free" using pool by (simp add: pool_inv_def)
  have no: "p \<notin> owned \<rho> d" for p using pool rd unfolding pool_inv_def by fastforce
  have "free_pages (s\<lparr>freelist := load32 (mem s) d\<rparr>) fs" using fp by (simp add: free_pages_def)
  then have "free_pages (s\<lparr>freelist := load32 (mem s) d, mem := memset (mem s) d 0 PGSIZE\<rparr>) fs"
    using f(5,7) same by (intro free_pages_mem) (auto simp: kpage_def)
  moreover have "KERNBASE < kern_end (zeroed d s)" "kpage (zeroed d s) d" using pool f(6) by (simp_all add: pool_inv_def)
  moreover have "(\<rho>(d := Dir d)) p = Free \<longleftrightarrow> p \<in> set fs" for p using pool f(5) by (auto simp: pool_inv_def)
  moreover have "(\<rho>(d := Dir d)) p = Dir d \<longleftrightarrow> p = d" "(\<rho>(d := Dir d)) p \<noteq> Tab d i" for p i
    using no [of p] by (auto simp: owned_def)
  ultimately show "pt_inv (zeroed d s) d (\<rho>(d := Dir d)) fs" unfolding pt_inv_def using nt by blast
qed

text \<open>One region of \<open>kmap\<close>.\<close>

lemma map_region:
  assumes inv: "pt_inv s d \<rho> fs" and va: "va mod PGSIZE = 0" "0 < sz" "unat va + unat sz \<le> 2 ^ 32"
    and none: "\<forall>w. pn va \<le> pn w \<and> pn w \<le> pn va + (unat sz - 1) div 4096 \<longrightarrow> pmap (mem s) d w = None"
  shows "\<exists>r t \<rho>' fs'. mappages d va sz pa perm s = Ret r t \<and> vm_step d {} s \<rho> t \<rho>' \<and> pt_inv t d \<rho>' fs'
    \<and> (r = 0 \<or> r = - 1 \<and> fs' = [])
    \<and> (\<forall>w. pn w < pn va \<or> pn va + (unat sz - 1) div 4096 < pn w \<longrightarrow> pmap (mem t) d w = pmap (mem s) d w)"
proof -
  obtain r t \<rho>' fs' k where
    l: "mappages_loop ((unat sz - 1) div 4096) d va pa perm s = Ret r t" "vm_step d {} s \<rho> t \<rho>'" "pt_inv t d \<rho>' fs'"
      "pmap (mem t) d = map_range va k pa perm (pmap (mem s) d)"
      "r = 0 \<and> k = Suc ((unat sz - 1) div 4096) \<or> r = - 1 \<and> k \<le> (unat sz - 1) div 4096"
      "r = - 1 \<longrightarrow> length fs \<le> (unat sz - 1) div 4096 \<and> fs' = []"
    using mappages_loop_ok [OF inv va(1) mappages_eq(2) [OF va] none, of pa perm] by blast
  have "mappages d va sz pa perm s = Ret r t" using l(1) by (simp only: mappages_eq(1) [OF va])
  moreover have "pmap (mem t) d w = pmap (mem s) d w" if "pn w < pn va \<or> pn va + (unat sz - 1) div 4096 < pn w" for w
    using that l(5) by (auto simp: l(4) map_range_def)
  ultimately show ?thesis using l(2,3,5,6) by blast
qed

definition region_end :: "u32 \<times> u32 \<times> u32 \<times> u32 \<Rightarrow> nat" where
  "region_end = (\<lambda>(va, p0, p1, perm). pn va + (unat (p1 - p0) - 1) div 4096)"

definition region_ok :: "u32 \<times> u32 \<times> u32 \<times> u32 \<Rightarrow> bool" where
  "region_ok = (\<lambda>(va, p0, p1, perm). va mod PGSIZE = 0 \<and> 0 < p1 - p0 \<and> unat va + unat (p1 - p0) \<le> 2 ^ 32 \<and> KERNBASE \<le> va)"

lemma setupkvm_loop_ok:
  assumes "pt_inv s d \<rho> fs" "\<forall>k\<in>set ks. region_ok k" "sorted_wrt (\<lambda>k k'. region_end k < pn (fst k')) ks"
    and "\<forall>k\<in>set ks. \<forall>w. pn (fst k) \<le> pn w \<and> pn w \<le> region_end k \<longrightarrow> pmap (mem s) d w = None"
    and "\<forall>w<KERNBASE. pmap (mem s) d w = None"
  shows "\<exists>r t \<rho>' fs'. setupkvm_loop d ks s = Ret r t \<and> (r = d \<or> r = 0 \<and> fs' = []) \<and> vm_step d {} s \<rho> t \<rho>' \<and> pt_inv t d \<rho>' fs'
    \<and> (\<forall>w<KERNBASE. pmap (mem t) d w = None)"
  using assms
proof (induction ks arbitrary: s \<rho> fs)
  case Nil
  then show ?case by (intro exI [of _ d] exI [of _ s] exI [of _ \<rho>] exI [of _ fs]) (simp add: vm_step_refl)
next
  case (Cons k ks)
  obtain va p0 p1 perm where k: "k = (va, p0, p1, perm)" by (cases k)
  have ok: "va mod PGSIZE = 0" "0 < p1 - p0" "unat va + unat (p1 - p0) \<le> 2 ^ 32" "KERNBASE \<le> va"
    using Cons.prems(2) by (simp_all add: k region_ok_def)
  have none: "\<forall>w. pn va \<le> pn w \<and> pn w \<le> pn va + (unat (p1 - p0) - 1) div 4096 \<longrightarrow> pmap (mem s) d w = None"
    using Cons.prems(4) by (simp add: k region_end_def)
  obtain r t \<rho>' fs' where t: "mappages d va (p1 - p0) p0 perm s = Ret r t" "vm_step d {} s \<rho> t \<rho>'" "pt_inv t d \<rho>' fs'" "r = 0 \<or> r = - 1 \<and> fs' = []"
      "\<forall>w. pn w < pn va \<or> pn va + (unat (p1 - p0) - 1) div 4096 < pn w \<longrightarrow> pmap (mem t) d w = pmap (mem s) d w"
    using map_region [OF Cons.prems(1) ok(1-3) none] by blast
  have user: "\<forall>w<KERNBASE. pmap (mem t) d w = None"
  proof (intro allI impI)
    fix w :: u32 assume w: "w < KERNBASE"
    have "524288 \<le> pn va" using ok(4) div_le_mono [of 2147483648 "unat va" 4096] by (simp add: word_le_nat_alt)
    moreover have "pn w < 524288" using w by (simp add: word_less_nat_alt)
    ultimately show "pmap (mem t) d w = None" using t(5) Cons.prems(5) w by simp
  qed
  show ?case
  proof (cases "r = 0")
    case False
    then have "setupkvm_loop d (k # ks) s = Ret 0 t" using t(1,4) by (simp add: k)
    moreover have "fs' = []" using False t(4) by simp
    ultimately show ?thesis using t(2,3) user by blast
  next
    case True
    have l: "setupkvm_loop d (k # ks) s = setupkvm_loop d ks t" using t(1) True by (simp add: k)
    have "\<forall>k'\<in>set ks. \<forall>w. pn (fst k') \<le> pn w \<and> pn w \<le> region_end k' \<longrightarrow> pmap (mem t) d w = None"
    proof (intro ballI allI impI)
      fix k' w assume k': "k' \<in> set ks" and w: "pn (fst k') \<le> pn w \<and> pn w \<le> region_end k'"
      have "region_end k < pn (fst k')" using Cons.prems(3) k' by simp
      then have "pmap (mem t) d w = pmap (mem s) d w" using t(5) w by (simp add: k region_end_def)
      then show "pmap (mem t) d w = None" using Cons.prems(4) k' w by simp
    qed
    then obtain r' u \<sigma> gs where "setupkvm_loop d ks t = Ret r' u" "r' = d \<or> r' = 0 \<and> gs = []" "vm_step d {} t \<rho>' u \<sigma>" "pt_inv u d \<sigma> gs"
        "\<forall>w<KERNBASE. pmap (mem u) d w = None"
      using Cons.IH [OF t(3) _ _ _ user] Cons.prems(2,3) by (auto simp: sorted_wrt.simps)
    then show ?thesis using l vm_step_trans [OF t(2)]
      by (intro exI [of _ r'] exI [of _ u] exI [of _ \<sigma>] exI [of _ gs]) simp
  qed
qed

lemma setupkvm_ok:
  assumes pool: "pool_inv s \<rho> (d # fs)" and lay: "kern_layout s"
  shows "\<exists>r t \<rho>' fs'. setupkvm s = Ret r t \<and> (r = d \<or> r = 0 \<and> fs' = []) \<and> vm_step d {} (zeroed d s) (\<rho>(d := Dir d)) t \<rho>' \<and> pt_inv t d \<rho>' fs'
    \<and> (\<forall>w<KERNBASE. pmap (mem t) d w = None)"
proof -
  note n = new_directory [OF pool]
  let ?D = "kern_data s"
  obtain q where q: "unat ?D = 4096 * q" using lay by (auto simp: kern_layout_def aligned_unat mod_eq_0_iff_dvd dvd_def)
  have D: "524544 < q" "q < 581632"
    using lay q by (simp_all add: kern_layout_def word_less_nat_alt P2V_def)
  have u: "unat (V2P ?D) = 4096 * (q - 524288)"
  proof -
    have "KERNBASE \<le> ?D" using D q by (simp add: word_le_nat_alt)
    then show ?thesis using q by (simp add: V2P_def unat_sub diff_mult_distrib2)
  qed
  have u2: "unat (V2P ?D - V2P KERNLINK) = 4096 * (q - 524544)"
    using u D by (subst unat_sub) (simp_all add: word_le_nat_alt V2P_def diff_mult_distrib2)
  have u3: "unat (PHYSTOP - V2P ?D) = 4096 * (581632 - q)"
    using u D by (subst unat_sub) (simp_all add: word_le_nat_alt diff_mult_distrib2)
  have s: "setupkvm s = setupkvm_loop d (kmap ?D) (zeroed d s)"
    using n(1,2) by (simp add: setupkvm_def P2V_def Let_def)
  have last: "(4096 * m - 1) div 4096 = m - 1" for m :: nat by (cases m) simp_all
  have pD: "pn ?D = q" by (simp add: q)
  have e: "region_end (KERNBASE, 0, EXTMEM, PTE_W) = 524543" "region_end (KERNLINK, V2P KERNLINK, V2P ?D, 0) = q - 1"
      "region_end (?D, V2P ?D, PHYSTOP, PTE_W) = 581631"
    using D last [of "q - 524544"] last [of "581632 - q"] u2 u3 pD by (simp_all add: region_end_def)
  have "region_ok k" if "k \<in> set (kmap ?D)" for k
  proof -
    have "?D mod PGSIZE = 0" "KERNBASE \<le> ?D" using lay D q by (simp_all add: kern_layout_def word_le_nat_alt)
    then have "region_ok (?D, V2P ?D, PHYSTOP, PTE_W)" using D q u3 by (simp add: region_ok_def word_less_nat_alt)
    moreover have "region_ok (KERNLINK, V2P KERNLINK, V2P ?D, 0)" using D u2 by (simp add: region_ok_def word_less_nat_alt)
    moreover have "region_ok (KERNBASE, 0, EXTMEM, PTE_W)" "region_ok (DEVSPACE, DEVSPACE, 0, PTE_W)"
      by (simp_all add: region_ok_def word_less_nat_alt)
    ultimately show ?thesis using that unfolding kmap_def by auto
  qed
  moreover have "sorted_wrt (\<lambda>k k'. region_end k < pn (fst k')) (kmap ?D)"
    using e D pD by (simp add: kmap_def)
  moreover have "pmap (mem (zeroed d s)) d w = None" for w using n(4) .
  ultimately show ?thesis unfolding s using setupkvm_loop_ok [OF n(3), of "kmap ?D"] by simp
qed

text \<open>Besides the directory, a new address space takes at most 1024 page tables.\<close>

lemma step_tables:
  assumes "vm_step d {} s \<rho> t \<rho>'" "pt_inv s d \<rho> fs" "pt_inv t d \<rho>' fs'"
  shows "length fs \<le> length fs' + 1024"
proof -
  have "p \<in> set fs' \<union> tables (mem t) d {..<1024}" if "p \<in> set fs" for p
  proof -
    have "\<rho> p = Free" using that pt_inv_free [OF assms(2)] by simp
    moreover from this have "p \<noteq> d" using pt_inv_dir(1) [OF assms(2)] by auto
    ultimately have "mine d {} (\<rho>' p)" "\<rho>' p \<noteq> Dir d" using assms(1,3) by (auto simp: vm_step_def mine_def pt_inv_def)
    then show ?thesis using pt_inv_free [OF assms(3)] by (auto simp: mine_def tables_roles [OF assms(3)])
  qed
  moreover have "card (tables (mem t) d {..<1024}) \<le> 1024" "finite (tables (mem t) d {..<1024})"
  proof -
    have "tables (mem t) d {..<1024} \<subseteq> (\<lambda>i. table (mem t) d (of_nat i)) ` {..<1024}" by (auto simp: tables_def)
    then show "card (tables (mem t) d {..<1024}) \<le> 1024" "finite (tables (mem t) d {..<1024})"
      using surj_card_le [of "{..<1024 :: nat}"] finite_subset by auto
  qed
  ultimately have "card (set fs) \<le> card (set fs') + 1024"
    by (meson card_Un_le card_mono finite_UnI finite_set le_trans nat_add_left_cancel_le subsetI)
  moreover have "distinct fs" using assms(2) by (simp add: pt_inv_def free_pages_def)
  ultimately show ?thesis using card_length [of fs'] by (simp add: distinct_card)
qed

subsection \<open>Two address spaces\<close>

text \<open>
  A step of \<open>d\<close> that may also lose pages: a page it took is used for nothing afterwards.
\<close>

definition vm_leak ::
  "u32 \<Rightarrow> u32 set \<Rightarrow> 'x kmem_scheme \<Rightarrow> (u32 \<Rightarrow> role) \<Rightarrow> 'x kmem_scheme \<Rightarrow> (u32 \<Rightarrow> role) \<Rightarrow> bool" where
  "vm_leak d R s \<rho> t \<rho>' \<longleftrightarrow> mem_frame s t
     \<and> (\<forall>p. \<not> mine d R (\<rho> p) \<longrightarrow> \<rho>' p = \<rho> p \<and> (p mod PGSIZE = 0 \<longrightarrow> same_page (mem s) (mem t) p))
     \<and> (\<forall>p. mine d R (\<rho> p) \<longrightarrow> mine d R (\<rho>' p) \<or> \<rho>' p = Other)"

lemma vm_step_leak: "vm_step d R s \<rho> t \<rho>' \<Longrightarrow> vm_leak d R s \<rho> t \<rho>'"
  by (simp add: vm_step_def vm_leak_def)

lemma vm_leak_refl: "vm_leak d R s \<rho> s \<rho>"
  by (rule vm_step_leak [OF vm_step_refl])

lemma vm_leak_trans:
  assumes "vm_leak d R s \<rho> t \<rho>'" "vm_leak d R t \<rho>' u \<rho>''"
  shows "vm_leak d R s \<rho> u \<rho>''"
proof -
  have o: "\<not> mine d R Other" by (simp add: mine_def)
  have "\<rho>'' p = \<rho> p \<and> (p mod PGSIZE = 0 \<longrightarrow> same_page (mem s) (mem u) p)" if "\<not> mine d R (\<rho> p)" for p
  proof -
    have "\<rho>' p = \<rho> p \<and> (p mod PGSIZE = 0 \<longrightarrow> same_page (mem s) (mem t) p)" using assms(1) that by (simp add: vm_leak_def)
    moreover from this have "\<rho>'' p = \<rho>' p \<and> (p mod PGSIZE = 0 \<longrightarrow> same_page (mem t) (mem u) p)"
      using assms(2) that by (simp add: vm_leak_def)
    ultimately show ?thesis using same_page_trans by auto
  qed
  moreover have "mine d R (\<rho>'' p) \<or> \<rho>'' p = Other" if "mine d R (\<rho> p)" for p
  proof -
    have "mine d R (\<rho>' p) \<or> \<rho>' p = Other" using assms(1) that by (simp add: vm_leak_def)
    then show ?thesis using assms(2) o unfolding vm_leak_def by metis
  qed
  moreover have "mem_frame s u" using assms mem_frame_trans unfolding vm_leak_def by blast
  ultimately show ?thesis by (simp add: vm_leak_def)
qed

lemma vm_leak_mono:
  assumes "vm_leak d R s \<rho> t \<rho>'" "R \<subseteq> R'"
  shows "vm_leak d R' s \<rho> t \<rho>'"
proof -
  have "mine d R' (\<rho>' p) \<or> \<rho>' p = Other" if "mine d R' (\<rho> p)" for p
  proof (cases "mine d R (\<rho> p)")
    case True
    then show ?thesis using assms(1) mine_mono [OF assms(2)] unfolding vm_leak_def by blast
  next
    case False
    then have "\<rho>' p = \<rho> p" using assms(1) by (simp add: vm_leak_def)
    then show ?thesis using that by simp
  qed
  moreover have "\<rho>' p = \<rho> p \<and> (p mod PGSIZE = 0 \<longrightarrow> same_page (mem s) (mem t) p)" if "\<not> mine d R' (\<rho> p)" for p
  proof -
    have "\<not> mine d R (\<rho> p)" using that mine_mono [OF assms(2)] by metis
    then show ?thesis using assms(1) by (simp add: vm_leak_def)
  qed
  moreover have "mem_frame s t" using assms(1) by (simp add: vm_leak_def)
  ultimately show ?thesis by (simp add: vm_leak_def)
qed

lemma vm_leak_role:
  assumes "vm_leak d R s \<rho> t \<rho>'" "\<not> mine d R r" "r \<noteq> Other"
  shows "\<rho>' q = r \<longleftrightarrow> \<rho> q = r"
proof (cases "mine d R (\<rho> q)")
  case True
  then have "mine d R (\<rho>' q) \<or> \<rho>' q = Other" using assms(1) by (simp add: vm_leak_def)
  then show ?thesis using True assms(2,3) by auto
qed (use assms(1) in \<open>simp add: vm_leak_def\<close>)

text \<open>Steps of one address space leave another well-formed and as it was.\<close>

lemma other_space:
  assumes inv: "vm_inv s p \<rho> fs" and st: "vm_leak d R s \<rho> t \<rho>'" and fr: "free_pages t gs" "\<And>q. \<rho>' q = Free \<longleftrightarrow> q \<in> set gs"
    and ne: "p \<noteq> d"
  shows "vm_inv t p \<rho>' gs" "pmap (mem t) p = pmap (mem s) p"
proof -
  have pt: "pt_inv s p \<rho> fs" and fi: "frames_inv s p \<rho>" using inv by (simp_all add: vm_inv_def)
  have mf: "mem_frame s t" using st by (simp add: vm_leak_def)
  have nm: "\<not> mine d R (Dir p)" "\<not> mine d R (Tab p i)" "\<not> mine d R (Frame p v)" for i v using ne by (auto simp: mine_def)
  have roles: "\<rho>' q = Dir p \<longleftrightarrow> \<rho> q = Dir p" "\<rho>' q = Tab p i \<longleftrightarrow> \<rho> q = Tab p i" "\<rho>' q = Frame p v \<longleftrightarrow> \<rho> q = Frame p v" for q i v
    using vm_leak_role [OF st nm(1)] vm_leak_role [OF st nm(2)] vm_leak_role [OF st nm(3)] by simp_all
  have sp: "same_page (mem s) (mem t) q" if "\<rho> q = Dir p \<or> (\<exists>i. \<rho> q = Tab p i)" for q
  proof -
    have "q mod PGSIZE = 0" using pt_inv_aligned(2) [OF pt] that by metis
    moreover have "\<not> mine d R (\<rho> q)" using nm that by metis
    ultimately show ?thesis using st by (simp add: vm_leak_def)
  qed
  have pd: "pde (mem t) p i = pde (mem s) p i" if "i < 1024" for i using same_tables(1) [OF pt _ that] sp by blast
  have pm: "pmap (mem t) p = pmap (mem s) p" using same_tables(3) [OF pt] sp by blast
  show "pmap (mem t) p = pmap (mem s) p" by (rule pm)
  have "pt_inv t p \<rho>' gs" using fr roles pd by (intro pt_inv_frame [OF pt mf]) auto
  moreover have "frames_inv t p \<rho>'"
    unfolding frames_inv_def pm mem_frame_select [OF mf] roles using frames_inv_iff [OF fi] frames_inv_kpage [OF fi] by blast
  ultimately show "vm_inv t p \<rho>' gs" by (simp add: vm_inv_def)
qed

text \<open>A page that was used for nothing gets a role in another address space.\<close>

lemma vm_inv_role:
  assumes inv: "vm_inv s p \<rho> fs" and m: "\<rho> m = Other" and r: "r \<noteq> Free" "r \<noteq> Dir p" "\<forall>i. r \<noteq> Tab p i" "\<forall>v. r \<noteq> Frame p v"
  shows "vm_inv s p (\<rho>(m := r)) fs"
proof -
  have pt: "pt_inv s p \<rho> fs" and fi: "frames_inv s p \<rho>" using inv by (simp_all add: vm_inv_def)
  have roles: "(\<rho>(m := r)) q = Dir p \<longleftrightarrow> \<rho> q = Dir p" "(\<rho>(m := r)) q = Tab p i \<longleftrightarrow> \<rho> q = Tab p i"
      "(\<rho>(m := r)) q = Frame p v \<longleftrightarrow> \<rho> q = Frame p v" "(\<rho>(m := r)) q = Free \<longleftrightarrow> \<rho> q = Free" for q i v
    using m r by auto
  have "pt_inv s p (\<rho>(m := r)) fs"
    using pt_inv_free [OF pt] pt roles by (intro pt_inv_frame [OF pt mem_frame_refl]) (simp_all add: pt_inv_def)
  moreover have "frames_inv s p (\<rho>(m := r))"
    unfolding frames_inv_def roles using frames_inv_iff [OF fi] frames_inv_kpage [OF fi] by blast
  ultimately show ?thesis by (simp add: vm_inv_def)
qed

subsection \<open>Copying a page\<close>

lemma memmove_page:
  assumes "dst mod PGSIZE = 0" "src mod PGSIZE = 0" "dst \<noteq> src"
  shows "memmove m dst src PGSIZE = copied m dst src 4096"
proof -
  have "a + of_nat k \<noteq> b" if "a mod PGSIZE = 0" "b mod PGSIZE = 0" "a \<noteq> b" "k < 4096" for a b and k :: nat
  proof
    assume e: "a + of_nat k = b"
    have "b \<in> cells a 4096" using cellsI [of k 4096 a] that(4) e by simp
    moreover have "b \<in> cells b 4096" by (simp add: cells_def)
    ultimately show False using pages_disjoint [OF that(1-3)] by blast
  qed
  then show ?thesis
    using copy_bwd_copied [of 4096 dst src m] copy_fwd_copied [of 4096 src dst m] assms by (simp add: memmove_def)
qed

definition copied_page :: "memory \<Rightarrow> u32 \<Rightarrow> u32 \<Rightarrow> bool" where
  "copied_page m e x \<longleftrightarrow> PTE_FLAGS x = PTE_FLAGS e \<and> (\<forall>k. unat k < 4096 \<longrightarrow> m (frame_of x + k) = m (frame_of e + k))"

lemma flags_copied:
  assumes "v mod PGSIZE = 0" "has_flag e PTE_P"
  shows "PTE_FLAGS (v OR PTE_FLAGS e OR PTE_P) = PTE_FLAGS e"
proof -
  have "e AND 1 = 0" if "\<not> bit e 0" using that by (intro bit_word_eqI) (auto simp: bit_simps intro!: gr0I)
  then have "bit e 0" using assms(2) by (auto simp: has_flag_def)
  then have "(e AND 0xFFF) OR 1 = e AND 0xFFF" by (intro bit_word_eqI) (auto simp: bit_simps)
  moreover have "v AND 0xFFF = 0" using aligned_and_mask [OF assms(1)] .
  ultimately show ?thesis by (simp add: PTE_FLAGS_def bit.conj_disj_distrib2 and.assoc)
qed

lemma take_page_leak:
  assumes "vm_inv s d \<rho> (m # fs)" "\<And>q. q mod PGSIZE = 0 \<Longrightarrow> q \<noteq> m \<Longrightarrow> same_page (mem s) m' q"
    and "vm_step d R (s\<lparr>freelist := load32 (mem s) m, mem := m'\<rparr>) (\<rho>(m := Other)) t \<rho>'"
  shows "vm_leak d R s \<rho> t \<rho>'"
proof -
  have st: "vm_step d R s \<rho> t (\<rho>'(m := Free))" using take_page_step [OF assms] by (simp add: mine_def)
  have "\<not> mine d R ((\<rho>(m := Other)) m)" by (simp add: mine_def)
  then have o: "\<rho>' m = Other" using assms(3) unfolding vm_step_def by (metis fun_upd_same)
  have "\<rho> m = Free" using assms(1) by (simp add: vm_inv_def pt_inv_def)
  then have m: "mine d R (\<rho> m)" by (simp add: mine_def)
  show ?thesis
    unfolding vm_leak_def
  proof (intro conjI allI impI)
    show "mem_frame s t" using st by (simp add: vm_step_def)
    fix q
    show "\<rho>' q = \<rho> q" if "\<not> mine d R (\<rho> q)" using that st m unfolding vm_step_def by (metis fun_upd_other)
    show "same_page (mem s) (mem t) q" if "\<not> mine d R (\<rho> q)" "q mod PGSIZE = 0" using that st by (simp add: vm_step_def)
    show "mine d R (\<rho>' q) \<or> \<rho>' q = Other" if "mine d R (\<rho> q)"
      using that st o unfolding vm_step_def by (metis fun_upd_other)
  qed
qed

lemma pmap_Some:
  assumes "pmap m d va = Some e"
  shows "has_table m d (PDX va)" "load32 m (table m d (PDX va) + 4 * PTX va) = e" "has_flag e PTE_P"
proof -
  show "has_table m d (PDX va)" using assms by (cases "has_table m d (PDX va)") (simp_all add: pmap_def pte_of_def has_flag_def)
  then show "load32 m (table m d (PDX va) + 4 * PTX va) = e" "has_flag e PTE_P"
    using assms by (simp_all add: pmap_def pte_of_def split: if_splits)
qed

lemma copy_one:
  assumes d: "vm_inv s d \<rho> fs" and p: "vm_inv s p \<rho> fs" and ne: "p \<noteq> d" and i: "i mod PGSIZE = 0" "i < KERNBASE"
    and e: "pmap (mem s) p i = Some e" and none: "pmap (mem s) d i = None"
  shows "(\<exists>t \<sigma> gs x. (\<forall>n. copyuvm_loop (Suc n) d p i s = copyuvm_loop n d p (i + PGSIZE) t) \<and> vm_inv t d \<sigma> gs \<and> vm_inv t p \<sigma> gs
      \<and> vm_leak d {i} s \<rho> t \<sigma> \<and> pmap (mem t) d = (\<lambda>va. if PGROUNDDOWN va = i then Some x else pmap (mem s) d va)
      \<and> copied_page (mem t) e x \<and> \<sigma> (frame_of x) = Frame d i \<and> length fs \<le> length gs + 2)
    \<or> (\<exists>t \<sigma> gs. (\<forall>n. copyuvm_loop (Suc n) d p i s = Ret False t) \<and> vm_inv t d \<sigma> gs \<and> vm_inv t p \<sigma> gs \<and> vm_leak d {i} s \<rho> t \<sigma>
      \<and> length fs \<le> 1)"
proof -
  note w = pmap_Some [OF e]
  have pp: "pt_inv s p \<rho> fs" and pf: "frames_inv s p \<rho>" using p by (simp_all add: vm_inv_def)
  have nz: "table (mem s) p (PDX i) + 4 * PTX i \<noteq> 0"
    using table_slot_nonzero [OF pt_inv_table(2) [OF pp PDX_less w(1)] PTX_less] .
  let ?f = "frame_of e"
  note f = frames_inv_frame [OF pf i(2) e]
  show ?thesis
  proof (cases fs)
    case Nil
    then have "kalloc s = Ret 0 s" using d by (simp add: vm_inv_def pt_inv_def free_pages_def kalloc_eq)
    then have "\<forall>n. copyuvm_loop (Suc n) d p i s = Ret False s"
      using walk_present [OF w(1), of False] nz w(2,3) by (simp add: Let_def)
    then show ?thesis using d p vm_leak_refl Nil by (intro disjI2 exI [of _ s] exI [of _ \<rho>] exI [of _ fs]) simp
  next
    case (Cons m fs')
    have dm: "vm_inv s d \<rho> (m # fs')" using d Cons by simp
    have rm: "\<rho> m = Free" using dm by (simp add: vm_inv_def pt_inv_def)
    have km: "kpage s m" using dm by (simp add: vm_inv_def pt_inv_def free_pages_def)
    have fm: "m \<noteq> ?f" using f(1) rm by auto
    have mv: "memmove (mem s) m ?f PGSIZE = copied (mem s) m ?f 4096"
      using memmove_page [OF kpage_aligned [OF km] kpage_aligned [OF f(2)] fm] .
    have same: "same_page (mem s) (memmove (mem s) m ?f PGSIZE) q" if "q mod PGSIZE = 0" "q \<noteq> m" for q
      unfolding mv using pages_disjoint [OF that(1) kpage_aligned [OF km] that(2)] by (auto simp: same_page_def copied_def)
    let ?s = "s\<lparr>freelist := load32 (mem s) m, mem := memmove (mem s) m ?f PGSIZE\<rparr>"
    note al = alloc_page [OF dm, of "memmove (mem s) m ?f PGSIZE", OF same]
    have none': "pmap (mem ?s) d i = None" using none al(6) by simp
    have km': "kpage ?s m" using km by simp
    have fl: "PTE_FLAGS e AND NOT 0xFFF = 0" by (simp add: PTE_FLAGS_def and.assoc)
    from map_frame [OF al(5) _ km' i none' fl] obtain r t \<rho>' gs where
      t: "mappages d i PGSIZE (V2P m) (PTE_FLAGS e) ?s = Ret r t" "vm_step d {} ?s (\<rho>(m := Other)) t \<rho>'" "length fs' \<le> Suc (length gs)"
      and c: "r = 0 \<and> vm_inv t d (\<rho>'(m := Frame d i)) gs
         \<and> pmap (mem t) d = (\<lambda>va. if PGROUNDDOWN va = i then Some (V2P m OR PTE_FLAGS e OR PTE_P) else pmap (mem ?s) d va)
       \<or> r = - 1 \<and> fs' = [] \<and> vm_inv t d \<rho>' gs \<and> pmap (mem t) d = pmap (mem ?s) d" by auto
    have loop: "copyuvm_loop (Suc n) d p i s = (if r < 0 then Ret False t else copyuvm_loop n d p (i + PGSIZE) t)" for n
      using walk_present [OF w(1), of False] nz w(2,3) al(1,2) t(1) by (simp add: Let_def frame_of_def)
    have st: "vm_step d {i} ?s (\<rho>(m := Other)) t \<rho>'" using vm_step_mono [OF t(2)] by simp
    from c show ?thesis
    proof (elim disjE conjE)
      assume f: "r = - 1" "vm_inv t d \<rho>' gs" "fs' = []"
      have lk: "vm_leak d {i} s \<rho> t \<rho>'" using take_page_leak [OF dm same st] .
      have "pt_inv t d \<rho>' gs" using f(2) by (simp add: vm_inv_def)
      then have "vm_inv t p \<rho>' gs" using other_space(1) [OF p lk _ _ ne] pt_inv_free by (auto simp: pt_inv_def)
      then show ?thesis using f lk Cons
        by (intro disjI2 exI [of _ t] exI [of _ \<rho>'] exI [of _ gs]) (simp add: loop del: copyuvm_loop.simps)
    next
      let ?x = "V2P m OR PTE_FLAGS e OR PTE_P"
      let ?\<sigma> = "\<rho>'(m := Frame d i)"
      assume g: "r = 0" "vm_inv t d ?\<sigma> gs" "pmap (mem t) d = (\<lambda>va. if PGROUNDDOWN va = i then Some ?x else pmap (mem ?s) d va)"
      have lk: "vm_leak d {i} s \<rho> t ?\<sigma>"
        using vm_step_leak [OF take_page_step [OF dm same st]] by (simp add: mine_def)
      have "pt_inv t d ?\<sigma> gs" using g(2) by (simp add: vm_inv_def)
      then have vp: "vm_inv t p ?\<sigma> gs" using other_space(1) [OF p lk _ _ ne] pt_inv_free by (auto simp: pt_inv_def)
      have "(PTE_FLAGS e OR PTE_P) AND NOT 0xFFF = 0" using fl by (simp add: bit.conj_disj_distrib2)
      then have x: "frame_of ?x = m" using PTE_ADDR_or [OF aligned_V2P [OF kpage_aligned [OF km]]] by (simp add: frame_of_def)
      have "mem t (m + k) = mem t (?f + k)" if k: "unat k < 4096" for k
      proof -
        have "same_page (mem ?s) (mem t) m" using t(2) kpage_aligned [OF km] unfolding vm_step_def by (simp add: mine_def)
        moreover have "m + k \<in> cells m 4096" "?f + k \<in> cells ?f 4096" using k by (simp_all add: cells_def)
        ultimately have "mem t (m + k) = mem s (?f + k)" using mv by (simp add: same_page_def copied_def)
        moreover have "\<not> mine d {i} (\<rho> ?f)" using f(1) ne by (auto simp: mine_def)
        then have "same_page (mem s) (mem t) ?f" using lk kpage_aligned [OF f(2)] by (simp add: vm_leak_def)
        ultimately show ?thesis using \<open>?f + k \<in> cells ?f 4096\<close> by (simp add: same_page_def)
      qed
      then have "copied_page (mem t) e ?x"
        unfolding copied_page_def x using flags_copied [OF aligned_V2P [OF kpage_aligned [OF km]] w(3)] by blast
      moreover have "pmap (mem t) d = (\<lambda>va. if PGROUNDDOWN va = i then Some ?x else pmap (mem s) d va)"
        using al(6) by (simp add: g(3) fun_eq_iff)
      ultimately show ?thesis using g(1,2) vp lk x t(3) Cons
        by (intro disjI1 exI [of _ t] exI [of _ ?\<sigma>] exI [of _ gs] exI [of _ ?x]) (simp add: loop del: copyuvm_loop.simps)
    qed
  qed
qed

text \<open>A copy stays a copy while other pages of the new address space are filled.\<close>

lemma copied_kept:
  assumes "vm_inv s d \<rho> fs" "vm_inv s p \<rho> fs" "p \<noteq> d" "vm_leak d R s \<rho> u \<sigma>" "v < KERNBASE"
    and "pmap (mem s) p v = Some x" "pmap (mem s) d v = Some y" "copied_page (mem s) x y" "PGROUNDDOWN v \<notin> R"
  shows "copied_page (mem u) x y"
proof -
  have f: "frames_inv s p \<rho>" "frames_inv s d \<rho>" using assms(1,2) by (simp_all add: vm_inv_def)
  note fx = frames_inv_frame [OF f(1) assms(5,6)]
  note fy = frames_inv_frame [OF f(2) assms(5,7)]
  have "\<not> mine d R (\<rho> (frame_of x))" "\<not> mine d R (\<rho> (frame_of y))" using fx(1) fy(1) assms(3,9) by (auto simp: mine_def)
  then have "same_page (mem s) (mem u) (frame_of x)" "same_page (mem s) (mem u) (frame_of y)"
    using assms(4) kpage_aligned [OF fx(2)] kpage_aligned [OF fy(2)] by (simp_all add: vm_leak_def)
  then show ?thesis using assms(8) by (simp add: copied_page_def same_page_def cells_def)
qed

lemma copyuvm_loop_ok:
  assumes "vm_inv s d \<rho> fs" "vm_inv s p \<rho> fs" "p \<noteq> d" "a mod PGSIZE = 0" "e \<le> KERNBASE" "pages_left a e = n"
    and "\<forall>v\<in>vpages a e. pmap (mem s) p v \<noteq> None" and "\<forall>v\<in>vpages a e. pmap (mem s) d v = None"
  shows "\<exists>r t \<sigma> gs. copyuvm_loop n d p a s = Ret r t \<and> vm_inv t d \<sigma> gs \<and> vm_inv t p \<sigma> gs \<and> vm_leak d (vpages a e) s \<rho> t \<sigma>
    \<and> (if r then length fs \<le> length gs + 2 * n else length fs < 2 * n)
    \<and> (r \<longrightarrow> (\<forall>v. v mod PGSIZE = 0 \<longrightarrow> (if v \<in> vpages a e then \<exists>x y. pmap (mem s) p v = Some x \<and> pmap (mem t) d v = Some y \<and> copied_page (mem t) x y
         else pmap (mem t) d v = pmap (mem s) d v)))"
  using assms
proof (induction n arbitrary: a s \<rho> fs)
  case (0 a s \<rho> fs)
  have "(unat e - unat a + 4095) div 4096 = 0" using 0(6) by (simp add: pages_left_def)
  then have "\<not> a < e" by (simp add: word_less_nat_alt)
  then have "vpages a e = {}" by (auto simp: vpages_def)
  then show ?case using 0(1,2) by (intro exI [of _ True] exI [of _ s] exI [of _ \<rho>] exI [of _ fs]) (simp add: vm_leak_refl)
next
  case (Suc n a s \<rho> fs)
  let ?b = "a + PGSIZE"
  note ps = pages_left_step [OF Suc.prems(4-6)]
  note vp = vpages_step [OF Suc.prems(4) ps(1) Suc.prems(5)]
  have aK: "a < KERNBASE" using ps(1) Suc.prems(5) by simp
  obtain x where x: "pmap (mem s) p a = Some x" using Suc.prems(7) vp(1) by auto
  have none: "pmap (mem s) d a = None" using Suc.prems(8) vp(1) by auto
  have sub: "{a} \<subseteq> vpages a e" "vpages ?b e \<subseteq> vpages a e" using vp(1) by auto
  from copy_one [OF Suc.prems(1-3,4) aK x none] show ?case
  proof (elim disjE exE conjE)
    fix t \<sigma> gs
    assume l: "\<forall>n. copyuvm_loop (Suc n) d p a s = Ret False t" and t: "vm_inv t d \<sigma> gs" "vm_inv t p \<sigma> gs" "vm_leak d {a} s \<rho> t \<sigma>" "length fs \<le> 1"
    have "copyuvm_loop (Suc n) d p a s = Ret False t" using l by blast
    then show ?thesis using t vm_leak_mono [OF t(3) sub(1)]
      by (intro exI [of _ False] exI [of _ t] exI [of _ \<sigma>] exI [of _ gs]) (simp del: copyuvm_loop.simps)
  next
    fix t \<sigma> gs y
    assume l: "\<forall>n. copyuvm_loop (Suc n) d p a s = copyuvm_loop n d p ?b t"
      and t: "vm_inv t d \<sigma> gs" "vm_inv t p \<sigma> gs" "vm_leak d {a} s \<rho> t \<sigma>"
        "pmap (mem t) d = (\<lambda>va. if PGROUNDDOWN va = a then Some y else pmap (mem s) d va)" "copied_page (mem t) x y" "\<sigma> (frame_of y) = Frame d a"
        "length fs \<le> length gs + 2"
    have al: "?b mod PGSIZE = 0" using aligned_add [OF Suc.prems(4), of PGSIZE] by simp
    have nin: "a \<notin> vpages ?b e" using vp(2) by (simp add: vpages_def word_le_nat_alt)
    have pm: "pmap (mem t) p = pmap (mem s) p"
    proof -
      have "pt_inv t d \<sigma> gs" using t(1) by (simp add: vm_inv_def)
      then show ?thesis using other_space(2) [OF Suc.prems(2) t(3) _ _ Suc.prems(3)] pt_inv_free by (auto simp: pt_inv_def)
    qed
    have "\<forall>v\<in>vpages ?b e. pmap (mem t) p v \<noteq> None" using Suc.prems(7) sub(2) by (auto simp: pm)
    moreover have "\<forall>v\<in>vpages ?b e. pmap (mem t) d v = None"
    proof
      fix v assume v: "v \<in> vpages ?b e"
      then have "PGROUNDDOWN v = v" by (intro PGROUNDDOWN_id) (simp add: vpages_def)
      then show "pmap (mem t) d v = None" using v nin Suc.prems(8) sub(2) by (auto simp: t(4))
    qed
    ultimately obtain r u \<rho>' fs' where u: "copyuvm_loop n d p ?b t = Ret r u" "vm_inv u d \<rho>' fs'" "vm_inv u p \<rho>' fs'"
        "vm_leak d (vpages ?b e) t \<sigma> u \<rho>'"
        "r \<longrightarrow> (\<forall>v. v mod PGSIZE = 0 \<longrightarrow> (if v \<in> vpages ?b e then \<exists>x y. pmap (mem t) p v = Some x \<and> pmap (mem u) d v = Some y \<and> copied_page (mem u) x y
         else pmap (mem u) d v = pmap (mem t) d v))"
        "if r then length gs \<le> length fs' + 2 * n else length gs < 2 * n"
      using Suc.IH [OF t(1,2) Suc.prems(3) al Suc.prems(5) ps(2)] by blast
    have lk: "vm_leak d (vpages a e) s \<rho> u \<rho>'"
      using vm_leak_trans [OF vm_leak_mono [OF t(3) sub(1)] vm_leak_mono [OF u(4) sub(2)]] .
    have cp: "copied_page (mem u) x y"
    proof -
      have "pmap (mem t) d a = Some y" using PGROUNDDOWN_id [OF Suc.prems(4)] by (simp add: t(4))
      then show ?thesis
        using copied_kept [OF t(1,2) Suc.prems(3) u(4) aK _ _ t(5)] x nin PGROUNDDOWN_id [OF Suc.prems(4)] by (simp add: pm)
    qed
    have cpy: "if v \<in> vpages a e then \<exists>x y. pmap (mem s) p v = Some x \<and> pmap (mem u) d v = Some y \<and> copied_page (mem u) x y
         else pmap (mem u) d v = pmap (mem s) d v" if v: "v mod PGSIZE = 0" and r for v
    proof -
      have "if v \<in> vpages ?b e then \<exists>x y. pmap (mem t) p v = Some x \<and> pmap (mem u) d v = Some y \<and> copied_page (mem u) x y
         else pmap (mem u) d v = pmap (mem t) d v" using u(5) v \<open>r\<close> by presburger
      then have h: "if v \<in> vpages ?b e then \<exists>x y. pmap (mem s) p v = Some x \<and> pmap (mem u) d v = Some y \<and> copied_page (mem u) x y
         else pmap (mem u) d v = pmap (mem t) d v" unfolding pm .
      show ?thesis
      proof (cases "v = a")
        case True
        then show ?thesis using h nin vp(1) x cp PGROUNDDOWN_id [OF v] by (simp add: t(4))
      next
        case False
        then have "v \<in> vpages a e \<longleftrightarrow> v \<in> vpages ?b e" "pmap (mem t) d v = pmap (mem s) d v"
          using vp(1) PGROUNDDOWN_id [OF v] by (simp_all add: t(4))
        then show ?thesis using h by presburger
      qed
    qed
    have "if r then length fs \<le> length fs' + 2 * Suc n else length fs < 2 * Suc n" using u(6) t(7) by (simp split: if_splits)
    moreover have "copyuvm_loop (Suc n) d p a s = Ret r u" using l u(1) by metis
    ultimately show ?thesis using u(2,3) lk
      by (intro exI [of _ r] exI [of _ u] exI [of _ \<rho>'] exI [of _ fs'] conjI impI allI cpy)
  qed
qed

subsection \<open>Steps seen by the other address space\<close>

lemma uread_leak:
  assumes inv: "vm_inv s p \<rho> fs" and st: "vm_leak d R s \<rho> t \<rho>'" and ne: "p \<noteq> d" and va: "va < KERNBASE"
    and pm: "pmap (mem t) p = pmap (mem s) p"
  shows "uread (mem t) p va = uread (mem s) p va"
proof (cases "pmap (mem s) p va")
  case None
  then show ?thesis by (simp add: uread_def hw_translate_pmap pm)
next
  case (Some e)
  have "frames_inv s p \<rho>" using inv by (simp add: vm_inv_def)
  note f = frames_inv_frame [OF this va Some]
  have "\<not> mine d R (\<rho> (frame_of e))" using f(1) ne by (auto simp: mine_def)
  then have "same_page (mem s) (mem t) (frame_of e)" using st kpage_aligned [OF f(2)] by (simp add: vm_leak_def)
  then show ?thesis using Some page_offset_cells [of "frame_of e" va] by (simp add: uread_def hw_translate_pmap pm same_page_def)
qed

lemma new_directory_leak:
  assumes "pool_inv s \<rho> (d # fs)"
  shows "vm_leak d R s \<rho> (zeroed d s) (\<rho>(d := Dir d))"
proof -
  have "\<rho> d = Free" using assms by (simp add: pool_inv_def)
  then show ?thesis using new_directory(5) [OF assms] unfolding vm_leak_def mem_frame_def by (auto simp: mine_def)
qed

lemma new_directory_frames:
  assumes pool: "pool_inv s \<rho> (d # fs)" and st: "vm_step d {} (zeroed d s) (\<rho>(d := Dir d)) t \<rho>'"
    and none: "\<forall>w<KERNBASE. pmap (mem t) d w = None"
  shows "frames_inv t d \<rho>'"
proof -
  have "\<rho> d = Free" using pool by (simp add: pool_inv_def)
  then have "p \<notin> owned \<rho> d" for p using pool unfolding pool_inv_def by (metis role.distinct(1))
  then have "(\<rho>(d := Dir d)) p \<noteq> Frame d v" for p v by (auto simp: owned_def)
  then have "\<rho>' p \<noteq> Frame d v" for p v
    using vm_leak_role [OF vm_step_leak [OF st], of "Frame d v" p] by (simp add: mine_def)
  then show ?thesis using none by (auto simp: frames_inv_def)
qed

lemma freevm_leak:
  assumes inv: "vm_inv s d \<rho> fs"
  shows "\<exists>t gs \<rho>'. freevm d s = Ret () t \<and> free_pages t gs \<and> (\<forall>q. \<rho>' q = Free \<longleftrightarrow> q \<in> set gs) \<and> vm_leak d UNIV s \<rho> t \<rho>' \<and> owned \<rho>' d = {}"
proof -
  obtain t gs where t: "freevm d s = Ret () t" "mem_frame s t" "free_pages t gs" "set gs = set fs \<union> owned \<rho> d"
      "\<forall>q. q mod PGSIZE = 0 \<and> q \<notin> set fs \<union> owned \<rho> d \<longrightarrow> same_page (mem s) (mem t) q"
    using freevm_ok [OF inv] by blast
  have pt: "pt_inv s d \<rho> fs" using inv by (simp add: vm_inv_def)
  define \<rho>' where "\<rho>' q = (if q \<in> owned \<rho> d then Free else \<rho> q)" for q
  have m: "mine d UNIV (\<rho> q) \<longleftrightarrow> q \<in> set fs \<union> owned \<rho> d" for q
    using pt_inv_free [OF pt, of q] by (auto simp: mine_def owned_def)
  have "\<rho>' q = Free \<longleftrightarrow> q \<in> set gs" for q using pt_inv_free [OF pt, of q] t(4) by (auto simp: \<rho>'_def)
  moreover have "vm_leak d UNIV s \<rho> t \<rho>'"
    unfolding vm_leak_def
  proof (intro conjI allI impI)
    fix q
    show "\<rho>' q = \<rho> q" if "\<not> mine d UNIV (\<rho> q)" using that m [of q] by (simp add: \<rho>'_def)
    show "same_page (mem s) (mem t) q" if "\<not> mine d UNIV (\<rho> q)" "q mod PGSIZE = 0" using that m [of q] t(5) by simp
    show "mine d UNIV (\<rho>' q) \<or> \<rho>' q = Other" if "mine d UNIV (\<rho> q)" using that by (auto simp: \<rho>'_def mine_def)
  qed (rule t(2))
  moreover have "owned \<rho>' d = {}" by (auto simp: \<rho>'_def owned_def)
  ultimately show ?thesis using t(1,3) by blast
qed

lemma pool_leak:
  assumes pool: "pool_inv s \<rho> fs" and lk: "vm_leak d R s \<rho> t \<rho>'" and fr: "free_pages t gs" "\<And>q. \<rho>' q = Free \<longleftrightarrow> q \<in> set gs"
    and own: "\<And>p. p \<in> owned \<rho>' d \<Longrightarrow> \<rho>' d = Dir d" "\<And>p. \<rho>' p = Dir d \<Longrightarrow> p = d"
  shows "pool_inv t \<rho>' gs"
proof -
  have mf: "mem_frame s t" using lk by (simp add: vm_leak_def)
  have other: "\<rho>' q = Dir d' \<longleftrightarrow> \<rho> q = Dir d'" "\<rho>' q = Tab d' i \<longleftrightarrow> \<rho> q = Tab d' i" "\<rho>' q = Frame d' v \<longleftrightarrow> \<rho> q = Frame d' v"
    if "d' \<noteq> d" for q d' i v
    using that by (auto intro!: vm_leak_role [OF lk] simp: mine_def)
  have "\<rho>' d' = Dir d'" if "p \<in> owned \<rho>' d'" for p d'
  proof (cases "d' = d")
    case False
    then have "p \<in> owned \<rho> d'" using that other [OF False] by (simp add: owned_def)
    then show ?thesis using pool other(1) [OF False] by (simp add: pool_inv_def)
  qed (use own(1) that in simp)
  moreover have "p = d'" if "\<rho>' p = Dir d'" for p d'
  proof (cases "d' = d")
    case False
    then show ?thesis using pool that other(1) [OF False] by (simp add: pool_inv_def)
  qed (use own(2) that in simp)
  ultimately show ?thesis using pool fr mem_frame_select(1) [OF mf] by (simp add: pool_inv_def)
qed

lemma pool_leak_inv:
  assumes "pool_inv s \<rho> fs" "vm_leak d R s \<rho> t \<rho>'" "pt_inv t d \<rho>' gs"
  shows "pool_inv t \<rho>' gs"
  using pool_leak [OF assms(1,2) _ pt_inv_free [OF assms(3)]] assms(3) by (simp add: pt_inv_def)

subsection \<open>Properties: freeing and copying\<close>

text \<open>
  C15. No page is lost when an address space is freed: \<open>freevm\<close> on a well-formed address space returns, and
  the free pages afterwards are those from before together with the directory, every page table and the
  frame of every user page; the contents of all other pages are untouched.
\<close>

theorem freevm_returns_all_pages:
  assumes "vm_inv s d \<rho> fs"
  shows "\<exists>t fs'. freevm d s = Ret () t \<and> free_pages t fs' \<and> set fs' = set fs \<union> owned \<rho> d
    \<and> (\<forall>q. q mod PGSIZE = 0 \<and> q \<notin> set fs' \<longrightarrow> same_page (mem s) (mem t) q)"
  using freevm_ok [OF assms] by metis

theorem freevm_returns_all_pages_witness:
  "\<exists>t fs'. freevm 0x80200000 ex_vm = Ret () t \<and> free_pages t fs' \<and> 0x80200000 \<in> set fs'"
proof -
  have "0x80200000 \<in> owned ex_role 0x80200000" by (simp add: owned_def ex_role_def)
  then show ?thesis using freevm_returns_all_pages [OF ex_vm_inv] by blast
qed

text \<open>The stages of \<open>copyuvm\<close>: a directory, the heap, the stacks.\<close>

abbreviation stack_top :: u32 where "stack_top \<equiv> KERNBASE - PGSIZE"

definition image_pages :: "u32 \<Rightarrow> u32 \<Rightarrow> u32 set" where
  "image_pages sz eos = vpages 0 sz \<union> vpages eos stack_top"

definition image_size :: "u32 \<Rightarrow> u32 \<Rightarrow> nat" where
  "image_size sz eos = pages_left 0 sz + pages_left eos stack_top"

lemma copy_loops:
  assumes d: "vm_inv s d \<rho> fs" and p: "vm_inv s p \<rho> fs" and ne: "p \<noteq> d"
    and sz: "sz \<le> eos" "eos \<le> stack_top" "eos mod PGSIZE = 0"
    and all: "\<forall>v\<in>image_pages sz eos. pmap (mem s) p v \<noteq> None" and none: "\<forall>v<KERNBASE. pmap (mem s) d v = None"
  shows "\<exists>r t \<sigma> gs. andthen (copyuvm_loop (pages_left 0 sz) d p 0 s) (\<lambda>ok s. if \<not> ok then F s
        else andthen (copyuvm_loop (pages_left eos stack_top) d p eos s) (\<lambda>ok s. if \<not> ok then F s else Ret d s))
      = (if r then Ret d t else F t)
    \<and> vm_inv t d \<sigma> gs \<and> vm_inv t p \<sigma> gs \<and> vm_leak d UNIV s \<rho> t \<sigma> \<and> (\<not> r \<longrightarrow> length fs < 2 * image_size sz eos)
    \<and> (r \<longrightarrow> (\<forall>v. v mod PGSIZE = 0 \<and> v < KERNBASE \<longrightarrow> (if v \<in> image_pages sz eos
         then \<exists>x y. pmap (mem s) p v = Some x \<and> pmap (mem t) d v = Some y \<and> copied_page (mem t) x y
         else pmap (mem t) d v = None)))"
proof -
  let ?A = "vpages 0 sz" and ?B = "vpages eos stack_top"
  have K: "stack_top \<le> KERNBASE" "sz \<le> KERNBASE" using sz(1,2) by (simp_all add: word_le_nat_alt)
  have low: "v < KERNBASE" if "v \<in> ?A \<union> ?B" for v using that K by (auto simp: vpages_def word_less_nat_alt word_le_nat_alt)
  have dis: "v \<notin> ?B" if "v \<in> ?A" for v using that sz(1) by (auto simp: vpages_def)
  have h: "\<forall>v\<in>?A. pmap (mem s) p v \<noteq> None" "\<forall>v\<in>?A. pmap (mem s) d v = None" "0 mod PGSIZE = 0"
    using all none low by (simp_all add: image_pages_def)
  obtain r1 t1 \<sigma>1 g1 where l1: "copyuvm_loop (pages_left 0 sz) d p 0 s = Ret r1 t1" "vm_inv t1 d \<sigma>1 g1" "vm_inv t1 p \<sigma>1 g1"
      "vm_leak d ?A s \<rho> t1 \<sigma>1" "if r1 then length fs \<le> length g1 + 2 * pages_left 0 sz else length fs < 2 * pages_left 0 sz"
    and c1: "r1 \<longrightarrow> (\<forall>v. v mod PGSIZE = 0 \<longrightarrow> (if v \<in> ?A then \<exists>x y. pmap (mem s) p v = Some x \<and> pmap (mem t1) d v = Some y \<and> copied_page (mem t1) x y
         else pmap (mem t1) d v = pmap (mem s) d v))"
    using copyuvm_loop_ok [OF d p ne h(3) K(2) refl h(1,2)] by (elim exE conjE) (rule that)
  have lk1: "vm_leak d UNIV s \<rho> t1 \<sigma>1" using vm_leak_mono [OF l1(4)] by simp
  show ?thesis
  proof (cases r1)
    case False
    then show ?thesis using l1 lk1
      by (intro exI [of _ False] exI [of _ t1] exI [of _ \<sigma>1] exI [of _ g1]) (simp add: image_size_def)
  next
    case True
    have pt1: "pt_inv t1 d \<sigma>1 g1" using l1(2) by (simp add: vm_inv_def)
    have pm1: "pmap (mem t1) p = pmap (mem s) p"
      using other_space(2) [OF p lk1 _ pt_inv_free [OF pt1] ne] pt1 by (simp add: pt_inv_def)
    have a1: "\<forall>v\<in>?B. pmap (mem t1) p v \<noteq> None" using all by (simp add: pm1 image_pages_def)
    have n1: "\<forall>v\<in>?B. pmap (mem t1) d v = None"
    proof
      fix v assume v: "v \<in> ?B"
      have "v mod PGSIZE = 0" using v by (simp add: vpages_def)
      moreover have "v \<notin> ?A" "v < KERNBASE" using v dis low by blast+
      ultimately show "pmap (mem t1) d v = None" using c1 True none by simp
    qed
    obtain r2 t2 \<sigma>2 g2 where l2: "copyuvm_loop (pages_left eos stack_top) d p eos t1 = Ret r2 t2" "vm_inv t2 d \<sigma>2 g2" "vm_inv t2 p \<sigma>2 g2"
        "vm_leak d ?B t1 \<sigma>1 t2 \<sigma>2" "if r2 then length g1 \<le> length g2 + 2 * pages_left eos stack_top else length g1 < 2 * pages_left eos stack_top"
      and c2: "r2 \<longrightarrow> (\<forall>v. v mod PGSIZE = 0 \<longrightarrow> (if v \<in> ?B then \<exists>x y. pmap (mem t1) p v = Some x \<and> pmap (mem t2) d v = Some y \<and> copied_page (mem t2) x y
           else pmap (mem t2) d v = pmap (mem t1) d v))"
      using copyuvm_loop_ok [OF l1(2,3) ne sz(3) K(1) refl a1 n1] by (elim exE conjE) (rule that)
    have lk2: "vm_leak d UNIV s \<rho> t2 \<sigma>2" using vm_leak_trans [OF lk1 vm_leak_mono [OF l2(4)]] by simp
    have cp: "if v \<in> image_pages sz eos then \<exists>x y. pmap (mem s) p v = Some x \<and> pmap (mem t2) d v = Some y \<and> copied_page (mem t2) x y
         else pmap (mem t2) d v = None" if r2 and v: "v mod PGSIZE = 0 \<and> v < KERNBASE" for v
    proof -
      have i1: "if v \<in> ?A then \<exists>x y. pmap (mem s) p v = Some x \<and> pmap (mem t1) d v = Some y \<and> copied_page (mem t1) x y
          else pmap (mem t1) d v = pmap (mem s) d v" using c1 True v by presburger
      have i2: "if v \<in> ?B then \<exists>x y. pmap (mem t1) p v = Some x \<and> pmap (mem t2) d v = Some y \<and> copied_page (mem t2) x y
          else pmap (mem t2) d v = pmap (mem t1) d v" using c2 that by presburger
      consider "v \<in> ?B" | "v \<in> ?A" "v \<notin> ?B" | "v \<notin> ?A" "v \<notin> ?B" by blast
      then show ?thesis
      proof cases
        case 2
        then obtain x y where x: "pmap (mem s) p v = Some x" "pmap (mem t1) d v = Some y" "copied_page (mem t1) x y" using i1 by auto
        have "PGROUNDDOWN v \<notin> ?B" using 2(2) v PGROUNDDOWN_id [of v] by simp
        then have "copied_page (mem t2) x y"
          using copied_kept [OF l1(2,3) ne l2(4) _ _ x(2,3)] v x(1) by (simp add: pm1)
        then show ?thesis using x i2 2 by (simp add: image_pages_def)
      qed (use i1 i2 none v in \<open>simp_all add: image_pages_def pm1\<close>)
    qed
    have sh: "length fs < 2 * image_size sz eos" if "\<not> r2" using that l1(5) l2(5) True by (simp add: image_size_def)
    have "andthen (copyuvm_loop (pages_left 0 sz) d p 0 s) (\<lambda>ok s. if \<not> ok then F s
        else andthen (copyuvm_loop (pages_left eos stack_top) d p eos s) (\<lambda>ok s. if \<not> ok then F s else Ret d s))
      = (if r2 then Ret d t2 else F t2)" using l1(1) l2(1) True by simp
    then show ?thesis using l2(2,3) lk2
      by (intro exI [of _ r2] exI [of _ t2] exI [of _ \<sigma>2] exI [of _ g2] conjI impI allI sh cp) blast+
  qed
qed

lemma copyuvm_bad:
  assumes pool: "pool_inv s \<rho> fs" and p: "vm_inv s p \<rho> fs" and ne: "p \<noteq> d" and l: "vm_leak d R s \<rho> t \<sigma>" and d: "vm_inv t d \<sigma> gs"
  shows "\<exists>u \<rho>' hs. freevm d t = Ret () u \<and> pool_inv u \<rho>' hs \<and> vm_inv u p \<rho>' hs \<and> (\<forall>va<KERNBASE. uread (mem u) p va = uread (mem s) p va)"
proof -
  obtain u hs \<rho>' where u: "freevm d t = Ret () u" "free_pages u hs" "\<forall>q. \<rho>' q = Free \<longleftrightarrow> q \<in> set hs" "vm_leak d UNIV t \<sigma> u \<rho>'"
      "owned \<rho>' d = {}"
    using freevm_leak [OF d] by blast
  have lk: "vm_leak d UNIV s \<rho> u \<rho>'" using vm_leak_trans [OF vm_leak_mono [OF l] u(4)] by simp
  note o = other_space [OF p lk u(2) u(3) [rule_format] ne]
  have "\<rho>' q \<noteq> Dir d" for q using u(5) unfolding owned_def by blast
  then have "pool_inv u \<rho>' hs" using pool_leak [OF pool lk u(2) u(3) [rule_format]] u(5) by blast
  then show ?thesis using u(1) o uread_leak [OF p lk ne _ o(2)] by blast
qed

lemma setupkvm_none:
  assumes "free_pages s []"
  shows "setupkvm s = Ret 0 s"
  using assms by (simp add: setupkvm_def free_pages_def kalloc_eq)

lemma copyuvm_ok:
  assumes pool0: "pool_inv s \<rho> fs" and lay: "kern_layout s" and p: "vm_inv s p \<rho> fs"
    and sz: "sz \<le> eos" "eos \<le> stack_top" "eos mod PGSIZE = 0"
    and all: "\<forall>v\<in>image_pages sz eos. pmap (mem s) p v \<noteq> None"
  shows "\<exists>r t \<sigma> gs. copyuvm p sz eos s = Ret r t \<and> pool_inv t \<sigma> gs \<and> vm_inv t p \<sigma> gs \<and> (\<forall>va<KERNBASE. uread (mem t) p va = uread (mem s) p va)
    \<and> (r = 0 \<and> length fs \<le> 1025 + 2 * image_size sz eos
       \<or> r \<noteq> 0 \<and> r \<noteq> p \<and> vm_inv t r \<sigma> gs
         \<and> (\<forall>v. v mod PGSIZE = 0 \<and> v < KERNBASE \<longrightarrow> (if v \<in> image_pages sz eos
              then \<exists>x y. pmap (mem t) p v = Some x \<and> pmap (mem t) r v = Some y \<and> copied_page (mem t) x y
              else pmap (mem t) r v = None)))"
proof (cases fs)
  case Nil
  then have "setupkvm s = Ret 0 s" using pool0 by (intro setupkvm_none) (simp add: pool_inv_def)
  then have "copyuvm p sz eos s = Ret 0 s" by (simp add: copyuvm_def)
  then show ?thesis using p pool0 Nil by (intro exI [of _ 0] exI [of _ s] exI [of _ \<rho>] exI [of _ fs]) simp
next
  case (Cons d fs')
  have pool: "pool_inv s \<rho> (d # fs')" using pool0 Cons by simp
  note n = new_directory [OF pool]
  have ne: "p \<noteq> d"
  proof -
    have "\<rho> d = Free" using pool by (simp add: pool_inv_def)
    moreover have "\<rho> p = Dir p" using p by (simp add: vm_inv_def pt_inv_def)
    ultimately show ?thesis by auto
  qed
  obtain r0 t0 \<sigma>0 g0 where s0: "setupkvm s = Ret r0 t0" "r0 = d \<or> r0 = 0 \<and> g0 = []" "vm_step d {} (zeroed d s) (\<rho>(d := Dir d)) t0 \<sigma>0"
      "pt_inv t0 d \<sigma>0 g0" "\<forall>w<KERNBASE. pmap (mem t0) d w = None"
    using setupkvm_ok [OF pool lay] by blast
  have len: "length fs \<le> 1025 + length g0" using step_tables [OF s0(3) n(3) s0(4)] Cons by simp
  have lk: "vm_leak d UNIV s \<rho> t0 \<sigma>0"
    using vm_leak_trans [OF new_directory_leak [OF pool] vm_leak_mono [OF vm_step_leak [OF s0(3)]]] by simp
  have "free_pages t0 g0" using s0(4) by (simp add: pt_inv_def)
  note o = other_space [OF p lk this pt_inv_free [OF s0(4)] ne]
  show ?thesis
  proof (cases "r0 = d")
    case False
    then have "copyuvm p sz eos s = Ret 0 t0" using s0(1,2) by (simp add: copyuvm_def)
    moreover have "length fs \<le> 1025 + 2 * image_size sz eos" using False s0(2) len by simp
    ultimately show ?thesis using o uread_leak [OF p lk ne _ o(2)] pool_leak_inv [OF pool0 lk s0(4)]
      by (intro exI [of _ 0] exI [of _ t0] exI [of _ \<sigma>0] exI [of _ g0]) simp
  next
    case True
    let ?F = "\<lambda>s. andthen (freevm d s) (\<lambda>_ s. Ret 0 s)"
    have d0: "vm_inv t0 d \<sigma>0 g0" using new_directory_frames [OF pool s0(3,5)] s0(4) by (simp add: vm_inv_def)
    have all0: "\<forall>v\<in>image_pages sz eos. pmap (mem t0) p v \<noteq> None" using all by (simp add: o(2))
    obtain r t \<sigma> gs where
      c: "andthen (copyuvm_loop (pages_left 0 sz) d p 0 t0) (\<lambda>ok s. if \<not> ok then ?F s
        else andthen (copyuvm_loop (pages_left eos stack_top) d p eos s) (\<lambda>ok s. if \<not> ok then ?F s else Ret d s))
        = (if r then Ret d t else ?F t)"
      and t: "vm_inv t d \<sigma> gs" "vm_inv t p \<sigma> gs" "vm_leak d UNIV t0 \<sigma>0 t \<sigma>" "\<not> r \<longrightarrow> length g0 < 2 * image_size sz eos"
      and cp: "r \<longrightarrow> (\<forall>v. v mod PGSIZE = 0 \<and> v < KERNBASE \<longrightarrow> (if v \<in> image_pages sz eos
         then \<exists>x y. pmap (mem t0) p v = Some x \<and> pmap (mem t) d v = Some y \<and> copied_page (mem t) x y
         else pmap (mem t) d v = None))"
      using copy_loops [OF d0 o(1) ne sz all0 s0(5), of ?F] by (elim exE conjE) (rule that)
    have run: "copyuvm p sz eos s = (if r then Ret d t else ?F t)" using s0(1) True n(2) c by (simp add: copyuvm_def)
    have lk': "vm_leak d UNIV s \<rho> t \<sigma>" using vm_leak_trans [OF lk t(3)] .
    have pt: "pt_inv t d \<sigma> gs" using t(1) by (simp add: vm_inv_def)
    have pm: "pmap (mem t) p = pmap (mem t0) p"
      using other_space(2) [OF o(1) t(3) _ pt_inv_free [OF pt] ne] pt by (simp add: pt_inv_def)
    show ?thesis
    proof (cases r)
      case False
      obtain u \<rho>' hs where "freevm d t = Ret () u" "pool_inv u \<rho>' hs" "vm_inv u p \<rho>' hs"
          "\<forall>va<KERNBASE. uread (mem u) p va = uread (mem s) p va"
        using copyuvm_bad [OF pool0 p ne lk' t(1)] by blast
      then show ?thesis using run False t(4) len by (intro exI [of _ 0] exI [of _ u] exI [of _ \<rho>'] exI [of _ hs]) simp
    next
      case True
      have ur: "uread (mem t) p va = uread (mem s) p va" if "va < KERNBASE" for va
        using uread_leak [OF p lk' ne that] by (simp add: pm o(2))
      have cpy: "if v \<in> image_pages sz eos then \<exists>x y. pmap (mem t) p v = Some x \<and> pmap (mem t) d v = Some y \<and> copied_page (mem t) x y
          else pmap (mem t) d v = None" if "v mod PGSIZE = 0 \<and> v < KERNBASE" for v
        using cp True that unfolding pm by presburger
      have "copyuvm p sz eos s = Ret d t" using run True by simp
      then show ?thesis using t(1,2) n(2) ne [symmetric] pool_leak_inv [OF pool0 lk' pt]
        by (intro exI [of _ d] exI [of _ t] exI [of _ \<sigma>] exI [of _ gs] conjI disjI2 allI impI ur cpy) simp_all
    qed
  qed
qed

lemma PGROUNDDOWN_le: "PGROUNDDOWN a \<le> a"
  by (simp add: PGROUNDDOWN_eq word_le_nat_alt unat_sub unat_mod)

text \<open>The frames of two address spaces are different, so no byte is shared.\<close>

lemma frames_apart:
  assumes "vm_inv t d \<sigma> gs" "vm_inv t p \<sigma> gs" "d \<noteq> p" "va < KERNBASE" "vb < KERNBASE"
    and "hw_translate (mem t) d va = Some a" "hw_translate (mem t) p vb = Some b"
  shows "a \<noteq> b"
proof
  assume eq: "a = b"
  obtain x y where xy: "pmap (mem t) d va = Some x" "pmap (mem t) p vb = Some y"
      "a = frame_of x + va mod PGSIZE" "b = frame_of y + vb mod PGSIZE"
    using assms(6,7) by (auto simp: hw_translate_pmap)
  have f: "frames_inv t d \<sigma>" "frames_inv t p \<sigma>" using assms(1,2) by (simp_all add: vm_inv_def)
  note fx = frames_inv_frame [OF f(1) assms(4) xy(1)] and fy = frames_inv_frame [OF f(2) assms(5) xy(2)]
  have "frame_of x \<noteq> frame_of y" using fx(1) fy(1) assms(3) by auto
  then have "cells (frame_of x) 4096 \<inter> cells (frame_of y) 4096 = {}"
    using pages_disjoint [OF kpage_aligned [OF fx(2)] kpage_aligned [OF fy(2)]] by blast
  moreover have "a \<in> cells (frame_of x) 4096" "b \<in> cells (frame_of y) 4096"
    using page_offset_cells by (simp_all add: xy(3,4))
  ultimately show False using eq by blast
qed

lemma copied_read:
  assumes "pmap m p va = Some x" "pmap m d va = Some y" "copied_page m x y"
  shows "uread m d va = uread m p va"
proof -
  have "unat (va mod PGSIZE) < 4096" by (simp add: unat_mod)
  then have "m (frame_of y + va mod PGSIZE) = m (frame_of x + va mod PGSIZE)" using assms(3) by (simp only: copied_page_def)
  then show ?thesis using assms(1,2) by (simp add: uread_def hw_translate_pmap)
qed

text \<open>
  C2. \<open>fork\<close> copies the address space. Given the address space of the parent, well-formed and with every
  page up to its size and from the end of its stacks mapped, \<open>copyuvm\<close> returns, the pool of pages is again
  consistent, and the parent reads at every user address what it read before. If it returns a directory, then it is a new well-formed address
  space: every address in a page of the image reads the same in the child as in the parent and every other
  user address is unmapped, and parent and child share no byte of memory. It returns 0 only if no more than
  1025 pages (the directory and the page tables of the kernel part) and two pages for each page of the image
  are free.
\<close>

theorem copyuvm_copies:
  assumes "pool_inv s \<rho> fs" "kern_layout s" "vm_inv s p \<rho> fs"
    and "sz \<le> eos" "eos \<le> stack_top" "eos mod PGSIZE = 0"
    and all: "\<forall>v\<in>image_pages sz eos. uread (mem s) p v \<noteq> None"
  shows "\<exists>r t \<sigma> gs. copyuvm p sz eos s = Ret r t \<and> pool_inv t \<sigma> gs \<and> vm_inv t p \<sigma> gs \<and> (\<forall>va<KERNBASE. uread (mem t) p va = uread (mem s) p va)
    \<and> (r = 0 \<and> length fs \<le> 1025 + 2 * image_size sz eos
       \<or> r \<noteq> 0 \<and> vm_inv t r \<sigma> gs
         \<and> (\<forall>va<KERNBASE. uread (mem t) r va = (if PGROUNDDOWN va \<in> image_pages sz eos then uread (mem s) p va else None))
         \<and> (\<forall>va<KERNBASE. \<forall>vb<KERNBASE. \<forall>a. hw_translate (mem t) r va = Some a \<longrightarrow> hw_translate (mem t) p vb \<noteq> Some a))"
proof -
  have "\<forall>v\<in>image_pages sz eos. pmap (mem s) p v \<noteq> None" using all by (simp add: uread_None_iff)
  from copyuvm_ok [OF assms(1-6) this] obtain r t \<sigma> gs where
    t: "copyuvm p sz eos s = Ret r t" "pool_inv t \<sigma> gs" "vm_inv t p \<sigma> gs" "\<forall>va<KERNBASE. uread (mem t) p va = uread (mem s) p va"
    and c: "r = 0 \<and> length fs \<le> 1025 + 2 * image_size sz eos \<or> r \<noteq> 0 \<and> r \<noteq> p \<and> vm_inv t r \<sigma> gs
         \<and> (\<forall>v. v mod PGSIZE = 0 \<and> v < KERNBASE \<longrightarrow> (if v \<in> image_pages sz eos
              then \<exists>x y. pmap (mem t) p v = Some x \<and> pmap (mem t) r v = Some y \<and> copied_page (mem t) x y
              else pmap (mem t) r v = None))" by (elim exE conjE) (rule that)
  from c show ?thesis
  proof (elim disjE conjE)
    assume f: "r \<noteq> 0" "r \<noteq> p" "vm_inv t r \<sigma> gs" and cp: "\<forall>v. v mod PGSIZE = 0 \<and> v < KERNBASE \<longrightarrow> (if v \<in> image_pages sz eos
        then \<exists>x y. pmap (mem t) p v = Some x \<and> pmap (mem t) r v = Some y \<and> copied_page (mem t) x y else pmap (mem t) r v = None)"
    have rd: "uread (mem t) r va = (if PGROUNDDOWN va \<in> image_pages sz eos then uread (mem s) p va else None)" if va: "va < KERNBASE" for va
    proof -
      have "PGROUNDDOWN va mod PGSIZE = 0" "PGROUNDDOWN va < KERNBASE"
        using va PGROUNDDOWN_le [of va] by (simp_all add: PGROUNDDOWN_aligned)
      then have "if PGROUNDDOWN va \<in> image_pages sz eos then \<exists>x y. pmap (mem t) p va = Some x \<and> pmap (mem t) r va = Some y \<and> copied_page (mem t) x y
          else pmap (mem t) r va = None" using cp pmap_page by metis
      then show ?thesis using copied_read t(4) va by (auto simp: uread_None_iff)
    qed
    have "hw_translate (mem t) p vb \<noteq> Some a" if "va < KERNBASE" "vb < KERNBASE" "hw_translate (mem t) r va = Some a" for va vb a
      using frames_apart [OF f(3) t(3) f(2) that] by blast
    then show ?thesis using t f(1,3) rd by (intro exI [of _ r] exI [of _ t] exI [of _ \<sigma>] exI [of _ gs]) simp
  qed (use t in blast)
qed

text \<open>A machine with 3584 free pages that has built an address space of one page.\<close>

definition ex_boot :: "(u32, kmem) outcome" where
  "ex_boot = andthen (freerange_loop 0x80200000 0x81000000 ex_kmem) (\<lambda>_ s.
     andthen (setupkvm s) (\<lambda>d s. andthen (allocuvm d 0 4096 s) (\<lambda>_ s. Ret d s)))"

lemma length_pages_from: "length (pages_from p n) = n"
  by (simp add: pages_from_def)

lemma in_pages_from: "v \<in> set (pages_from p n) \<Longrightarrow> \<exists>i<n. v = p + of_nat (4096 * i)"
  by (auto simp: pages_from_def)

lemma ex_boot_pool:
  "\<exists>t \<rho> fs. freerange_loop 0x80200000 0x81000000 ex_kmem = Ret () t \<and> pool_inv t \<rho> fs \<and> kern_layout t \<and> length fs = 3584"
proof -
  let ?ps = "pages_from 0x80200000 3584"
  have k: "kpage ex_kmem v" if v: "v \<in> set ?ps" for v
  proof -
    obtain i where i: "i < 3584" "v = 0x80200000 + of_nat (4096 * i)" using in_pages_from [OF v] by blast
    have u: "unat v = 0x80200000 + 4096 * i" using i unat_add_of_nat [of "0x80200000" "4096 * i"] by simp
    then have "unat (V2P v) = 0x200000 + 4096 * i" by (simp add: V2P_def unat_sub word_le_nat_alt)
    then show ?thesis using u i(1) by (simp add: kpage_def ex_kmem_def aligned_unat word_le_nat_alt word_less_nat_alt)
  qed
  have "free_pages ex_kmem []" by (simp add: ex_kmem_def free_pages_def cpu_ok_def holding_def)
  moreover have "\<forall>v\<in>set ?ps. kpage ex_kmem v \<and> v \<notin> set []" using k by simp
  ultimately obtain t where
    t: "freerange_loop 0x80200000 0x81000000 ex_kmem = Ret () t" "free_pages t (rev ?ps)" "kern_end t = kern_end ex_kmem"
      "kern_data t = kern_data ex_kmem"
    using freerange_loop_frees [of ex_kmem "[]" "0x80200000" 3584 "0x81000000"] unfolding append_Nil2 by fastforce
  let ?\<rho> = "\<lambda>p. if p \<in> set ?ps then Free else Other"
  have "pool_inv t ?\<rho> (rev ?ps)" using t(2,3) by (auto simp: pool_inv_def owned_def ex_kmem_def)
  moreover have "kern_layout t" using t(4) by (simp add: kern_layout_def ex_kmem_def P2V_def)
  ultimately show ?thesis using t(1) by (intro exI [of _ t] exI [of _ ?\<rho>] exI [of _ "rev ?ps"]) (simp add: length_pages_from)
qed

lemma ex_boot_ok:
  "\<exists>d t \<rho> fs. ex_boot = Ret d t \<and> pool_inv t \<rho> fs \<and> kern_layout t \<and> vm_inv t d \<rho> fs \<and> 1027 < length fs
    \<and> uread (mem t) d 0 = Some 0"
proof -
  obtain t0 \<rho> fs where s0: "freerange_loop 0x80200000 0x81000000 ex_kmem = Ret () t0" "pool_inv t0 \<rho> fs" "kern_layout t0" "length fs = 3584"
    using ex_boot_pool by blast
  then obtain d fs' where f: "fs = d # fs'" by (cases fs) simp_all
  have pool: "pool_inv t0 \<rho> (d # fs')" using s0(2) f by simp
  obtain r1 t1 \<sigma>1 g1 where s1: "setupkvm t0 = Ret r1 t1" "r1 = d \<or> r1 = 0 \<and> g1 = []" "vm_step d {} (zeroed d t0) (\<rho>(d := Dir d)) t1 \<sigma>1"
      "pt_inv t1 d \<sigma>1 g1" "\<forall>w<KERNBASE. pmap (mem t1) d w = None"
    using setupkvm_ok [OF pool s0(3)] by blast
  have len: "length fs' \<le> length g1 + 1024" using step_tables [OF s1(3) new_directory(3) [OF pool] s1(4)] by simp
  then have d: "r1 = d" using s1(2) s0(4) f by auto
  have inv1: "vm_inv t1 d \<sigma>1 g1" using new_directory_frames [OF pool s1(3,5)] s1(4) by (simp add: vm_inv_def)
  let ?R = "vpages 0 4096"
  have z: "PGROUNDUP 0 = 0" by (simp add: PGROUNDUP_def)
  have h: "0 mod PGSIZE = 0" "(0 :: u32) < 4096" "(4096 :: u32) \<le> KERNBASE" "pages_left 0 4096 = 1" "PGROUNDUP 0 \<le> 0"
    by (simp_all add: z pages_left_def)
  have "\<forall>va. PGROUNDDOWN va \<in> ?R \<longrightarrow> pmap (mem t1) d va = None"
  proof (intro allI impI)
    fix va assume "PGROUNDDOWN va \<in> ?R"
    then have "PGROUNDDOWN va < KERNBASE" by (auto simp: vpages_def word_less_nat_alt)
    then show "pmap (mem t1) d va = None" using s1(5) pmap_page by metis
  qed
  from allocuvm_loop_ok [OF inv1 h(1-4) this h(5), unfolded z] obtain r2 t2 \<sigma>2 g2 where
    s2: "allocuvm_loop 1 d 0 0 4096 t1 = Ret r2 t2" "vm_inv t2 d \<sigma>2 g2"
    and c: "r2 = 4096 \<and> length g1 \<le> length g2 + 2 * 1 \<and> vm_step d ?R t1 \<sigma>1 t2 \<sigma>2
         \<and> (\<forall>va. if PGROUNDDOWN va \<in> ?R then fresh_zero (mem t2) (pmap (mem t2) d va) else pmap (mem t2) d va = pmap (mem t1) d va)
       \<or> r2 = 0 \<and> length g1 < 2 * 1 \<and> vm_step d ?R t1 \<sigma>1 t2 \<sigma>2 \<and> pmap (mem t2) d = unmap ?R (pmap (mem t1) d)"
    by (elim exE conjE) (rule that)
  have c: "length g1 \<le> length g2 + 2" "vm_step d ?R t1 \<sigma>1 t2 \<sigma>2" "fresh_zero (mem t2) (pmap (mem t2) d 0)"
  proof -
    have "PGROUNDDOWN 0 \<in> ?R" by (simp add: vpages_def PGROUNDDOWN_def)
    moreover have "\<not> length g1 < 2 * 1" using len s0(4) f by simp
    ultimately show "length g1 \<le> length g2 + 2" "vm_step d ?R t1 \<sigma>1 t2 \<sigma>2" "fresh_zero (mem t2) (pmap (mem t2) d 0)" using c by auto
  qed
  have "vm_leak d UNIV t0 \<rho> t1 \<sigma>1"
    using vm_leak_trans [OF new_directory_leak [OF pool] vm_leak_mono [OF vm_step_leak [OF s1(3)]]] by simp
  then have lk: "vm_leak d UNIV t0 \<rho> t2 \<sigma>2" using vm_leak_trans vm_leak_mono [OF vm_step_leak [OF c(2)]] by blast
  have pt: "pt_inv t2 d \<sigma>2 g2" using s2(2) by (simp add: vm_inv_def)
  have "mem_frame t0 t2" using lk by (simp add: vm_leak_def)
  then have "kern_layout t2" using s0(3) by (cases t0, cases t2) (simp add: kern_layout_def mem_frame_def)
  moreover have "allocuvm d 0 4096 t1 = Ret r2 t2" using s2(1) h(4) by (simp add: allocuvm_def z Let_def)
  then have "ex_boot = Ret d t2" using s0(1) s1(1) d by (simp add: ex_boot_def)
  moreover have "1027 < length g2" using c(1) len s0(4) f by simp
  moreover have "uread (mem t2) d 0 = Some 0"
    using c(3) page_offset_cells [of _ 0] by (auto simp: fresh_zero_def uread_def hw_translate_pmap split: option.splits)
  ultimately show ?thesis using pool_leak_inv [OF s0(2) lk pt] s2(2) by blast
qed

theorem copyuvm_copies_witness:
  "\<exists>p s r t. ex_boot = Ret p s \<and> copyuvm p 4096 (KERNBASE - PGSIZE) s = Ret r t \<and> r \<noteq> 0 \<and> uread (mem t) r 0 = Some 0"
proof -
  obtain p s \<rho> fs where s: "ex_boot = Ret p s" "pool_inv s \<rho> fs" "kern_layout s" "vm_inv s p \<rho> fs" "1027 < length fs" "uread (mem s) p 0 = Some 0"
    using ex_boot_ok by blast
  have i: "image_pages 4096 stack_top = {0}"
  proof -
    have "v = 0" if "v \<in> vpages 0 4096" for v
      using that mod_less [of "unat v" 4096] by (simp add: vpages_def word_less_nat_alt unat_eq_zero [symmetric] unat_mod)
    moreover have "0 \<in> vpages 0 4096" "v \<notin> vpages stack_top stack_top" for v by (auto simp: vpages_def)
    ultimately have "vpages 0 4096 = {0}" "vpages stack_top stack_top = {}" by blast+
    then show ?thesis by (simp add: image_pages_def)
  qed
  have z: "image_size 4096 stack_top = 1" by (simp add: image_size_def pages_left_def)
  have h: "(4096 :: u32) \<le> stack_top" "stack_top \<le> stack_top" "stack_top mod PGSIZE = 0"
    "\<forall>v\<in>image_pages 4096 stack_top. uread (mem s) p v \<noteq> None"
    unfolding i using s(6) by simp_all
  from copyuvm_copies [OF s(2-4) h, unfolded i z] s(5) obtain r t where
    t: "copyuvm p 4096 stack_top s = Ret r t" "r \<noteq> 0"
      "\<forall>va<KERNBASE. uread (mem t) r va = (if PGROUNDDOWN va \<in> {0} then uread (mem s) p va else None)" by auto
  have "uread (mem t) r 0 = Some 0" using t(3) s(6) by (simp add: PGROUNDDOWN_def)
  then show ?thesis using s(1) t(1,2) by blast
qed

end
