(* ===== verification/Sh.thy ===== *)
theory Sh
  imports Prelude
begin

text \<open>
  The shell (\<open>sh.c\<close>): the lexer, the recursive descent parser with its panics, the NUL termination of
  the words inside the line, and \<open>runcmd\<close> as a tree of system calls.

  The parser works on a line \<open>buf\<close>, the text up to the terminating NUL; \<open>es\<close> of the source is
  \<open>length buf\<close>, a \<open>char *\<close> into the line is a position, and reading at \<open>es\<close> gives NUL.
\<close>

subsection \<open>Commands\<close>

text \<open>
  \<open>'w\<close> is what a word is: a pair of positions (\<open>argv[i]\<close>, \<open>eargv[i]\<close>) in what the parser builds,
  a string in what the user means. The array \<open>argv\<close> is the list of its entries up to the null pointer.
\<close>

datatype 'w cmd =
    EXEC "'w list"
  | REDIR "'w cmd" 'w int int
  | PIPE "'w cmd" "'w cmd"
  | LIST "'w cmd" "'w cmd"
  | BACK "'w cmd"

type_synonym ptrs = "nat \<times> nat"

abbreviation MAXARGS :: nat where "MAXARGS \<equiv> 10"
abbreviation O_RDONLY :: int where "O_RDONLY \<equiv> 0"
abbreviation O_WRONLY_CREATE :: int where "O_WRONLY_CREATE \<equiv> 0x201"

text \<open>A parser returns a value and the advanced position, or the shell panics.\<close>

datatype 'a parse = Parsed 'a nat | Panicked string | OutOfFuel

fun pbind :: "'a parse \<Rightarrow> ('a \<Rightarrow> nat \<Rightarrow> 'b parse) \<Rightarrow> 'b parse" where
  "pbind (Parsed x p) f = f x p"
| "pbind (Panicked m) f = Panicked m"
| "pbind OutOfFuel f = OutOfFuel"

text \<open>The constructors; a new \<open>struct\<close> is zeroed, so \<open>execcmd\<close> has no arguments.\<close>

abbreviation execcmd :: "'w cmd" where
  "execcmd \<equiv> EXEC []"

abbreviation redircmd :: "'w cmd \<Rightarrow> 'w \<Rightarrow> int \<Rightarrow> int \<Rightarrow> 'w cmd" where
  "redircmd subcmd f mode fd \<equiv> REDIR subcmd f mode fd"

abbreviation pipecmd :: "'w cmd \<Rightarrow> 'w cmd \<Rightarrow> 'w cmd" where
  "pipecmd left right \<equiv> PIPE left right"

abbreviation listcmd :: "'w cmd \<Rightarrow> 'w cmd \<Rightarrow> 'w cmd" where
  "listcmd left right \<equiv> LIST left right"

abbreviation backcmd :: "'w cmd \<Rightarrow> 'w cmd" where
  "backcmd subcmd \<equiv> BACK subcmd"

subsection \<open>Tokens\<close>

abbreviation newline :: string where "newline \<equiv> [CHR 0x0A]"

abbreviation NUL :: char where "NUL \<equiv> CHR 0x00"

definition whitespace :: string where
  "whitespace = [CHR 0x20, CHR 0x09, CHR 0x0D, CHR 0x0A, CHR 0x0B]"

definition symbols :: string where
  "symbols = ''<|>&;()''"

definition char_at :: "string \<Rightarrow> nat \<Rightarrow> char" where
  "char_at buf s = (if s < length buf then buf ! s else NUL)"

function skip_ws :: "string \<Rightarrow> nat \<Rightarrow> nat" where
  "skip_ws buf s = (if s < length buf \<and> char_at buf s \<in> set whitespace then skip_ws buf (s + 1) else s)"
  by pat_completeness auto
termination by (relation "measure (\<lambda>(buf, s). length buf - s)") auto

declare skip_ws.simps [simp del]

function skip_word :: "string \<Rightarrow> nat \<Rightarrow> nat" where
  "skip_word buf s =
     (if s < length buf \<and> char_at buf s \<notin> set whitespace \<and> char_at buf s \<notin> set symbols then skip_word buf (s + 1) else s)"
  by pat_completeness auto
termination by (relation "measure (\<lambda>(buf, s). length buf - s)") auto

declare skip_word.simps [simp del]

text \<open>\<open>gettoken\<close> returns the kind of token, its two ends and the advanced position.\<close>

definition gettoken :: "string \<Rightarrow> nat \<Rightarrow> char \<times> ptrs \<times> nat" where
  "gettoken buf ps =
     (let s = skip_ws buf ps;
          q = s;
          c = char_at buf s;
          (ret, s) =
            (if c = NUL then (c, s)
             else if c \<in> set ''|();&<'' then (c, s + 1)
             else if c = CHR ''>'' then
               (if char_at buf (s + 1) = CHR ''>'' then (CHR ''+'', s + 2) else (c, s + 1))
             else (CHR ''a'', skip_word buf s))
      in (ret, (q, s), skip_ws buf s))"

definition peek :: "string \<Rightarrow> string \<Rightarrow> nat \<Rightarrow> bool \<times> nat" where
  "peek buf toks ps =
     (let s = skip_ws buf ps in (char_at buf s \<noteq> NUL \<and> char_at buf s \<in> set toks, s))"

subsection \<open>Progress of the lexer\<close>

lemma skip_ws_le: "s \<le> skip_ws buf s"
proof (induction buf s rule: skip_ws.induct)
  case (1 buf s)
  then show ?case by (subst skip_ws.simps) auto
qed

lemma skip_word_le: "s \<le> skip_word buf s"
proof (induction buf s rule: skip_word.induct)
  case (1 buf s)
  then show ?case by (subst skip_word.simps) auto
qed

lemma skip_ws_bound: "s \<le> length buf \<Longrightarrow> skip_ws buf s \<le> length buf"
proof (induction buf s rule: skip_ws.induct)
  case (1 buf s)
  then show ?case by (subst skip_ws.simps) auto
qed

lemma skip_word_bound: "s \<le> length buf \<Longrightarrow> skip_word buf s \<le> length buf"
proof (induction buf s rule: skip_word.induct)
  case (1 buf s)
  then show ?case by (subst skip_word.simps) auto
qed

lemma skip_ws_stop: "char_at buf (skip_ws buf s) \<notin> set whitespace"
proof (induction buf s rule: skip_ws.induct)
  case (1 buf s)
  have "NUL \<notin> set whitespace" by (simp add: whitespace_def)
  then show ?case using 1 by (subst skip_ws.simps) (auto simp: char_at_def)
qed

lemma skip_ws_idem [simp]: "skip_ws buf (skip_ws buf s) = skip_ws buf s"
  using skip_ws_stop [of buf s] by (subst skip_ws.simps) simp

lemma char_at_nonzero: "char_at buf s \<noteq> NUL \<Longrightarrow> s < length buf"
  by (simp add: char_at_def split: if_splits)

lemma symbols_set: "set symbols = set ''|();&<'' \<union> {CHR ''>''}"
  by (auto simp: symbols_def)

lemma gettoken_progress:
  assumes "gettoken buf ps = (ret, (q, eq), s)" "ret \<noteq> NUL"
  shows "ps \<le> q" "q < eq" "eq \<le> s" "q < length buf"
proof -
  let ?q = "skip_ws buf ps"
  let ?c = "char_at buf ?q"
  have q: "q = ?q" "s = skip_ws buf eq" using assms(1) by (simp_all add: gettoken_def Let_def split: prod.splits if_splits)
  have nz: "?c \<noteq> NUL" using assms by (auto simp: gettoken_def Let_def split: if_splits)
  show "ps \<le> q" "eq \<le> s" "q < length buf" using q skip_ws_le char_at_nonzero [OF nz] by simp_all
  have "?q < skip_word buf ?q" if "?c \<notin> set symbols"
    using that char_at_nonzero [OF nz] skip_ws_stop [of buf ps] skip_word_le [of "?q + 1" buf]
    by (subst skip_word.simps) simp
  then show "q < eq" using assms(1) nz q(1) symbols_set
    by (auto simp: gettoken_def Let_def split: if_splits)
qed

lemma gettoken_bound:
  assumes "gettoken buf ps = (ret, (q, eq), s)" "ps \<le> length buf"
  shows "q \<le> eq" "eq \<le> length buf" "s \<le> length buf" "eq \<le> s"
proof -
  let ?q = "skip_ws buf ps"
  have q: "?q \<le> length buf" using skip_ws_bound [OF assms(2)] .
  have b: "s' + 1 \<le> length buf" if "char_at buf s' \<noteq> NUL" for s' using char_at_nonzero [OF that] by simp
  have e: "q \<le> eq \<and> eq \<le> length buf \<and> s = skip_ws buf eq"
    using assms(1) q b [of ?q] b [of "?q + 1"] skip_word_bound [OF q] skip_word_le [of ?q buf]
    by (auto simp: gettoken_def Let_def split: if_splits)
  then show "q \<le> eq" "eq \<le> length buf" "s \<le> length buf" "eq \<le> s" using skip_ws_bound skip_ws_le by auto
qed

lemma peek_progress:
  assumes "peek buf toks ps = (b, s)"
  shows "ps \<le> s" "ps \<le> length buf \<Longrightarrow> s \<le> length buf" "b \<Longrightarrow> s < length buf" "b \<Longrightarrow> fst (gettoken buf s) \<noteq> NUL"
proof -
  have s: "s = skip_ws buf ps" "b = (char_at buf s \<noteq> NUL \<and> char_at buf s \<in> set toks)" using assms by (auto simp: peek_def Let_def)
  then show "ps \<le> s" "ps \<le> length buf \<Longrightarrow> s \<le> length buf" "b \<Longrightarrow> s < length buf"
    using skip_ws_le skip_ws_bound char_at_nonzero by auto
  show "fst (gettoken buf s) \<noteq> NUL" if b using that s by (auto simp: gettoken_def Let_def)
qed

lemma redir_progress:
  assumes "(True, s) = peek buf toks ps" "(tok, w1, s1) = gettoken buf s" "(t, w2, s2) = gettoken buf s1" "t \<noteq> NUL"
  shows "length buf - s2 < length buf - ps" "ps < s2"
proof -
  obtain q eq q2 eq2 where w: "w1 = (q, eq)" "w2 = (q2, eq2)" by (cases w1, cases w2)
  note p = peek_progress [OF assms(1) [symmetric]]
  have "tok \<noteq> NUL" using p(4) assms(2) by (metis fst_conv)
  then show "length buf - s2 < length buf - ps" "ps < s2"
    using p(1,3) gettoken_progress [OF assms(2) [symmetric, unfolded w]] gettoken_progress [OF assms(3) [symmetric, unfolded w] assms(4)]
    by auto
qed

lemma tok_progress:
  assumes "(True, s) = peek buf toks ps" "(t, w, s1) = gettoken buf s"
  shows "length buf - s1 < length buf - ps" "ps < s1"
proof -
  obtain q eq where w: "w = (q, eq)" by (cases w)
  note p = peek_progress [OF assms(1) [symmetric]]
  have "t \<noteq> NUL" using p(4) assms(2) by (metis fst_conv)
  then show "length buf - s1 < length buf - ps" "ps < s1"
    using p(1,3) gettoken_progress [OF assms(2) [symmetric, unfolded w]] by auto
qed

subsection \<open>The parser\<close>

text \<open>The redirections after \<open>cmd\<close>.\<close>

definition redir_of :: "char \<Rightarrow> 'w \<Rightarrow> 'w cmd \<Rightarrow> 'w cmd" where
  "redir_of tok w cmd =
     (if tok = CHR ''<'' then redircmd cmd w O_RDONLY 0
      else if tok = CHR ''>'' then redircmd cmd w O_WRONLY_CREATE 1
      else if tok = CHR ''+'' then redircmd cmd w O_WRONLY_CREATE 1
      else cmd)"

function parseredirs :: "string \<Rightarrow> ptrs cmd \<Rightarrow> nat \<Rightarrow> ptrs cmd parse" where
  "parseredirs buf cmd ps =
     (case peek buf ''<>'' ps of (b, ps) \<Rightarrow>
        if \<not> b then Parsed cmd ps
        else
          case gettoken buf ps of (tok, _, ps) \<Rightarrow>
          case gettoken buf ps of (t, w, ps) \<Rightarrow>
            if t \<noteq> CHR ''a'' then Panicked ''missing file for redirection''
            else parseredirs buf (redir_of tok w cmd) ps)"
  by pat_completeness auto
termination
proof (relation "measure (\<lambda>(buf, cmd, ps). length buf - ps)", goal_cases)
  case 2
  then show ?case by (auto dest!: redir_progress(1))
qed simp

declare parseredirs.simps [simp del]

lemma pbind_cong [fundef_cong]:
  "m = m' \<Longrightarrow> (\<And>x p. m' = Parsed x p \<Longrightarrow> f x p = g x p) \<Longrightarrow> pbind m f = pbind m' g"
  by (cases m') simp_all

lemma pbind_Parsed: "pbind m f = Parsed y p' \<longleftrightarrow> (\<exists>x p. m = Parsed x p \<and> f x p = Parsed y p')"
  by (cases m) simp_all

lemma parseredirs_progress: "parseredirs buf cmd ps = Parsed c p \<Longrightarrow> ps \<le> p"
proof (induction buf cmd ps rule: parseredirs.induct)
  case (1 buf cmd ps)
  obtain b s where pk: "peek buf ''<>'' ps = (b, s)" by (cases "peek buf ''<>'' ps")
  obtain tok w1 s1 where g1: "gettoken buf s = (tok, w1, s1)" by (cases "gettoken buf s")
  obtain t w2 s2 where g2: "gettoken buf s1 = (t, w2, s2)" by (cases "gettoken buf s1")
  have r: "parseredirs buf cmd ps = (if \<not> b then Parsed cmd s else if t \<noteq> CHR ''a'' then Panicked ''missing file for redirection''
      else parseredirs buf (redir_of tok w2 cmd) s2)"
    using pk g1 g2 by (subst parseredirs.simps) simp
  show ?case
  proof (cases "b \<and> t = CHR ''a''")
    case True
    then have "s2 \<le> p" using 1 r pk g1 g2 by auto
    moreover have "(True, s) = peek buf ''<>'' ps" using pk True by simp
    from redir_progress(2) [OF this g1 [symmetric] g2 [symmetric]] have "ps < s2" using True by simp
    ultimately show ?thesis by simp
  next
    case False
    then have "p = s" using r 1(2) by (auto split: if_splits)
    then show ?thesis using peek_progress(1) [OF pk] by simp
  qed
qed

text \<open>
  The loop over the arguments. \<open>ret\<close> is the command with the redirections seen so far around it, and
  \<open>add_arg\<close> is the store through the pointer \<open>cmd\<close> to the \<open>execcmd\<close> inside it.
\<close>

fun add_arg :: "'w \<Rightarrow> 'w cmd \<Rightarrow> 'w cmd" where
  "add_arg w (EXEC ws) = EXEC (ws @ [w])"
| "add_arg w (REDIR c f mode fd) = REDIR (add_arg w c) f mode fd"
| "add_arg w c = c"

function parseargs :: "string \<Rightarrow> ptrs cmd \<Rightarrow> nat \<Rightarrow> nat \<Rightarrow> ptrs cmd parse" where
  "parseargs buf ret argc ps =
     (case peek buf ''|)&;'' ps of (b, ps) \<Rightarrow>
        if b then Parsed ret ps
        else
          case gettoken buf ps of (tok, w, ps) \<Rightarrow>
            if tok = NUL then Parsed ret ps
            else if tok \<noteq> CHR ''a'' then Panicked ''syntax''
            else if argc + 1 \<ge> MAXARGS then Panicked ''too many args''
            else pbind (parseredirs buf (add_arg w ret) ps) (\<lambda>ret ps. parseargs buf ret (argc + 1) ps))"
  by pat_completeness auto
termination by (relation "measure (\<lambda>(buf, ret, argc, ps). MAXARGS - argc)") auto

declare parseargs.simps [simp del]

text \<open>The loop over \<open>&\<close>.\<close>

function parseback :: "string \<Rightarrow> ptrs cmd \<Rightarrow> nat \<Rightarrow> ptrs cmd \<times> nat" where
  "parseback buf cmd ps =
     (case peek buf ''&'' ps of (b, ps) \<Rightarrow>
        if b then (case gettoken buf ps of (_, _, ps) \<Rightarrow> parseback buf (backcmd cmd) ps) else (cmd, ps))"
  by pat_completeness auto
termination
proof (relation "measure (\<lambda>(buf, cmd, ps). length buf - ps)", goal_cases)
  case 2
  then show ?case by (auto dest!: tok_progress(1))
qed simp

declare parseback.simps [simp del]

text \<open>
  The mutual recursion, with a bound on its depth. A call chain of four functions consumes a parenthesis,
  so four times the length of the line is enough (lemma \<open>parse_ok\<close>).
\<close>

fun parseline :: "nat \<Rightarrow> string \<Rightarrow> nat \<Rightarrow> ptrs cmd parse"
  and parsepipe :: "nat \<Rightarrow> string \<Rightarrow> nat \<Rightarrow> ptrs cmd parse"
  and parseexec :: "nat \<Rightarrow> string \<Rightarrow> nat \<Rightarrow> ptrs cmd parse"
  and parseblock :: "nat \<Rightarrow> string \<Rightarrow> nat \<Rightarrow> ptrs cmd parse" where
  "parseline 0 buf ps = OutOfFuel"
| "parsepipe 0 buf ps = OutOfFuel"
| "parseexec 0 buf ps = OutOfFuel"
| "parseblock 0 buf ps = OutOfFuel"
| "parseline (Suc n) buf ps =
     pbind (parsepipe n buf ps) (\<lambda>cmd ps.
       case parseback buf cmd ps of (cmd, ps) \<Rightarrow>
       case peek buf '';'' ps of (b, ps) \<Rightarrow>
         if b then
           case gettoken buf ps of (_, _, ps) \<Rightarrow>
             pbind (parseline n buf ps) (\<lambda>right ps. Parsed (listcmd cmd right) ps)
         else Parsed cmd ps)"
| "parsepipe (Suc n) buf ps =
     pbind (parseexec n buf ps) (\<lambda>cmd ps.
       case peek buf ''|'' ps of (b, ps) \<Rightarrow>
         if b then
           case gettoken buf ps of (_, _, ps) \<Rightarrow>
             pbind (parsepipe n buf ps) (\<lambda>right ps. Parsed (pipecmd cmd right) ps)
         else Parsed cmd ps)"
| "parseexec (Suc n) buf ps =
     (case peek buf ''('' ps of (b, ps) \<Rightarrow>
        if b then parseblock n buf ps
        else pbind (parseredirs buf execcmd ps) (\<lambda>ret ps. parseargs buf ret 0 ps))"
| "parseblock (Suc n) buf ps =
     (case peek buf ''('' ps of (b, ps) \<Rightarrow>
        if \<not> b then Panicked ''parseblock''
        else
          case gettoken buf ps of (_, _, ps) \<Rightarrow>
          pbind (parseline n buf ps) (\<lambda>cmd ps.
            case peek buf '')'' ps of (b, ps) \<Rightarrow>
              if \<not> b then Panicked ''syntax - missing )''
              else case gettoken buf ps of (_, _, ps) \<Rightarrow> parseredirs buf cmd ps))"

text \<open>\<open>nulterminate\<close> cuts the words out of the line, in the buffer that holds it.\<close>

fun nulterminate :: "ptrs cmd \<Rightarrow> string \<Rightarrow> string" where
  "nulterminate (EXEC ws) m = fold (\<lambda>(q, eq) m. m[eq := NUL]) ws m"
| "nulterminate (REDIR c (file, efile) mode fd) m = (nulterminate c m)[efile := NUL]"
| "nulterminate (PIPE l r) m = nulterminate r (nulterminate l m)"
| "nulterminate (LIST l r) m = nulterminate r (nulterminate l m)"
| "nulterminate (BACK c) m = nulterminate c m"

text \<open>The string at a position of the buffer, as the library functions read it.\<close>

definition cstring :: "string \<Rightarrow> nat \<Rightarrow> string" where
  "cstring m s = takeWhile (\<lambda>c. c \<noteq> NUL) (drop s m)"

text \<open>\<open>parsecmd\<close> returns the command and the buffer after NUL termination.\<close>

definition parsecmd :: "string \<Rightarrow> (ptrs cmd \<times> string) parse" where
  "parsecmd m =
     (let buf = cstring m 0 in
      pbind (parseline (4 * length buf + 4) buf 0) (\<lambda>cmd ps.
        case peek buf [] ps of (_, ps) \<Rightarrow>
          if ps \<noteq> length buf then Panicked (''leftovers: '' @ drop ps buf @ newline @ ''syntax'')
          else Parsed (cmd, nulterminate cmd m) ps))"

subsection \<open>Running a command\<close>

text \<open>
  A shell process as the tree of its system calls: \<open>Sys\<close> makes a call and continues with what it
  returns, \<open>MkPipe\<close> is \<open>pipe(p)\<close>, which returns two descriptors or fails. \<open>exec\<close> continues only when it fails.
\<close>

datatype scall =
    SExec string "string list"
  | SClose int
  | SOpen string int
  | SFork
  | SWait
  | SDup int
  | SPrint int string
  | SChdir string

datatype prog = Exit | Sys scall "int \<Rightarrow> prog" | MkPipe "(int \<times> int) option \<Rightarrow> prog"

definition panic :: "string \<Rightarrow> prog" where
  "panic s = Sys (SPrint 2 (s @ newline)) (\<lambda>_. Exit)"

definition fork1 :: "(int \<Rightarrow> prog) \<Rightarrow> prog" where
  "fork1 k = Sys SFork (\<lambda>pid. if pid = - 1 then panic ''fork'' else k pid)"

fun runcmd :: "string cmd \<Rightarrow> prog" where
  "runcmd (EXEC []) = Exit"
| "runcmd (EXEC (a # as)) =
     Sys (SExec a (a # as)) (\<lambda>_. Sys (SPrint 2 (''exec '' @ a @ '' failed'' @ newline)) (\<lambda>_. Exit))"
| "runcmd (REDIR c file mode fd) =
     Sys (SClose fd) (\<lambda>_. Sys (SOpen file mode) (\<lambda>r.
       if r < 0 then Sys (SPrint 2 (''open '' @ file @ '' failed'' @ newline)) (\<lambda>_. Exit) else runcmd c))"
| "runcmd (LIST l r) =
     fork1 (\<lambda>pid. if pid = 0 then runcmd l else Sys SWait (\<lambda>_. runcmd r))"
| "runcmd (PIPE l r) =
     MkPipe (\<lambda>p. case p of None \<Rightarrow> panic ''pipe'' | Some (p0, p1) \<Rightarrow>
       fork1 (\<lambda>pid. if pid = 0 then
           Sys (SClose 1) (\<lambda>_. Sys (SDup p1) (\<lambda>_. Sys (SClose p0) (\<lambda>_. Sys (SClose p1) (\<lambda>_. runcmd l))))
         else fork1 (\<lambda>pid. if pid = 0 then
           Sys (SClose 0) (\<lambda>_. Sys (SDup p0) (\<lambda>_. Sys (SClose p0) (\<lambda>_. Sys (SClose p1) (\<lambda>_. runcmd r))))
         else
           Sys (SClose p0) (\<lambda>_. Sys (SClose p1) (\<lambda>_. Sys SWait (\<lambda>_. Sys SWait (\<lambda>_. Exit)))))))"
| "runcmd (BACK c) = fork1 (\<lambda>pid. if pid = 0 then runcmd c else Exit)"

text \<open>A child parses its line and runs it; when the line does not parse it prints the message and exits.\<close>

definition parse_run :: "string \<Rightarrow> prog" where
  "parse_run m =
     (case parsecmd m of
        Parsed (cmd, m') _ \<Rightarrow> runcmd (map_cmd (\<lambda>(q, _). cstring m' q) cmd)
      | Panicked msg \<Rightarrow> panic msg
      | OutOfFuel \<Rightarrow> Exit)"

text \<open>
  One turn of the loop in \<open>main\<close>: \<open>getcmd\<close> prints the prompt and fills the zeroed buffer \<open>m\<close> with a line,
  which is empty at the end of the input. \<open>next\<close> is the rest of the loop.
\<close>

definition getcmd :: "string \<Rightarrow> (int \<Rightarrow> prog) \<Rightarrow> prog" where
  "getcmd m k = Sys (SPrint 2 ''$ '') (\<lambda>_. k (if char_at m 0 = NUL then - 1 else 0))"

definition sh_turn :: "string \<Rightarrow> prog \<Rightarrow> prog" where
  "sh_turn m next =
     getcmd m (\<lambda>r.
       if r < 0 then Exit
       else if char_at m 0 = CHR ''c'' \<and> char_at m 1 = CHR ''d'' \<and> char_at m 2 = CHR '' '' then
         (let m = m[length (cstring m 0) - 1 := NUL] in
          Sys (SChdir (cstring m 3)) (\<lambda>r.
            if r < 0 then Sys (SPrint 2 (''cannot cd '' @ cstring m 3 @ newline)) (\<lambda>_. next) else next))
       else fork1 (\<lambda>pid. if pid = 0 then parse_run m else Sys SWait (\<lambda>_. next)))"

text \<open>
  \<open>main\<close> on the buffers that successive calls of \<open>gets\<close> fill. The descriptors that \<open>open\<close> returns are
  different, so that the first loop makes at most four calls.
\<close>

fun open_console :: "nat \<Rightarrow> prog \<Rightarrow> prog" where
  "open_console 0 next = next"
| "open_console (Suc n) next =
     Sys (SOpen ''console'' 2) (\<lambda>fd.
       if fd < 0 then next
       else if fd \<ge> 3 then Sys (SClose fd) (\<lambda>_. next)
       else open_console n next)"

fun sh_loop :: "string list \<Rightarrow> prog" where
  "sh_loop [] = Exit"
| "sh_loop (m # ms) = sh_turn m (sh_loop ms)"

definition sh_main :: "string list \<Rightarrow> prog" where
  "sh_main ms = open_console 4 (sh_loop ms)"

end
