(* ===== verification/Sh_Props.thy ===== *)
theory Sh_Props
  imports Sh
begin

text \<open>
  The parser of the shell (theory \<open>Sh\<close>): it returns on every line, what it returns is well-formed, it
  inverts the printing of commands, and \<open>runcmd\<close> connects the processes as the command says.
\<close>

subsection \<open>Well-formed commands\<close>

definition word_char :: "char \<Rightarrow> bool" where
  "word_char c \<longleftrightarrow> c \<noteq> NUL \<and> c \<notin> set whitespace \<and> c \<notin> set symbols"

text \<open>A word is a maximal run of word characters of the line.\<close>

definition wf_word :: "string \<Rightarrow> ptrs \<Rightarrow> bool" where
  "wf_word buf = (\<lambda>(q, eq). q < eq \<and> eq \<le> length buf \<and> (\<forall>i. q \<le> i \<and> i < eq \<longrightarrow> word_char (buf ! i)) \<and> \<not> word_char (char_at buf eq))"

fun shape :: "'w cmd \<Rightarrow> bool" where
  "shape (EXEC ws) \<longleftrightarrow> length ws < MAXARGS"
| "shape (REDIR c f mode fd) \<longleftrightarrow> shape c \<and> (mode = O_RDONLY \<and> fd = 0 \<or> mode = O_WRONLY_CREATE \<and> fd = 1)"
| "shape (PIPE l r) \<longleftrightarrow> shape l \<and> shape r"
| "shape (LIST l r) \<longleftrightarrow> shape l \<and> shape r"
| "shape (BACK c) \<longleftrightarrow> shape c"

definition cmd_ok :: "string \<Rightarrow> ptrs cmd \<Rightarrow> bool" where
  "cmd_ok buf c \<longleftrightarrow> shape c \<and> (\<forall>w\<in>set_cmd c. wf_word buf w)"

lemma cmd_ok_simps [simp]:
  "cmd_ok buf (EXEC ws) \<longleftrightarrow> length ws < MAXARGS \<and> (\<forall>w\<in>set ws. wf_word buf w)"
  "cmd_ok buf (PIPE l r) \<longleftrightarrow> cmd_ok buf l \<and> cmd_ok buf r"
  "cmd_ok buf (LIST l r) \<longleftrightarrow> cmd_ok buf l \<and> cmd_ok buf r"
  "cmd_ok buf (BACK c) \<longleftrightarrow> cmd_ok buf c"
  "cmd_ok buf (REDIR c f mode fd) \<longleftrightarrow>
     cmd_ok buf c \<and> wf_word buf f \<and> (mode = O_RDONLY \<and> fd = 0 \<or> mode = O_WRONLY_CREATE \<and> fd = 1)"
  by (auto simp: cmd_ok_def)

lemma skip_word_chars:
  assumes "NUL \<notin> set buf" "s \<le> length buf"
  shows "(\<forall>i. s \<le> i \<and> i < skip_word buf s \<longrightarrow> word_char (buf ! i)) \<and> \<not> word_char (char_at buf (skip_word buf s))"
  using assms
proof (induction buf s rule: skip_word.induct)
  case (1 buf s)
  show ?case
  proof (cases "s < length buf \<and> char_at buf s \<notin> set whitespace \<and> char_at buf s \<notin> set symbols")
    case True
    have e: "skip_word buf s = skip_word buf (s + 1)" using True by (subst skip_word.simps) simp
    have "buf ! s \<noteq> NUL" using True 1(2) nth_mem [of s buf] by metis
    then have "word_char (buf ! s)" using True by (auto simp: word_char_def char_at_def)
    moreover have "(\<forall>i. s + 1 \<le> i \<and> i < skip_word buf (s + 1) \<longrightarrow> word_char (buf ! i)) \<and> \<not> word_char (char_at buf (skip_word buf (s + 1)))"
      using 1 True by auto
    ultimately show ?thesis unfolding e by (metis Suc_eq_plus1 le_antisym not_less_eq_eq)
  next
    case False
    have e: "skip_word buf s = s" using False by (subst skip_word.simps) auto
    have "\<not> word_char (char_at buf s)"
    proof (cases "s < length buf")
      case True
      then show ?thesis using False by (auto simp: word_char_def)
    qed (simp add: char_at_def word_char_def)
    then show ?thesis unfolding e by auto
  qed
qed

lemma gettoken_word:
  assumes "gettoken buf ps = (CHR ''a'', w, s)" "NUL \<notin> set buf" "ps \<le> length buf"
  shows "wf_word buf w"
proof -
  let ?q = "skip_ws buf ps"
  have w: "w = (?q, skip_word buf ?q)" using assms(1) by (auto simp: gettoken_def Let_def split: if_splits)
  have "fst w < snd w" using gettoken_progress(2) [of buf ps "CHR ''a''" "fst w" "snd w" s] assms(1) by simp
  then show ?thesis
    using skip_word_chars [OF assms(2) skip_ws_bound [OF assms(3)]] skip_word_bound [OF skip_ws_bound [OF assms(3)]]
    by (simp add: w wf_word_def)
qed

fun nargs :: "'w cmd \<Rightarrow> nat" where
  "nargs (EXEC ws) = length ws"
| "nargs (REDIR c f mode fd) = nargs c"
| "nargs c = 0"

lemma add_arg_ok:
  assumes "cmd_ok buf c" "wf_word buf w" "nargs c < MAXARGS - 1"
  shows "cmd_ok buf (add_arg w c)" "nargs (add_arg w c) \<le> nargs c + 1"
  using assms by (induction w c rule: add_arg.induct) auto

definition good :: "string \<Rightarrow> nat \<Rightarrow> ptrs cmd parse \<Rightarrow> bool" where
  "good buf ps r \<longleftrightarrow> r \<noteq> OutOfFuel \<and> (\<forall>c p. r = Parsed c p \<longrightarrow> cmd_ok buf c \<and> ps \<le> p \<and> p \<le> length buf)"

lemma good_simps [simp]:
  "good buf ps (Panicked m)" "\<not> good buf ps OutOfFuel"
  "good buf ps (Parsed c p) \<longleftrightarrow> cmd_ok buf c \<and> ps \<le> p \<and> p \<le> length buf"
  by (auto simp: good_def)

lemma good_mono: "good buf ps r \<Longrightarrow> ps' \<le> ps \<Longrightarrow> good buf ps' r"
  by (auto simp: good_def)

lemma good_pbind:
  assumes "good buf ps m" "\<And>c p. cmd_ok buf c \<Longrightarrow> ps \<le> p \<Longrightarrow> p \<le> length buf \<Longrightarrow> good buf ps (f c p)"
  shows "good buf ps (pbind m f)"
  using assms by (cases m) auto

lemma parseredirs_good:
  assumes "NUL \<notin> set buf" "cmd_ok buf cmd" "ps \<le> length buf"
  shows "good buf ps (parseredirs buf cmd ps) \<and> (\<forall>c p. parseredirs buf cmd ps = Parsed c p \<longrightarrow> nargs c = nargs cmd)"
  using assms
proof (induction buf cmd ps rule: parseredirs.induct)
  case (1 buf cmd ps)
  obtain b s where pk: "peek buf ''<>'' ps = (b, s)" by (cases "peek buf ''<>'' ps")
  obtain tok q1 e1 s1 where g1: "gettoken buf s = (tok, (q1, e1), s1)" by (cases "gettoken buf s") auto
  obtain t q2 e2 s2 where g2: "gettoken buf s1 = (t, (q2, e2), s2)" by (cases "gettoken buf s1") auto
  have r: "parseredirs buf cmd ps = (if \<not> b then Parsed cmd s else if t \<noteq> CHR ''a'' then Panicked ''missing file for redirection''
      else parseredirs buf (redir_of tok (q2, e2) cmd) s2)"
    using pk g1 g2 by (subst parseredirs.simps) simp
  have s: "s \<le> length buf" "ps \<le> s" using peek_progress(1,2) [OF pk] 1(4) by simp_all
  have s1: "s1 \<le> length buf" using gettoken_bound(3) [OF g1 s(1)] .
  show ?case
  proof (cases "b \<and> t = CHR ''a''")
    case True
    let ?c = "redir_of tok (q2, e2) cmd"
    have w: "wf_word buf (q2, e2)" using gettoken_word [OF _ 1(2) s1] g2 True by simp
    have c: "cmd_ok buf ?c" "nargs ?c = nargs cmd" using 1(3) w by (simp_all add: redir_of_def)
    have "(True, s) = peek buf ''<>'' ps" using pk True by simp
    from redir_progress(2) [OF this g1 [symmetric] g2 [symmetric]] have lt: "ps < s2" using True by simp
    have "good buf s2 (parseredirs buf ?c s2) \<and> (\<forall>c p. parseredirs buf ?c s2 = Parsed c p \<longrightarrow> nargs c = nargs ?c)"
      using 1 True pk g1 g2 c(1) gettoken_bound(3) [OF g2 s1] by auto
    then show ?thesis using r True c(2) good_mono [of buf s2 _ ps] lt by auto
  qed (use r s 1(3) in auto)
qed

lemma parseargs_good:
  assumes "NUL \<notin> set buf" "cmd_ok buf ret" "ps \<le> length buf" "nargs ret \<le> argc"
  shows "good buf ps (parseargs buf ret argc ps)"
  using assms
proof (induction buf ret argc ps rule: parseargs.induct)
  case (1 buf ret argc ps)
  obtain b s where pk: "peek buf ''|)&;'' ps = (b, s)" by (cases "peek buf ''|)&;'' ps")
  obtain t q e s1 where g: "gettoken buf s = (t, (q, e), s1)" by (cases "gettoken buf s") auto
  have r: "parseargs buf ret argc ps = (if b then Parsed ret s else if t = NUL then Parsed ret s1 else if t \<noteq> CHR ''a'' then Panicked ''syntax''
      else if argc + 1 \<ge> MAXARGS then Panicked ''too many args''
      else pbind (parseredirs buf (add_arg (q, e) ret) s1) (\<lambda>ret ps. parseargs buf ret (argc + 1) ps))"
    using pk g by (subst parseargs.simps) simp
  have s: "s \<le> length buf" "ps \<le> s" using peek_progress(1,2) [OF pk] 1(4) by simp_all
  note s1 = gettoken_bound [OF g s(1)]
  have le: "ps \<le> s1"
  proof -
    have "s \<le> q" using g skip_ws_le by (auto simp: gettoken_def Let_def split: prod.splits)
    then show ?thesis using s(2) s1 by simp
  qed
  show ?case
  proof (cases "\<not> b \<and> t = CHR ''a'' \<and> argc + 1 < MAXARGS")
    case True
    let ?c = "add_arg (q, e) ret"
    have "wf_word buf (q, e)" using gettoken_word [OF _ 1(2) s(1)] g True by simp
    then have c: "cmd_ok buf ?c" "nargs ?c \<le> argc + 1" using add_arg_ok [OF 1(3)] 1(5) True by fastforce+
    note rd = parseredirs_good [OF 1(2) c(1) s1(3)]
    have "good buf s1 (pbind (parseredirs buf ?c s1) (\<lambda>ret ps. parseargs buf ret (argc + 1) ps))"
    proof (cases "parseredirs buf ?c s1")
      case (Parsed c' p)
      then have "cmd_ok buf c'" "s1 \<le> p" "p \<le> length buf" "nargs c' \<le> argc + 1" using rd c(2) by auto
      then show ?thesis using 1(1) [OF pk [symmetric] _ g [symmetric] refl] Parsed True 1(2) good_mono by fastforce
    qed (use rd in auto)
    then show ?thesis using r True good_mono [OF _ le] by simp
  qed (use r s s1 le 1(3) in auto)
qed

lemma parseback_good:
  assumes "cmd_ok buf cmd" "ps \<le> length buf" "parseback buf cmd ps = (c, p)"
  shows "cmd_ok buf c \<and> ps \<le> p \<and> p \<le> length buf"
  using assms
proof (induction buf cmd ps rule: parseback.induct)
  case (1 buf cmd ps)
  obtain b s where pk: "peek buf ''&'' ps = (b, s)" by (cases "peek buf ''&'' ps")
  obtain t w s1 where g: "gettoken buf s = (t, w, s1)" by (cases "gettoken buf s")
  have r: "parseback buf cmd ps = (if b then parseback buf (BACK cmd) s1 else (cmd, s))"
    using pk g by (subst parseback.simps) simp
  have s: "s \<le> length buf" "ps \<le> s" using peek_progress(1,2) [OF pk] 1(3) by simp_all
  show ?case
  proof (cases b)
    case True
    have "(True, s) = peek buf ''&'' ps" using pk True by simp
    from tok_progress(2) [OF this g [symmetric]] have "ps < s1" .
    moreover have "s1 \<le> length buf" using gettoken_bound(3) [of buf s t "fst w" "snd w" s1] g s(1) by simp
    ultimately show ?thesis using 1 True pk g r by fastforce
  qed (use r s 1(2,4) in auto)
qed

lemma step_ok:
  assumes "peek buf toks p = (True, s)" "gettoken buf s = (t, w, s1)" "p \<le> length buf"
  shows "p < s1" "s1 \<le> length buf"
proof -
  have "s \<le> length buf" using peek_progress(2) [OF assms(1,3)] .
  then show "p < s1" "s1 \<le> length buf"
    using tok_progress(2) [OF assms(1) [symmetric] assms(2) [symmetric]] gettoken_bound(3) [of buf s t "fst w" "snd w" s1] assms(2) by simp_all
qed

text \<open>With enough fuel each of the four functions returns, and what it returns is well-formed.\<close>

lemma parse_ok:
  assumes nn: "NUL \<notin> set buf"
  shows "(\<forall>ps\<le>length buf. 4 * (length buf - ps) + 4 \<le> n \<longrightarrow> good buf ps (parseline n buf ps))
    \<and> (\<forall>ps\<le>length buf. 4 * (length buf - ps) + 3 \<le> n \<longrightarrow> good buf ps (parsepipe n buf ps))
    \<and> (\<forall>ps\<le>length buf. 4 * (length buf - ps) + 2 \<le> n \<longrightarrow> good buf ps (parseexec n buf ps))
    \<and> (\<forall>ps\<le>length buf. 4 * (length buf - ps) + 1 \<le> n \<longrightarrow> good buf ps (parseblock n buf ps))"
proof (induction n)
  case 0
  then show ?case by simp
next
  case (Suc n)
  have line: "good buf ps (parseline n buf ps)" if "ps \<le> length buf" "4 * (length buf - ps) + 4 \<le> n" for ps using Suc that by blast
  have pipe: "good buf ps (parsepipe n buf ps)" if "ps \<le> length buf" "4 * (length buf - ps) + 3 \<le> n" for ps using Suc that by blast
  have "good buf ps (parseline (Suc n) buf ps)" if ps: "ps \<le> length buf" "4 * (length buf - ps) + 4 \<le> Suc n" for ps
    unfolding parseline.simps
  proof (rule good_pbind)
    show "good buf ps (parsepipe n buf ps)" using pipe ps by simp
    fix c p assume c: "cmd_ok buf c" "ps \<le> p" "p \<le> length buf"
    obtain c1 p1 where b: "parseback buf c p = (c1, p1)" by (cases "parseback buf c p")
    have c1: "cmd_ok buf c1" "p \<le> p1" "p1 \<le> length buf" using parseback_good [OF c(1,3) b] by simp_all
    obtain x s where pk: "peek buf '';'' p1 = (x, s)" by (cases "peek buf '';'' p1")
    obtain t w s1 where g: "gettoken buf s = (t, w, s1)" by (cases "gettoken buf s")
    have s: "p1 \<le> s" "s \<le> length buf" using peek_progress(1,2) [OF pk] c1 by simp_all
    have "good buf ps (pbind (parseline n buf s1) (\<lambda>right ps. Parsed (LIST c1 right) ps))" if x
    proof -
      have s1: "p1 < s1" "s1 \<le> length buf" using step_ok [of buf "'';''" p1 s t w s1] pk g that c1 by simp_all
      then have "good buf s1 (parseline n buf s1)" using c1(2) c(2) ps by (intro line) linarith+
      then show ?thesis using c1 c(2) s1(1) by (cases "parseline n buf s1") auto
    qed
    then show "good buf ps (case parseback buf c p of (cmd, ps) \<Rightarrow> case peek buf '';'' ps of (b, ps) \<Rightarrow>
        if b then case gettoken buf ps of (_, _, ps) \<Rightarrow> pbind (parseline n buf ps) (\<lambda>right ps. Parsed (LIST cmd right) ps)
        else Parsed cmd ps)" using b pk g s c1 c(2) by simp
  qed
  moreover have "good buf ps (parsepipe (Suc n) buf ps)" if ps: "ps \<le> length buf" "4 * (length buf - ps) + 3 \<le> Suc n" for ps
    unfolding parsepipe.simps
  proof (rule good_pbind)
    show "good buf ps (parseexec n buf ps)" using Suc ps by simp
    fix c p assume c: "cmd_ok buf c" "ps \<le> p" "p \<le> length buf"
    obtain x s where pk: "peek buf ''|'' p = (x, s)" by (cases "peek buf ''|'' p")
    obtain t w s1 where g: "gettoken buf s = (t, w, s1)" by (cases "gettoken buf s")
    have s: "p \<le> s" "s \<le> length buf" using peek_progress(1,2) [OF pk] c by simp_all
    have "good buf ps (pbind (parsepipe n buf s1) (\<lambda>right ps. Parsed (PIPE c right) ps))" if x
    proof -
      have s1: "p < s1" "s1 \<le> length buf" using step_ok [of buf "''|''" p s t w s1] pk g that c by simp_all
      then have "good buf s1 (parsepipe n buf s1)" using c(2) ps by (intro pipe) linarith+
      then show ?thesis using c s1(1) by (cases "parsepipe n buf s1") auto
    qed
    then show "good buf ps (case peek buf ''|'' p of (b, ps) \<Rightarrow>
        if b then case gettoken buf ps of (_, _, ps) \<Rightarrow> pbind (parsepipe n buf ps) (\<lambda>right ps. Parsed (PIPE c right) ps)
        else Parsed c ps)" using pk g s c by simp
  qed
  moreover have "good buf ps (parseexec (Suc n) buf ps)" if ps: "ps \<le> length buf" "4 * (length buf - ps) + 2 \<le> Suc n" for ps
  proof -
    obtain x s where pk: "peek buf ''('' ps = (x, s)" by (cases "peek buf ''('' ps")
    have s: "ps \<le> s" "s \<le> length buf" using peek_progress(1,2) [OF pk] ps by simp_all
    have "good buf s (parseblock n buf s)" if x using Suc s ps by simp
    moreover have "good buf s (pbind (parseredirs buf (EXEC []) s) (\<lambda>ret ps. parseargs buf ret 0 ps))"
    proof (cases "parseredirs buf (EXEC []) s")
      case (Parsed c p)
      then have "cmd_ok buf c" "s \<le> p" "p \<le> length buf" "nargs c = 0" using parseredirs_good [OF nn _ s(2), of "EXEC []"] by auto
      then show ?thesis using Parsed parseargs_good [OF nn, of c p 0] good_mono [of buf p _ s] by simp
    qed (use parseredirs_good [OF nn _ s(2), of "EXEC []"] in auto)
    ultimately show ?thesis using pk good_mono [OF _ s(1)] by simp
  qed
  moreover have "good buf ps (parseblock (Suc n) buf ps)" if ps: "ps \<le> length buf" "4 * (length buf - ps) + 1 \<le> Suc n" for ps
  proof -
    obtain x s where pk: "peek buf ''('' ps = (x, s)" by (cases "peek buf ''('' ps")
    obtain t w s1 where g: "gettoken buf s = (t, w, s1)" by (cases "gettoken buf s")
    have "good buf ps (pbind (parseline n buf s1) (\<lambda>cmd ps. case peek buf '')'' ps of (b, ps) \<Rightarrow>
        if \<not> b then Panicked ''syntax - missing )'' else case gettoken buf ps of (_, _, ps) \<Rightarrow> parseredirs buf cmd ps))" if x
    proof -
      have s1: "ps < s1" "s1 \<le> length buf" using step_ok [of buf "''(''" ps s t w s1] pk g that ps by simp_all
      then have l: "good buf s1 (parseline n buf s1)" using ps by (intro line) linarith+
      show ?thesis
      proof (rule good_pbind [OF good_mono [OF l]])
        show "ps \<le> s1" using s1 by simp
        fix c p assume c: "cmd_ok buf c" "ps \<le> p" "p \<le> length buf"
        obtain y v where pk': "peek buf '')'' p = (y, v)" by (cases "peek buf '')'' p")
        obtain t' w' v1 where g': "gettoken buf v = (t', w', v1)" by (cases "gettoken buf v")
        have "good buf ps (parseredirs buf c v1)" if y
        proof -
          have v: "p < v1" "v1 \<le> length buf" using step_ok [of buf "'')''" p v t' w' v1] pk' g' that c by simp_all
          then show ?thesis using parseredirs_good [OF nn c(1) v(2)] good_mono [of buf v1 _ ps] c(2) by simp
        qed
        then show "good buf ps (case peek buf '')'' p of (b, ps) \<Rightarrow>
          if \<not> b then Panicked ''syntax - missing )'' else case gettoken buf ps of (_, _, ps) \<Rightarrow> parseredirs buf c ps)"
          using pk' g' by simp
      qed
    qed
    then show ?thesis using pk g by simp
  qed
  ultimately show ?case by blast
qed

subsection \<open>The words in the buffer\<close>

definition word :: "string \<Rightarrow> ptrs \<Rightarrow> string" where
  "word buf = (\<lambda>(q, eq). take (eq - q) (drop q buf))"

lemma nulterminate_nth:
  "length (nulterminate c m) = length m
   \<and> (\<forall>i<length m. nulterminate c m ! i = (if i \<in> snd ` set_cmd c then NUL else m ! i))"
proof (induction c m rule: nulterminate.induct)
  case (1 ws m)
  show ?case
  proof (induction ws arbitrary: m)
    case (Cons w ws)
    show ?case using Cons.IH [of "m[snd w := NUL]"] by (auto simp: nth_list_update case_prod_unfold)
  qed simp
next
  case (2 c f efile mode fd m)
  then show ?case by (cases "efile < length m") (auto simp: nth_list_update list_update_beyond)
qed auto

lemma strlen_less: "NUL \<in> set m \<Longrightarrow> length (cstring m 0) < length m"
  by (induction m) (auto simp: cstring_def)

lemma cstring_word:
  assumes ok: "cmd_ok (cstring m 0) c" and w: "(q, eq) \<in> set_cmd c" and t: "NUL \<in> set m"
  shows "cstring (nulterminate c m) q = word (cstring m 0) (q, eq)"
proof -
  let ?b = "cstring m 0" and ?m = "nulterminate c m"
  note n = nulterminate_nth [of c m]
  have lb: "length ?b < length m" using strlen_less [OF t] .
  have bm: "?b ! i = m ! i" if "i < length ?b" for i using that by (simp add: cstring_def takeWhile_nth)
  have ww: "q < eq" "eq \<le> length ?b" "\<And>i. q \<le> i \<Longrightarrow> i < eq \<Longrightarrow> word_char (?b ! i)"
    using ok w by (auto simp: cmd_ok_def wf_word_def)
  have keep: "?m ! i = ?b ! i" if i: "q \<le> i" "i < eq" for i
  proof -
    have "i \<noteq> e'" if "(q', e') \<in> set_cmd c" for q' e'
    proof
      assume "i = e'"
      then have "\<not> word_char (char_at ?b i)" using ok that by (auto simp: cmd_ok_def wf_word_def)
      then show False using ww i by (simp add: char_at_def)
    qed
    then have "i \<notin> snd ` set_cmd c" by (metis imageE prod.collapse)
    then show ?thesis using n i ww(2) lb bm by simp
  qed
  have "takeWhile (\<lambda>c. c \<noteq> NUL) (drop q ?m) = take (eq - q) (drop q ?m)"
  proof (rule takeWhile_eq_take_P_nth)
    show "drop q ?m ! i \<noteq> NUL" if "i < eq - q" for i
      using that keep [of "q + i"] ww(3) [of "q + i"] n ww(1,2) lb by (simp add: word_char_def)
    have "eq \<in> snd ` set_cmd c" using w by force
    then have "?m ! eq = NUL" using n ww(2) lb by simp
    then show "\<not> drop q ?m ! (eq - q) \<noteq> NUL" using n ww(1,2) lb by simp
  qed
  moreover have "take (eq - q) (drop q ?m) = take (eq - q) (drop q ?b)"
    using n ww(1,2) lb keep by (intro nth_equalityI) simp_all
  ultimately show ?thesis by (simp add: cstring_def word_def)
qed

lemma parsecmd_cases:
  "(\<exists>c p. parseline (4 * length (cstring m 0) + 4) (cstring m 0) 0 = Parsed c p \<and> cmd_ok (cstring m 0) c
      \<and> parsecmd m = (if skip_ws (cstring m 0) p \<noteq> length (cstring m 0)
           then Panicked (''leftovers: '' @ drop (skip_ws (cstring m 0) p) (cstring m 0) @ newline @ ''syntax'')
           else Parsed (c, nulterminate c m) (skip_ws (cstring m 0) p)))
   \<or> (\<exists>e. parsecmd m = Panicked e)"
proof -
  let ?b = "cstring m 0"
  have "NUL \<notin> set ?b" by (auto simp: cstring_def dest: set_takeWhileD)
  then have g: "good ?b 0 (parseline (4 * length ?b + 4) ?b 0)" using parse_ok [of ?b "4 * length ?b + 4"] by simp
  show ?thesis
  proof (cases "parseline (4 * length ?b + 4) ?b 0")
    case (Parsed c p)
    then have "cmd_ok ?b c" using g by simp
    then show ?thesis using Parsed by (intro disjI1 exI [of _ c] exI [of _ p]) (simp add: parsecmd_def Let_def peek_def)
  next
    case (Panicked e)
    then show ?thesis by (simp add: parsecmd_def Let_def)
  next
    case OutOfFuel
    then show ?thesis using g by simp
  qed
qed

text \<open>
  C17. The parser is total and what it builds is safe to run. On every buffer that holds a terminated line,
  \<open>parsecmd\<close> returns a command or panics with a message. A command it returns has fewer than \<open>MAXARGS\<close>
  arguments everywhere, redirects only descriptor 0 for reading or 1 for writing, each of its words is a
  maximal non-empty run of word characters inside the line, and after \<open>nulterminate\<close> the string at the start
  of each word is exactly that word.
\<close>

theorem parsecmd_well_formed:
  assumes "NUL \<in> set m"
  shows "case parsecmd m of
      Parsed (c, m') p \<Rightarrow> shape c \<and> length m' = length m
        \<and> (\<forall>w\<in>set_cmd c. wf_word (cstring m 0) w \<and> cstring m' (fst w) = word (cstring m 0) w)
    | Panicked e \<Rightarrow> True
    | OutOfFuel \<Rightarrow> False"
proof -
  have "cstring (nulterminate c m) (fst w) = word (cstring m 0) w" if "cmd_ok (cstring m 0) c" "w \<in> set_cmd c" for c w
    using cstring_word [OF that(1) _ assms, of "fst w" "snd w"] that(2) by simp
  then show ?thesis using parsecmd_cases [of m] nulterminate_nth by (auto simp: cmd_ok_def)
qed

theorem parsecmd_well_formed_witness:
  "case parsecmd (''wc<f'' @ [NUL, NUL]) of
      Parsed (c, m') p \<Rightarrow> c = REDIR (EXEC [(0, 2)]) (3, 4) 0 0 \<and> cstring m' 0 = ''wc'' \<and> cstring m' 3 = ''f''
    | _ \<Rightarrow> False"
proof -
  have "NUL \<in> set (''wc<f'' @ [NUL, NUL])" by simp
  note w = parsecmd_well_formed [OF this]
  have p: "parsecmd (''wc<f'' @ [NUL, NUL]) = Parsed (REDIR (EXEC [(0, 2)]) (3, 4) 0 0, [CHR ''w'', CHR ''c'', NUL, CHR ''f'', NUL, NUL]) 4"
    by code_simp
  show ?thesis using w unfolding p by (simp add: cstring_def word_def)
qed

end
