(* ===== verification/Sh_Print.thy ===== *)
theory Sh_Print
  imports Sh_Props
begin

text \<open>
  Printing of commands and the proof that the parser of the shell inverts it, whatever the spacing.
\<close>

subsection \<open>Tokens and texts\<close>

datatype tok = Word string | Sym char

fun tok_text :: "tok \<Rightarrow> string" where
  "tok_text (Word w) = w"
| "tok_text (Sym c) = [c]"

fun kind :: "tok \<Rightarrow> char" where
  "kind (Word w) = CHR ''a''"
| "kind (Sym c) = c"

fun tok_ok :: "tok \<Rightarrow> bool" where
  "tok_ok (Word w) \<longleftrightarrow> w \<noteq> [] \<and> (\<forall>c\<in>set w. word_char c)"
| "tok_ok (Sym c) \<longleftrightarrow> c \<in> set symbols"

text \<open>What may follow a token directly: a word ends at a space, at a symbol or at the end.\<close>

fun ends_before :: "tok \<Rightarrow> string \<Rightarrow> bool" where
  "ends_before (Word w) s \<longleftrightarrow> s = [] \<or> \<not> word_char (hd s)"
| "ends_before (Sym c) s \<longleftrightarrow> c = CHR ''>'' \<longrightarrow> s = [] \<or> hd s \<noteq> CHR ''>''"

text \<open>\<open>text_of ts s\<close>: the text \<open>s\<close> is the tokens \<open>ts\<close> with any white space around them.\<close>

inductive text_of :: "tok list \<Rightarrow> string \<Rightarrow> bool" where
  blank: "set sp \<subseteq> set whitespace \<Longrightarrow> text_of [] sp"
| token: "set sp \<subseteq> set whitespace \<Longrightarrow> text_of ts s \<Longrightarrow> ends_before t s \<Longrightarrow> text_of (t # ts) (sp @ tok_text t @ s)"

inductive_cases text_of_NilE: "text_of [] s"
inductive_cases text_of_ConsE: "text_of (t # ts) s"

lemma NUL_not_special: "NUL \<notin> set whitespace" "NUL \<notin> set symbols"
  by (simp_all add: whitespace_def symbols_def)

lemma space_not_symbol: "c \<in> set symbols \<Longrightarrow> c \<notin> set whitespace"
  by (auto simp: whitespace_def symbols_def)

lemma char_at_drop: "p \<le> length buf \<Longrightarrow> drop p buf = c # r \<Longrightarrow> char_at buf p = c"
  by (metis char_at_def drop_eq_Nil list.distinct(1) not_le nth_via_drop)

lemma drop_Cons: "drop p buf = c # r \<Longrightarrow> p < length buf \<and> drop (p + 1) buf = r"
  by (metis Cons_nth_drop_Suc Suc_eq_plus1 drop_eq_Nil list.distinct(1) list.inject not_le)

lemma skip_ws_over:
  "p \<le> length buf \<Longrightarrow> drop p buf = sp @ r \<Longrightarrow> set sp \<subseteq> set whitespace \<Longrightarrow> r = [] \<or> hd r \<notin> set whitespace \<Longrightarrow>
   skip_ws buf p = p + length sp"
proof (induction sp arbitrary: p)
  case Nil
  then have "\<not> (p < length buf \<and> char_at buf p \<in> set whitespace)"
    by (cases r) (auto simp: char_at_drop)
  then show ?case by (subst skip_ws.simps) auto
next
  case (Cons c sp)
  have d: "drop p buf = c # (sp @ r)" using Cons.prems(2) by simp
  have "p < length buf" "drop (p + 1) buf = sp @ r" "char_at buf p = c" using drop_Cons [OF d] char_at_drop [OF Cons.prems(1) d] by simp_all
  then show ?case using Cons.IH [of "p + 1"] Cons.prems(3,4) by (subst skip_ws.simps) auto
qed

lemma skip_word_over:
  "NUL \<notin> set buf \<Longrightarrow> p \<le> length buf \<Longrightarrow> drop p buf = w @ r \<Longrightarrow> \<forall>c\<in>set w. word_char c \<Longrightarrow> r = [] \<or> \<not> word_char (hd r) \<Longrightarrow>
   skip_word buf p = p + length w"
proof (induction w arbitrary: p)
  case Nil
  have "\<not> (p < length buf \<and> char_at buf p \<notin> set whitespace \<and> char_at buf p \<notin> set symbols)"
  proof (cases r)
    case (Cons c r')
    then have d: "drop p buf = c # r'" using Nil by simp
    have "c \<in> set buf" using d by (metis in_set_dropD list.set_intros(1))
    then have "c \<noteq> NUL" using Nil(1) by blast
    then show ?thesis using Nil(5) Cons char_at_drop [OF Nil(2) d] by (auto simp: word_char_def)
  qed (use Nil in simp)
  then show ?case by (subst skip_word.simps) auto
next
  case (Cons c w)
  have d: "drop p buf = c # (w @ r)" using Cons.prems(3) by simp
  have "p < length buf" "drop (p + 1) buf = w @ r" "char_at buf p = c" using drop_Cons [OF d] char_at_drop [OF Cons.prems(2) d] by simp_all
  then show ?case using Cons.IH [of "p + 1"] Cons.prems by (subst skip_word.simps) (auto simp: word_char_def)
qed

subsection \<open>The lexer on a text\<close>

definition lex_at :: "string \<Rightarrow> nat \<Rightarrow> tok list \<Rightarrow> bool" where
  "lex_at buf p ts \<longleftrightarrow> p \<le> length buf \<and> text_of ts (drop p buf) \<and> (\<forall>t\<in>set ts. tok_ok t)"

lemma tok_text_hd:
  assumes "tok_ok t"
  shows "tok_text t \<noteq> []" "hd (tok_text t) \<notin> set whitespace" "hd (tok_text t) \<noteq> NUL"
    "hd (tok_text t) \<in> set symbols \<longleftrightarrow> (\<exists>c. t = Sym c)"
  using assms NUL_not_special space_not_symbol by (cases t; force simp: word_char_def neq_Nil_conv)+

lemma lex_skip:
  assumes "lex_at buf p (t # ts)"
  obtains q s where "skip_ws buf p = q" "p \<le> q" "q \<le> length buf" "drop q buf = tok_text t @ s" "text_of ts s" "ends_before t s"
    "char_at buf q = hd (tok_text t)"
proof -
  have t: "p \<le> length buf" "text_of (t # ts) (drop p buf)" "tok_ok t" using assms by (simp_all add: lex_at_def)
  from t(2) obtain sp s where s: "drop p buf = sp @ tok_text t @ s" "set sp \<subseteq> set whitespace" "text_of ts s" "ends_before t s"
    by (elim text_of_ConsE) auto
  note h = tok_text_hd [OF t(3)]
  have "skip_ws buf p = p + length sp" using skip_ws_over [OF t(1) s(1,2)] h(1,2) by simp
  moreover have "length sp \<le> length (drop p buf)" by (simp add: s(1))
  then have q: "p + length sp \<le> length buf" using t(1) by simp
  moreover have "drop (p + length sp) buf = tok_text t @ s"
  proof -
    have "drop (p + length sp) buf = drop (length sp) (drop p buf)" by (simp add: add.commute)
    then show ?thesis by (simp add: s(1))
  qed
  moreover from this have "char_at buf (p + length sp) = hd (tok_text t)"
    using char_at_drop [OF q, of "hd (tok_text t)"] h(1) by (metis append_Cons list.collapse)
  ultimately show thesis using that s(3,4) by (metis le_add1)
qed

lemma lex_drop:
  assumes "text_of ts s" "drop q buf = w @ s" "q \<le> length buf" "\<forall>t\<in>set ts. tok_ok t"
  shows "lex_at buf (q + length w) ts" "q + length w \<le> length buf"
proof -
  have "drop (q + length w) buf = drop (length w) (drop q buf)" by (simp add: add.commute)
  then have "drop (q + length w) buf = s" by (simp add: assms(2))
  moreover have "length w \<le> length (drop q buf)" by (simp add: assms(2))
  then show "q + length w \<le> length buf" using assms(3) by simp
  ultimately show "lex_at buf (q + length w) ts" using assms(1,4) by (simp add: lex_at_def)
qed

lemma lex_skip_ws:
  assumes "lex_at buf p ts"
  shows "lex_at buf (skip_ws buf p) ts"
proof (cases ts)
  case Nil
  have p: "p \<le> length buf" "set (drop p buf) \<subseteq> set whitespace" using assms Nil by (auto simp: lex_at_def elim: text_of_NilE)
  have "skip_ws buf p = length buf" using skip_ws_over [OF p(1), of "drop p buf" "[]"] p by simp
  then show ?thesis using Nil by (simp add: lex_at_def text_of.blank)
next
  case (Cons t ts')
  then obtain q s where q: "skip_ws buf p = q" "p \<le> q" "q \<le> length buf" "drop q buf = tok_text t @ s" "text_of ts' s" "ends_before t s"
    using lex_skip assms by blast
  have "text_of (t # ts') ([] @ tok_text t @ s)" using q(5,6) by (intro text_of.token) simp_all
  then show ?thesis using q assms Cons by (simp add: lex_at_def)
qed

lemma lex_end:
  assumes "lex_at buf p []"
  shows "skip_ws buf p = length buf" "gettoken buf p = (NUL, (length buf, length buf), length buf)" "lex_at buf (length buf) []"
proof -
  have p: "p \<le> length buf" "set (drop p buf) \<subseteq> set whitespace" using assms by (auto simp: lex_at_def elim: text_of_NilE)
  show s: "skip_ws buf p = length buf" using skip_ws_over [OF p(1), of "drop p buf" "[]"] p by simp
  have "skip_ws buf (length buf) = length buf" using s skip_ws_idem [of buf p] by simp
  then show "gettoken buf p = (NUL, (length buf, length buf), length buf)" by (simp add: gettoken_def Let_def s char_at_def)
  show "lex_at buf (length buf) []" by (simp add: lex_at_def text_of.blank)
qed

lemma lex_token:
  assumes "lex_at buf p (t # ts)" "NUL \<notin> set buf"
  shows "\<exists>w p'. gettoken buf p = (kind t, w, p') \<and> word buf w = tok_text t \<and> lex_at buf p' ts"
proof -
  obtain q s where q: "skip_ws buf p = q" "p \<le> q" "q \<le> length buf" "drop q buf = tok_text t @ s" "text_of ts s" "ends_before t s"
      "char_at buf q = hd (tok_text t)" using lex_skip [OF assms(1)] by blast
  have ok: "tok_ok t" "\<forall>t\<in>set ts. tok_ok t" using assms(1) by (simp_all add: lex_at_def)
  note d = lex_drop [OF q(5,4,3) ok(2)]
  have c: "char_at buf q \<noteq> NUL" using tok_text_hd(3) [OF ok(1)] q(7) by simp
  have "gettoken buf p = (kind t, (q, q + length (tok_text t)), skip_ws buf (q + length (tok_text t)))"
  proof (cases t)
    case (Word w)
    have "char_at buf q \<notin> set symbols" using tok_text_hd(4) [OF ok(1)] Word q(7) by simp
    moreover have "skip_word buf q = q + length w"
      using Word ok(1) q(4,6) by (intro skip_word_over [OF assms(2) q(3)]) simp_all
    ultimately show ?thesis using c Word symbols_set by (simp add: gettoken_def Let_def q(1))
  next
    case (Sym x)
    have e: "q + 1 \<le> length buf" "drop (q + 1) buf = s" using Sym q(3,4) drop_Cons [of q buf x s] by simp_all
    have x: "char_at buf q = x" "x \<in> set symbols" using q(7) Sym ok(1) by simp_all
    have "char_at buf (q + 1) \<noteq> CHR ''>''" if "x = CHR ''>''"
    proof (cases s)
      case Nil
      then show ?thesis using e by (simp add: char_at_def)
    next
      case (Cons y s')
      then show ?thesis using that q(6) Sym char_at_drop [OF e(1)] e(2) by simp
    qed
    then show ?thesis using x c Sym symbols_set by (auto simp: gettoken_def Let_def q(1))
  qed
  moreover have "word buf (q, q + length (tok_text t)) = tok_text t" by (simp add: word_def q(4))
  ultimately show ?thesis using lex_skip_ws [OF d(1)] by blast
qed

lemma lex_peek:
  assumes "lex_at buf p ts"
  shows "\<exists>p'. peek buf toks p = ((case ts of [] \<Rightarrow> False | t # _ \<Rightarrow> hd (tok_text t) \<in> set toks), p') \<and> lex_at buf p' ts"
proof (cases ts)
  case Nil
  then show ?thesis using lex_end [of buf p] lex_skip_ws [OF assms] assms by (simp add: peek_def Let_def char_at_def)
next
  case (Cons t ts')
  then have a: "lex_at buf p (t # ts')" using assms by simp
  obtain q s where q: "skip_ws buf p = q" "char_at buf q = hd (tok_text t)" using lex_skip [OF a] by blast
  have "tok_ok t" using a by (simp add: lex_at_def)
  then show ?thesis using q lex_skip_ws [OF assms] tok_text_hd(3) [of t] Cons by (simp add: peek_def Let_def)
qed

subsection \<open>Fuel\<close>

definition le_parse :: "'a parse \<Rightarrow> 'a parse \<Rightarrow> bool" where
  "le_parse r r' \<longleftrightarrow> r = OutOfFuel \<or> r' = r"

lemma le_parse_refl [simp]: "le_parse r r"
  by (simp add: le_parse_def)

lemma le_parse_bind:
  assumes "le_parse m m'" "\<And>x p. le_parse (f x p) (g x p)"
  shows "le_parse (pbind m f) (pbind m' g)"
  using assms by (cases m) (auto simp: le_parse_def)

lemma parse_mono:
  "(\<forall>m ps. n \<le> m \<longrightarrow> le_parse (parseline n buf ps) (parseline m buf ps))
   \<and> (\<forall>m ps. n \<le> m \<longrightarrow> le_parse (parsepipe n buf ps) (parsepipe m buf ps))
   \<and> (\<forall>m ps. n \<le> m \<longrightarrow> le_parse (parseexec n buf ps) (parseexec m buf ps))
   \<and> (\<forall>m ps. n \<le> m \<longrightarrow> le_parse (parseblock n buf ps) (parseblock m buf ps))"
proof (induction n)
  case 0
  then show ?case by (simp add: le_parse_def)
next
  case (Suc n)
  have IH: "le_parse (parseline n buf ps) (parseline m buf ps)" "le_parse (parsepipe n buf ps) (parsepipe m buf ps)"
    "le_parse (parseexec n buf ps) (parseexec m buf ps)" "le_parse (parseblock n buf ps) (parseblock m buf ps)"
    if "n \<le> m" for m ps using Suc that by blast+
  have "le_parse (parseline (Suc n) buf ps) (parseline m buf ps) \<and> le_parse (parsepipe (Suc n) buf ps) (parsepipe m buf ps)
      \<and> le_parse (parseexec (Suc n) buf ps) (parseexec m buf ps) \<and> le_parse (parseblock (Suc n) buf ps) (parseblock m buf ps)"
    if m: "Suc n \<le> m" for m ps
  proof -
    obtain k where k: "m = Suc k" "n \<le> k" using m by (cases m) auto
    note h = IH [OF k(2)]
    show ?thesis unfolding k(1) parseline.simps parsepipe.simps parseexec.simps parseblock.simps
      by (intro conjI le_parse_bind h) (auto split: prod.splits intro!: le_parse_bind h)
  qed
  then show ?case by blast
qed

lemma parse_up:
  assumes "n \<le> m"
  shows "parseline n buf ps = Parsed c p \<Longrightarrow> parseline m buf ps = Parsed c p"
    "parsepipe n buf ps = Parsed c p \<Longrightarrow> parsepipe m buf ps = Parsed c p"
    "parseexec n buf ps = Parsed c p \<Longrightarrow> parseexec m buf ps = Parsed c p"
  using parse_mono [of n buf] assms unfolding le_parse_def by (metis parse.distinct)+

subsection \<open>Printing\<close>

text \<open>
  The tokens of a command at a level: 0 where \<open>parseexec\<close> reads it, 1 for \<open>parsepipe\<close>, 2 before the
  \<open>&\<close> of a line, 3 for \<open>parseline\<close>. A command of a higher level is put in parentheses.
\<close>

definition paren :: "bool \<Rightarrow> tok list \<Rightarrow> tok list" where
  "paren b ts = (if b then Sym (CHR ''('') # ts @ [Sym (CHR '')'')] else ts)"

fun pr :: "nat \<Rightarrow> string cmd \<Rightarrow> tok list" where
  "pr k (EXEC ws) = map Word ws"
| "pr k (REDIR c f mode fd) = pr 0 c @ [Sym (if fd = 0 then CHR ''<'' else CHR ''>''), Word f]"
| "pr k (PIPE l r) = paren (k < 1) (pr 0 l @ Sym (CHR ''|'') # pr 1 r)"
| "pr k (BACK c) = paren (k < 2) (pr 2 c @ [Sym (CHR ''&'')])"
| "pr k (LIST l r) = paren (k < 3) (pr 2 l @ Sym (CHR '';'') # pr 3 r)"

fun stop :: "string \<Rightarrow> tok list \<Rightarrow> bool" where
  "stop S [] \<longleftrightarrow> True"
| "stop S (Sym c # ts) \<longleftrightarrow> c \<in> set S"
| "stop S (Word w # ts) \<longleftrightarrow> False"

lemma stop_mono: "stop S ts \<Longrightarrow> set S \<subseteq> set S' \<Longrightarrow> stop S' ts"
  by (cases "(S, ts)" rule: stop.cases) auto

lemma stop_peek:
  assumes "lex_at buf p ts" "stop S ts" "set S \<inter> set toks = {}"
  shows "\<exists>p'. peek buf toks p = (False, p') \<and> lex_at buf p' ts"
  using lex_peek [OF assms(1), of toks] assms(2,3) by (cases "(S, ts)" rule: stop.cases) auto

lemma sym_peek:
  assumes "lex_at buf p (Sym c # ts)" "c \<in> set toks" "NUL \<notin> set buf"
  shows "\<exists>p1 w p2. peek buf toks p = (True, p1) \<and> gettoken buf p1 = (c, w, p2) \<and> lex_at buf p2 ts"
proof -
  obtain p1 where p1: "peek buf toks p = (True, p1)" "lex_at buf p1 (Sym c # ts)" using lex_peek [OF assms(1), of toks] assms(2) by auto
  then show ?thesis using lex_token [OF p1(2) assms(3)] by auto
qed

lemma word_peek:
  assumes "lex_at buf p (Word w # ts)" "set toks \<subseteq> set symbols"
  shows "\<exists>p'. peek buf toks p = (False, p') \<and> lex_at buf p' (Word w # ts)"
proof -
  have "tok_ok (Word w)" using assms(1) by (simp add: lex_at_def)
  then have "hd (tok_text (Word w)) \<notin> set toks" using tok_text_hd(4) assms(2) by (metis subsetD tok.distinct(1))
  then show ?thesis using lex_peek [OF assms(1), of toks] by auto
qed

subsection \<open>Parsing what was printed\<close>

abbreviation view :: "string \<Rightarrow> ptrs cmd \<Rightarrow> string cmd" where
  "view buf \<equiv> map_cmd (word buf)"

text \<open>
  What the parser does on the tokens of \<open>c\<close> followed by \<open>rest\<close>, at each level. At level 0 the parser still
  looks for redirections, at level 2 for further \<open>&\<close>.
\<close>

definition reads_exec :: "string \<Rightarrow> string cmd \<Rightarrow> bool" where
  "reads_exec buf c \<longleftrightarrow> (\<forall>p rest. lex_at buf p (pr 0 c @ rest) \<longrightarrow> stop ''<>|)&;'' rest \<longrightarrow>
     (\<exists>n K c2 p2. parseexec n buf p = pbind (parseredirs buf c2 p2) K \<and> view buf c2 = c \<and> lex_at buf p2 rest
       \<and> (\<forall>c3 p3 ts. lex_at buf p3 ts \<longrightarrow> stop ''|)&;'' ts \<longrightarrow> (\<exists>p4. K c3 p3 = Parsed c3 p4 \<and> lex_at buf p4 ts))))"

definition reads_simple :: "string \<Rightarrow> string cmd \<Rightarrow> bool" where
  "reads_simple buf c \<longleftrightarrow> (\<forall>p rest. lex_at buf p (pr 0 c @ rest) \<longrightarrow> stop ''|)&;'' rest \<longrightarrow>
     (\<exists>n c' p'. parseexec n buf p = Parsed c' p' \<and> view buf c' = c \<and> lex_at buf p' rest))"

definition reads_pipe :: "string \<Rightarrow> string cmd \<Rightarrow> bool" where
  "reads_pipe buf c \<longleftrightarrow> (\<forall>p rest. lex_at buf p (pr 1 c @ rest) \<longrightarrow> stop '')&;'' rest \<longrightarrow>
     (\<exists>n c' p'. parsepipe n buf p = Parsed c' p' \<and> view buf c' = c \<and> lex_at buf p' rest))"

definition reads_back :: "string \<Rightarrow> string cmd \<Rightarrow> bool" where
  "reads_back buf c \<longleftrightarrow> (\<forall>p rest. lex_at buf p (pr 2 c @ rest) \<longrightarrow> stop '')&;'' rest \<longrightarrow>
     (\<exists>n c1 p1 c2 p2. parsepipe n buf p = Parsed c1 p1 \<and> parseback buf c1 p1 = parseback buf c2 p2
        \<and> view buf c2 = c \<and> lex_at buf p2 rest))"

definition reads_line :: "string \<Rightarrow> string cmd \<Rightarrow> bool" where
  "reads_line buf c \<longleftrightarrow> (\<forall>p rest. lex_at buf p (pr 3 c @ rest) \<longrightarrow> stop '')'' rest \<longrightarrow>
     (\<exists>n c' p'. parseline n buf p = Parsed c' p' \<and> view buf c' = c \<and> lex_at buf p' rest))"

lemma redirs_stop:
  assumes "lex_at buf p ts" "stop ''|)&;'' ts"
  shows "\<exists>p'. parseredirs buf c p = Parsed c p' \<and> lex_at buf p' ts"
  using stop_peek [OF assms, of "''<>''"] by (subst parseredirs.simps) auto

lemma redirs_word:
  assumes "lex_at buf p (Word w # ts)"
  shows "\<exists>p'. parseredirs buf c p = Parsed c p' \<and> lex_at buf p' (Word w # ts)"
  using word_peek [OF assms, of "''<>''"] by (subst parseredirs.simps) (auto simp: symbols_def)

lemma reads_simple_exec:
  assumes "reads_exec buf c"
  shows "reads_simple buf c"
  unfolding reads_simple_def
proof (intro allI impI)
  fix p rest assume a: "lex_at buf p (pr 0 c @ rest)" "stop ''|)&;'' rest"
  have "stop ''<>|)&;'' rest" using stop_mono [OF a(2)] by simp
  then obtain n K c2 p2 where e: "parseexec n buf p = pbind (parseredirs buf c2 p2) K" "view buf c2 = c" "lex_at buf p2 rest"
      "\<forall>c3 p3 ts. lex_at buf p3 ts \<longrightarrow> stop ''|)&;'' ts \<longrightarrow> (\<exists>p4. K c3 p3 = Parsed c3 p4 \<and> lex_at buf p4 ts)"
    using assms a(1) unfolding reads_exec_def by blast
  obtain p3 where p3: "parseredirs buf c2 p2 = Parsed c2 p3" "lex_at buf p3 rest" using redirs_stop [OF e(3) a(2)] by blast
  then obtain p4 where "K c2 p3 = Parsed c2 p4" "lex_at buf p4 rest" using e(4) a(2) by blast
  then show "\<exists>n c' p'. parseexec n buf p = Parsed c' p' \<and> view buf c' = c \<and> lex_at buf p' rest"
    using e(1,2) p3(1) by (intro exI [of _ n] exI [of _ c2] exI [of _ p4]) simp
qed

lemma reads_pipe_simple:
  assumes "reads_simple buf c" "pr 1 c = pr 0 c"
  shows "reads_pipe buf c"
  unfolding reads_pipe_def
proof (intro allI impI)
  fix p rest assume a: "lex_at buf p (pr 1 c @ rest)" "stop '')&;'' rest"
  have "stop ''|)&;'' rest" using stop_mono [OF a(2)] by simp
  then obtain n c' p' where e: "parseexec n buf p = Parsed c' p'" "view buf c' = c" "lex_at buf p' rest"
    using assms a(1) unfolding reads_simple_def by metis
  obtain p2 where "peek buf ''|'' p' = (False, p2)" "lex_at buf p2 rest" using stop_peek [OF e(3) a(2), of "''|''"] by auto
  then show "\<exists>n c' p'. parsepipe n buf p = Parsed c' p' \<and> view buf c' = c \<and> lex_at buf p' rest"
    using e by (intro exI [of _ "Suc n"] exI [of _ c'] exI [of _ p2]) simp
qed

lemma reads_back_pipe:
  assumes "reads_pipe buf c" "pr 2 c = pr 1 c"
  shows "reads_back buf c"
  using assms unfolding reads_back_def reads_pipe_def by metis

lemma back_stop:
  assumes "lex_at buf p ts" "stop '');'' ts"
  shows "\<exists>p'. parseback buf c p = (c, p') \<and> lex_at buf p' ts"
  using stop_peek [OF assms, of "''&''"] by (subst parseback.simps) auto

lemma reads_line_back:
  assumes "reads_back buf c" "pr 3 c = pr 2 c"
  shows "reads_line buf c"
  unfolding reads_line_def
proof (intro allI impI)
  fix p rest assume a: "lex_at buf p (pr 3 c @ rest)" "stop '')'' rest"
  have s: "stop '')&;'' rest" "stop '');'' rest" using stop_mono [OF a(2)] by simp_all
  then obtain n c1 p1 c2 p2 where e: "parsepipe n buf p = Parsed c1 p1" "parseback buf c1 p1 = parseback buf c2 p2" "view buf c2 = c" "lex_at buf p2 rest"
    using assms a(1) unfolding reads_back_def by metis
  obtain p3 where p3: "parseback buf c2 p2 = (c2, p3)" "lex_at buf p3 rest" using back_stop [OF e(4) s(2)] by blast
  obtain p4 where "peek buf '';'' p3 = (False, p4)" "lex_at buf p4 rest" using stop_peek [OF p3(2) a(2), of "'';''"] by auto
  then show "\<exists>n c' p'. parseline n buf p = Parsed c' p' \<and> view buf c' = c \<and> lex_at buf p' rest"
    using e p3 by (intro exI [of _ "Suc n"] exI [of _ c2] exI [of _ p4]) simp
qed

lemma reads_exec_paren:
  assumes "reads_line buf c" "pr 0 c = paren True (pr 3 c)" "NUL \<notin> set buf"
  shows "reads_exec buf c"
  unfolding reads_exec_def
proof (intro allI impI)
  fix p rest assume a: "lex_at buf p (pr 0 c @ rest)" "stop ''<>|)&;'' rest"
  have a1: "lex_at buf p (Sym (CHR ''('') # (pr 3 c @ Sym (CHR '')'') # rest))" using a(1) by (simp add: assms(2) paren_def)
  obtain p1 where p1: "peek buf ''('' p = (True, p1)" "lex_at buf p1 (Sym (CHR ''('') # (pr 3 c @ Sym (CHR '')'') # rest))"
    using lex_peek [OF a1, of "''(''"] by auto
  obtain p2 w p3 where p3: "peek buf ''('' p1 = (True, p2)" "gettoken buf p2 = (CHR ''('', w, p3)" "lex_at buf p3 (pr 3 c @ Sym (CHR '')'') # rest)"
    using sym_peek [OF p1(2) _ assms(3), of "''(''"] by auto
  obtain n c' p4 where l: "parseline n buf p3 = Parsed c' p4" "view buf c' = c" "lex_at buf p4 (Sym (CHR '')'') # rest)"
    using assms(1) p3(3) unfolding reads_line_def by fastforce
  obtain p5 w' p6 where p6: "peek buf '')'' p4 = (True, p5)" "gettoken buf p5 = (CHR '')'', w', p6)" "lex_at buf p6 rest"
    using sym_peek [OF l(3) _ assms(3), of "'')''"] by auto
  have "parseexec (Suc (Suc n)) buf p = pbind (parseredirs buf c' p6) Parsed"
    using p1(1) p3(1,2) l(1) p6(1,2) by (cases "parseredirs buf c' p6") simp_all
  then show "\<exists>n K c2 p2. parseexec n buf p = pbind (parseredirs buf c2 p2) K \<and> view buf c2 = c \<and> lex_at buf p2 rest
      \<and> (\<forall>c3 p3 ts. lex_at buf p3 ts \<longrightarrow> stop ''|)&;'' ts \<longrightarrow> (\<exists>p4. K c3 p3 = Parsed c3 p4 \<and> lex_at buf p4 ts))"
    using l(2) p6(3) by (intro exI [of _ "Suc (Suc n)"] exI [of _ Parsed] exI [of _ c'] exI [of _ p6]) auto
qed

lemma args_stop:
  assumes "lex_at buf p ts" "stop ''|)&;'' ts"
  shows "\<exists>p'. parseargs buf c k p = Parsed c p' \<and> lex_at buf p' ts"
proof (cases ts)
  case Nil
  obtain p1 where p1: "peek buf ''|)&;'' p = (False, p1)" "lex_at buf p1 []" using lex_peek [OF assms(1), of "''|)&;''"] Nil by auto
  then show ?thesis using lex_end(2,3) [OF p1(2)] Nil by (subst parseargs.simps) simp
next
  case (Cons t ts')
  then have "hd (tok_text t) \<in> set ''|)&;''" using assms(2) by (cases t) simp_all
  then obtain p1 where "peek buf ''|)&;'' p = (True, p1)" "lex_at buf p1 ts" using lex_peek [OF assms(1), of "''|)&;''"] Cons by auto
  then show ?thesis by (subst parseargs.simps) simp
qed

lemma args_words:
  assumes "lex_at buf p (map Word ws @ rest)" "ws \<noteq> []" "length ds + length ws < MAXARGS" "NUL \<notin> set buf"
  shows "\<exists>k c2 p2. parseargs buf (EXEC ds) (length ds) p = pbind (parseredirs buf c2 p2) (\<lambda>ret ps. parseargs buf ret k ps)
    \<and> view buf c2 = EXEC (map (word buf) ds @ ws) \<and> lex_at buf p2 rest"
  using assms
proof (induction ws arbitrary: ds p)
  case (Cons w ws)
  have a: "lex_at buf p (Word w # (map Word ws @ rest))" using Cons.prems(1) by simp
  obtain p1 where p1: "peek buf ''|)&;'' p = (False, p1)" "lex_at buf p1 (Word w # (map Word ws @ rest))"
    using word_peek [OF a, of "''|)&;''"] by (auto simp: symbols_def)
  obtain v p2 where p2: "gettoken buf p1 = (CHR ''a'', v, p2)" "word buf v = w" "lex_at buf p2 (map Word ws @ rest)"
    using lex_token [OF p1(2) Cons.prems(4)] by auto
  have r: "parseargs buf (EXEC ds) (length ds) p = pbind (parseredirs buf (EXEC (ds @ [v])) p2) (\<lambda>ret ps. parseargs buf ret (length ds + 1) ps)"
    using p1(1) p2(1) Cons.prems(3) by (subst parseargs.simps) simp
  show ?case
  proof (cases ws)
    case Nil
    then show ?thesis using r p2(2,3) by (intro exI [of _ "length ds + 1"] exI [of _ "EXEC (ds @ [v])"] exI [of _ p2]) simp
  next
    case ws: (Cons w' ws')
    then have "lex_at buf p2 (Word w' # (map Word ws' @ rest))" using p2(3) by simp
    then obtain p3 where p3: "parseredirs buf (EXEC (ds @ [v])) p2 = Parsed (EXEC (ds @ [v])) p3" "lex_at buf p3 (map Word ws @ rest)"
      using redirs_word ws by fastforce
    then show ?thesis using Cons.IH [OF p3(2), of "ds @ [v]"] ws Cons.prems(3,4) r p2(2) by auto
  qed
qed simp

lemma reads_exec_EXEC:
  assumes "length ws < MAXARGS" "NUL \<notin> set buf"
  shows "reads_exec buf (EXEC ws)"
  unfolding reads_exec_def
proof (intro allI impI)
  fix p rest assume a: "lex_at buf p (pr 0 (EXEC ws) @ rest)" "stop ''<>|)&;'' rest"
  have "\<exists>p1. peek buf ''('' p = (False, p1) \<and> lex_at buf p1 (map Word ws @ rest)"
  proof (cases ws)
    case Nil
    then show ?thesis using stop_peek [OF _ a(2), of buf p "''(''"] a(1) by simp
  next
    case (Cons w ws')
    then show ?thesis using word_peek [of buf p w "map Word ws' @ rest" "''(''"] a(1) by (simp add: symbols_def)
  qed
  then obtain p1 where p1: "peek buf ''('' p = (False, p1)" "lex_at buf p1 (map Word ws @ rest)" by blast
  have r: "parseexec 1 buf p = pbind (parseredirs buf (EXEC []) p1) (\<lambda>ret ps. parseargs buf ret 0 ps)" using p1(1) by simp
  have "\<exists>k c2 p2. parseexec 1 buf p = pbind (parseredirs buf c2 p2) (\<lambda>ret ps. parseargs buf ret k ps) \<and> view buf c2 = EXEC ws \<and> lex_at buf p2 rest"
  proof (cases ws)
    case Nil
    then show ?thesis using r p1(2) by (intro exI [of _ 0] exI [of _ "EXEC []"] exI [of _ p1]) simp
  next
    case (Cons w ws')
    then obtain p2 where p2: "parseredirs buf (EXEC []) p1 = Parsed (EXEC []) p2" "lex_at buf p2 (map Word ws @ rest)"
      using redirs_word [of buf p1 w "map Word ws' @ rest"] p1(2) by fastforce
    then show ?thesis using args_words [OF p2(2), of "[]"] Cons assms r by auto
  qed
  then show "\<exists>n K c2 p2. parseexec n buf p = pbind (parseredirs buf c2 p2) K \<and> view buf c2 = EXEC ws \<and> lex_at buf p2 rest
      \<and> (\<forall>c3 p3 ts. lex_at buf p3 ts \<longrightarrow> stop ''|)&;'' ts \<longrightarrow> (\<exists>p4. K c3 p3 = Parsed c3 p4 \<and> lex_at buf p4 ts))"
    using args_stop by blast
qed

lemma reads_exec_REDIR:
  assumes c: "reads_exec buf c" and m: "mode = O_RDONLY \<and> fd = 0 \<or> mode = O_WRONLY_CREATE \<and> fd = 1" and nn: "NUL \<notin> set buf"
  shows "reads_exec buf (REDIR c f mode fd)"
  unfolding reads_exec_def
proof (intro allI impI)
  fix p rest assume a: "lex_at buf p (pr 0 (REDIR c f mode fd) @ rest)" "stop ''<>|)&;'' rest"
  let ?t = "if fd = 0 then CHR ''<'' else CHR ''>''"
  have "lex_at buf p (pr 0 c @ Sym ?t # Word f # rest)" using a(1) by simp
  moreover have "stop ''<>|)&;'' (Sym ?t # Word f # rest)" by simp
  ultimately obtain n K c2 p2 where e: "parseexec n buf p = pbind (parseredirs buf c2 p2) K" "view buf c2 = c" "lex_at buf p2 (Sym ?t # Word f # rest)"
      "\<forall>c3 p3 ts. lex_at buf p3 ts \<longrightarrow> stop ''|)&;'' ts \<longrightarrow> (\<exists>p4. K c3 p3 = Parsed c3 p4 \<and> lex_at buf p4 ts)"
    using c unfolding reads_exec_def by blast
  have "?t \<in> set ''<>''" by simp
  then obtain p3 w p4 where p4: "peek buf ''<>'' p2 = (True, p3)" "gettoken buf p3 = (?t, w, p4)" "lex_at buf p4 (Word f # rest)"
    using sym_peek [OF e(3) _ nn] by blast
  obtain v p5 where p5: "gettoken buf p4 = (CHR ''a'', v, p5)" "word buf v = f" "lex_at buf p5 rest" using lex_token [OF p4(3) nn] by auto
  have "parseredirs buf c2 p2 = parseredirs buf (REDIR c2 v mode fd) p5"
    using p4(1,2) p5(1) m by (subst parseredirs.simps) (auto simp: redir_of_def)
  moreover have "view buf (REDIR c2 v mode fd) = REDIR c f mode fd" using e(2) p5(2) by simp
  ultimately show "\<exists>n K c2 p2. parseexec n buf p = pbind (parseredirs buf c2 p2) K \<and> view buf c2 = REDIR c f mode fd \<and> lex_at buf p2 rest
      \<and> (\<forall>c3 p3 ts. lex_at buf p3 ts \<longrightarrow> stop ''|)&;'' ts \<longrightarrow> (\<exists>p4. K c3 p3 = Parsed c3 p4 \<and> lex_at buf p4 ts))"
    using e(1,4) p5(3) by metis
qed

lemma reads_pipe_PIPE:
  assumes l: "reads_simple buf l" and r: "reads_pipe buf r" and nn: "NUL \<notin> set buf"
  shows "reads_pipe buf (PIPE l r)"
  unfolding reads_pipe_def
proof (intro allI impI)
  fix p rest assume a: "lex_at buf p (pr 1 (PIPE l r) @ rest)" "stop '')&;'' rest"
  have "lex_at buf p (pr 0 l @ Sym (CHR ''|'') # pr 1 r @ rest)" using a(1) by (simp add: paren_def)
  then obtain n1 c1 p1 where e1: "parseexec n1 buf p = Parsed c1 p1" "view buf c1 = l" "lex_at buf p1 (Sym (CHR ''|'') # pr 1 r @ rest)"
    using l unfolding reads_simple_def by fastforce
  obtain p2 w p3 where p3: "peek buf ''|'' p1 = (True, p2)" "gettoken buf p2 = (CHR ''|'', w, p3)" "lex_at buf p3 (pr 1 r @ rest)"
    using sym_peek [OF e1(3) _ nn, of "''|''"] by auto
  obtain n2 c2 p4 where e2: "parsepipe n2 buf p3 = Parsed c2 p4" "view buf c2 = r" "lex_at buf p4 rest"
    using r p3(3) a(2) unfolding reads_pipe_def by blast
  have "parseexec (max n1 n2) buf p = Parsed c1 p1" "parsepipe (max n1 n2) buf p3 = Parsed c2 p4"
    using parse_up(3) [OF _ e1(1), of "max n1 n2"] parse_up(2) [OF _ e2(1), of "max n1 n2"] by simp_all
  then show "\<exists>n c' p'. parsepipe n buf p = Parsed c' p' \<and> view buf c' = PIPE l r \<and> lex_at buf p' rest"
    using p3(1,2) e1(2) e2(2,3) by (intro exI [of _ "Suc (max n1 n2)"] exI [of _ "PIPE c1 c2"] exI [of _ p4]) simp
qed

lemma reads_back_BACK:
  assumes c: "reads_back buf c" and nn: "NUL \<notin> set buf"
  shows "reads_back buf (BACK c)"
  unfolding reads_back_def
proof (intro allI impI)
  fix p rest assume a: "lex_at buf p (pr 2 (BACK c) @ rest)" "stop '')&;'' rest"
  have "lex_at buf p (pr 2 c @ Sym (CHR ''&'') # rest)" using a(1) by (simp add: paren_def)
  then obtain n c1 p1 c2 p2 where e: "parsepipe n buf p = Parsed c1 p1" "parseback buf c1 p1 = parseback buf c2 p2" "view buf c2 = c"
      "lex_at buf p2 (Sym (CHR ''&'') # rest)" using c unfolding reads_back_def by fastforce
  obtain p3 w p4 where p4: "peek buf ''&'' p2 = (True, p3)" "gettoken buf p3 = (CHR ''&'', w, p4)" "lex_at buf p4 rest"
    using sym_peek [OF e(4) _ nn, of "''&''"] by auto
  have "parseback buf c2 p2 = parseback buf (BACK c2) p4" using p4(1,2) by (subst parseback.simps) simp
  then show "\<exists>n c1 p1 c2 p2. parsepipe n buf p = Parsed c1 p1 \<and> parseback buf c1 p1 = parseback buf c2 p2
        \<and> view buf c2 = BACK c \<and> lex_at buf p2 rest"
    using e p4(3) by (intro exI [of _ n] exI [of _ c1] exI [of _ p1] exI [of _ "BACK c2"] exI [of _ p4]) simp
qed

lemma reads_line_LIST:
  assumes l: "reads_back buf l" and r: "reads_line buf r" and nn: "NUL \<notin> set buf"
  shows "reads_line buf (LIST l r)"
  unfolding reads_line_def
proof (intro allI impI)
  fix p rest assume a: "lex_at buf p (pr 3 (LIST l r) @ rest)" "stop '')'' rest"
  have "lex_at buf p (pr 2 l @ Sym (CHR '';'') # pr 3 r @ rest)" using a(1) by (simp add: paren_def)
  then obtain n1 c1 p1 c2 p2 where e: "parsepipe n1 buf p = Parsed c1 p1" "parseback buf c1 p1 = parseback buf c2 p2" "view buf c2 = l"
      "lex_at buf p2 (Sym (CHR '';'') # pr 3 r @ rest)" using l unfolding reads_back_def by fastforce
  obtain p3 where p3: "parseback buf c2 p2 = (c2, p3)" "lex_at buf p3 (Sym (CHR '';'') # pr 3 r @ rest)" using back_stop [OF e(4)] by auto
  obtain p4 w p5 where p5: "peek buf '';'' p3 = (True, p4)" "gettoken buf p4 = (CHR '';'', w, p5)" "lex_at buf p5 (pr 3 r @ rest)"
    using sym_peek [OF p3(2) _ nn, of "'';''"] by auto
  obtain n2 c3 p6 where e2: "parseline n2 buf p5 = Parsed c3 p6" "view buf c3 = r" "lex_at buf p6 rest"
    using r p5(3) a(2) unfolding reads_line_def by blast
  have "parsepipe (max n1 n2) buf p = Parsed c1 p1" "parseline (max n1 n2) buf p5 = Parsed c3 p6"
    using parse_up(2) [OF _ e(1), of "max n1 n2"] parse_up(1) [OF _ e2(1), of "max n1 n2"] by simp_all
  then show "\<exists>n c' p'. parseline n buf p = Parsed c' p' \<and> view buf c' = LIST l r \<and> lex_at buf p' rest"
    using e(2,3) p3(1) p5(1,2) e2(2,3) by (intro exI [of _ "Suc (max n1 n2)"] exI [of _ "LIST c2 c3"] exI [of _ p6]) simp
qed

lemma reads_all:
  assumes "NUL \<notin> set buf" "shape c"
  shows "reads_exec buf c \<and> reads_pipe buf c \<and> reads_back buf c \<and> reads_line buf c"
  using assms(2)
proof (induction c)
  case (EXEC ws)
  then have "reads_exec buf (EXEC ws)" using reads_exec_EXEC [OF _ assms(1)] by simp
  then show ?case by (simp add: reads_simple_exec reads_pipe_simple reads_back_pipe reads_line_back)
next
  case (REDIR c f mode fd)
  then have "reads_exec buf (REDIR c f mode fd)" using reads_exec_REDIR [OF _ _ assms(1)] by simp
  then show ?case by (simp add: reads_simple_exec reads_pipe_simple reads_back_pipe reads_line_back)
next
  case (PIPE l r)
  then have "reads_pipe buf (PIPE l r)" using reads_pipe_PIPE [OF _ _ assms(1)] reads_simple_exec by simp
  moreover from this have "reads_back buf (PIPE l r)" by (rule reads_back_pipe) (simp add: paren_def)
  moreover from this have "reads_line buf (PIPE l r)" by (rule reads_line_back) (simp add: paren_def)
  moreover from this have "reads_exec buf (PIPE l r)" by (rule reads_exec_paren) (simp_all add: paren_def assms(1))
  ultimately show ?case by simp
next
  case (LIST l r)
  then have "reads_line buf (LIST l r)" using reads_line_LIST [OF _ _ assms(1)] by simp
  moreover from this have e: "reads_exec buf (LIST l r)" by (rule reads_exec_paren) (simp_all add: paren_def assms(1))
  moreover from e have "reads_pipe buf (LIST l r)" by (intro reads_pipe_simple reads_simple_exec) (simp_all add: paren_def)
  moreover from this have "reads_back buf (LIST l r)" by (rule reads_back_pipe) (simp add: paren_def)
  ultimately show ?case by simp
next
  case (BACK c)
  then have "reads_back buf (BACK c)" using reads_back_BACK [OF _ assms(1)] by simp
  moreover from this have "reads_line buf (BACK c)" by (rule reads_line_back) (simp add: paren_def)
  moreover from this have e: "reads_exec buf (BACK c)" by (rule reads_exec_paren) (simp_all add: paren_def assms(1))
  moreover from e have "reads_pipe buf (BACK c)" by (intro reads_pipe_simple reads_simple_exec) (simp_all add: paren_def)
  ultimately show ?case by simp
qed

text \<open>
  C8. The shell understands every command the way it is written. For every command tree with fewer than
  \<open>MAXARGS\<close> arguments in each simple command, whose words are non-empty and contain no white space and no
  symbol, and for every line that consists of the tokens of the command (with parentheses where the grammar
  needs them) and any white space between them, \<open>parsecmd\<close> succeeds, and the strings that its result points
  to in the NUL-terminated buffer make up exactly that command tree.
\<close>

theorem parsecmd_inverts_printing:
  assumes line: "text_of (pr 3 c) line" "NUL \<notin> set line"
    and c: "shape c" "\<forall>w\<in>set_cmd c. w \<noteq> [] \<and> (\<forall>x\<in>set w. word_char x)"
  shows "\<exists>c' m' p. parsecmd (line @ NUL # junk) = Parsed (c', m') p \<and> map_cmd (\<lambda>(q, _). cstring m' q) c' = c"
proof -
  let ?m = "line @ NUL # junk"
  have "takeWhile (\<lambda>c. c \<noteq> NUL) ?m = line" using line(2) by (subst takeWhile_append2) auto
  then have b: "cstring ?m 0 = line" by (simp add: cstring_def)
  have "\<forall>t\<in>set (pr k c). tok_ok t" for k
    using c(2) by (induction k c rule: pr.induct) (auto simp: paren_def symbols_def)
  then have "lex_at line 0 (pr 3 c @ [])" using line(1) by (simp add: lex_at_def)
  then obtain n c' p where n: "parseline n line 0 = Parsed c' p" "view line c' = c" "lex_at line p []"
    using reads_all [OF line(2) c(1)] unfolding reads_line_def by fastforce
  let ?N = "4 * length line + 4"
  have g: "good line 0 (parseline ?N line 0)" using parse_ok [OF line(2), of ?N] by simp
  have N: "parseline ?N line 0 = Parsed c' p"
  proof (cases "n \<le> ?N")
    case True
    then show ?thesis using parse_up(1) n(1) by blast
  next
    case False
    then have "le_parse (parseline ?N line 0) (parseline n line 0)" using parse_mono [of ?N line] by simp
    then show ?thesis using g n(1) by (auto simp: le_parse_def)
  qed
  then have ok: "cmd_ok line c'" using g by simp
  have "parsecmd ?m = Parsed (c', nulterminate c' ?m) (length line)"
    using N lex_end(1) [OF n(3)] by (simp add: parsecmd_def b Let_def peek_def)
  moreover have "map_cmd (\<lambda>(q, _). cstring (nulterminate c' ?m) q) c' = view line c'"
  proof (rule cmd.map_cong [OF refl])
    fix w assume "w \<in> set_cmd c'"
    then show "(case w of (q, _) \<Rightarrow> cstring (nulterminate c' ?m) q) = word line w"
      using cstring_word [of ?m c' "fst w" "snd w"] ok b by (simp add: case_prod_unfold)
  qed
  ultimately show ?thesis using n(2) by blast
qed

theorem parsecmd_inverts_printing_witness:
  "\<exists>c' m' p. parsecmd (''(ls a;wc) >f | cat&'' @ newline @ NUL # []) = Parsed (c', m') p
    \<and> map_cmd (\<lambda>(q, _). cstring m' q) c'
      = BACK (PIPE (REDIR (LIST (EXEC [''ls'', ''a'']) (EXEC [''wc''])) ''f'' O_WRONLY_CREATE 1) (EXEC [''cat'']))"
proof -
  let ?c = "BACK (PIPE (REDIR (LIST (EXEC [''ls'', ''a'']) (EXEC [''wc''])) ''f'' O_WRONLY_CREATE 1) (EXEC [''cat'']))"
  note tk = text_of.token [where sp = "[]", simplified] and tks = text_of.token [where sp = "'' ''", simplified]
  have sp: "CHR '' '' \<in> set whitespace" "CHR 0x0A \<in> set whitespace" by (simp_all add: whitespace_def)
  have wc: "\<not> word_char (CHR '' '')" "\<not> word_char (CHR '';'')" "\<not> word_char (CHR '')'')" "\<not> word_char (CHR ''&'')"
    by (simp_all add: word_char_def whitespace_def symbols_def)
  have "text_of [] newline" using sp by (intro text_of.blank) simp
  from tk [OF this, of "Sym (CHR ''&'')"] have "text_of [Sym (CHR ''&'')] (''&'' @ newline)" by simp
  from tks [OF sp(1) this, of "Word ''cat''"] have "text_of [Word ''cat'', Sym (CHR ''&'')] ('' cat&'' @ newline)" using wc by simp
  from tks [OF sp(1) this, of "Sym (CHR ''|'')"]
  have "text_of [Sym (CHR ''|''), Word ''cat'', Sym (CHR ''&'')] ('' | cat&'' @ newline)" by simp
  from tk [OF this, of "Word ''f''"]
  have "text_of [Word ''f'', Sym (CHR ''|''), Word ''cat'', Sym (CHR ''&'')] (''f | cat&'' @ newline)" using wc by simp
  from tk [OF tks [OF sp(1) this, of "Sym (CHR ''>'')"], of "Sym (CHR '')'')"]
  have "text_of [Sym (CHR '')''), Sym (CHR ''>''), Word ''f'', Sym (CHR ''|''), Word ''cat'', Sym (CHR ''&'')] ('') >f | cat&'' @ newline)" by simp
  from tk [OF tk [OF this, of "Word ''wc''"], of "Sym (CHR '';'')"]
  have "text_of [Sym (CHR '';''), Word ''wc'', Sym (CHR '')''), Sym (CHR ''>''), Word ''f'', Sym (CHR ''|''), Word ''cat'', Sym (CHR ''&'')]
    ('';wc) >f | cat&'' @ newline)" using wc by simp
  from tk [OF tk [OF tks [OF sp(1) this, of "Word ''a''"], of "Word ''ls''"], of "Sym (CHR ''('')"]
  have "text_of (pr 3 ?c) (''(ls a;wc) >f | cat&'' @ newline)" using wc by (simp add: paren_def)
  moreover have "NUL \<notin> set (''(ls a;wc) >f | cat&'' @ newline)" "shape ?c" by simp_all
  moreover have "\<forall>w\<in>set_cmd ?c. w \<noteq> [] \<and> (\<forall>x\<in>set w. word_char x)"
    by (simp add: word_char_def whitespace_def symbols_def)
  ultimately show ?thesis using parsecmd_inverts_printing [where junk = "[]"] by (metis append.assoc)
qed

end
