(* ===== verification/Sh_Run.thy ===== *)
theory Sh_Run
  imports Sh_Print
begin

text \<open>
  The processes that \<open>runcmd\<close> starts (theory \<open>Sh\<close>) and the descriptors they are started with. The system
  calls act on a table of at most 16 descriptors, as those of the kernel do.
\<close>

subsection \<open>Processes and descriptors\<close>

datatype obj = Console | OpenFile string int | PipeRead nat | PipeWrite nat

type_synonym fdt = "int \<Rightarrow> obj option"

definition lowest_fd :: "fdt \<Rightarrow> int option" where
  "lowest_fd t = find (\<lambda>fd. t fd = None) [0, 1, 2, 3, 4, 5, 6, 7, 8, 9, 10, 11, 12, 13, 14, 15]"

text \<open>
  \<open>runs ok p t n\<close>: the programs that the process \<open>p\<close> and its children execute, each with its descriptors;
  \<open>t\<close> are the descriptors of \<open>p\<close>, \<open>n\<close> numbers the pipes, and \<open>ok\<close> says which files can be opened.
\<close>

primrec runs :: "(string \<Rightarrow> int \<Rightarrow> bool) \<Rightarrow> prog \<Rightarrow> fdt \<Rightarrow> nat \<Rightarrow> (string list \<times> fdt) list \<times> nat" where
  "runs ok Exit t n = ([], n)"
| "runs ok (Sys call k) t n =
     (case call of
        SExec a as \<Rightarrow> ([(as, t)], n)
      | SClose fd \<Rightarrow> if t fd = None then runs ok (k (- 1)) t n else runs ok (k 0) (t(fd := None)) n
      | SOpen f mode \<Rightarrow>
          (case (if ok f mode then lowest_fd t else None) of None \<Rightarrow> runs ok (k (- 1)) t n
           | Some fd \<Rightarrow> runs ok (k fd) (t(fd := Some (OpenFile f mode))) n)
      | SFork \<Rightarrow>
          (case runs ok (k 0) t n of (child, n1) \<Rightarrow> case runs ok (k 1) t n1 of (parent, n2) \<Rightarrow> (child @ parent, n2))
      | SWait \<Rightarrow> runs ok (k 1) t n
      | SDup fd \<Rightarrow>
          (case t fd of None \<Rightarrow> runs ok (k (- 1)) t n
           | Some x \<Rightarrow> (case lowest_fd t of None \<Rightarrow> runs ok (k (- 1)) t n
                      | Some d \<Rightarrow> runs ok (k d) (t(d := Some x)) n))
      | SPrint fd s \<Rightarrow> runs ok (k 0) t n
      | SChdir s \<Rightarrow> runs ok (k 0) t n)"
| "runs ok (MkPipe k) t n =
     (case lowest_fd t of None \<Rightarrow> runs ok (k None) t n
      | Some a \<Rightarrow> (case lowest_fd (t(a := Some (PipeRead n))) of None \<Rightarrow> runs ok (k None) t n
         | Some b \<Rightarrow> runs ok (k (Some (a, b))) (t(a := Some (PipeRead n), b := Some (PipeWrite n))) (n + 1)))"

text \<open>What a command means: which programs run, and what their input and output are.\<close>

fun wired :: "(string \<Rightarrow> int \<Rightarrow> bool) \<Rightarrow> string cmd \<Rightarrow> fdt \<Rightarrow> nat \<Rightarrow> (string list \<times> fdt) list \<times> nat" where
  "wired ok (EXEC ws) t n = (if ws = [] then [] else [(ws, t)], n)"
| "wired ok (REDIR c f mode fd) t n =
     (if ok f mode then wired ok c (t(fd := Some (OpenFile f mode))) n else ([], n))"
| "wired ok (LIST l r) t n =
     (case wired ok l t n of (xs, n1) \<Rightarrow> case wired ok r t n1 of (ys, n2) \<Rightarrow> (xs @ ys, n2))"
| "wired ok (PIPE l r) t n =
     (case wired ok l (t(1 := Some (PipeWrite n))) (n + 1) of (xs, n1) \<Rightarrow>
      case wired ok r (t(0 := Some (PipeRead n))) n1 of (ys, n2) \<Rightarrow> (xs @ ys, n2))"
| "wired ok (BACK c) t n = wired ok c t n"

text \<open>Exactly the three standard descriptors are open.\<close>

definition std_open :: "fdt \<Rightarrow> bool" where
  "std_open t \<longleftrightarrow> (\<forall>fd. t fd \<noteq> None \<longleftrightarrow> fd = 0 \<or> fd = 1 \<or> fd = 2)"

lemma std_fds: "std_open t \<Longrightarrow> t fd = None \<longleftrightarrow> fd \<noteq> 0 \<and> fd \<noteq> 1 \<and> fd \<noteq> 2"
  unfolding std_open_def by blast

lemma lowest_fd_std:
  assumes "std_open t"
  shows "lowest_fd t = Some 3" "lowest_fd (t(3 := Some x)) = Some 4" "lowest_fd (t(0 := None)) = Some 0" "lowest_fd (t(1 := None)) = Some 1"
    "lowest_fd (t(3 := Some x, 4 := Some y, 0 := None)) = Some 0" "lowest_fd (t(3 := Some x, 4 := Some y, 1 := None)) = Some 1"
  by (simp_all add: lowest_fd_def std_fds [OF assms])

lemma std_update: "std_open t \<Longrightarrow> fd = 0 \<or> fd = 1 \<Longrightarrow> std_open (t(fd := Some x))"
  by (auto simp: std_open_def)

lemma pipe_child:
  assumes "std_open t" "fd = 0 \<or> fd = 1"
  shows "t(3 := Some x, 4 := Some y, fd := Some z, 3 := None, 4 := None) = t(fd := Some z)"
  using std_fds [OF assms(1), of 3] std_fds [OF assms(1), of 4] assms(2) by (auto simp: fun_eq_iff)

lemma fork_child: "runs ok (fork1 (\<lambda>pid. if pid = 0 then p else q)) t n
    = (case runs ok p t n of (xs, n1) \<Rightarrow> case runs ok q t n1 of (ys, n2) \<Rightarrow> (xs @ ys, n2))"
  by (simp add: fork1_def)

lemma runcmd_runs:
  assumes "shape c" "std_open t"
  shows "runs ok (runcmd c) t n = wired ok c t n"
  using assms
proof (induction c arbitrary: t n)
  case (EXEC ws)
  then show ?case by (cases ws) simp_all
next
  case (REDIR c f mode fd)
  have fd: "fd = 0 \<or> fd = 1" and sc: "shape c" using REDIR.prems(1) by auto
  have "lowest_fd (t(fd := None)) = Some fd" using fd lowest_fd_std(3,4) [OF REDIR.prems(2)] by auto
  moreover have "t fd \<noteq> None" using fd by (auto simp: std_fds [OF REDIR.prems(2)])
  moreover have "runs ok (runcmd c) (t(fd := Some (OpenFile f mode))) n = wired ok c (t(fd := Some (OpenFile f mode))) n"
    by (rule REDIR.IH [OF sc std_update [OF REDIR.prems(2) fd]])
  ultimately show ?case using fd by auto
next
  case (PIPE l r)
  note d = PIPE.prems(2)
  note a = lowest_fd_std [OF d]
  let ?w = "Some (PipeWrite n)" and ?r = "Some (PipeRead n)"
  let ?t = "t(3 := ?r, 4 := ?w)"
  let ?L = "Sys (SClose 1) (\<lambda>_. Sys (SDup 4) (\<lambda>_. Sys (SClose 3) (\<lambda>_. Sys (SClose 4) (\<lambda>_. runcmd l))))"
  let ?R = "Sys (SClose 0) (\<lambda>_. Sys (SDup 3) (\<lambda>_. Sys (SClose 3) (\<lambda>_. Sys (SClose 4) (\<lambda>_. runcmd r))))"
  let ?P = "Sys (SClose 3) (\<lambda>_. Sys (SClose 4) (\<lambda>_. Sys SWait (\<lambda>_. Sys SWait (\<lambda>_. Exit))))"
  have l: "runs ok ?L ?t k = wired ok l (t(1 := ?w)) k" for k
    using PIPE a(6) std_update [OF d, of 1] pipe_child [OF d, of 1] by (simp add: std_fds [OF d])
  have r: "runs ok ?R ?t k = wired ok r (t(0 := ?r)) k" for k
    using PIPE a(5) std_update [OF d, of 0] pipe_child [OF d, of 0] by (simp add: std_fds [OF d])
  have p: "runs ok ?P ?t k = ([], k)" for k by simp
  have "runs ok (runcmd (PIPE l r)) t n
      = runs ok (fork1 (\<lambda>pid. if pid = 0 then ?L else fork1 (\<lambda>pid. if pid = 0 then ?R else ?P))) ?t (n + 1)"
    by (simp only: runcmd.simps runs.simps(3) a(1,2) option.case prod.case)
  also have "\<dots> = (case wired ok l (t(1 := ?w)) (n + 1) of (xs, n1) \<Rightarrow>
      case (case wired ok r (t(0 := ?r)) n1 of (ys, n2) \<Rightarrow> case ([], n2) of (zs, n3) \<Rightarrow> (ys @ zs, n3)) of (ys, n2) \<Rightarrow> (xs @ ys, n2))"
    by (simp only: fork_child l r p)
  finally have "runs ok (runcmd (PIPE l r)) t n = (case wired ok l (t(1 := ?w)) (n + 1) of (xs, n1) \<Rightarrow>
      case (case wired ok r (t(0 := ?r)) n1 of (ys, n2) \<Rightarrow> case ([], n2) of (zs, n3) \<Rightarrow> (ys @ zs, n3)) of (ys, n2) \<Rightarrow> (xs @ ys, n2))" .
  moreover obtain xs n1 where x: "wired ok l (t(1 := ?w)) (n + 1) = (xs, n1)" by fastforce
  moreover obtain ys n2 where "wired ok r (t(0 := ?r)) n1 = (ys, n2)" by fastforce
  ultimately show ?case by simp
next
  case (LIST l r)
  have w: "runs ok (Sys SWait (\<lambda>_. runcmd r)) t k = wired ok r t k" for k using LIST by simp
  show ?case using LIST unfolding runcmd.simps fork_child w wired.simps by simp
next
  case (BACK c)
  obtain xs n1 where "wired ok c t n = (xs, n1)" by fastforce
  then show ?case using BACK unfolding runcmd.simps fork_child by simp
qed

lemma wired_std:
  assumes "shape c" "std_open t" "(ws, t') \<in> set (fst (wired ok c t n))"
  shows "std_open t' \<and> ws \<noteq> []"
  using assms
proof (induction c arbitrary: t n)
  case (REDIR c f mode fd)
  then show ?case using std_update [OF REDIR.prems(2), of fd] by (auto split: if_splits)
next
  case (PIPE l r)
  then show ?case using std_update [OF PIPE.prems(2)] by (auto split: prod.splits) (metis fst_conv)+
next
  case (LIST l r)
  then show ?case by (auto split: prod.splits) (metis fst_conv)+
qed (auto split: if_splits)



end
