(* ===== verification/Grep.thy ===== *)
theory Grep
  imports Sh
begin

text \<open>
  \<open>grep\<close> (\<open>grep.c\<close>): the regular expression matcher and the loop over the lines of the input. A C string
  is the list of its characters up to the NUL, and \<open>re[1] == '*'\<close> at the end of a pattern is a
  comparison with NUL.
\<close>

subsection \<open>The matcher\<close>

abbreviation STAR :: char where "STAR \<equiv> CHR ''*''"
abbreviation DOT :: char where "DOT \<equiv> CHR ''.''"

function (sequential) matchhere :: "string \<Rightarrow> string \<Rightarrow> bool"
  and matchstar :: "char \<Rightarrow> string \<Rightarrow> string \<Rightarrow> bool" where
  "matchhere [] str = True"
| "matchhere (c # re) str =
     (if re \<noteq> [] \<and> hd re = STAR then matchstar c (tl re) str
      else if c = CHR ''$'' \<and> re = [] then str = []
      else case str of [] \<Rightarrow> False | t # str' \<Rightarrow> (c = DOT \<or> c = t) \<and> matchhere re str')"
| "matchstar c re str =
     (matchhere re str \<or>
      (case str of [] \<Rightarrow> False | t # str' \<Rightarrow> (t = c \<or> c = DOT) \<and> matchstar c re str'))"
  by pat_completeness auto
termination
  by (relation "measures [\<lambda>x. case x of Inl (re, str) \<Rightarrow> length re | Inr (c, re, str) \<Rightarrow> length re,
        \<lambda>x. case x of Inl (re, str) \<Rightarrow> length str | Inr (c, re, str) \<Rightarrow> length str,
        \<lambda>x. case x of Inl _ \<Rightarrow> 0 | Inr _ \<Rightarrow> 1]")
    (auto simp: neq_Nil_conv)

declare matchhere.simps(2) [simp del] matchstar.simps [simp del]

fun matchany :: "string \<Rightarrow> string \<Rightarrow> bool" where
  "matchany re [] = matchhere re []"
| "matchany re (t # str) = (matchhere re (t # str) \<or> matchany re str)"

definition match :: "string \<Rightarrow> string \<Rightarrow> bool" where
  "match re str = (if re \<noteq> [] \<and> hd re = CHR ''^'' then matchhere (tl re) str else matchany re str)"

subsection \<open>The lines of the input\<close>

text \<open>
  The loop over the newlines in the buffer from \<open>p\<close> on: the text that is written, and what is left at \<open>p\<close>
  when there is no further newline before the terminating NUL.
\<close>

abbreviation NL :: char where "NL \<equiv> CHR 0x0A"

function scan_lines :: "string \<Rightarrow> string \<Rightarrow> string \<times> string" where
  "scan_lines pattern p =
     (if NL \<in> set (takeWhile (\<lambda>c. c \<noteq> NUL) p) then
        (let line = takeWhile (\<lambda>c. c \<noteq> NL) p;
             (out, rest) = scan_lines pattern (drop (length line + 1) p) in
         ((if match pattern line then line @ [NL] else []) @ out, rest))
      else ([], p))"
  by pat_completeness auto
termination
  by (relation "measure (\<lambda>(pattern, p). length p)") (auto dest!: set_takeWhileD length_pos_if_in_set intro!: diff_less)

declare scan_lines.simps [simp del]

text \<open>
  The input as the sequence of what \<open>read\<close> would return at most at each call; a call with less room takes
  a part. \<open>buf\<close> is the kept part of the buffer, its length is \<open>m\<close>.
\<close>

abbreviation BUFSIZE :: nat where "BUFSIZE \<equiv> 1024"

function grep :: "string \<Rightarrow> string \<Rightarrow> string list \<Rightarrow> string" where
  "grep pattern buf [] = []"
| "grep pattern buf (ch # chs) =
     (let room = BUFSIZE - length buf - 1;
          n = min room (length ch) in
      if n = 0 then []
      else
        let b = buf @ take n ch;
            (out, p) = scan_lines pattern b;
            kept = (if length p = length b then [] else p);
            chs' = (if n < length ch then drop n ch # chs else chs) in
        out @ grep pattern kept chs')"
  by pat_completeness auto
termination
  by (relation "measure (\<lambda>(pattern, buf, chs). length chs + length (concat chs))") (auto simp: Let_def)

declare grep.simps(2) [simp del]

subsection \<open>What a pattern means\<close>

text \<open>
  A pattern without its \<open>^\<close> is a list of single characters, each with a flag for a following \<open>*\<close>, and a
  flag for a \<open>$\<close> at the end. A single character stands for itself, the dot for every character.
\<close>

fun items :: "string \<Rightarrow> (char \<times> bool) list \<times> bool" where
  "items [] = ([], False)"
| "items (c # re) =
     (if re \<noteq> [] \<and> hd re = STAR then (case items (tl re) of (xs, e) \<Rightarrow> ((c, True) # xs, e))
      else if c = CHR ''$'' \<and> re = [] then ([], True)
      else case items re of (xs, e) \<Rightarrow> ((c, False) # xs, e))"

definition stands_for :: "char \<Rightarrow> char \<Rightarrow> bool" where
  "stands_for c x \<longleftrightarrow> c = DOT \<or> c = x"

fun lang :: "(char \<times> bool) list \<Rightarrow> string set" where
  "lang [] = {[]}"
| "lang ((c, star) # xs) =
     (if star then {w @ u |w u. (\<forall>x\<in>set w. stands_for c x) \<and> u \<in> lang xs}
      else {x # u |x u. stands_for c x \<and> u \<in> lang xs})"

text \<open>\<open>u @ v\<close> starts with a match \<open>u\<close> of the pattern.\<close>

definition prefix_matches :: "string \<Rightarrow> string \<Rightarrow> bool" where
  "prefix_matches re str \<longleftrightarrow> (\<exists>u v. str = u @ v \<and> u \<in> lang (fst (items re)) \<and> (snd (items re) \<longrightarrow> v = []))"

definition contains_match :: "string \<Rightarrow> string \<Rightarrow> bool" where
  "contains_match re str \<longleftrightarrow>
     (if re \<noteq> [] \<and> hd re = CHR ''^'' then prefix_matches (tl re) str
      else \<exists>s str'. str = s @ str' \<and> prefix_matches re str')"

lemma lang_star:
  "u \<in> lang ((c, True) # xs) \<longleftrightarrow> u \<in> lang xs \<or> (\<exists>x u'. u = x # u' \<and> stands_for c x \<and> u' \<in> lang ((c, True) # xs))"
proof
  assume "u \<in> lang ((c, True) # xs)"
  then obtain w v where w: "u = w @ v" "\<forall>x\<in>set w. stands_for c x" "v \<in> lang xs" by auto
  then show "u \<in> lang xs \<or> (\<exists>x u'. u = x # u' \<and> stands_for c x \<and> u' \<in> lang ((c, True) # xs))"
    by (cases w) auto
next
  assume "u \<in> lang xs \<or> (\<exists>x u'. u = x # u' \<and> stands_for c x \<and> u' \<in> lang ((c, True) # xs))"
  then show "u \<in> lang ((c, True) # xs)"
  proof (elim disjE exE conjE)
    assume "u \<in> lang xs"
    then show ?thesis by (auto intro: exI [of _ "[]"])
  next
    fix x u' assume x: "u = x # u'" "stands_for c x" "u' \<in> lang ((c, True) # xs)"
    then obtain w v where "u' = w @ v" "\<forall>y\<in>set w. stands_for c y" "v \<in> lang xs" by auto
    then have "u = (x # w) @ v \<and> (\<forall>y\<in>set (x # w). stands_for c y) \<and> v \<in> lang xs" using x by simp
    then show ?thesis unfolding lang.simps if_True by blast
  qed
qed

text \<open>A pattern with a leading star item, with a leading single item, with only \<open>$\<close>.\<close>

lemma prefix_star:
  assumes "re \<noteq> []" "hd re = STAR"
  shows "prefix_matches (c # re) str \<longleftrightarrow>
    prefix_matches (tl re) str \<or> (\<exists>t str'. str = t # str' \<and> stands_for c t \<and> prefix_matches (c # re) str')"
proof -
  obtain xs e where i: "items (tl re) = (xs, e)" by fastforce
  have p: "prefix_matches (c # re) s \<longleftrightarrow> (\<exists>u v. s = u @ v \<and> u \<in> lang ((c, True) # xs) \<and> (e \<longrightarrow> v = []))" for s
    using assms i by (simp add: prefix_matches_def del: lang.simps)
  have q: "prefix_matches (tl re) s \<longleftrightarrow> (\<exists>u v. s = u @ v \<and> u \<in> lang xs \<and> (e \<longrightarrow> v = []))" for s
    by (simp add: prefix_matches_def i)
  show ?thesis
  proof
    assume "prefix_matches (c # re) str"
    then obtain u v where u: "str = u @ v" "u \<in> lang ((c, True) # xs)" "e \<longrightarrow> v = []" unfolding p by blast
    from u(2) [unfolded lang_star [of u]]
    show "prefix_matches (tl re) str \<or> (\<exists>t str'. str = t # str' \<and> stands_for c t \<and> prefix_matches (c # re) str')"
      unfolding p q using u(1,3) by (metis append_Cons)
  next
    assume "prefix_matches (tl re) str \<or> (\<exists>t str'. str = t # str' \<and> stands_for c t \<and> prefix_matches (c # re) str')"
    then show "prefix_matches (c # re) str"
      unfolding p q by (metis append_Cons lang_star)
  qed
qed

lemma prefix_single:
  assumes "\<not> (re \<noteq> [] \<and> hd re = STAR)" "\<not> (c = CHR ''$'' \<and> re = [])"
  shows "prefix_matches (c # re) str \<longleftrightarrow> (\<exists>t str'. str = t # str' \<and> stands_for c t \<and> prefix_matches re str')"
proof -
  obtain xs e where i: "items re = (xs, e)" by fastforce
  have "items (c # re) = ((c, False) # xs, e)" using assms i by auto
  then have p: "prefix_matches (c # re) str \<longleftrightarrow> (\<exists>u v. str = u @ v \<and> (\<exists>x u'. u = x # u' \<and> stands_for c x \<and> u' \<in> lang xs) \<and> (e \<longrightarrow> v = []))"
    by (simp add: prefix_matches_def)
  show ?thesis unfolding p by (simp add: prefix_matches_def i) (metis append_Cons)
qed

lemma prefix_end: "prefix_matches ''$'' str \<longleftrightarrow> str = []"
  by (simp add: prefix_matches_def)

lemma matchhere_prefix:
  "matchhere re str \<longleftrightarrow> prefix_matches re str"
  "matchstar c re' str' \<longleftrightarrow> prefix_matches (c # STAR # re') str'"
proof (induction re str and c re' str' rule: matchhere_matchstar.induct)
  case (1 str)
  then show ?case by (simp add: prefix_matches_def)
next
  case (2 c re str)
  consider "re \<noteq> [] \<and> hd re = STAR" | "c = CHR ''$''" "re = []" | "\<not> (re \<noteq> [] \<and> hd re = STAR)" "\<not> (c = CHR ''$'' \<and> re = [])" by blast
  then show ?case
  proof cases
    case 1
    then have "matchhere (c # re) str = matchstar c (tl re) str" by (simp add: matchhere.simps(2))
    moreover have "c # STAR # tl re = c # re" using 1 by (cases re) simp_all
    ultimately show ?thesis using 2(1) [OF 1] by simp
  next
    case 2
    then show ?thesis using prefix_end by (simp add: matchhere.simps(2))
  next
    case 3
    have "matchhere (c # re) str = (case str of [] \<Rightarrow> False | t # str' \<Rightarrow> (c = DOT \<or> c = t) \<and> matchhere re str')"
      using 3 by (subst matchhere.simps(2)) auto
    then show ?thesis using 2(2) [OF 3] prefix_single [OF 3, of str] by (cases str) (auto simp: stands_for_def)
  qed
next
  case (3 c re str)
  have "prefix_matches (c # STAR # re) str \<longleftrightarrow> prefix_matches re str
      \<or> (\<exists>t str'. str = t # str' \<and> stands_for c t \<and> prefix_matches (c # STAR # re) str')"
    using prefix_star [of "STAR # re" c str] by simp
  then show ?case using 3 by (subst matchstar.simps) (cases str, auto simp: stands_for_def)
qed

lemma matchany_contains: "matchany re str \<longleftrightarrow> (\<exists>s str'. str = s @ str' \<and> prefix_matches re str')"
proof (induction str)
  case (Cons t str)
  have "(\<exists>s str'. t # str = s @ str' \<and> prefix_matches re str') \<longleftrightarrow>
      prefix_matches re (t # str) \<or> (\<exists>s str'. str = s @ str' \<and> prefix_matches re str')"
    by (auto simp: Cons_eq_append_conv)
  then show ?case using Cons by (simp add: matchhere_prefix(1))
qed (simp add: matchhere_prefix(1))

lemma match_contains: "match re str \<longleftrightarrow> contains_match re str"
  by (simp add: match_def contains_match_def matchhere_prefix(1) matchany_contains)

subsection \<open>The lines that are printed\<close>

text \<open>The complete lines of a text that starts with \<open>a\<close>, and the rest after the last newline.\<close>

fun lines :: "string \<Rightarrow> string \<Rightarrow> string list \<times> string" where
  "lines a [] = ([], a)"
| "lines a (c # s) =
     (if c = NL then (case lines [] s of (ls, r) \<Rightarrow> (a # ls, r)) else lines (a @ [c]) s)"

definition printed :: "string \<Rightarrow> string list \<Rightarrow> string" where
  "printed re ls = concat (map (\<lambda>l. l @ [NL]) (filter (contains_match re) ls))"

lemma lines_append: "lines a (x @ y) = (case lines a x of (l1, r1) \<Rightarrow> case lines r1 y of (l2, r2) \<Rightarrow> (l1 @ l2, r2))"
  by (induction a x rule: lines.induct) (auto split: prod.splits)

lemma lines_plain: "NL \<notin> set x \<Longrightarrow> lines a x = ([], a @ x)"
  by (induction a x rule: lines.induct) auto

lemma lines_rest: "NL \<notin> set a \<Longrightarrow> NL \<notin> set (snd (lines a s))"
  by (induction a s rule: lines.induct) (auto split: prod.splits)

lemma lines_rest_length: "NL \<in> set s \<Longrightarrow> length (snd (lines a s)) < length s"
proof (induction a s rule: lines.induct)
  case (2 a c s)
  show ?case
  proof (cases "c = NL")
    case True
    have "length (snd (lines [] s)) \<le> length s"
    proof (cases "NL \<in> set s")
      case True
      then show ?thesis using 2(1) \<open>c = NL\<close> by (simp add: less_imp_le)
    qed (simp add: lines_plain)
    then show ?thesis using True by (cases "lines [] s") simp
  next
    case False
    then show ?thesis using 2(2) [OF False] 2(3) by simp
  qed
qed simp

lemma scan_lines_end: "NL \<notin> set p \<Longrightarrow> scan_lines re p = ([], p)"
  by (subst scan_lines.simps) (auto dest: set_takeWhileD)

lemma scan_lines_line:
  assumes "NL \<notin> set l" "NUL \<notin> set l"
  shows "scan_lines re (l @ NL # y) =
    (case scan_lines re y of (out, rest) \<Rightarrow> ((if match re l then l @ [NL] else []) @ out, rest))"
proof -
  have "takeWhile (\<lambda>c. c \<noteq> NUL) (l @ NL # y) = l @ NL # takeWhile (\<lambda>c. c \<noteq> NUL) y"
    using assms(2) by (subst takeWhile_append2) auto
  moreover have "takeWhile (\<lambda>c. c \<noteq> NL) (l @ NL # y) = l"
    using assms(1) by (subst takeWhile_append2) auto
  ultimately show ?thesis by (subst scan_lines.simps) simp
qed

lemma scan_lines_eq: "NUL \<notin> set p \<Longrightarrow> scan_lines re p = (printed re (fst (lines [] p)), snd (lines [] p))"
proof (induction p rule: length_induct)
  case (1 p)
  show ?case
  proof (cases "NL \<in> set p")
    case False
    then show ?thesis by (simp add: scan_lines_end lines_plain printed_def)
  next
    case True
    then obtain l y where p: "p = l @ NL # y" "NL \<notin> set l" by (meson split_list_first)
    then have "scan_lines re y = (printed re (fst (lines [] y)), snd (lines [] y))" using 1 by simp
    moreover have "lines [] p = (case lines [] y of (ls, r) \<Rightarrow> (l # ls, r))"
      using p by (simp add: lines_append lines_plain split: prod.splits)
    moreover have "scan_lines re p = (case scan_lines re y of (out, rest) \<Rightarrow>
        ((if match re l then l @ [NL] else []) @ out, rest))"
      using p 1(2) scan_lines_line by simp
    ultimately show ?thesis by (cases "lines [] y") (simp add: printed_def match_contains)
  qed
qed

lemma grep_lines:
  assumes "NL \<notin> set buf" "length buf < 512" "NUL \<notin> set buf"
    and "\<forall>ch\<in>set chs. NL \<in> set ch \<and> NUL \<notin> set ch \<and> length ch \<le> 512"
  shows "grep re buf chs = printed re (fst (lines buf (concat chs)))"
  using assms
proof (induction chs arbitrary: buf)
  case (Cons ch chs)
  let ?b = "buf @ ch"
  have ch: "NL \<in> set ch" "NUL \<notin> set ch" "length ch \<le> 512" using Cons.prems(4) by simp_all
  have pos: "0 < length ch" using ch(1) by (cases ch) simp_all
  have n: "min (BUFSIZE - length buf - 1) (length ch) = length ch" using Cons.prems(2) ch(3) by simp
  obtain ls p where l: "lines buf ch = (ls, p)" by fastforce
  have b: "lines [] ?b = (ls, p)" using lines_plain [OF Cons.prems(1), of "[]"] l by (simp add: lines_append)
  have "NUL \<notin> set ?b" using Cons.prems(3) ch(2) by simp
  then have s: "scan_lines re ?b = (printed re ls, p)" using scan_lines_eq b by simp
  have p: "length p < length ch" "NL \<notin> set p" using lines_rest_length [OF ch(1), of buf] lines_rest [OF Cons.prems(1), of ch] l by simp_all
  have np: "NUL \<notin> set p"
  proof -
    have "set (snd (lines a x)) \<subseteq> set a \<union> set x" for a x by (induction a x rule: lines.induct) (auto split: prod.splits)
    from this [of buf ch] show ?thesis using Cons.prems(3) ch(2) l by auto
  qed
  have "grep re buf (ch # chs) = printed re ls @ grep re p chs"
    using n pos s p(1) by (subst grep.simps(2)) (simp add: Let_def)
  moreover have "grep re p chs = printed re (fst (lines p (concat chs)))"
    using p np ch(3) Cons.prems(4) by (intro Cons.IH) simp_all
  moreover have "fst (lines buf (concat (ch # chs))) = ls @ fst (lines p (concat chs))"
    using l by (simp add: lines_append split: prod.splits)
  ultimately show ?case by (simp add: printed_def)
qed (simp add: printed_def)

text \<open>
  C40. \<open>grep\<close> prints exactly the matching lines. When each call of \<open>read\<close> returns at most 512 bytes without
  NUL that contain a newline, the output is the complete lines of the input, in order, in which a part
  matches the pattern; a pattern stands for a language (characters, the dot for any character, a star for
  repetition), \<open>^\<close> for the start and \<open>$\<close> for the end of the line.
\<close>

theorem grep_prints_matching_lines:
  assumes "\<forall>ch\<in>set chs. NL \<in> set ch \<and> NUL \<notin> set ch \<and> length ch \<le> 512"
  shows "grep re [] chs = concat (map (\<lambda>l. l @ [NL]) (filter (contains_match re) (fst (lines [] (concat chs)))))"
  using grep_lines [of "[]" chs re] assms by (simp add: printed_def)

theorem grep_prints_matching_lines_witness:
  "grep ''^a.*c$'' [] [''abc'' @ [NL] @ ''ax'', ''c'' @ [NL] @ ''acd'' @ [NL]] = ''abc'' @ [NL] @ ''axc'' @ [NL]"
proof -
  let ?chs = "[''abc'' @ [NL] @ ''ax'', ''c'' @ [NL] @ ''acd'' @ [NL]]"
  have "grep ''^a.*c$'' [] ?chs
      = concat (map (\<lambda>l. l @ [NL]) (filter (contains_match ''^a.*c$'') (fst (lines [] (concat ?chs)))))"
    by (rule grep_prints_matching_lines) simp
  moreover have "match ''^a.*c$'' ''abc''" "match ''^a.*c$'' ''axc''" "\<not> match ''^a.*c$'' ''acd''" by code_simp+
  ultimately show ?thesis by (simp add: match_contains)
qed

text \<open>The first part of a line is lost when \<open>read\<close> returns it without the newline.\<close>

lemma grep_drops_partial_line: "grep ''^ab'' [] [''a'', ''b'' @ [NL]] = [] \<and> grep ''^ab'' [] [''ab'' @ [NL]] = ''ab'' @ [NL]"
  by code_simp

end
