(* ===== verification/Fs_Blocks.thy ===== *)
theory Fs_Blocks
  imports Log_Props Fs
begin

unbundle bit_operations_syntax

text \<open>
  The blocks of the file system inside a transaction. \<open>hq\<close> is the state of the cache and the log while
  some buffers are held; the lemmas give the effect of \<open>bread\<close>, \<open>log_write\<close> and \<open>brelse\<close> on it. On top
  of them the block bitmap: \<open>balloc\<close> marks and returns a block that was free, zeroed.
\<close>

subsection \<open>Held buffers\<close>

definition held :: "'x kbio_scheme \<Rightarrow> (nat \<times> u32) set" where
  "held s = {(a, b_blockno (bufs s a)) |a. a < NBUF \<and> bheld s a}"

definition hq :: "'x klog_scheme \<Rightarrow> (nat \<times> u32) set \<Rightarrow> (u32 \<Rightarrow> block) \<Rightarrow> (u32 \<Rightarrow> block) \<Rightarrow> u32 set \<Rightarrow> bool" where
  "hq s H d v B \<longleftrightarrow> bio_inv s \<and> held s = H \<and> disk s = d \<and> view s = v \<and> dirty s = (\<lambda>m. m \<in> B)
     \<and> (\<forall>m. m \<notin> B \<longrightarrow> v m = d m) \<and> log_dev s = 1 \<and> 0 \<le> lh_n s
     \<and> B = lh_block s ` {..<nat (lh_n s)} \<and> inj_on (lh_block s) {..<nat (lh_n s)}"

lemma hqD:
  assumes "hq s H d v B"
  shows "bio_inv s" "held s = H" "disk s = d" "view s = v" "dirty s = (\<lambda>m. m \<in> B)" "m \<notin> B \<Longrightarrow> v m = d m"
    "log_dev s = 1" "0 \<le> lh_n s" "B = lh_block s ` {..<nat (lh_n s)}" "inj_on (lh_block s) {..<nat (lh_n s)}"
  using assms unfolding hq_def by blast+

lemma lgq_hq: "lgq s d v B \<longleftrightarrow> hq s {} d v B"
proof -
  have "held s = {} \<longleftrightarrow> (\<forall>b<NBUF. \<not> bheld s b)" by (auto simp: held_def)
  moreover have "lgq s d v B \<Longrightarrow> \<forall>m. m \<notin> B \<longrightarrow> v m = d m" using bq_clean by (auto simp: lgq_def)
  ultimately show ?thesis unfolding lgq_def hq_def bq_def by metis
qed

lemma hq_card: "hq s H d v B \<Longrightarrow> lh_n s = int (card B)"
  using hqD(8-10) [of s H d v B] by (simp add: card_image)

lemma hq_finite: "hq s H d v B \<Longrightarrow> finite B"
  using hqD(9) [of s H d v B] by simp

lemma held_iff: "(a, n) \<in> held s \<longleftrightarrow> a < NBUF \<and> bheld s a \<and> b_blockno (bufs s a) = n"
  by (auto simp: held_def)

lemma cache_trunc:
  "held (kbio.truncate s) = held s" "disk (kbio.truncate s) = disk s" "view (kbio.truncate s) = view s"
  "dirty (kbio.truncate s) = dirty s"
  by (simp_all add: held_def view_def dirty_def bheld_def kbio.truncate_def fun_eq_iff split: option.split)

lemma held_finite: "finite (held s)"
  unfolding held_def by (rule finite_surj [of "{..<NBUF}"]) auto

lemma hq_cong:
  assumes "hq s H d v B" "bio_inv t" "held t = H'" "disk t = d" "view t = v" "dirty t = dirty s" "bio_frame s t"
  shows "hq t H' d v B"
  using assms log_frame [OF assms(7)] unfolding hq_def by metis

lemma hq_data: 
  assumes "hq s H d v B" "(a, n) \<in> H"
  shows "b_data (bufs s a) = v n" "a < NBUF" "bheld s a" "b_blockno (bufs s a) = n"
proof -
  show a: "a < NBUF" "bheld s a" "b_blockno (bufs s a) = n" using assms hqD(2) [OF assms(1)] by (auto simp: held_def)
  have "b_valid (bufs s a)" using bio_inv_buf [OF hqD(1) [OF assms(1)] a(1)] a(2) by (simp add: buf_inv_def)
  from view_cached [OF hqD(1) [OF assms(1)] a(1) this a(3)] show "b_data (bufs s a) = v n"
    using hqD(4) [OF assms(1)] by simp
qed

lemma hq_bread:
  assumes q: "hq s H d v B" and n: "n < disksize s" "n \<notin> snd ` H" and room: "card B + card H < NBUF"
  shows "\<exists>a t. bread 1 n s = Ret a t \<and> bio_frame s t \<and> hq t (insert (a, n) H) d v B \<and> b_data (bufs t a) = v n
    \<and> (a, n) \<notin> H"
proof -
  note k = hqD [OF q]
  have fin: "finite (fst ` H)" using held_finite [of s] k(2) by simp
  have "{m. dirty s m} = B" using k(5) by simp
  then have "card {m. dirty s m} + card (fst ` H) < NBUF" using room card_image_le [of H fst] held_finite [of s] k(2) by simp
  from clean_exists [OF k(1) fin this] obtain c where c: "c < NBUF" "c \<notin> fst ` H" "\<not> b_dirty (bufs s c)" by blast
  have "\<not> bheld s c" using c(1,2) k(2) by (force simp: held_def)
  moreover have "b_blockno (bufs s b) \<noteq> n" if "b < NBUF" "bheld s b" for b using that n(2) k(2) by (force simp: held_def)
  ultimately have "can_read s n" using n(1) c by (auto simp: can_read_def)
  then obtain a t where a: "bread 1 n s = Ret a t" "bread_post s n a t" using bread_ok [OF k(1)] by blast
  then have p: "bio_inv t" "bio_frame s t" "a < NBUF" "\<not> bheld s a" "bheld t = (bheld s)(a := True)" "b_blockno (bufs t a) = n"
      "b_data (bufs t a) = v n" "view t = v" "disk t = d" "\<And>c. c \<noteq> a \<Longrightarrow> bufs t c = bufs s c" "dirty t = dirty s"
    using k(3,4) unfolding bread_post_def by simp_all
  have "held t = insert (a, n) H"
    using p(3-6) p(10) k(2) unfolding held_def by (auto split: if_splits)
  then have "hq t (insert (a, n) H) d v B" using hq_cong [OF q p(1) _ p(9,8,11,2)] by simp
  moreover have "(a, n) \<notin> H" using p(4) k(2) by (auto simp: held_def)
  ultimately show ?thesis using a(1) p(2,7) by blast
qed

lemma hq_brelse:
  assumes q: "hq s H d v B" and a: "(a, n) \<in> H"
  shows "\<exists>t. brelse a s = Ret () t \<and> bio_frame s t \<and> hq t (H - {(a, n)}) d v B"
proof -
  note k = hqD [OF q] and h = hq_data [OF q a]
  have "b_dirty (bufs s a) \<or> b_data (bufs s a) = disk s (b_blockno (bufs s a))"
  proof (cases "n \<in> B")
    case True
    then have "dirty s n" using k(5) by simp
    then obtain b where b: "b < NBUF" "b_dirty (bufs s b)" "b_blockno (bufs s b) = n" by (auto simp: dirty_def)
    have "b_dev (bufs s b) = 1" "b_dev (bufs s a) = 1"
      using bio_inv_buf [OF k(1) b(1)] bio_inv_buf [OF k(1) h(2)] b(2) h(3) by (auto simp: buf_inv_def)
    then have "b = a" using bio_inv_unique [OF k(1) b(1) h(2)] b(3) h(4) by simp
    then show ?thesis using b(2) by simp
  next
    case False
    then show ?thesis using k(3,6) h by simp
  qed
  then obtain t where t: "brelse a s = Ret () t" "brelse_post s a t" using brelse_ok [OF k(1) h(2,3)] by blast
  then have p: "bio_inv t" "bio_frame s t" "bheld t = (bheld s)(a := False)" "view t = v" "dirty t = dirty s" "disk t = d"
      "\<And>c. c \<noteq> a \<Longrightarrow> b_blockno (bufs t c) = b_blockno (bufs s c)"
    using k(3,4) unfolding brelse_post_def same_buf_def by simp_all
  have "(c, m) \<in> held t \<longleftrightarrow> (c, m) \<in> H - {(a, n)}" for c m
    unfolding k(2) [symmetric] using p(3,7) h(4) by (cases "c = a") (simp_all add: held_iff)
  then have "held t = H - {(a, n)}" by auto
  then show ?thesis using hq_cong [OF q p(1) _ p(6,4,5,2)] t(1) p(2) by blast
qed

text \<open>New contents for a held buffer, and \<open>log_write\<close>.\<close>

definition in_op :: "'x klog_scheme \<Rightarrow> bool" where
  "in_op s \<longleftrightarrow> 30 \<le> log_size s \<and> 1 \<le> log_outstanding s"

lemma hq_log_write:
  assumes q: "hq s H d v B" and a: "(a, n) \<in> H" and room: "card B < 29" "in_op s"
  shows "\<exists>t. log_write a (set_data a da s) = Ret () t \<and> lg_frame s t \<and> hq t H d (v(n := da)) (insert n B)"
proof -
  note k = hqD [OF q] and h = hq_data [OF q a] and c = hq_card [OF q]
  let ?u = "set_data a da s"
  let ?w = "upd_buf a (\<lambda>bf. bf\<lparr>b_dirty := True\<rparr>) ?u"
  have u: "cpu_ok ?u" "\<not> holding LogLock ?u" "lh_n ?u = lh_n s" "log_size ?u = log_size s"
    "log_outstanding ?u = log_outstanding s" "b_blockno (bufs ?u a) = n" "lh_block ?u = lh_block s"
    using bio_inv_cpu [OF k(1)] h(4) by (simp_all add: set_data_def, simp_all add: upd_buf_def)
  let ?t = "upd_buf a (\<lambda>bf. bf\<lparr>b_dirty := True\<rparr>) (logged n ?u)"
  have lw: "log_write a ?u = Ret () ?t"
    using log_write_eq [OF u(1,2), of a] u(3-6) room k(8) c by (simp add: in_op_def)
  have tw: "?t = logged n ?w" by (simp add: logged_def upd_buf_def split: option.split)
  have wh: "?w = held_step a True da d (disk_writes s) s"
    by (simp add: set_data_def upd_buf_def held_step_def k(3)[symmetric])
  have i: "bio_inv ?w" unfolding wh by (rule held_step_inv [OF k(1) h(2,3)]) (simp add: k(3))
  have v: "view ?w = v(n := da)" unfolding wh using held_step_view [OF k(1) h(2,3), of d] by (simp add: h(4) k(3,4))
  have di: "dirty ?w = (\<lambda>m. m \<in> insert n B)"
    unfolding wh using held_step_dirty [OF k(1) h(2,3)] unfolding h(4) k(5) by (auto simp: fun_eq_iff)
  have hd: "held ?w = H" unfolding wh held_def held_step_select(4) using k(2) by (force simp: held_def held_step_select)
  have fr: "bio_frame s ?w" unfolding wh by (rule held_step_select)
  have tr: "kbio.truncate ?t = kbio.truncate ?w" unfolding tw by (rule logged_trunc)
  have e: "bio_inv ?t = bio_inv ?w" "held ?t = held ?w" "disk ?t = disk ?w" "view ?t = view ?w" "dirty ?t = dirty ?w"
    using tr by (metis bio_inv_trunc, (metis cache_trunc)+)
  have w: "lh_n ?w = lh_n s" "lh_block ?w = lh_block s" using u(3,7) by (simp_all add: upd_buf_def)
  have lb: "0 \<le> lh_n ?t" "insert n B = lh_block ?t ` {..<nat (lh_n ?t)}" "inj_on (lh_block ?t) {..<nat (lh_n ?t)}"
    using logged_blocks [of ?w B n] k(8-10) w unfolding tw by auto
  have f: "lg_frame s ?t" unfolding tw using lg_frame_trans [OF bio_lg_frame [OF fr] logged_frame] .
  have "log_dev ?t = 1" using lg_frame_select(25) [OF f] k(7) by simp
  moreover have "disk ?w = d" unfolding wh by (simp add: held_step_select)
  ultimately have "hq ?t H d (v(n := da)) (insert n B)"
    unfolding hq_def e using i v di hd lb k(6) by auto
  then show ?thesis using lw f by blast
qed

subsection \<open>The bitmap\<close>

definition used :: "superblock \<Rightarrow> (u32 \<Rightarrow> block) \<Rightarrow> u32 \<Rightarrow> bool" where
  "used S v b \<longleftrightarrow> bit_set (v (BBLOCK b S)) (unat b mod BPB)"

definition set_bit_of :: "nat \<Rightarrow> block \<Rightarrow> block" where
  "set_bit_of bi d = d(bi div 8 := d (bi div 8) OR push_bit (bi mod 8) 1)"

definition mark :: "superblock \<Rightarrow> u32 \<Rightarrow> (u32 \<Rightarrow> block) \<Rightarrow> u32 \<Rightarrow> block" where
  "mark S b v = v(BBLOCK b S := set_bit_of (unat b mod BPB) (v (BBLOCK b S)))"

definition zeroed :: "block \<Rightarrow> block" where
  "zeroed d = (\<lambda>i. if i < BSIZE then 0 else d i)"

definition bitmap_blocks :: "superblock \<Rightarrow> u32 set" where
  "bitmap_blocks S = {BBLOCK b S |b. b < sb_size S}"

lemma bit_set_iff: "bit_set d bi \<longleftrightarrow> bit (d (bi div 8)) (bi mod 8)"
  by (simp add: bit_set_def bit_iff_and_push_bit_not_eq_0)

lemma bit_set_set: "bit_set (set_bit_of bi d) bj \<longleftrightarrow> bit_set d bj \<or> bi = bj"
proof -
  have "bi = bj" if "bi div 8 = bj div 8" "bi mod 8 = bj mod 8" using that by (metis mult_div_mod_eq)
  then show ?thesis by (auto simp: bit_set_iff set_bit_of_def bit_simps bit_1_iff)
qed

lemma BBLOCK_eq: "BBLOCK a S = BBLOCK b S \<longleftrightarrow> unat a div BPB = unat b div BPB"
proof -
  have "unat (x div of_nat BPB :: u32) = unat x div BPB" for x by (simp add: unat_div)
  then show ?thesis by (simp add: BBLOCK_def) (metis word_unat_eq_iff)
qed

lemma used_mark [simp]: "used S (mark S b v) c \<longleftrightarrow> used S v c \<or> c = b"
proof (cases "BBLOCK c S = BBLOCK b S")
  case True
  have "c = b" if "unat c mod BPB = unat b mod BPB"
    using True that unfolding BBLOCK_eq by (metis mult_div_mod_eq word_unat_eq_iff)
  then show ?thesis using True by (auto simp: used_def mark_def bit_set_set)
next
  case False
  then show ?thesis by (auto simp: used_def mark_def)
qed

lemma used_other: "m \<notin> bitmap_blocks S \<Longrightarrow> c < sb_size S \<Longrightarrow> used S (v(m := x)) c = used S v c"
  by (auto simp: used_def bitmap_blocks_def)

subsection \<open>Allocating a block\<close>

lemma bzero_ok:
  assumes q: "hq s H d v B" and n: "n < disksize s" "n \<notin> snd ` H" and room: "card B < 29" "card H \<le> 1" "in_op s"
  shows "\<exists>t. bzero 1 n s = Ret () t \<and> lg_frame s t \<and> hq t H d (v(n := zeroed (v n))) (insert n B)"
proof -
  obtain a s1 where a: "bread 1 n s = Ret a s1" "bio_frame s s1" "hq s1 (insert (a, n) H) d v B" "b_data (bufs s1 a) = v n"
      "(a, n) \<notin> H"
    using hq_bread [OF q n] room(1,2) by auto
  have "in_op s1" using room(3) log_frame [OF a(2)] by (simp add: in_op_def)
  then obtain s2 where s2: "log_write a (set_data a (zeroed (v n)) s1) = Ret () s2" "lg_frame s1 s2"
      "hq s2 (insert (a, n) H) d (v(n := zeroed (v n))) (insert n B)"
    using hq_log_write [OF a(3) insertI1 room(1)] by blast
  obtain t where t: "brelse a s2 = Ret () t" "bio_frame s2 t" "hq t (insert (a, n) H - {(a, n)}) d (v(n := zeroed (v n))) (insert n B)"
    using hq_brelse [OF s2(3) insertI1] by blast
  have "insert (a, n) H - {(a, n)} = H" using a(5) by auto
  moreover have "bzero 1 n s = Ret () t"
    using a(1,4) s2(1) t(1) by (simp add: bzero_def Let_def zeroed_def [symmetric])
  moreover have "lg_frame s t" using lg_frame_trans [OF lg_frame_trans [OF bio_lg_frame [OF a(2)] s2(2)] bio_lg_frame [OF t(2)]] .
  ultimately show ?thesis using t(3) by auto
qed

lemma lg_frame_fs:
  assumes "lg_frame s t"
  shows "icache t = icache s" "sb t = sb s"
proof -
  have e: "s\<lparr>slocks := slocks t, bufs := bufs t, disk := disk t, disk_writes := disk_writes t,
       lh_n := lh_n t, lh_block := lh_block t\<rparr> = t"
    using assms by (simp add: lg_frame_def)
  show "icache t = icache s" using arg_cong [OF e, of icache] by simp
  show "sb t = sb s" using arg_cong [OF e, of sb] by simp
qed

lemma in_op_frame: "lg_frame s t \<Longrightarrow> in_op t = in_op s"
  using lg_frame_select [of s t] by (simp add: in_op_def)

text \<open>The view after the allocation of \<open>b\<close>.\<close>

definition allocated :: "superblock \<Rightarrow> u32 \<Rightarrow> (u32 \<Rightarrow> block) \<Rightarrow> u32 \<Rightarrow> block" where
  "allocated S b v = (mark S b v)(b := zeroed (mark S b v b))"

lemma balloc_take:
  assumes q: "hq s H d v B" and n: "b < disksize s" "b \<notin> snd ` H" "BBLOCK b (sb s) < disksize s" "BBLOCK b (sb s) \<notin> snd ` H"
    and room: "card (insert (BBLOCK b (sb s)) B) < 29" "card H \<le> 1" "in_op s"
  shows "\<exists>a s1. bread 1 (BBLOCK b (sb s)) s = Ret a s1 \<and> b_data (bufs s1 a) = v (BBLOCK b (sb s)) \<and> lg_frame s s1
    \<and> (\<exists>s2 s3 t. log_write a (set_data a (set_bit_of (unat b mod BPB) (v (BBLOCK b (sb s)))) s1) = Ret () s2
        \<and> brelse a s2 = Ret () s3 \<and> bzero 1 b s3 = Ret () t \<and> lg_frame s t
        \<and> hq t H d (allocated (sb s) b v) (insert b (insert (BBLOCK b (sb s)) B)))"
proof -
  let ?m = "BBLOCK b (sb s)" and ?da = "set_bit_of (unat b mod BPB) (v (BBLOCK b (sb s)))"
  have cB: "card B < 29" using room(1) card_insert_le [of B ?m] by simp
  obtain a s1 where a: "bread 1 ?m s = Ret a s1" "bio_frame s s1" "hq s1 (insert (a, ?m) H) d v B" "b_data (bufs s1 a) = v ?m"
      "(a, ?m) \<notin> H"
    using hq_bread [OF q n(3,4)] cB room(2) by auto
  note f1 = bio_lg_frame [OF a(2)]
  obtain s2 where s2: "log_write a (set_data a ?da s1) = Ret () s2" "lg_frame s1 s2"
      "hq s2 (insert (a, ?m) H) d (v(?m := ?da)) (insert ?m B)"
    using hq_log_write [OF a(3) insertI1 cB] room(3) in_op_frame [OF f1] by blast
  obtain s3 where s3: "brelse a s2 = Ret () s3" "bio_frame s2 s3"
      "hq s3 (insert (a, ?m) H - {(a, ?m)}) d (v(?m := ?da)) (insert ?m B)"
    using hq_brelse [OF s2(3) insertI1] by blast
  note f3 = lg_frame_trans [OF lg_frame_trans [OF f1 s2(2)] bio_lg_frame [OF s3(2)]]
  have "insert (a, ?m) H - {(a, ?m)} = H" using a(5) by auto
  then have q3: "hq s3 H d (mark (sb s) b v) (insert ?m B)" using s3(3) by (simp add: mark_def)
  have "b < disksize s3" "in_op s3" using n(1) room(3) lg_frame_select [OF f3] in_op_frame [OF f3] by simp_all
  from bzero_ok [OF q3 this(1) n(2) room(1,2) this(2)] obtain t where
    t: "bzero 1 b s3 = Ret () t" "lg_frame s3 t" "hq t H d (allocated (sb s) b v) (insert b (insert ?m B))"
    unfolding allocated_def by blast
  show ?thesis using a(1,4) f1 s2(1) s3(1) t lg_frame_trans [OF f3 t(2)] by blast
qed

lemma BBLOCK_row:
  assumes "BPB * k + bi < 2 ^ 32" "bi < BPB"
  shows "BBLOCK (of_nat (BPB * k)) S = BBLOCK (of_nat (BPB * k + bi)) S" "unat (of_nat (BPB * k + bi) :: u32) mod BPB = bi"
    "unat (of_nat (BPB * k + bi) :: u32) = BPB * k + bi"
proof -
  show u: "unat (of_nat (BPB * k + bi) :: u32) = BPB * k + bi" using assms(1) by (rule unat_of_nat32)
  have "unat (of_nat (BPB * k) :: u32) = BPB * k" using assms(1) by (intro unat_of_nat32) simp
  then show "BBLOCK (of_nat (BPB * k)) S = BBLOCK (of_nat (BPB * k + bi)) S" unfolding BBLOCK_eq u using assms(2) by simp
  show "unat (of_nat (BPB * k + bi) :: u32) mod BPB = bi" unfolding u using assms(2) by simp
qed

text \<open>What \<open>balloc\<close> needs: a free block, and room in the log for the bitmap block and the new block.\<close>

definition balloc_pre :: "'x kfs_scheme \<Rightarrow> (nat \<times> u32) set \<Rightarrow> (u32 \<Rightarrow> block) \<Rightarrow> u32 set \<Rightarrow> bool" where
  "balloc_pre s H v B \<longleftrightarrow> in_op s \<and> card H \<le> 1 \<and> card (B \<union> bitmap_blocks (sb s)) < 29 \<and> sb_size (sb s) \<le> disksize s
     \<and> (\<forall>m\<in>bitmap_blocks (sb s). m < disksize s \<and> m \<notin> snd ` H)
     \<and> (\<forall>b < sb_size (sb s). \<not> used (sb s) v b \<longrightarrow> b \<notin> snd ` H)"

lemma balloc_loop_ok:
  assumes "hq s H d v B" "balloc_pre s H v B" "\<exists>b. BPB * k \<le> unat b \<and> b < sb_size (sb s) \<and> \<not> used (sb s) v b"
    and "n = (unat (sb_size (sb s)) + BPB - 1) div BPB"
  shows "\<exists>b t. balloc_loop 1 [k..<n] s = Ret b t \<and> b < sb_size (sb s) \<and> \<not> used (sb s) v b \<and> lg_frame s t
    \<and> hq t H d (allocated (sb s) b v) (insert b (insert (BBLOCK b (sb s)) B))"
  using assms
proof (induction "n - k" arbitrary: k s)
  case 0
  then obtain b where "BPB * k \<le> unat b" "unat b < unat (sb_size (sb s))" by (auto simp: word_less_nat_alt)
  then show ?case using 0(1,5) by (simp add: div_le_mono)
next
  case (Suc x)
  let ?S = "sb s" and ?row = "BBLOCK (of_nat (BPB * k)) (sb s)"
  let ?N = "unat (sb_size ?S)"
  note q = Suc.prems(1) and pre = Suc.prems(2)
  have kn: "k < n" using Suc(2) by simp
  then have kN: "BPB * k < ?N" unfolding Suc.prems(4) by (simp add: less_eq_div_iff_mult_less_eq Suc_le_eq [symmetric])
  have N: "?N < 2 ^ 32" using unsigned_less [of "sb_size ?S"] by simp
  have rowin: "?row \<in> bitmap_blocks ?S"
    unfolding bitmap_blocks_def using kN N unat_of_nat32 [of "BPB * k"]
    by (auto simp: word_less_nat_alt simp del: of_nat_mult intro!: exI [of _ "of_nat (BPB * k)"])
  then have row: "?row < disksize s" "?row \<notin> snd ` H" using pre by (auto simp: balloc_pre_def)
  have fin: "finite B" using hq_finite [OF q] .
  have cB: "card (insert ?row B) < 29" "card B < 29"
    using pre rowin fin card_mono [of "B \<union> bitmap_blocks ?S" "insert ?row B"] card_mono [of "B \<union> bitmap_blocks ?S" B]
    by (auto simp: balloc_pre_def)
  let ?P = "\<lambda>bi. BPB * k + bi < ?N \<longrightarrow> \<not> bit_set (v ?row) bi"
  have usedbit: "used ?S v (of_nat (BPB * k + bi)) = bit_set (v ?row) bi" if "bi < BPB" "BPB * k + bi < ?N" for bi
    using BBLOCK_row(1) [of k bi ?S] BBLOCK_row(2,3) [of k bi] that(1) less_trans [OF that(2) N] by (simp add: used_def)
  show ?case
  proof (cases "\<exists>bi<BPB. BPB * k + bi < ?N \<and> \<not> bit_set (v ?row) bi")
    case True
    then obtain bj where bj: "bj < BPB" "BPB * k + bj < ?N" "\<not> bit_set (v ?row) bj" by blast
    then obtain bi where fi: "first_idx BPB ?P = Some bi" using first_idx_None_iff [of BPB ?P] by (cases "first_idx BPB ?P") auto
    then have bi: "bi < BPB" "?P bi" "\<not> bj < bi" using bj(3) by (auto simp: first_idx_Some_iff)
    then have inr: "BPB * k + bi < ?N" using bj(2) by simp
    let ?b = "of_nat (BPB * k + bi) :: u32"
    have ub: "unat ?b = BPB * k + bi" "unat ?b mod BPB = bi" "BBLOCK ?b ?S = ?row"
      using BBLOCK_row(1) [of k bi ?S] BBLOCK_row(2,3) [of k bi] less_trans [OF inr N] bi(1) by auto
    have b: "?b < sb_size ?S" "\<not> used ?S v ?b"
      using inr ub(1) usedbit [OF bi(1) inr] bi(2) by (simp_all add: word_less_nat_alt del: of_nat_mult of_nat_add)
    have bd: "?b < disksize s" "?b \<notin> snd ` H" using b pre by (auto simp: balloc_pre_def)
    have pr: "card H \<le> 1" "in_op s" using pre by (simp_all add: balloc_pre_def)
    from balloc_take [OF q bd, unfolded ub(2,3), OF row cB(1) pr] obtain a s1 s2 s3 t where
      s1: "bread 1 ?row s = Ret a s1" "b_data (bufs s1 a) = v ?row" "lg_frame s s1"
      and t: "log_write a (set_data a (set_bit_of bi (v ?row)) s1) = Ret () s2" "brelse a s2 = Ret () s3"
        "bzero 1 ?b s3 = Ret () t" "lg_frame s t" "hq t H d (allocated ?S ?b v) (insert ?b (insert ?row B))"
      by blast
    have "balloc_loop 1 [k..<n] s = Ret ?b t"
      using kn s1(1,2) lg_frame_fs(2) [OF s1(3)] fi inr t(1) [unfolded set_bit_of_def] t(2,3)
      by (simp add: upt_conv_Cons Let_def)
    then show ?thesis using b t(4,5) ub(3) by metis
  next
    case False
    obtain a s1 where a: "bread 1 ?row s = Ret a s1" "bio_frame s s1" "hq s1 (insert (a, ?row) H) d v B" "b_data (bufs s1 a) = v ?row"
        "(a, ?row) \<notin> H"
      using hq_bread [OF q row] cB(2) pre by (auto simp: balloc_pre_def)
    obtain s2 where s2: "brelse a s1 = Ret () s2" "bio_frame s1 s2" "hq s2 (insert (a, ?row) H - {(a, ?row)}) d v B"
      using hq_brelse [OF a(3) insertI1] by blast
    note f = bio_lg_frame [OF bio_frame_trans [OF a(2) s2(2)]]
    have "insert (a, ?row) H - {(a, ?row)} = H" using a(5) by auto
    then have q2: "hq s2 H d v B" using s2(3) by simp
    have sb: "sb s1 = ?S" "sb s2 = ?S" using lg_frame_fs(2) [OF bio_lg_frame [OF a(2)]] lg_frame_fs(2) [OF f] by simp_all
    have step: "balloc_loop 1 [k..<n] s = balloc_loop 1 [Suc k..<n] s2"
    proof (cases "first_idx BPB ?P")
      case None
      then show ?thesis using kn a(1,4) s2(1) sb by (simp add: upt_conv_Cons)
    next
      case (Some bi)
      then have "bi < BPB" "?P bi" by (auto dest: first_idx_SomeD)
      then have "\<not> BPB * k + bi < ?N" using False by blast
      then show ?thesis using kn a(1,4) s2(1) sb Some by (simp add: upt_conv_Cons)
    qed
    have "\<exists>b. BPB * Suc k \<le> unat b \<and> b < sb_size (sb s2) \<and> \<not> used (sb s2) v b"
    proof -
      obtain b where b: "BPB * k \<le> unat b" "b < sb_size ?S" "\<not> used ?S v b" using Suc.prems(3) by blast
      have "BPB * Suc k \<le> unat b"
      proof (rule ccontr)
        assume "\<not> BPB * Suc k \<le> unat b"
        then obtain bi where "unat b = BPB * k + bi" "bi < BPB" using b(1) by (metis add_mult_distrib2 le_Suc_ex mult_Suc_right nat_add_left_cancel_less not_le add.commute)
        moreover from this have "b = of_nat (BPB * k + bi)" by (metis unsigned_of_nat word_of_nat_eq_iff of_nat_unat ucast_id)
        ultimately show False using False usedbit [of bi] b(2,3) by (auto simp: word_less_nat_alt)
      qed
      then show ?thesis using b sb by auto
    qed
    moreover have "balloc_pre s2 H v B" using pre sb(2) in_op_frame [OF f] lg_frame_select [OF f] by (simp add: balloc_pre_def)
    moreover have "x = n - Suc k" "n = (unat (sb_size (sb s2)) + BPB - 1) div BPB" using Suc(2) Suc.prems(4) sb(2) by simp_all
    ultimately obtain b t where "balloc_loop 1 [Suc k..<n] s2 = Ret b t" "b < sb_size ?S" "\<not> used ?S v b" "lg_frame s2 t"
        "hq t H d (allocated ?S b v) (insert b (insert (BBLOCK b ?S) B))"
      using Suc(1) [of "Suc k" s2] q2 unfolding sb(2) by blast
    then show ?thesis using step lg_frame_trans [OF f] by metis
  qed
qed

lemma balloc_ok:
  assumes "hq s H d v B" "balloc_pre s H v B" "\<exists>b < sb_size (sb s). \<not> used (sb s) v b"
  shows "\<exists>b t. balloc 1 s = Ret b t \<and> b < sb_size (sb s) \<and> \<not> used (sb s) v b \<and> lg_frame s t
    \<and> hq t H d (allocated (sb s) b v) (insert b (insert (BBLOCK b (sb s)) B))"
  unfolding balloc_def using balloc_loop_ok [OF assms(1,2), of 0] assms(3) by simp

end
