(* ===== verification/Fs_Map.thy ===== *)
theory Fs_Map
  imports Fs_Blocks
begin

unbundle bit_operations_syntax

text \<open>
  The block map of a file. A \<open>slot\<close> is a place that holds a block number: an entry of \<open>addrs\<close> in the
  inode, or an entry of a block of block numbers that another slot leads to. A file is well-formed when
  its block numbers are different blocks in use outside the metadata. \<open>bmap\<close> allocates what is missing on
  the way to a block and keeps the file well-formed and all its bytes, a missing block counting as zeros.
\<close>

subsection \<open>Slots\<close>

datatype slot = Addr nat | Entry slot nat

fun ptr :: "(u32 \<Rightarrow> block) \<Rightarrow> (nat \<Rightarrow> u32) \<Rightarrow> slot \<Rightarrow> u32" where
  "ptr v A (Addr k) = A k"
| "ptr v A (Entry p j) = (if ptr v A p = 0 then 0 else get32 (v (ptr v A p)) (4 * j))"

fun vslot :: "slot \<Rightarrow> bool" where
  "vslot (Addr k) = (k < NDIRECT + 2)"
| "vslot (Entry (Addr k) j) = ((k = NDIRECT \<or> k = NDIRECT + 1) \<and> j < NINDIRECT)"
| "vslot (Entry (Entry (Addr k) i) j) = (k = NDIRECT + 1 \<and> i < NINDIRECT \<and> j < NINDIRECT)"
| "vslot (Entry (Entry (Entry p h) i) j) = False"

text \<open>The slot of the block \<open>bn\<close> of a file.\<close>

definition fslot :: "nat \<Rightarrow> slot" where
  "fslot bn =
     (if bn < NDIRECT then Addr bn
      else if bn < NDIRECT + NINDIRECT then Entry (Addr NDIRECT) (bn - NDIRECT)
      else Entry (Entry (Addr (NDIRECT + 1)) ((bn - NDIRECT - NINDIRECT) div NINDIRECT))
             ((bn - NDIRECT - NINDIRECT) mod NINDIRECT))"

definition fbyte :: "(u32 \<Rightarrow> block) \<Rightarrow> (nat \<Rightarrow> u32) \<Rightarrow> nat \<Rightarrow> u8" where
  "fbyte v A k = (let b = ptr v A (fslot (k div BSIZE)) in if b = 0 then 0 else v b (k mod BSIZE))"

lemma vslot_parent: "vslot (Entry p j) \<Longrightarrow> vslot p \<and> j < NINDIRECT"
  by (cases p rule: vslot.cases) auto

lemma fslot_valid: "bn < MAXFILE \<Longrightarrow> vslot (fslot bn)"
  by (auto simp: fslot_def less_mult_imp_div_less)

lemma fslot_inj: "fslot a = fslot b \<Longrightarrow> a = b"
proof -
  assume e: "fslot a = fslot b"
  have "a - 139 = b - 139" if "(a - 139) div 128 = (b - 139) div 128" "(a - 139) mod 128 = (b - 139) mod 128"
    using that by (metis mult_div_mod_eq)
  then show "a = b" using e by (auto simp: fslot_def split: if_splits)
qed

lemma fslot_not_parent: "vslot (Entry p j) \<Longrightarrow> p \<noteq> fslot bn"
  by (cases p rule: vslot.cases) (auto simp: fslot_def)

subsection \<open>Well-formed file systems and files\<close>

definition meta :: "superblock \<Rightarrow> u32 set" where
  "meta S = {0, 1} \<union> bitmap_blocks S \<union> {IBLOCK i S |i. i < sb_ninodes S}
     \<union> {sb_logstart S + of_nat k |k. k < unat (sb_nlog S)}"

definition fs_wf :: "superblock \<Rightarrow> (u32 \<Rightarrow> block) \<Rightarrow> bool" where
  "fs_wf S v \<longleftrightarrow> (\<forall>m\<in>meta S. m < sb_size S \<and> used S v m) \<and> (\<forall>i < sb_ninodes S. IBLOCK i S \<notin> bitmap_blocks S)"

definition file_wf :: "superblock \<Rightarrow> (u32 \<Rightarrow> block) \<Rightarrow> (nat \<Rightarrow> u32) \<Rightarrow> bool" where
  "file_wf S v A \<longleftrightarrow>
     (\<forall>x. vslot x \<and> ptr v A x \<noteq> 0 \<longrightarrow> ptr v A x < sb_size S \<and> used S v (ptr v A x) \<and> ptr v A x \<notin> meta S)
     \<and> (\<forall>x y. vslot x \<and> vslot y \<and> ptr v A x = ptr v A y \<and> ptr v A x \<noteq> 0 \<longrightarrow> x = y)"

definition file_blocks :: "(u32 \<Rightarrow> block) \<Rightarrow> (nat \<Rightarrow> u32) \<Rightarrow> u32 set" where
  "file_blocks v A = {ptr v A x |x. vslot x \<and> ptr v A x \<noteq> 0}"

lemma file_wfD:
  assumes "file_wf S v A" "vslot x" "ptr v A x \<noteq> 0"
  shows "ptr v A x < sb_size S" "used S v (ptr v A x)" "ptr v A x \<notin> meta S"
  using assms by (auto simp: file_wf_def)

lemma file_wf_inj: "file_wf S v A \<Longrightarrow> vslot x \<Longrightarrow> vslot y \<Longrightarrow> ptr v A x = ptr v A y \<Longrightarrow> ptr v A x \<noteq> 0 \<Longrightarrow> x = y"
  unfolding file_wf_def by blast

lemma bitmap_meta: "bitmap_blocks S \<subseteq> meta S" "b < sb_size S \<Longrightarrow> BBLOCK b S \<in> meta S" "0 \<in> meta S" "1 \<in> meta S"
  by (auto simp: meta_def bitmap_blocks_def)

subsection \<open>Filling a slot\<close>

text \<open>The block number \<open>b\<close> is stored in an empty slot.\<close>

fun store :: "slot \<Rightarrow> u32 \<Rightarrow> (u32 \<Rightarrow> block) \<Rightarrow> (nat \<Rightarrow> u32) \<Rightarrow> (u32 \<Rightarrow> block) \<times> (nat \<Rightarrow> u32)" where
  "store (Addr k) b v A = (v, A(k := b))"
| "store (Entry p j) b v A = (v(ptr v A p := put32 (4 * j) b (v (ptr v A p))), A)"

text \<open>A free block \<open>b\<close> can be put into the slot \<open>x\<close>.\<close>

definition can_fill :: "superblock \<Rightarrow> (u32 \<Rightarrow> block) \<Rightarrow> (nat \<Rightarrow> u32) \<Rightarrow> slot \<Rightarrow> u32 \<Rightarrow> bool" where
  "can_fill S v A x b \<longleftrightarrow> fs_wf S v \<and> file_wf S v A \<and> vslot x \<and> ptr v A x = 0 \<and> b < sb_size S \<and> \<not> used S v b
     \<and> (\<forall>p j. x = Entry p j \<longrightarrow> ptr v A p \<noteq> 0)"

lemma fill_fresh:
  assumes "can_fill S v A x b"
  shows "b \<notin> meta S" "vslot y \<Longrightarrow> ptr v A y \<noteq> 0 \<Longrightarrow> ptr v A y \<noteq> b"
  using assms file_wfD(2) by (auto simp: can_fill_def fs_wf_def)

lemma allocated_other: "m \<noteq> b \<Longrightarrow> m \<noteq> BBLOCK b S \<Longrightarrow> allocated S b v m = v m"
  by (simp add: allocated_def mark_def)

lemma allocated_keeps:
  assumes "can_fill S v A x b" "vslot y" "ptr v A y \<noteq> 0"
  shows "allocated S b v (ptr v A y) = v (ptr v A y)"
proof (rule allocated_other)
  show "ptr v A y \<noteq> b" using fill_fresh(2) [OF assms] .
  have "BBLOCK b S \<in> meta S" using assms(1) bitmap_meta(2) by (simp add: can_fill_def)
  moreover have "ptr v A y \<notin> meta S" using assms file_wfD(3) by (auto simp: can_fill_def)
  ultimately show "ptr v A y \<noteq> BBLOCK b S" by metis
qed

lemma allocated_ptr:
  assumes "can_fill S v A x b" "vslot y"
  shows "ptr (allocated S b v) A y = ptr v A y"
  using assms(2)
proof (induction y)
  case (Entry q i)
  then have "vslot q" using vslot_parent by blast
  then show ?case using Entry allocated_keeps [OF assms(1)] by simp
qed simp

lemma allocated_new: "i < BSIZE \<Longrightarrow> allocated S b v b i = 0"
  by (simp add: allocated_def zeroed_def)

lemma get32_zero: "(\<And>i. i < BSIZE \<Longrightarrow> d i = 0) \<Longrightarrow> j < NINDIRECT \<Longrightarrow> get32 d (4 * j) = 0"
  by (simp add: get32_def)

definition filled :: "superblock \<Rightarrow> slot \<Rightarrow> u32 \<Rightarrow> (u32 \<Rightarrow> block) \<Rightarrow> (nat \<Rightarrow> u32) \<Rightarrow> (u32 \<Rightarrow> block) \<times> (nat \<Rightarrow> u32)" where
  "filled S x b v A = store x b (allocated S b v) A"

lemma filled_parent:
  assumes c: "can_fill S v A (Entry p j) b"
  shows "filled S (Entry p j) b v A = ((allocated S b v)(ptr v A p := put32 (4 * j) b (v (ptr v A p))), A)"
proof -
  have "vslot p" "ptr v A p \<noteq> 0" using c vslot_parent by (auto simp: can_fill_def)
  then show ?thesis using allocated_ptr [OF c] allocated_keeps [OF c] by (simp add: filled_def)
qed

lemma filled_block:
  assumes c: "can_fill S v A x b" and y: "vslot y" "ptr v A y \<noteq> 0" "\<And>j. x \<noteq> Entry y j"
  shows "fst (filled S x b v A) (ptr v A y) = v (ptr v A y)"
proof (cases x)
  case (Addr k)
  then show ?thesis using allocated_keeps [OF c y(1,2)] by (simp add: filled_def)
next
  case (Entry p j)
  have "vslot p" "ptr v A p \<noteq> 0" using c vslot_parent Entry by (auto simp: can_fill_def)
  then have "ptr v A y \<noteq> ptr v A p" using file_wf_inj [of S v A y p] c y Entry by (auto simp: can_fill_def)
  then show ?thesis using filled_parent c allocated_keeps [OF c y(1,2)] Entry by simp
qed

lemma filled_new:
  assumes c: "can_fill S v A x b" and i: "i < BSIZE"
  shows "fst (filled S x b v A) b i = 0"
proof (cases x)
  case (Entry p j)
  have "vslot p" "ptr v A p \<noteq> 0" using c vslot_parent Entry by (auto simp: can_fill_def)
  then have "ptr v A p \<noteq> b" using fill_fresh(2) [OF c] by simp
  then show ?thesis using filled_parent c Entry allocated_new [OF i] by simp
qed (simp add: filled_def allocated_new [OF i])

lemma filled_ptr:
  assumes c: "can_fill S v A x b" and y: "vslot y"
  shows "ptr (fst (filled S x b v A)) (snd (filled S x b v A)) y = (if y = x then b else ptr v A y)"
  using y
proof (induction y)
  case (Addr k)
  then show ?case by (cases x) (auto simp: filled_def)
next
  case (Entry q i)
  let ?v = "fst (filled S x b v A)" and ?A = "snd (filled S x b v A)"
  have q: "vslot q" "i < NINDIRECT" using Entry.prems vslot_parent by blast+
  note IH = Entry.IH [OF q(1)]
  have b0: "b \<noteq> 0" using fill_fresh(1) [OF c] bitmap_meta(3) by metis
  show ?case
  proof (cases "q = x")
    case True
    have "ptr ?v ?A (Entry q i) = 0" using IH True filled_new [OF c] get32_zero [OF _ q(2), of "?v b"] by auto
    moreover have "ptr v A (Entry q i) = 0" "Entry q i \<noteq> x" using c True by (auto simp: can_fill_def)
    ultimately show ?thesis by simp
  next
    case False
    show ?thesis
    proof (cases "ptr v A q = 0")
      case True
      then have "Entry q i \<noteq> x" using c by (auto simp: can_fill_def)
      then show ?thesis using IH False True by simp
    next
      case nz: False
      then have e: "ptr ?v ?A (Entry q i) = get32 (?v (ptr v A q)) (4 * i)" using IH False by simp
      show ?thesis
      proof (cases "\<exists>j. x = Entry q j")
        case True
        then obtain j where x: "x = Entry q j" by blast
        then have "?v (ptr v A q) = put32 (4 * j) b (v (ptr v A q))" using filled_parent c by simp
        moreover have "4 * j + 4 \<le> 4 * i \<or> 4 * i + 4 \<le> 4 * j" if "i \<noteq> j" using that by linarith
        ultimately show ?thesis using e x nz by (cases "i = j") auto
      next
        case False
        then show ?thesis using e filled_block [OF c q(1) nz] nz by auto
      qed
    qed
  qed
qed

lemma filled_other:
  assumes c: "can_fill S v A x b" and m: "m \<noteq> b" "m \<notin> bitmap_blocks S" "m \<notin> file_blocks v A"
  shows "fst (filled S x b v A) m = v m"
proof -
  have "m \<noteq> BBLOCK b S" using m(2) c by (auto simp: bitmap_blocks_def can_fill_def)
  then have a: "allocated S b v m = v m" using m(1) allocated_other by blast
  show ?thesis
  proof (cases x)
    case (Entry p j)
    then have "vslot p" "ptr v A p \<noteq> 0" using c vslot_parent by (auto simp: can_fill_def)
    then have "m \<noteq> ptr v A p" using m(3) by (auto simp: file_blocks_def)
    then show ?thesis using a filled_parent c Entry by simp
  qed (simp add: filled_def a)
qed

lemma filled_used:
  assumes c: "can_fill S v A x b" and m: "m < sb_size S"
  shows "used S (fst (filled S x b v A)) m \<longleftrightarrow> used S v m \<or> m = b"
proof -
  have "b \<notin> bitmap_blocks S" using fill_fresh(1) [OF c] bitmap_meta(1) by blast
  then have a: "used S (allocated S b v) m \<longleftrightarrow> used S v m \<or> m = b"
    unfolding allocated_def using used_other [OF _ m] by simp
  show ?thesis
  proof (cases x)
    case (Entry p j)
    then have "vslot p" "ptr v A p \<noteq> 0" using c vslot_parent by (auto simp: can_fill_def)
    then have "ptr v A p \<notin> meta S" using c file_wfD(3) by (auto simp: can_fill_def)
    then have "ptr v A p \<notin> bitmap_blocks S" using bitmap_meta(1) by blast
    then show ?thesis using a used_other [OF _ m] filled_parent c Entry by simp
  qed (simp add: filled_def a)
qed

lemma filled_wf:
  assumes c: "can_fill S v A x b"
  shows "fs_wf S (fst (filled S x b v A))" "file_wf S (fst (filled S x b v A)) (snd (filled S x b v A))"
proof -
  have wf: "fs_wf S v" "file_wf S v A" "b < sb_size S" using c by (auto simp: can_fill_def)
  note u = filled_used [OF c] and p = filled_ptr [OF c] and f = fill_fresh [OF c]
  show "fs_wf S (fst (filled S x b v A))" using wf u by (auto simp: fs_wf_def)
  show "file_wf S (fst (filled S x b v A)) (snd (filled S x b v A))"
    unfolding file_wf_def
  proof (intro conjI allI impI)
    fix y assume y: "vslot y \<and> ptr (fst (filled S x b v A)) (snd (filled S x b v A)) y \<noteq> 0"
    show "ptr (fst (filled S x b v A)) (snd (filled S x b v A)) y < sb_size S"
      "used S (fst (filled S x b v A)) (ptr (fst (filled S x b v A)) (snd (filled S x b v A)) y)"
      "ptr (fst (filled S x b v A)) (snd (filled S x b v A)) y \<notin> meta S"
      using y p [of y] wf(3) u f(1) file_wfD [OF wf(2), of y] by (auto split: if_splits)
  next
    fix y z assume "vslot y \<and> vslot z \<and> ptr (fst (filled S x b v A)) (snd (filled S x b v A)) y
        = ptr (fst (filled S x b v A)) (snd (filled S x b v A)) z \<and> ptr (fst (filled S x b v A)) (snd (filled S x b v A)) y \<noteq> 0"
    then show "y = z" using p [of y] p [of z] f(2) [of y] f(2) [of z] file_wf_inj [OF wf(2), of y z] by (auto split: if_splits)
  qed
qed

lemma filled_fbyte:
  assumes c: "can_fill S v A x b" and k: "k < MAXFILE * BSIZE"
  shows "fbyte (fst (filled S x b v A)) (snd (filled S x b v A)) k = fbyte v A k"
proof -
  let ?y = "fslot (k div BSIZE)"
  have y: "vslot ?y" using fslot_valid k by (simp add: less_mult_imp_div_less)
  have px: "ptr v A x = 0" "vslot x" using c by (simp_all add: can_fill_def)
  show ?thesis
  proof (cases "ptr v A ?y = 0")
    case True
    then show ?thesis using filled_ptr [OF c y] filled_new [OF c, of "k mod BSIZE"] by (auto simp: fbyte_def Let_def)
  next
    case False
    then have "x \<noteq> Entry ?y j" "?y \<noteq> x" for j using fslot_not_parent px by metis+
    then show ?thesis using filled_ptr [OF c y] filled_block [OF c y False] False by (simp add: fbyte_def Let_def)
  qed
qed

subsection \<open>Free blocks\<close>

definition nfree :: "superblock \<Rightarrow> (u32 \<Rightarrow> block) \<Rightarrow> nat" where
  "nfree S v = card {b. b < sb_size S \<and> \<not> used S v b}"

lemma nfree_pos: "0 < nfree S v \<Longrightarrow> \<exists>b < sb_size S. \<not> used S v b"
  unfolding nfree_def by (metis (mono_tags, lifting) card_gt_0_iff equals0I mem_Collect_eq)

lemma filled_nfree:
  assumes c: "can_fill S v A x b"
  shows "nfree S v = Suc (nfree S (fst (filled S x b v A)))"
proof -
  have b: "b < sb_size S" "\<not> used S v b" using c by (simp_all add: can_fill_def)
  have "{m. m < sb_size S \<and> \<not> used S v m} = insert b {m. m < sb_size S \<and> \<not> used S (fst (filled S x b v A)) m}"
    using b filled_used [OF c] by auto
  moreover have "b \<notin> {m. m < sb_size S \<and> \<not> used S (fst (filled S x b v A)) m}" using b filled_used [OF c] by auto
  ultimately show ?thesis unfolding nfree_def by simp
qed

subsection \<open>The state of a file inside a transaction\<close>

lemma hq_upd_inode [simp]: "hq (upd_inode ip f s) H d v B = hq s H d v B"
proof -
  have "kbio.truncate (upd_inode ip f s) = kbio.truncate s" by (simp add: upd_inode_def kbio.truncate_def)
  then have "bio_inv (upd_inode ip f s) = bio_inv s" "held (upd_inode ip f s) = held s" "disk (upd_inode ip f s) = disk s"
      "view (upd_inode ip f s) = view s" "dirty (upd_inode ip f s) = dirty s"
    by (metis bio_inv_trunc, (metis cache_trunc)+)
  moreover have "log_dev (upd_inode ip f s) = log_dev s" "lh_n (upd_inode ip f s) = lh_n s" "lh_block (upd_inode ip f s) = lh_block s"
    by (simp_all add: upd_inode_def)
  ultimately show ?thesis unfolding hq_def by simp
qed

definition fs_frame :: "nat \<Rightarrow> 'x kfs_scheme \<Rightarrow> 'x kfs_scheme \<Rightarrow> bool" where
  "fs_frame ip s t \<longleftrightarrow>
     lg_frame (upd_inode ip (\<lambda>n. n\<lparr>i_addrs := i_addrs (icache t ip), i_size := i_size (icache t ip)\<rparr>) s) t"

lemma lg_frame_upd: "lg_frame s t \<Longrightarrow> lg_frame (upd_inode ip f s) (upd_inode ip f t)"
proof -
  assume f: "lg_frame s t"
  have e: "s\<lparr>slocks := slocks t, bufs := bufs t, disk := disk t, disk_writes := disk_writes t,
       lh_n := lh_n t, lh_block := lh_block t\<rparr> = t" and l: "\<forall>c i. c \<noteq> 0 \<longrightarrow> slocks t (c, i) = slocks s (c, i)"
    using f by (simp_all add: lg_frame_def)
  have "upd_inode ip f t = upd_inode ip f (s\<lparr>slocks := slocks t, bufs := bufs t, disk := disk t, disk_writes := disk_writes t,
       lh_n := lh_n t, lh_block := lh_block t\<rparr>)" using e by simp
  then show ?thesis unfolding lg_frame_def using l by (simp add: upd_inode_def)
qed

lemma fs_frame_select:
  assumes "fs_frame ip s t"
  shows "sb t = sb s" "disksize t = disksize s" "log_size t = log_size s" "log_outstanding t = log_outstanding s" "in_op t = in_op s"
    "icache t = (icache s)(ip := (icache s ip)\<lparr>i_addrs := i_addrs (icache t ip), i_size := i_size (icache t ip)\<rparr>)"
    "i_dev (icache t ip) = i_dev (icache s ip)" "i_inum (icache t ip) = i_inum (icache s ip)"
    "i_type (icache t ip) = i_type (icache s ip)"
proof -
  let ?f = "\<lambda>n. n\<lparr>i_addrs := i_addrs (icache t ip), i_size := i_size (icache t ip)\<rparr>"
  have f: "lg_frame (upd_inode ip ?f s) t" using assms by (simp add: fs_frame_def)
  show sb: "sb t = sb s" "disksize t = disksize s" "log_size t = log_size s" "log_outstanding t = log_outstanding s"
    "icache t = (icache s)(ip := (icache s ip)\<lparr>i_addrs := i_addrs (icache t ip), i_size := i_size (icache t ip)\<rparr>)"
    using lg_frame_select [OF f] lg_frame_fs [OF f] by (simp_all add: upd_inode_def)
  then show "in_op t = in_op s" by (simp add: in_op_def)
  have "icache t ip = (icache s ip)\<lparr>i_addrs := i_addrs (icache t ip), i_size := i_size (icache t ip)\<rparr>"
    using fun_cong [OF sb(5), of ip] by simp
  then show "i_dev (icache t ip) = i_dev (icache s ip)" "i_inum (icache t ip) = i_inum (icache s ip)"
    "i_type (icache t ip) = i_type (icache s ip)"
    by (metis inode.select_convs inode.surjective inode.update_convs)+
qed

lemma fs_frame_lg: "lg_frame s t \<Longrightarrow> fs_frame ip s t"
  unfolding fs_frame_def using lg_frame_fs(1) [of s t] by (simp add: upd_inode_def)

lemma fs_frame_upd: "fs_frame ip s (upd_inode ip (\<lambda>n. n\<lparr>i_addrs := a, i_size := z\<rparr>) s)"
  by (simp add: fs_frame_def upd_inode_def lg_frame_refl)

lemma fs_frame_trans:
  assumes "fs_frame ip s t" "fs_frame ip t u"
  shows "fs_frame ip s u"
proof -
  let ?f = "\<lambda>n. n\<lparr>i_addrs := i_addrs (icache t ip), i_size := i_size (icache t ip)\<rparr>"
    and ?g = "\<lambda>n. n\<lparr>i_addrs := i_addrs (icache u ip), i_size := i_size (icache u ip)\<rparr>"
  have "lg_frame (upd_inode ip ?f s) t" "lg_frame (upd_inode ip ?g t) u" using assms by (simp_all add: fs_frame_def)
  then have "lg_frame (upd_inode ip ?g (upd_inode ip ?f s)) u" using lg_frame_upd lg_frame_trans by blast
  moreover have "upd_inode ip ?g (upd_inode ip ?f s) = upd_inode ip ?g s" by (simp add: upd_inode_def)
  ultimately show ?thesis by (simp add: fs_frame_def)
qed

definition file_st :: "nat \<Rightarrow> 'x kfs_scheme \<Rightarrow> (u32 \<Rightarrow> block) \<Rightarrow> (u32 \<Rightarrow> block) \<Rightarrow> u32 set \<Rightarrow> bool" where
  "file_st ip s d v B \<longleftrightarrow> hq s {} d v B \<and> i_dev (icache s ip) = 1 \<and> fs_wf (sb s) v
     \<and> file_wf (sb s) v (i_addrs (icache s ip)) \<and> sb_size (sb s) \<le> disksize s"

abbreviation addrs :: "nat \<Rightarrow> 'x kfs_scheme \<Rightarrow> nat \<Rightarrow> u32" where
  "addrs ip s \<equiv> i_addrs (icache s ip)"

text \<open>
  What operations on a file may do: blocks of the file stay where they are, blocks in use that are not
  blocks of the file or of the bitmap keep their contents, new blocks come from the free ones. At most
  \<open>n\<close> blocks are allocated, and the log gets new blocks only from the bitmap and \<open>X\<close>.
\<close>

definition extends :: "nat \<Rightarrow> 'x kfs_scheme \<Rightarrow> (u32 \<Rightarrow> block) \<Rightarrow> u32 set \<Rightarrow> 'x kfs_scheme \<Rightarrow> (u32 \<Rightarrow> block) \<Rightarrow> u32 set
    \<Rightarrow> u32 set \<Rightarrow> nat \<Rightarrow> bool" where
  "extends ip s v B t v' B' X n \<longleftrightarrow> fs_frame ip s t
     \<and> (\<forall>y. vslot y \<and> ptr v (addrs ip s) y \<noteq> 0 \<longrightarrow> ptr v' (addrs ip t) y = ptr v (addrs ip s) y)
     \<and> (\<forall>m < sb_size (sb s). used (sb s) v m \<and> m \<notin> bitmap_blocks (sb s) \<and> m \<notin> file_blocks v (addrs ip s) \<longrightarrow> v' m = v m)
     \<and> (\<forall>m < sb_size (sb s). used (sb s) v m \<longrightarrow> used (sb s) v' m)
     \<and> (\<forall>m\<in>file_blocks v' (addrs ip t). m \<in> file_blocks v (addrs ip s) \<or> m < sb_size (sb s) \<and> \<not> used (sb s) v m)
     \<and> B' \<subseteq> B \<union> bitmap_blocks (sb s) \<union> X \<and> nfree (sb s) v \<le> nfree (sb s) v' + n"

text \<open>\<open>bmap\<close> also keeps the size and every byte of the file.\<close>

definition grows :: "nat \<Rightarrow> 'x kfs_scheme \<Rightarrow> (u32 \<Rightarrow> block) \<Rightarrow> u32 set \<Rightarrow> 'x kfs_scheme \<Rightarrow> (u32 \<Rightarrow> block) \<Rightarrow> u32 set
    \<Rightarrow> u32 set \<Rightarrow> nat \<Rightarrow> bool" where
  "grows ip s v B t v' B' X n \<longleftrightarrow> extends ip s v B t v' B' X n \<and> i_size (icache t ip) = i_size (icache s ip)
     \<and> (\<forall>k<MAXFILE * BSIZE. fbyte v' (addrs ip t) k = fbyte v (addrs ip s) k)"

lemma extends_refl: "fs_frame ip s t \<Longrightarrow> addrs ip t = addrs ip s \<Longrightarrow> extends ip s v B t v B X n"
  by (auto simp: extends_def)

lemma grows_refl: "fs_frame ip s t \<Longrightarrow> icache t = icache s \<Longrightarrow> grows ip s v B t v B X n"
  by (simp add: grows_def extends_refl)

lemma extendsD:
  assumes "extends ip s v B t v' B' X n"
  shows "fs_frame ip s t"
    "\<And>y. vslot y \<Longrightarrow> ptr v (addrs ip s) y \<noteq> 0 \<Longrightarrow> ptr v' (addrs ip t) y = ptr v (addrs ip s) y"
    "\<And>m. m < sb_size (sb s) \<Longrightarrow> used (sb s) v m \<Longrightarrow> m \<notin> bitmap_blocks (sb s) \<Longrightarrow> m \<notin> file_blocks v (addrs ip s) \<Longrightarrow> v' m = v m"
    "\<And>m. m < sb_size (sb s) \<Longrightarrow> used (sb s) v m \<Longrightarrow> used (sb s) v' m"
    "\<And>m. m \<in> file_blocks v' (addrs ip t) \<Longrightarrow> m \<in> file_blocks v (addrs ip s) \<or> m < sb_size (sb s) \<and> \<not> used (sb s) v m"
    "B' \<subseteq> B \<union> bitmap_blocks (sb s) \<union> X" "nfree (sb s) v \<le> nfree (sb s) v' + n"
  using assms unfolding extends_def by blast+

lemma growsD:
  assumes "grows ip s v B t v' B' X n"
  shows "extends ip s v B t v' B' X n" "i_size (icache t ip) = i_size (icache s ip)"
    "\<And>k. k < MAXFILE * BSIZE \<Longrightarrow> fbyte v' (addrs ip t) k = fbyte v (addrs ip s) k"
  using assms unfolding grows_def by blast+

lemma extends_trans:
  assumes "extends ip s v B t v' B' X n" "extends ip t v' B' u v'' B'' Y m"
  shows "extends ip s v B u v'' B'' (X \<union> Y) (n + m)"
proof -
  note g = extendsD [OF assms(1)] and h = extendsD [OF assms(2)]
  have sb: "sb t = sb s" using fs_frame_select(1) [OF g(1)] .
  have "fs_frame ip s u" using g(1) h(1) by (rule fs_frame_trans)
  moreover have "\<forall>y. vslot y \<and> ptr v (addrs ip s) y \<noteq> 0 \<longrightarrow> ptr v'' (addrs ip u) y = ptr v (addrs ip s) y"
    using g(2) h(2) by metis
  moreover have "\<forall>k < sb_size (sb s). used (sb s) v k \<and> k \<notin> bitmap_blocks (sb s) \<and> k \<notin> file_blocks v (addrs ip s) \<longrightarrow> v'' k = v k"
    using g(3-5) h(3) unfolding sb by metis
  moreover have "\<forall>k < sb_size (sb s). used (sb s) v k \<longrightarrow> used (sb s) v'' k" using g(4) h(4) unfolding sb by blast
  moreover have "\<forall>k\<in>file_blocks v'' (addrs ip u). k \<in> file_blocks v (addrs ip s) \<or> k < sb_size (sb s) \<and> \<not> used (sb s) v k"
    using g(4,5) h(5) unfolding sb by blast
  moreover have "B'' \<subseteq> B \<union> bitmap_blocks (sb s) \<union> (X \<union> Y)" using g(6) h(6) unfolding sb by blast
  moreover have "nfree (sb s) v \<le> nfree (sb s) v'' + (n + m)" using g(7) h(7) unfolding sb by simp
  ultimately show ?thesis unfolding extends_def by blast
qed

lemma grows_trans:
  assumes "grows ip s v B t v' B' X n" "grows ip t v' B' u v'' B'' Y m"
  shows "grows ip s v B u v'' B'' (X \<union> Y) (n + m)"
  using growsD [OF assms(1)] growsD [OF assms(2)] extends_trans unfolding grows_def by metis

lemma grows_fill:
  assumes c: "can_fill (sb s) v (addrs ip s) x b" and f: "fs_frame ip s t" "i_size (icache t ip) = i_size (icache s ip)"
    and t: "filled (sb s) x b v (addrs ip s) = (v', addrs ip t)"
    and B: "B' \<subseteq> B \<union> bitmap_blocks (sb s) \<union> X"
  shows "grows ip s v B t v' B' X 1" "fs_wf (sb s) v'" "file_wf (sb s) v' (addrs ip t)" "ptr v' (addrs ip t) x = b" "b \<noteq> 0"
proof -
  note p = filled_ptr [OF c, unfolded t fst_conv snd_conv] and wf = filled_wf [OF c, unfolded t fst_conv snd_conv]
  have b: "b < sb_size (sb s)" "\<not> used (sb s) v b" "ptr v (addrs ip s) x = 0" "vslot x" using c by (simp_all add: can_fill_def)
  show "fs_wf (sb s) v'" "file_wf (sb s) v' (addrs ip t)" "ptr v' (addrs ip t) x = b" using wf p [OF b(4)] by simp_all
  show "b \<noteq> 0" using fill_fresh(1) [OF c] bitmap_meta(3) by metis
  have "\<forall>y. vslot y \<and> ptr v (addrs ip s) y \<noteq> 0 \<longrightarrow> ptr v' (addrs ip t) y = ptr v (addrs ip s) y" using p b(3) by auto
  moreover have "\<forall>k<MAXFILE * BSIZE. fbyte v' (addrs ip t) k = fbyte v (addrs ip s) k"
    using filled_fbyte [OF c, unfolded t fst_conv snd_conv] by blast
  moreover have "\<forall>m < sb_size (sb s). used (sb s) v m \<and> m \<notin> bitmap_blocks (sb s) \<and> m \<notin> file_blocks v (addrs ip s) \<longrightarrow> v' m = v m"
    using filled_other [OF c, unfolded t fst_conv] b(2) by metis
  moreover have "\<forall>m < sb_size (sb s). used (sb s) v m \<longrightarrow> used (sb s) v' m" using filled_used [OF c, unfolded t fst_conv] by blast
  moreover have "\<forall>m\<in>file_blocks v' (addrs ip t). m \<in> file_blocks v (addrs ip s) \<or> m < sb_size (sb s) \<and> \<not> used (sb s) v m"
    using p b(1,2) unfolding file_blocks_def by (auto split: if_splits)
  moreover have "nfree (sb s) v \<le> nfree (sb s) v' + 1" using filled_nfree [OF c, unfolded t fst_conv] by simp
  ultimately show "grows ip s v B t v' B' X 1" unfolding grows_def extends_def using f B by blast
qed

subsection \<open>The steps of bmap\<close>

text \<open>What an allocation needs: an operation in progress, room in the log, a free block.\<close>

definition can_grow :: "'x kfs_scheme \<Rightarrow> (u32 \<Rightarrow> block) \<Rightarrow> u32 set \<Rightarrow> nat \<Rightarrow> bool" where
  "can_grow s v B n \<longleftrightarrow> in_op s \<and> card (B \<union> bitmap_blocks (sb s)) + n \<le> 28 \<and> n \<le> nfree (sb s) v"

lemma file_stD:
  assumes "file_st ip s d v B"
  shows "hq s {} d v B" "i_dev (icache s ip) = 1" "fs_wf (sb s) v" "file_wf (sb s) v (addrs ip s)" "sb_size (sb s) \<le> disksize s"
  using assms by (simp_all add: file_st_def)

lemma can_grow_extends:
  assumes "extends ip s v B t v' B' X n" "can_grow s v B k" "card X + m \<le> k" "n + m \<le> k"
  shows "can_grow t v' B' m"
proof -
  note g = extendsD [OF assms(1)] and f = fs_frame_select [OF extendsD(1) [OF assms(1)]]
  have "card (B' \<union> bitmap_blocks (sb s)) \<le> card (B \<union> bitmap_blocks (sb s) \<union> X)"
    using g(6) by (intro card_mono) auto
  also have "\<dots> \<le> card (B \<union> bitmap_blocks (sb s)) + card X" by (rule card_Un_le)
  finally show ?thesis using assms(2-4) g(7) f by (simp add: can_grow_def)
qed

lemmas can_grow_mono = can_grow_extends [OF growsD(1)]

lemma file_balloc_pre:
  assumes "file_st ip s d v B" "can_grow s v B (Suc n)" "H = {} \<or> H = {(a, m)} \<and> used (sb s) v m \<and> m \<notin> meta (sb s)"
  shows "balloc_pre s H v B"
proof -
  have "m < disksize s" if "m \<in> bitmap_blocks (sb s)" for m
    using that file_stD(3,5) [OF assms(1)] bitmap_meta(1) [of "sb s"] unfolding fs_wf_def by (meson less_le_trans subsetD)
  moreover have "m \<notin> bitmap_blocks (sb s)" if "m \<notin> meta (sb s)" using that bitmap_meta(1) by blast
  ultimately show ?thesis using assms file_stD(5) [OF assms(1)] by (auto simp: balloc_pre_def can_grow_def)
qed

lemma bmap_addr_ok:
  assumes st: "file_st ip s d v B" and k: "k < NDIRECT + 2" and room: "addrs ip s k \<noteq> 0 \<or> can_grow s v B 1"
  shows "\<exists>a t v' B'. bmap_addr ip k s = Ret a t \<and> file_st ip t d v' B' \<and> grows ip s v B t v' B' {a} 1
    \<and> a \<noteq> 0 \<and> ptr v' (addrs ip t) (Addr k) = a \<and> (addrs ip s k \<noteq> 0 \<longrightarrow> t = s \<and> v' = v \<and> B' = B)"
proof (cases "addrs ip s k = 0")
  case False
  then have "bmap_addr ip k s = Ret (addrs ip s k) s" by (simp add: bmap_addr_def)
  then show ?thesis using st False grows_refl [OF fs_frame_lg [OF lg_frame_refl]] by fastforce
next
  case True
  then have cg: "can_grow s v B 1" using room by simp
  note k' = file_stD [OF st]
  obtain b t where b: "balloc 1 s = Ret b t" "b < sb_size (sb s)" "\<not> used (sb s) v b" "lg_frame s t"
      "hq t {} d (allocated (sb s) b v) (insert b (insert (BBLOCK b (sb s)) B))"
    using balloc_ok [OF k'(1) file_balloc_pre [OF st, of 0]] nfree_pos [of "sb s" v] cg by (auto simp: can_grow_def)
  note lf = lg_frame_fs [OF b(4)]
  let ?u = "upd_inode ip (\<lambda>n. n\<lparr>i_addrs := (i_addrs n)(k := b)\<rparr>) t"
  have r: "bmap_addr ip k s = Ret b ?u" using True b(1) k'(2) by (simp add: bmap_addr_def)
  have c: "can_fill (sb s) v (addrs ip s) (Addr k) b" using k' b(2,3) k True by (simp add: can_fill_def)
  have u: "addrs ip ?u = (addrs ip s)(k := b)" "i_size (icache ?u ip) = i_size (icache s ip)" "sb ?u = sb s"
      "i_dev (icache ?u ip) = 1" "disksize ?u = disksize s"
    using lf k'(2) lg_frame_select [OF b(4)] by (simp_all add: upd_inode_def)
  have "fs_frame ip t ?u" using fs_frame_upd [of ip t, where a = "(addrs ip t)(k := b)" and z = "i_size (icache t ip)"] by (simp add: upd_inode_def)
  then have fr: "fs_frame ip s ?u" using fs_frame_trans [OF fs_frame_lg [OF b(4)]] by blast
  have fi: "filled (sb s) (Addr k) b v (addrs ip s) = (allocated (sb s) b v, addrs ip ?u)" using u(1) by (simp add: filled_def)
  have "insert b (insert (BBLOCK b (sb s)) B) \<subseteq> B \<union> bitmap_blocks (sb s) \<union> {b}" using b(2) by (auto simp: bitmap_blocks_def)
  note g = grows_fill [OF c fr u(2) fi this]
  have "file_st ip ?u d (allocated (sb s) b v) (insert b (insert (BBLOCK b (sb s)) B))"
    unfolding file_st_def u(3-5) using g(2,3) b(5) k'(5) by simp
  then show ?thesis using r g True by blast
qed

lemma balloc_pre_frame: "lg_frame s t \<Longrightarrow> balloc_pre s H v B \<Longrightarrow> balloc_pre t H v B"
  using lg_frame_fs [of s t] lg_frame_select [of s t] in_op_frame [of s t] by (simp add: balloc_pre_def)

lemma bmap_entry_mapped:
  assumes st: "file_st ip s d v B" and m: "vslot (Entry p j)" "ptr v (addrs ip s) p = m" "m \<noteq> 0" and a: "get32 (v m) (4 * j) \<noteq> 0"
    and B: "card B < 30"
  shows "\<exists>t. bmap_entry 1 m j s = Ret (get32 (v m) (4 * j)) t \<and> file_st ip t d v B \<and> bio_frame s t"
proof -
  note k = file_stD [OF st]
  have "m < disksize s" using file_wfD(1) [OF k(4), of p] vslot_parent m k(5) by auto
  then obtain bp s1 where s1: "bread 1 m s = Ret bp s1" "bio_frame s s1" "hq s1 {(bp, m)} d v B" "b_data (bufs s1 bp) = v m"
    using hq_bread [OF k(1), of m] B by auto
  obtain t where t: "brelse bp s1 = Ret () t" "bio_frame s1 t" "hq t {} d v B" using hq_brelse [OF s1(3)] by auto
  have f: "bio_frame s t" using s1(2) t(2) by (rule bio_frame_trans)
  note l = lg_frame_fs [OF bio_lg_frame [OF f]] lg_frame_select [OF bio_lg_frame [OF f]]
  have "file_st ip t d v B" using k t(3) l by (simp add: file_st_def)
  moreover have "bmap_entry 1 m j s = Ret (get32 (v m) (4 * j)) t"
    using s1(1,4) t(1) a by (simp add: bmap_entry_def Let_def)
  ultimately show ?thesis using f by blast
qed

lemma bmap_entry_fill:
  assumes st: "file_st ip s d v B" and m: "vslot (Entry p j)" "ptr v (addrs ip s) p = m" "m \<noteq> 0" and a: "get32 (v m) (4 * j) = 0"
    and cg: "can_grow s v B 1"
  shows "\<exists>b t v' B'. bmap_entry 1 m j s = Ret b t \<and> file_st ip t d v' B' \<and> grows ip s v B t v' B' {m, b} 1
    \<and> b \<noteq> 0 \<and> ptr v' (addrs ip t) (Entry p j) = b"
proof -
  note k = file_stD [OF st]
  have p: "vslot p" "j < NINDIRECT" using vslot_parent m(1) by blast+
  have mm: "m < disksize s" "used (sb s) v m" "m \<notin> meta (sb s)"
    using file_wfD [OF k(4) p(1)] m k(5) by auto
  have fin: "finite B" using hq_finite [OF k(1)] .
  have cB: "card B \<le> card (B \<union> bitmap_blocks (sb s))" using fin by (intro card_mono) auto
  obtain bp s1 where s1: "bread 1 m s = Ret bp s1" "bio_frame s s1" "hq s1 {(bp, m)} d v B" "b_data (bufs s1 bp) = v m"
    using hq_bread [OF k(1) mm(1)] cB cg by (auto simp: can_grow_def)
  note f1 = bio_lg_frame [OF s1(2)]
  have "balloc_pre s1 {(bp, m)} v B"
    using balloc_pre_frame [OF f1 file_balloc_pre [OF st, of 0 "{(bp, m)}" bp m]] cg mm by simp
  then obtain b s2 where b: "balloc 1 s1 = Ret b s2" "b < sb_size (sb s)" "\<not> used (sb s) v b" "lg_frame s1 s2"
      "hq s2 {(bp, m)} d (allocated (sb s) b v) (insert b (insert (BBLOCK b (sb s)) B))"
    using balloc_ok [OF s1(3)] nfree_pos [of "sb s" v] cg lg_frame_fs(2) [OF f1] by (auto simp: can_grow_def)
  let ?B = "insert b (insert (BBLOCK b (sb s)) B)"
  have f2: "lg_frame s s2" using f1 b(4) by (rule lg_frame_trans)
  have c: "can_fill (sb s) v (addrs ip s) (Entry p j) b" using k m a b(2,3) by (auto simp: can_fill_def)
  let ?v = "(allocated (sb s) b v)(m := put32 (4 * j) b (v m))"
  have al: "allocated (sb s) b v m = v m" using allocated_keeps [OF c p(1)] m by simp
  have "?B \<subseteq> insert b (B \<union> bitmap_blocks (sb s))" using b(2) by (auto simp: bitmap_blocks_def)
  then have "card ?B \<le> card (insert b (B \<union> bitmap_blocks (sb s)))" using fin by (intro card_mono) auto
  also have "\<dots> \<le> card (B \<union> bitmap_blocks (sb s)) + 1" using card_insert_le_m1 by (simp add: card_insert_if)
  finally have "card ?B < 29" using cg by (simp add: can_grow_def)
  then obtain s3 where s3: "log_write bp (set_data bp (put32 (4 * j) b (v m)) s2) = Ret () s3" "lg_frame s2 s3"
      "hq s3 {(bp, m)} d ?v (insert m ?B)"
    using hq_log_write [OF b(5), of bp m] cg in_op_frame [OF f2] by (auto simp: can_grow_def)
  obtain t where t: "brelse bp s3 = Ret () t" "bio_frame s3 t" "hq t {} d ?v (insert m ?B)" using hq_brelse [OF s3(3)] by auto
  have f: "lg_frame s t" using lg_frame_trans [OF lg_frame_trans [OF f2 s3(2)] bio_lg_frame [OF t(2)]] .
  note l = lg_frame_fs [OF f] lg_frame_select [OF f]
  have r: "bmap_entry 1 m j s = Ret b t"
    using s1(1,4) a b(1) hq_data(1) [OF b(5), of bp m] al s3(1) t(1) by (simp add: bmap_entry_def Let_def)
  have fi: "filled (sb s) (Entry p j) b v (addrs ip s) = (?v, addrs ip t)" using filled_parent [OF c] m(2) l(1) by simp
  have "insert m ?B \<subseteq> B \<union> bitmap_blocks (sb s) \<union> {m, b}" using b(2) by (auto simp: bitmap_blocks_def)
  note g = grows_fill [OF c fs_frame_lg [OF f] _ fi this, unfolded l(1), OF refl]
  have "file_st ip t d ?v (insert m ?B)" unfolding file_st_def using g(2,3) t(3) k l by simp
  then show ?thesis using r g l(1) by metis
qed

lemma bmap_entry_ok:
  assumes st: "file_st ip s d v B" and m: "vslot (Entry p j)" "ptr v (addrs ip s) p = m" "m \<noteq> 0"
    and cg: "can_grow s v B 1"
  shows "\<exists>b t v' B'. bmap_entry 1 m j s = Ret b t \<and> file_st ip t d v' B' \<and> grows ip s v B t v' B' {m, b} 1
    \<and> b \<noteq> 0 \<and> ptr v' (addrs ip t) (Entry p j) = b"
proof (cases "get32 (v m) (4 * j) = 0")
  case True
  then show ?thesis using bmap_entry_fill [OF assms(1-4) _ cg] by blast
next
  case False
  have "card B \<le> card (B \<union> bitmap_blocks (sb s))" using hq_finite [OF file_stD(1) [OF st]] by (intro card_mono) auto
  then have "card B < 30" using cg by (simp add: can_grow_def)
  then obtain t where t: "bmap_entry 1 m j s = Ret (get32 (v m) (4 * j)) t" "file_st ip t d v B" "bio_frame s t"
    using bmap_entry_mapped [OF assms(1-4) False] by blast
  note f = bio_lg_frame [OF t(3)]
  have i: "icache t = icache s" using lg_frame_fs(1) [OF f] .
  have "grows ip s v B t v B {m, get32 (v m) (4 * j)} 1" using grows_refl [OF fs_frame_lg [OF f] i] .
  moreover have "ptr v (addrs ip t) (Entry p j) = get32 (v m) (4 * j)" using m i by simp
  ultimately show ?thesis using t(1,2) False by blast
qed

subsection \<open>bmap\<close>

lemma grows_weaken: "grows ip s v B t v' B' X n \<Longrightarrow> n \<le> m \<Longrightarrow> X \<subseteq> Y \<Longrightarrow> grows ip s v B t v' B' Y m"
  unfolding grows_def extends_def by (elim conjE, intro conjI) (assumption | force)+

lemma bmap_indirect:
  assumes "NDIRECT \<le> unat bn" "unat bn < NDIRECT + NINDIRECT"
  shows "bmap ip bn s = andthen (bmap_addr ip NDIRECT s) (\<lambda>addr s. bmap_entry (i_dev (icache s ip)) addr (unat bn - NDIRECT) s)"
proof -
  have "\<not> unat bn < NDIRECT" "unat bn - NDIRECT < NINDIRECT" using assms by linarith+
  then show ?thesis by (simp add: bmap_def Let_def)
qed

lemma bmap_double:
  assumes "NDIRECT + NINDIRECT \<le> unat bn" "unat bn < MAXFILE"
  shows "bmap ip bn s = andthen (bmap_addr ip (NDIRECT + 1) s) (\<lambda>addr s.
    andthen (bmap_entry (i_dev (icache s ip)) addr ((unat bn - NDIRECT - NINDIRECT) div NINDIRECT) s) (\<lambda>addr s.
      bmap_entry (i_dev (icache s ip)) addr ((unat bn - NDIRECT - NINDIRECT) mod NINDIRECT) s))"
proof -
  have "\<not> unat bn < NDIRECT" "\<not> unat bn - NDIRECT < NINDIRECT" "unat bn - NDIRECT - NINDIRECT < NDOUBLEINDIRECT"
    using assms by linarith+
  then show ?thesis by (simp add: bmap_def Let_def)
qed

lemma bmap_ok:
  assumes st: "file_st ip s d v B" and bn: "unat bn < MAXFILE" and cg: "can_grow s v B 3"
  shows "\<exists>a t v' B' X. bmap ip bn s = Ret a t \<and> file_st ip t d v' B' \<and> grows ip s v B t v' B' X 3 \<and> card X \<le> 3 \<and> a \<in> X
    \<and> a \<noteq> 0 \<and> ptr v' (addrs ip t) (fslot (unat bn)) = a"
proof -
  let ?n = "unat bn"
  have cg1: "can_grow s v B 1" using cg by (simp add: can_grow_def)
  consider "?n < NDIRECT" | "NDIRECT \<le> ?n" "?n < NDIRECT + NINDIRECT" | "NDIRECT + NINDIRECT \<le> ?n" by linarith
  then show ?thesis
  proof cases
    case 1
    obtain a t v' B' where t: "bmap_addr ip ?n s = Ret a t" "file_st ip t d v' B'" "grows ip s v B t v' B' {a} 1" "a \<noteq> 0"
        "ptr v' (addrs ip t) (Addr ?n) = a"
      using bmap_addr_ok [OF st, of ?n] 1 cg1 by auto
    have "bmap ip bn s = Ret a t" "fslot ?n = Addr ?n" using 1 t(1) by (simp_all add: bmap_def fslot_def)
    moreover have "grows ip s v B t v' B' {a} 3" "card {a} \<le> 3" "a \<in> {a}" using grows_weaken [OF t(3), of 3 "{a}"] by simp_all
    ultimately show ?thesis using t(2,4,5) by metis
  next
    case 2
    let ?j = "?n - NDIRECT"
    have x: "fslot ?n = Entry (Addr NDIRECT) ?j" "vslot (Entry (Addr NDIRECT) ?j)" using 2 by (auto simp: fslot_def)
    obtain m s1 v1 B1 where s1: "bmap_addr ip NDIRECT s = Ret m s1" "file_st ip s1 d v1 B1" "grows ip s v B s1 v1 B1 {m} 1"
        "m \<noteq> 0" "ptr v1 (addrs ip s1) (Addr NDIRECT) = m"
      using bmap_addr_ok [OF st, of NDIRECT] cg1 by auto
    have "can_grow s1 v1 B1 1" using can_grow_mono [OF s1(3) cg] by simp
    then obtain a t v' B' where t: "bmap_entry 1 m ?j s1 = Ret a t" "file_st ip t d v' B'" "grows ip s1 v1 B1 t v' B' {m, a} 1" "a \<noteq> 0"
        "ptr v' (addrs ip t) (Entry (Addr NDIRECT) ?j) = a"
      using bmap_entry_ok [OF s1(2) x(2) s1(5,4)] by blast
    have g: "grows ip s v B t v' B' {a, m} 3" using grows_weaken [OF grows_trans [OF s1(3) t(3)], of 3 "{a, m}"] by auto
    have c: "card {a, m} \<le> 3" by (simp add: card_insert_if)
    have "bmap ip bn s = Ret a t" using bmap_indirect [OF 2, of ip s] s1(1) t(1) file_stD(2) [OF s1(2)] by simp
    then show ?thesis unfolding x(1) using t(2,4,5) g c by blast
  next
    case 3
    let ?k = "?n - NDIRECT - NINDIRECT"
    let ?i = "?k div NINDIRECT" and ?j = "?k mod NINDIRECT"
    have x: "fslot ?n = Entry (Entry (Addr (NDIRECT + 1)) ?i) ?j" "vslot (Entry (Addr (NDIRECT + 1)) ?i)"
        "vslot (Entry (Entry (Addr (NDIRECT + 1)) ?i) ?j)"
      using 3 bn fslot_valid [OF bn] by (auto simp: fslot_def)
    obtain m s1 v1 B1 where s1: "bmap_addr ip (NDIRECT + 1) s = Ret m s1" "file_st ip s1 d v1 B1" "grows ip s v B s1 v1 B1 {m} 1"
        "m \<noteq> 0" "ptr v1 (addrs ip s1) (Addr (NDIRECT + 1)) = m"
      using bmap_addr_ok [OF st, of "NDIRECT + 1"] cg1 by auto
    have "can_grow s1 v1 B1 1" using can_grow_mono [OF s1(3) cg] by simp
    then obtain m2 s2 v2 B2 where s2: "bmap_entry 1 m ?i s1 = Ret m2 s2" "file_st ip s2 d v2 B2" "grows ip s1 v1 B1 s2 v2 B2 {m, m2} 1"
        "m2 \<noteq> 0" "ptr v2 (addrs ip s2) (Entry (Addr (NDIRECT + 1)) ?i) = m2"
      using bmap_entry_ok [OF s1(2) x(2) s1(5,4)] by blast
    have g2: "grows ip s v B s2 v2 B2 {m, m2} 2" using grows_weaken [OF grows_trans [OF s1(3) s2(3)], of 2 "{m, m2}"] by simp
    have "card {m, m2} \<le> 2" by (simp add: card_insert_if)
    then have "can_grow s2 v2 B2 1" using can_grow_mono [OF g2 cg] by simp
    then obtain a t v' B' where t: "bmap_entry 1 m2 ?j s2 = Ret a t" "file_st ip t d v' B'" "grows ip s2 v2 B2 t v' B' {m2, a} 1" "a \<noteq> 0"
        "ptr v' (addrs ip t) (Entry (Entry (Addr (NDIRECT + 1)) ?i) ?j) = a"
      using bmap_entry_ok [OF s2(2) x(3) s2(5,4)] by blast
    have g: "grows ip s v B t v' B' {a, m, m2} 3" using grows_weaken [OF grows_trans [OF g2 t(3)], of 3 "{a, m, m2}"] by auto
    have c: "card {a, m, m2} \<le> 3" by (simp add: card_insert_if)
    have "bmap ip bn s = Ret a t"
      using bmap_double [OF 3 bn, of ip s] s1(1) s2(1) t(1) file_stD(2) [OF s1(2)] file_stD(2) [OF s2(2)] by simp
    then show ?thesis unfolding x(1) using t(2,4,5) g c by blast
  qed
qed

lemma bmap_mapped:
  assumes st: "file_st ip s d v B" and bn: "unat bn < MAXFILE" and m: "ptr v (addrs ip s) (fslot (unat bn)) \<noteq> 0" and B: "card B < 30"
  shows "\<exists>t. bmap ip bn s = Ret (ptr v (addrs ip s) (fslot (unat bn))) t \<and> file_st ip t d v B \<and> bio_frame s t"
proof -
  let ?n = "unat bn"
  consider "?n < NDIRECT" | "NDIRECT \<le> ?n" "?n < NDIRECT + NINDIRECT" | "NDIRECT + NINDIRECT \<le> ?n" by linarith
  then show ?thesis
  proof cases
    case 1
    then show ?thesis using m st bio_frame_refl by (auto simp: bmap_def fslot_def bmap_addr_def Let_def)
  next
    case 2
    let ?j = "?n - NDIRECT"
    have x: "fslot ?n = Entry (Addr NDIRECT) ?j" "vslot (Entry (Addr NDIRECT) ?j)" using 2 by (auto simp: fslot_def)
    have nz: "addrs ip s NDIRECT \<noteq> 0" "get32 (v (addrs ip s NDIRECT)) (4 * ?j) \<noteq> 0" using m x(1) by (auto split: if_splits)
    obtain t where t: "bmap_entry 1 (addrs ip s NDIRECT) ?j s = Ret (get32 (v (addrs ip s NDIRECT)) (4 * ?j)) t" "file_st ip t d v B" "bio_frame s t"
      using bmap_entry_mapped [OF st x(2) _ nz B] by auto
    then show ?thesis using bmap_indirect [OF 2, of ip s] nz(1) file_stD(2) [OF st] x(1) by (simp add: bmap_addr_def)
  next
    case 3
    let ?k = "?n - NDIRECT - NINDIRECT"
    let ?i = "?k div NINDIRECT" and ?j = "?k mod NINDIRECT"
    let ?m = "addrs ip s (NDIRECT + 1)"
    let ?m2 = "get32 (v ?m) (4 * ?i)"
    have x: "fslot ?n = Entry (Entry (Addr (NDIRECT + 1)) ?i) ?j" "vslot (Entry (Addr (NDIRECT + 1)) ?i)"
        "vslot (Entry (Entry (Addr (NDIRECT + 1)) ?i) ?j)"
      using 3 bn fslot_valid [OF bn] by (auto simp: fslot_def)
    have nz: "?m \<noteq> 0" "?m2 \<noteq> 0" "get32 (v ?m2) (4 * ?j) \<noteq> 0" using m x(1) by (auto split: if_splits)
    obtain s1 where s1: "bmap_entry 1 ?m ?i s = Ret ?m2 s1" "file_st ip s1 d v B" "bio_frame s s1"
      using bmap_entry_mapped [OF st x(2) _ nz(1,2) B] by auto
    have i: "icache s1 = icache s" using lg_frame_fs(1) [OF bio_lg_frame [OF s1(3)]] .
    have "ptr v (addrs ip s1) (Entry (Addr (NDIRECT + 1)) ?i) = ?m2" using i nz(1) by simp
    from bmap_entry_mapped [OF s1(2) x(3) this nz(2,3) B]
    obtain t where t: "bmap_entry 1 ?m2 ?j s1 = Ret (get32 (v ?m2) (4 * ?j)) t" "file_st ip t d v B" "bio_frame s1 t" by blast
    have "bmap ip bn s = Ret (get32 (v ?m2) (4 * ?j)) t"
      using bmap_double [OF 3 bn, of ip s] nz(1) file_stD(2) [OF st] s1(1) t(1) i by (simp add: bmap_addr_def)
    moreover have "ptr v (addrs ip s) (fslot ?n) = get32 (v ?m2) (4 * ?j)" using x(1) nz by simp
    ultimately show ?thesis using t(2) bio_frame_trans [OF s1(3) t(3)] by auto
  qed
qed

text \<open>A block that is mapped already is found without a change of the inode.\<close>

lemma bmap_any:
  assumes st: "file_st ip s d v B" and bn: "unat bn < MAXFILE" and cg: "can_grow s v B 3"
  shows "\<exists>a t v' B' X. bmap ip bn s = Ret a t \<and> file_st ip t d v' B' \<and> grows ip s v B t v' B' X 3 \<and> card X \<le> 3 \<and> a \<in> X
    \<and> a \<noteq> 0 \<and> ptr v' (addrs ip t) (fslot (unat bn)) = a \<and> (ptr v (addrs ip s) (fslot (unat bn)) \<noteq> 0 \<longrightarrow> icache t = icache s)"
proof (cases "ptr v (addrs ip s) (fslot (unat bn)) = 0")
  case True
  then show ?thesis using bmap_ok [OF assms] by blast
next
  case False
  let ?a = "ptr v (addrs ip s) (fslot (unat bn))"
  have "card B \<le> card (B \<union> bitmap_blocks (sb s))" using hq_finite [OF file_stD(1) [OF st]] by (intro card_mono) auto
  then have "card B < 30" using cg by (simp add: can_grow_def)
  then obtain t where t: "bmap ip bn s = Ret ?a t" "file_st ip t d v B" "bio_frame s t" using bmap_mapped [OF st bn False] by blast
  note f = bio_lg_frame [OF t(3)]
  have i: "icache t = icache s" using lg_frame_fs(1) [OF f] .
  have "grows ip s v B t v B {?a} 3" "card {?a} \<le> 3" "?a \<in> {?a}" using grows_refl [OF fs_frame_lg [OF f] i] by simp_all
  then show ?thesis using t(1,2) False i by metis
qed

end
