(* ===== verification/Fs_Props.thy ===== *)
theory Fs_Props
  imports Fs_Map Example
begin

unbundle bit_operations_syntax

text \<open>
  Reading and writing files (\<open>readi\<close>, \<open>writei\<close> of theory \<open>Fs\<close>) on top of the block map: a file is the
  function \<open>fbyte\<close> from positions to bytes together with its size.
\<close>

subsection \<open>Storing into a block of a file\<close>

lemma data_ptr:
  assumes wf: "file_wf S v A" and a: "bn < MAXFILE" "ptr v A (fslot bn) = a" "a \<noteq> 0" and y: "vslot y"
  shows "ptr (v(a := da)) A y = ptr v A y"
  using y
proof (induction y)
  case (Entry q i)
  have q: "vslot q" using Entry.prems vslot_parent by blast
  have "ptr v A q \<noteq> a"
    using file_wf_inj [OF wf q fslot_valid [OF a(1)]] a fslot_not_parent [OF Entry.prems] by metis
  then show ?case using Entry.IH [OF q] by simp
qed simp

lemma data_fbyte:
  assumes wf: "file_wf S v A" and a: "bn < MAXFILE" "ptr v A (fslot bn) = a" "a \<noteq> 0" and k: "k < MAXFILE * BSIZE"
  shows "fbyte (v(a := da)) A k = (if k div BSIZE = bn then da (k mod BSIZE) else fbyte v A k)"
proof -
  have y: "vslot (fslot (k div BSIZE))" using fslot_valid k by (simp add: less_mult_imp_div_less)
  have "k div BSIZE = bn" if "ptr v A (fslot (k div BSIZE)) = a"
    using file_wf_inj [OF wf y fslot_valid [OF a(1)]] that a(2,3) fslot_inj by metis
  then have "ptr v A (fslot (k div BSIZE)) \<noteq> a" if "k div BSIZE \<noteq> bn" using that by blast
  then show ?thesis using data_ptr [OF wf a y, of da] a by (cases "k div BSIZE = bn") (simp_all add: fbyte_def Let_def)
qed

lemma data_write:
  assumes st: "file_st ip s d v B" and a: "bn < MAXFILE" "ptr v (addrs ip s) (fslot bn) = a" "a \<noteq> 0"
    and room: "in_op s" "card B < 29"
  shows "\<exists>bp s1. bread 1 a s = Ret bp s1 \<and> b_data (bufs s1 bp) = v a
    \<and> (\<exists>s2 t. log_write bp (set_data bp da s1) = Ret () s2 \<and> brelse bp s2 = Ret () t \<and> file_st ip t d (v(a := da)) (insert a B)
        \<and> extends ip s v B t (v(a := da)) (insert a B) {a} 0 \<and> icache t = icache s)"
proof -
  note k = file_stD [OF st]
  have x: "vslot (fslot bn)" using fslot_valid a(1) .
  note w = file_wfD [OF k(4) x, unfolded a(2), OF a(3)]
  have "a < disksize s" using w(1) k(5) by simp
  then obtain bp s1 where s1: "bread 1 a s = Ret bp s1" "bio_frame s s1" "hq s1 {(bp, a)} d v B" "b_data (bufs s1 bp) = v a"
    using hq_bread [OF k(1), of a] room(2) by auto
  note f1 = bio_lg_frame [OF s1(2)]
  obtain s2 where s2: "log_write bp (set_data bp da s1) = Ret () s2" "lg_frame s1 s2" "hq s2 {(bp, a)} d (v(a := da)) (insert a B)"
    using hq_log_write [OF s1(3), of bp a] room in_op_frame [OF f1] by auto
  obtain t where t: "brelse bp s2 = Ret () t" "bio_frame s2 t" "hq t {} d (v(a := da)) (insert a B)" using hq_brelse [OF s2(3)] by auto
  have f: "lg_frame s t" using lg_frame_trans [OF lg_frame_trans [OF f1 s2(2)] bio_lg_frame [OF t(2)]] .
  note l = lg_frame_fs [OF f] lg_frame_select [OF f]
  have nb: "a \<notin> bitmap_blocks (sb s)" using w(3) bitmap_meta(1) by blast
  note u = used_other [OF nb]
  have p: "ptr (v(a := da)) (addrs ip s) y = ptr v (addrs ip s) y" if "vslot y" for y using data_ptr [OF k(4) a that] .
  have "fs_wf (sb s) (v(a := da))" using k(3) u by (auto simp: fs_wf_def)
  moreover have "file_wf (sb s) (v(a := da)) (addrs ip s)"
    using k(4) p u unfolding file_wf_def by metis
  ultimately have "file_st ip t d (v(a := da)) (insert a B)" using t(3) k l by (simp add: file_st_def)
  moreover have fb: "file_blocks (v(a := da)) (addrs ip s) = file_blocks v (addrs ip s)"
    unfolding file_blocks_def by (rule Collect_cong) (metis p)
  have "a \<in> file_blocks v (addrs ip s)" using x a by (auto simp: file_blocks_def)
  then have "extends ip s v B t (v(a := da)) (insert a B) {a} 0"
    unfolding extends_def l(1) fb using fs_frame_lg [OF f] p u by (auto simp: nfree_def cong: conj_cong)
  ultimately show ?thesis using s1(1,4) s2(1) t(1) l(1) by blast
qed

subsection \<open>Reading\<close>

lemma unat_div_BSIZE: "unat (off div of_nat BSIZE :: u32) = unat off div BSIZE"
  by (simp add: unat_div)

lemma unat_off_add: "unat (off :: u32) + m < 2 ^ 32 \<Longrightarrow> unat (off + of_nat m) = unat off + m"
  by (simp add: unat_word_ariths unat_of_nat)

lemma chunk_block:
  assumes "i < chunk off r"
  shows "(unat off + i) div BSIZE = unat off div BSIZE" "(unat off + i) mod BSIZE = unat off mod BSIZE + i"
proof -
  let ?q = "unat off div BSIZE"
  have "i < BSIZE - unat off mod BSIZE" using assms by (simp add: chunk_def)
  then have l: "unat off mod BSIZE + i < BSIZE" by linarith
  have e: "unat off + i = (unat off mod BSIZE + i) + BSIZE * ?q" by simp
  have g: "(c + BSIZE * q) div BSIZE = q \<and> (c + BSIZE * q) mod BSIZE = c" if "c < BSIZE" for c q using that by simp
  show "(unat off + i) div BSIZE = unat off div BSIZE" "(unat off + i) mod BSIZE = unat off mod BSIZE + i"
    using g [OF l, of ?q] unfolding e [symmetric] by blast+
qed

definition mapped :: "(u32 \<Rightarrow> block) \<Rightarrow> (nat \<Rightarrow> u32) \<Rightarrow> nat \<Rightarrow> bool" where
  "mapped v A k \<longleftrightarrow> ptr v A (fslot (k div BSIZE)) \<noteq> 0"

lemma readi_loop_ok:
  assumes "file_st ip s d v B" "card B < 30" "unat off + r \<le> MAXFILE * BSIZE"
    and "\<forall>k. unat off \<le> k \<and> k < unat off + r \<longrightarrow> mapped v (addrs ip s) k"
  shows "\<exists>t. readi_loop ip off r s = Ret (map (fbyte v (addrs ip s)) [unat off..<unat off + r]) t \<and> file_st ip t d v B \<and> bio_frame s t"
  using assms
proof (induction r arbitrary: off s rule: less_induct)
  case (less r)
  show ?case
  proof (cases "r = 0")
    case True
    then show ?thesis using less.prems(1) bio_frame_refl by (subst readi_loop.simps) auto
  next
    case False
    let ?bn = "off div of_nat BSIZE :: u32" and ?m = "chunk off r" and ?A = "addrs ip s"
    let ?a = "ptr v ?A (fslot (unat off div BSIZE))"
    have bn: "unat ?bn = unat off div BSIZE" by (rule unat_div_BSIZE)
    have "unat off < MAXFILE * BSIZE" using less.prems(3) False by simp
    then have lim: "unat ?bn < MAXFILE" unfolding bn by (simp add: less_mult_imp_div_less)
    have a: "?a \<noteq> 0" using less.prems(4) False by (auto simp: mapped_def)
    obtain s1 where s1: "bmap ip ?bn s = Ret ?a s1" "file_st ip s1 d v B" "bio_frame s s1"
      using bmap_mapped [OF less.prems(1) lim, unfolded bn, OF a less.prems(2)] by blast
    note i1 = lg_frame_fs(1) [OF bio_lg_frame [OF s1(3)]]
    note k = file_stD [OF s1(2)]
    have "?a < sb_size (sb s1)" using file_wfD(1) [OF k(4) fslot_valid [OF lim]] a bn i1 by simp
    then have "?a < disksize s1" using k(5) by simp
    then obtain bp s2 where s2: "bread 1 ?a s1 = Ret bp s2" "bio_frame s1 s2" "hq s2 {(bp, ?a)} d v B" "b_data (bufs s2 bp) = v ?a"
      using hq_bread [OF k(1), of ?a] less.prems(2) by auto
    obtain s3 where s3: "brelse bp s2 = Ret () s3" "bio_frame s2 s3" "hq s3 {} d v B" using hq_brelse [OF s2(3)] by auto
    have f: "bio_frame s s3" using bio_frame_trans [OF bio_frame_trans [OF s1(3) s2(2)] s3(2)] .
    note l = lg_frame_fs [OF bio_lg_frame [OF f]] lg_frame_select [OF bio_lg_frame [OF f]]
    have st3: "file_st ip s3 d v B" using file_stD [OF less.prems(1)] s3(3) l by (simp add: file_st_def)
    have m: "0 < ?m" "?m \<le> r" using False chunk_pos chunk_le by auto
    have o: "unat (off + of_nat ?m) = unat off + ?m" using less.prems(3) m(2) by (intro unat_off_add) simp
    obtain t where t: "readi_loop ip (off + of_nat ?m) (r - ?m) s3
          = Ret (map (fbyte v ?A) [unat off + ?m..<unat off + r]) t" "file_st ip t d v B" "bio_frame s3 t"
      using less.IH [of "r - ?m" s3 "off + of_nat ?m"] st3 m less.prems(2-4) unfolding o l(1) by auto
    have e: "map (v ?a) [unat off mod BSIZE..<unat off mod BSIZE + ?m] = map (fbyte v ?A) [unat off..<unat off + ?m]"
      using chunk_block [of _ off r] a by (intro nth_equalityI) (simp_all add: fbyte_def Let_def)
    have "[unat off..<unat off + r] = [unat off..<unat off + ?m] @ [unat off + ?m..<unat off + r]"
      using m(2) by (metis le_add1 le_add_diff_inverse upt_add_eq_append add_le_cancel_left)
    then have "readi_loop ip off r s = Ret (map (fbyte v ?A) [unat off..<unat off + r]) t"
      using False s1(1) k(2) s2(1,4) s3(1) t(1) e by (subst readi_loop.simps) (simp add: Let_def)
    then show ?thesis using t(2) bio_frame_trans [OF f t(3)] by blast
  qed
qed

subsection \<open>Writing\<close>

text \<open>The number of blocks that \<open>n\<close> bytes from position \<open>o\<close> on touch.\<close>

definition nblk :: "nat \<Rightarrow> nat \<Rightarrow> nat" where
  "nblk p n = (if n = 0 then 0 else (p mod BSIZE + n - 1) div BSIZE + 1)"

lemma nblk_step:
  assumes "0 < n"
  shows "nblk (unat off + chunk off n) (n - chunk off n) + 1 \<le> nblk (unat off) n"
proof (cases "chunk off n = n")
  case False
  let ?p = "unat off mod BSIZE"
  have c: "chunk off n = BSIZE - ?p" "BSIZE - ?p < n" using False by (auto simp: chunk_def)
  have p: "?p < BSIZE" by simp
  have "unat off + (BSIZE - ?p) = BSIZE * (unat off div BSIZE) + BSIZE"
    using p mult_div_mod_eq [of BSIZE "unat off"] by linarith
  then have z: "(unat off + (BSIZE - ?p)) mod BSIZE = 0" by simp
  have e: "?p + n - 1 = BSIZE + (n - (BSIZE - ?p) - 1)" using c(2) p by linarith
  have "(BSIZE + x) div BSIZE = 1 + x div BSIZE" for x by simp
  then have "(?p + n - 1) div BSIZE = 1 + (n - (BSIZE - ?p) - 1) div BSIZE" unfolding e by blast
  then show ?thesis unfolding c(1) nblk_def z using c(2) by simp
qed (use assms in \<open>simp add: nblk_def\<close>)

lemma in_chunk:
  assumes "m = chunk off n"
  shows "k div BSIZE = unat off div BSIZE \<and> unat off mod BSIZE \<le> k mod BSIZE \<and> k mod BSIZE < unat off mod BSIZE + m
      \<longleftrightarrow> unat off \<le> k \<and> k < unat off + m"
    "unat off \<le> k \<and> k < unat off + m \<Longrightarrow> k mod BSIZE - unat off mod BSIZE = k - unat off"
proof -
  have e: "unat off \<le> k \<and> k - unat off = k mod BSIZE - unat off mod BSIZE"
    if "k div BSIZE = unat off div BSIZE" "unat off mod BSIZE \<le> k mod BSIZE"
  proof -
    have "BSIZE * (k div BSIZE) = BSIZE * (unat off div BSIZE)" using that(1) by simp
    then show ?thesis using that(2) mult_div_mod_eq [of BSIZE k] mult_div_mod_eq [of BSIZE "unat off"] by linarith
  qed
  have c: "k div BSIZE = unat off div BSIZE \<and> k mod BSIZE = unat off mod BSIZE + (k - unat off)" if "unat off \<le> k \<and> k < unat off + m"
    using chunk_block [of "k - unat off" off n] that assms by auto
  show "k div BSIZE = unat off div BSIZE \<and> unat off mod BSIZE \<le> k mod BSIZE \<and> k mod BSIZE < unat off mod BSIZE + m
      \<longleftrightarrow> unat off \<le> k \<and> k < unat off + m" (is "?l \<longleftrightarrow> ?r")
  proof
    assume l: ?l
    then have "unat off \<le> k \<and> k - unat off = k mod BSIZE - unat off mod BSIZE" using e by blast
    then show ?r using l by linarith
  next
    assume r: ?r
    then show ?l using c [OF r] by linarith
  qed
  show "unat off \<le> k \<and> k < unat off + m \<Longrightarrow> k mod BSIZE - unat off mod BSIZE = k - unat off" using c by simp
qed

text \<open>One round of the loop.\<close>

lemma writei_chunk:
  assumes st: "file_st ip s d v B" and off: "unat off < MAXFILE * BSIZE" and cg: "can_grow s v B 3" and m: "m = chunk off (length bs)"
  shows "\<exists>a s1 bp s2 s3 t v' B' X. bmap ip (off div of_nat BSIZE) s = Ret a s1 \<and> i_dev (icache s1 ip) = 1 \<and> bread 1 a s1 = Ret bp s2
    \<and> log_write bp (set_data bp (put_bytes (unat off mod BSIZE) (take m bs) (b_data (bufs s2 bp))) s2) = Ret () s3
    \<and> brelse bp s3 = Ret () t \<and> file_st ip t d v' B' \<and> extends ip s v B t v' B' X 3 \<and> card X \<le> 3
    \<and> i_size (icache t ip) = i_size (icache s ip)
    \<and> (\<forall>k<MAXFILE * BSIZE. fbyte v' (addrs ip t) k =
         (if unat off \<le> k \<and> k < unat off + m then bs ! (k - unat off) else fbyte v (addrs ip s) k))
    \<and> (\<forall>k. unat off \<le> k \<and> k < unat off + m \<longrightarrow> mapped v' (addrs ip t) k)
    \<and> (mapped v (addrs ip s) (unat off) \<longrightarrow> icache t = icache s)"
proof -
  let ?bn = "unat off div BSIZE" and ?p = "unat off mod BSIZE"
  have bn: "unat (off div of_nat BSIZE) = ?bn" by (rule unat_div_BSIZE)
  have lim: "?bn < MAXFILE" using off by (simp add: less_mult_imp_div_less)
  obtain a s1 v1 B1 X where s1: "bmap ip (off div of_nat BSIZE) s = Ret a s1" "file_st ip s1 d v1 B1" "grows ip s v B s1 v1 B1 X 3"
      "card X \<le> 3" "a \<in> X" "a \<noteq> 0" "ptr v1 (addrs ip s1) (fslot ?bn) = a"
      "mapped v (addrs ip s) (unat off) \<Longrightarrow> icache s1 = icache s"
    unfolding mapped_def using bmap_any [OF st, of "off div of_nat BSIZE", unfolded bn, OF lim cg] by blast
  note g = growsD [OF s1(3)] and k1 = file_stD [OF s1(2)]
  have "can_grow s1 v1 B1 0" using can_grow_mono [OF s1(3) cg] s1(4) by simp
  moreover have "card B1 \<le> card (B1 \<union> bitmap_blocks (sb s1))" using hq_finite [OF k1(1)] by (intro card_mono) auto
  ultimately have room: "in_op s1" "card B1 < 29" by (simp_all add: can_grow_def)
  let ?da = "put_bytes ?p (take m bs) (v1 a)"
  obtain bp s2 s3 t where t: "bread 1 a s1 = Ret bp s2" "b_data (bufs s2 bp) = v1 a" "log_write bp (set_data bp ?da s2) = Ret () s3"
      "brelse bp s3 = Ret () t" "file_st ip t d (v1(a := ?da)) (insert a B1)"
      "extends ip s1 v1 B1 t (v1(a := ?da)) (insert a B1) {a} 0" "icache t = icache s1"
    using data_write [OF s1(2) lim s1(7,6) room, of ?da] by blast
  have "extends ip s v B t (v1(a := ?da)) (insert a B1) X 3" using extends_trans [OF g(1) t(6)] s1(5) by (simp add: insert_absorb)
  moreover have "i_size (icache t ip) = i_size (icache s ip)" using g(2) t(7) by simp
  moreover have ml: "m \<le> length bs" using m chunk_le by simp
  have "fbyte (v1(a := ?da)) (addrs ip t) k =
         (if unat off \<le> k \<and> k < unat off + m then bs ! (k - unat off) else fbyte v (addrs ip s) k)" if k: "k < MAXFILE * BSIZE" for k
  proof -
    have "fbyte (v1(a := ?da)) (addrs ip s1) k = (if k div BSIZE = ?bn then ?da (k mod BSIZE) else fbyte v1 (addrs ip s1) k)"
      using data_fbyte [OF k1(4) lim s1(7,6) k] .
    moreover have "?da (k mod BSIZE) = (if ?p \<le> k mod BSIZE \<and> k mod BSIZE < ?p + m then bs ! (k mod BSIZE - ?p) else fbyte v1 (addrs ip s1) k)"
      if "k div BSIZE = ?bn"
      using that s1(6,7) ml by (auto simp: put_bytes_def fbyte_def Let_def)
    ultimately have "fbyte (v1(a := ?da)) (addrs ip s1) k = (if k div BSIZE = ?bn \<and> ?p \<le> k mod BSIZE \<and> k mod BSIZE < ?p + m
        then bs ! (k mod BSIZE - ?p) else fbyte v1 (addrs ip s1) k)" by simp
    then show ?thesis using in_chunk [OF m, of k] g(3) [OF k] t(7) by simp
  qed
  moreover have "mapped (v1(a := ?da)) (addrs ip t) k" if "unat off \<le> k \<and> k < unat off + m" for k
    using that in_chunk(1) [OF m, of k] data_ptr [OF k1(4) lim s1(7,6) fslot_valid [OF lim]] s1(6,7) t(7) by (simp add: mapped_def)
  moreover have "mapped v (addrs ip s) (unat off) \<longrightarrow> icache t = icache s" using s1(8) t(7) by simp
  ultimately show ?thesis using s1(1,4) k1(2) t(1-5) by metis
qed

definition overlay :: "(nat \<Rightarrow> u8) \<Rightarrow> nat \<Rightarrow> u8 list \<Rightarrow> nat \<Rightarrow> u8" where
  "overlay f p bs k = (if p \<le> k \<and> k < p + length bs then bs ! (k - p) else f k)"

lemma overlay_overlay: "m \<le> length bs \<Longrightarrow> overlay (overlay f p (take m bs)) (p + m) (drop m bs) = overlay f p bs"
  by (auto simp: overlay_def fun_eq_iff nth_drop)

lemma mapped_extends:
  "extends ip s v B t v' B' X n \<Longrightarrow> k < MAXFILE * BSIZE \<Longrightarrow> mapped v (addrs ip s) k \<Longrightarrow> mapped v' (addrs ip t) k"
  unfolding mapped_def using extendsD(2) fslot_valid by (metis less_mult_imp_div_less)

definition wrote :: "nat \<Rightarrow> 'x kfs_scheme \<Rightarrow> (u32 \<Rightarrow> block) \<Rightarrow> nat \<Rightarrow> u8 list \<Rightarrow> 'x kfs_scheme \<Rightarrow> (u32 \<Rightarrow> block) \<Rightarrow> bool" where
  "wrote ip s v p bs t v' \<longleftrightarrow> i_size (icache t ip) = i_size (icache s ip)
     \<and> (\<forall>k<MAXFILE * BSIZE. fbyte v' (addrs ip t) k = overlay (fbyte v (addrs ip s)) p bs k)
     \<and> (\<forall>k. p \<le> k \<and> k < p + length bs \<longrightarrow> mapped v' (addrs ip t) k)
     \<and> ((\<forall>k. p \<le> k \<and> k < p + length bs \<longrightarrow> mapped v (addrs ip s) k) \<longrightarrow> icache t = icache s)"

lemma writei_loop_ok:
  assumes "file_st ip s d v B" "unat off + length bs \<le> MAXFILE * BSIZE" "can_grow s v B (3 * nblk (unat off) (length bs))"
  shows "\<exists>t v' B' X. writei_loop ip off bs s = Ret (off + of_nat (length bs)) t \<and> file_st ip t d v' B'
    \<and> extends ip s v B t v' B' X (3 * nblk (unat off) (length bs)) \<and> card X \<le> 3 * nblk (unat off) (length bs)
    \<and> wrote ip s v (unat off) bs t v'"
  using assms
proof (induction "length bs" arbitrary: bs off s v B rule: less_induct)
  case less
  show ?case
  proof (cases "bs = []")
    case True
    have "extends ip s v B s v B {} (3 * nblk (unat off) (length bs))" "card {} \<le> 3 * nblk (unat off) (length bs)"
      using extends_refl [OF fs_frame_lg [OF lg_frame_refl]] by (blast, simp)
    moreover have "writei_loop ip off bs s = Ret (off + of_nat (length bs)) s" using True by (subst writei_loop.simps) simp
    moreover have "wrote ip s v (unat off) bs s v" using True by (auto simp: wrote_def overlay_def)
    ultimately show ?thesis using less.prems(1) by blast
  next
    case False
    let ?n = "length bs" and ?m = "chunk off (length bs)"
    let ?r = "nblk (unat off + ?m) (?n - ?m)"
    have m: "0 < ?m" "?m \<le> ?n" using False chunk_pos chunk_le by auto
    have nb: "?r + 1 \<le> nblk (unat off) ?n" using nblk_step False by simp
    have cg: "can_grow s v B 3" using less.prems(3) nb by (simp add: can_grow_def)
    have lim: "unat off < MAXFILE * BSIZE" using less.prems(2) False by (cases bs) simp_all
    obtain a s1 bp s2 s3 u v1 B1 X where c: "bmap ip (off div of_nat BSIZE) s = Ret a s1" "i_dev (icache s1 ip) = 1" "bread 1 a s1 = Ret bp s2"
        "log_write bp (set_data bp (put_bytes (unat off mod BSIZE) (take ?m bs) (b_data (bufs s2 bp))) s2) = Ret () s3"
        "brelse bp s3 = Ret () u" "file_st ip u d v1 B1" "extends ip s v B u v1 B1 X 3" "card X \<le> 3"
        "i_size (icache u ip) = i_size (icache s ip)"
        "\<forall>k<MAXFILE * BSIZE. fbyte v1 (addrs ip u) k = (if unat off \<le> k \<and> k < unat off + ?m then bs ! (k - unat off) else fbyte v (addrs ip s) k)"
        "\<forall>k. unat off \<le> k \<and> k < unat off + ?m \<longrightarrow> mapped v1 (addrs ip u) k" "mapped v (addrs ip s) (unat off) \<longrightarrow> icache u = icache s"
      using writei_chunk [OF less.prems(1) lim cg refl, of bs] by metis
    have o: "unat (off + of_nat ?m) = unat off + ?m" using less.prems(2) m(2) by (intro unat_off_add) simp
    have cg1: "can_grow u v1 B1 (3 * ?r)" using can_grow_extends [OF c(7) less.prems(3)] c(8) nb by simp
    have "length (drop ?m bs) < length bs" using m by simp
    from less.hyps [OF this c(6), of "off + of_nat ?m"] obtain t v' B' Y where
      t: "writei_loop ip (off + of_nat ?m) (drop ?m bs) u = Ret (off + of_nat ?m + of_nat (?n - ?m)) t" "file_st ip t d v' B'"
        "extends ip u v1 B1 t v' B' Y (3 * ?r)" "card Y \<le> 3 * ?r" "wrote ip u v1 (unat off + ?m) (drop ?m bs) t v'"
      using less.prems(2) m cg1 unfolding o by auto
    note tw = t(5) [unfolded wrote_def]
    have "off + of_nat ?m + of_nat (?n - ?m) = (off + of_nat ?n :: u32)" using m(2) by (simp add: of_nat_diff)
    then have w: "writei_loop ip off bs s = Ret (off + of_nat ?n) t"
      using False c(1-5) t(1) by (subst writei_loop.simps) (simp add: Let_def)
    have ex: "extends ip s v B t v' B' (X \<union> Y) (3 * nblk (unat off) ?n)"
      using extends_trans [OF c(7) t(3)] nb unfolding extends_def by (elim conjE, intro conjI) (assumption | force)+
    have "card (X \<union> Y) \<le> 3 * nblk (unat off) ?n" using card_Un_le [of X Y] c(8) t(4) nb by linarith
    moreover have "fbyte v' (addrs ip t) k = overlay (fbyte v (addrs ip s)) (unat off) bs k" if k: "k < MAXFILE * BSIZE" for k
    proof -
      have "fbyte v1 (addrs ip u) k = overlay (fbyte v (addrs ip s)) (unat off) (take ?m bs) k"
        using c(10) k m(2) by (auto simp: overlay_def)
      then have "fbyte v' (addrs ip t) k = overlay (overlay (fbyte v (addrs ip s)) (unat off) (take ?m bs)) (unat off + ?m) (drop ?m bs) k"
        using tw k by (simp add: overlay_def)
      then show ?thesis using overlay_overlay [OF m(2)] by simp
    qed
    moreover have "mapped v' (addrs ip t) k" if "unat off \<le> k \<and> k < unat off + ?n" for k
    proof (cases "k < unat off + ?m")
      case True
      then show ?thesis using mapped_extends [OF t(3)] c(11) that less.prems(2) by auto
    next
      case False
      then show ?thesis using tw that m(2) by auto
    qed
    moreover have "icache t = icache s" if all: "\<forall>k. unat off \<le> k \<and> k < unat off + ?n \<longrightarrow> mapped v (addrs ip s) k"
    proof -
      have "mapped v1 (addrs ip u) k" if "unat off + ?m \<le> k \<and> k < unat off + ?m + (?n - ?m)" for k
        using mapped_extends [OF c(7)] all that less.prems(2) m(2) by auto
      then show ?thesis using tw c(12) all False by auto
    qed
    ultimately have "wrote ip s v (unat off) bs t v'" "card (X \<union> Y) \<le> 3 * nblk (unat off) ?n"
      using tw c(9) by (auto simp: wrote_def)
    then show ?thesis using w t(2) ex by blast
  qed
qed

subsection \<open>The inode on the disk\<close>

lemma put_addrs_get:
  "j < i \<Longrightarrow> get32 (put_addrs i k a d) (k + 12 + 4 * j) = a j"
  "n \<le> k + 8 \<Longrightarrow> get32 (put_addrs i k a d) n = get32 d n" "n \<le> k + 10 \<Longrightarrow> get16 (put_addrs i k a d) n = get16 d n"
proof (induction i)
  case (Suc i)
  {
    case 1
    then show ?case using Suc(1) by (cases "j = i") auto
  next
    case 2
    then show ?case using Suc(2) by auto
  next
    case 3
    then show ?case using Suc(3) by auto
  }
qed simp_all

lemma dinode_roundtrip: "get_dinode (put_dinode k n d) k n = n"
proof -
  have "(\<lambda>i. if i < NDIRECT + 2 then get32 (put_dinode k n d) (k + 12 + 4 * i) else i_addrs n i) = i_addrs n"
    using put_addrs_get(1) [of _ "NDIRECT + 2" k "i_addrs n"] by (auto simp: put_dinode_def Let_def)
  moreover have "get16 (put_dinode k n d) k = i_type n" "get16 (put_dinode k n d) (k + 2) = i_major n"
      "get16 (put_dinode k n d) (k + 4) = i_minor n" "get16 (put_dinode k n d) (k + 6) = i_nlink n"
      "get32 (put_dinode k n d) (k + 8) = i_size n"
    by (simp_all add: put_dinode_def Let_def put_addrs_get)
  ultimately show ?thesis by (simp add: get_dinode_def)
qed

lemma put32_other: "j < i \<or> i + 4 \<le> j \<Longrightarrow> put32 i x d j = d j"
  by (auto simp: put32_def)

lemma put16_other: "j < i \<or> i + 2 \<le> j \<Longrightarrow> put16 i x d j = d j"
  by (auto simp: put16_def)

lemma put_addrs_other: "j < k + 12 \<or> k + 12 + 4 * i \<le> j \<Longrightarrow> put_addrs i k a d j = d j"
  by (induction i) (auto simp: put32_other)

lemma put_dinode_other: "j < k \<or> k + 64 \<le> j \<Longrightarrow> put_dinode k n d j = d j"
  unfolding put_dinode_def Let_def by (subst put_addrs_other, force, subst put32_other, force, (subst put16_other, force)+) (rule refl)

text \<open>The block and the place of an inode, and that the disk block agrees with the inode in memory.\<close>

definition iblock :: "nat \<Rightarrow> 'x kfs_scheme \<Rightarrow> u32" where
  "iblock ip s = IBLOCK (i_inum (icache s ip)) (sb s)"

definition synced :: "nat \<Rightarrow> 'x kfs_scheme \<Rightarrow> (u32 \<Rightarrow> block) \<Rightarrow> bool" where
  "synced ip s v \<longleftrightarrow> get_dinode (v (iblock ip s)) (dinode_off (i_inum (icache s ip))) (icache s ip) = icache s ip"

lemma meta_ptr:
  assumes wf: "file_wf S v A" and m: "m \<in> meta S" and y: "vslot y"
  shows "ptr (v(m := da)) A y = ptr v A y"
  using y
proof (induction y)
  case (Entry q i)
  have q: "vslot q" using Entry.prems vslot_parent by blast
  have "ptr v A q \<noteq> m" if "ptr v A q \<noteq> 0" using file_wfD(3) [OF wf q that] m by metis
  then show ?case using Entry.IH [OF q] by auto
qed simp

lemma iupdate_ok:
  assumes st: "file_st ip s d v B" and inum: "i_inum (icache s ip) < sb_ninodes (sb s)" and room: "in_op s" "card B < 29"
  shows "\<exists>t da. iupdate ip s = Ret () t \<and> file_st ip t d (v(iblock ip s := da)) (insert (iblock ip s) B) \<and> lg_frame s t
    \<and> synced ip t (v(iblock ip s := da)) \<and> (\<forall>k<MAXFILE * BSIZE. fbyte (v(iblock ip s := da)) (addrs ip s) k = fbyte v (addrs ip s) k)
    \<and> (\<forall>y. vslot y \<longrightarrow> ptr (v(iblock ip s := da)) (addrs ip s) y = ptr v (addrs ip s) y)
    \<and> (\<forall>j. j < dinode_off (i_inum (icache s ip)) \<or> dinode_off (i_inum (icache s ip)) + 64 \<le> j \<longrightarrow> da j = v (iblock ip s) j)
    \<and> (\<forall>m < sb_size (sb s). used (sb s) (v(iblock ip s := da)) m = used (sb s) v m)"
proof -
  note k = file_stD [OF st]
  let ?m = "iblock ip s" and ?k = "dinode_off (i_inum (icache s ip))"
  let ?da = "put_dinode ?k (icache s ip) (v ?m)"
  let ?v = "v(?m := ?da)"
  have m: "?m \<in> meta (sb s)" "?m \<notin> bitmap_blocks (sb s)" using inum k(3) by (auto simp: iblock_def meta_def fs_wf_def)
  then have "?m < sb_size (sb s)" using k(3) by (auto simp: fs_wf_def)
  then have "?m < disksize s" using k(5) by simp
  then obtain bp s1 where s1: "bread 1 ?m s = Ret bp s1" "bio_frame s s1" "hq s1 {(bp, ?m)} d v B" "b_data (bufs s1 bp) = v ?m"
    using hq_bread [OF k(1), of ?m] room(2) by auto
  note f1 = bio_lg_frame [OF s1(2)]
  obtain s2 where s2: "log_write bp (set_data bp ?da s1) = Ret () s2" "lg_frame s1 s2" "hq s2 {(bp, ?m)} d ?v (insert ?m B)"
    using hq_log_write [OF s1(3), of bp ?m] room in_op_frame [OF f1] by auto
  obtain t where t: "brelse bp s2 = Ret () t" "bio_frame s2 t" "hq t {} d ?v (insert ?m B)" using hq_brelse [OF s2(3)] by auto
  have f: "lg_frame s t" using lg_frame_trans [OF lg_frame_trans [OF f1 s2(2)] bio_lg_frame [OF t(2)]] .
  note l = lg_frame_fs [OF f] lg_frame_select [OF f]
  note u = used_other [OF m(2)]
  have p: "ptr ?v (addrs ip s) y = ptr v (addrs ip s) y" if "vslot y" for y using meta_ptr [OF k(4) m(1) that] .
  have "fs_wf (sb s) ?v" using k(3) u by (auto simp: fs_wf_def)
  moreover have "file_wf (sb s) ?v (addrs ip s)" using k(4) p u unfolding file_wf_def by metis
  ultimately have "file_st ip t d ?v (insert ?m B)" using t(3) k l by (simp add: file_st_def)
  moreover have "iupdate ip s = Ret () t"
    using s1(1,4) s2(1) t(1) k(2) lg_frame_fs(1) [OF f1] by (simp add: iupdate_def iblock_def Let_def)
  moreover have "synced ip t ?v" unfolding synced_def using l(1,2) by (simp add: iblock_def dinode_roundtrip)
  moreover have "fbyte ?v (addrs ip s) n = fbyte v (addrs ip s) n" if n: "n < MAXFILE * BSIZE" for n
  proof -
    have y: "vslot (fslot (n div BSIZE))" using fslot_valid n by (simp add: less_mult_imp_div_less)
    have "ptr v (addrs ip s) (fslot (n div BSIZE)) \<noteq> ?m" if "ptr v (addrs ip s) (fslot (n div BSIZE)) \<noteq> 0"
      using file_wfD(3) [OF k(4) y that] m(1) by metis
    then show ?thesis using p [OF y] by (auto simp: fbyte_def Let_def)
  qed
  moreover have "\<forall>j. j < ?k \<or> ?k + 64 \<le> j \<longrightarrow> ?da j = v ?m j" using put_dinode_other by blast
  ultimately show ?thesis using f p u by blast
qed

subsection \<open>Files\<close>

text \<open>
  A file whose inode is in memory: every block up to its size is there and the inode on the disk (in the
  view) is the one in memory.
\<close>

definition file_ok :: "nat \<Rightarrow> 'x kfs_scheme \<Rightarrow> (u32 \<Rightarrow> block) \<Rightarrow> (u32 \<Rightarrow> block) \<Rightarrow> u32 set \<Rightarrow> bool" where
  "file_ok ip s d v B \<longleftrightarrow> file_st ip s d v B \<and> i_type (icache s ip) \<noteq> T_DEV \<and> i_inum (icache s ip) < sb_ninodes (sb s)
     \<and> synced ip s v \<and> unat (i_size (icache s ip)) \<le> MAXFILE * BSIZE
     \<and> (\<forall>k<unat (i_size (icache s ip)). mapped v (addrs ip s) k)"

definition contents :: "nat \<Rightarrow> 'x kfs_scheme \<Rightarrow> (u32 \<Rightarrow> block) \<Rightarrow> u8 list" where
  "contents ip s v = map (fbyte v (addrs ip s)) [0..<unat (i_size (icache s ip))]"

lemma file_okD:
  assumes "file_ok ip s d v B"
  shows "file_st ip s d v B" "i_type (icache s ip) \<noteq> T_DEV" "i_inum (icache s ip) < sb_ninodes (sb s)" "synced ip s v"
    "unat (i_size (icache s ip)) \<le> MAXFILE * BSIZE" "\<And>k. k < unat (i_size (icache s ip)) \<Longrightarrow> mapped v (addrs ip s) k"
  using assms by (simp_all add: file_ok_def)

lemma sint_u32: "unat (n :: u32) < 2 ^ 31 \<Longrightarrow> sint n = int (unat n)"
  using sint_small [of "unat n"] by simp

lemma readi_ok:
  assumes ok: "file_ok ip s d v B" "card B < 30" and off: "unat off \<le> unat (i_size (icache s ip))" "unat off + unat n < 2 ^ 32"
  shows "\<exists>t. readi ip off n s = Ret (int (length (take (unat n) (drop (unat off) (contents ip s v)))),
      take (unat n) (drop (unat off) (contents ip s v))) t \<and> bio_frame s t \<and> file_st ip t d v B"
proof -
  note k = file_okD [OF ok(1)]
  let ?z = "unat (i_size (icache s ip))" and ?c = "contents ip s v"
  let ?r = "min (unat n) (?z - unat off)"
  have plus: "unat (off + n) = unat off + unat n" using off(2) by (simp add: unat_word_ariths)
  let ?n = "if off + n > i_size (icache s ip) then i_size (icache s ip) - off else n"
  have "unat (i_size (icache s ip) - off) = ?z - unat off" using off(1) by (simp add: unat_sub word_le_nat_alt)
  then have un: "unat ?n = ?r" using plus off(1) by (auto simp: word_less_nat_alt)
  have "unat off + ?r \<le> ?z" using off(1) by simp
  then have lim: "unat off + ?r \<le> MAXFILE * BSIZE" and mp: "\<forall>k. unat off \<le> k \<and> k < unat off + ?r \<longrightarrow> mapped v (addrs ip s) k"
    using k(5,6) by auto
  obtain t where t: "readi_loop ip off ?r s = Ret (map (fbyte v (addrs ip s)) [unat off..<unat off + ?r]) t" "file_st ip t d v B" "bio_frame s t"
    using readi_loop_ok [OF k(1) ok(2) lim mp] by blast
  have "map (fbyte v (addrs ip s)) [unat off..<unat off + ?r] = take (unat n) (drop (unat off) ?c)"
    by (rule nth_equalityI) (auto simp: contents_def)
  moreover have "sint ?n = int ?r" using sint_u32 [of ?n] un lim by simp
  moreover have "length (take (unat n) (drop (unat off) ?c)) = ?r" by (simp add: contents_def)
  moreover have "\<not> off > i_size (icache s ip)" "\<not> off + n < off" using off(1) plus by (simp_all add: word_less_nat_alt)
  ultimately have "readi ip off n s = Ret (int (length (take (unat n) (drop (unat off) ?c))), take (unat n) (drop (unat off) ?c)) t"
    using k(2) t(1) un by (simp add: readi_def Let_def split del: if_split)
  then show ?thesis using t(2,3) by blast
qed

lemma writei_error:
  assumes "i_type (icache s ip) \<noteq> T_DEV" "length bs < 2 ^ 32"
    and "unat (i_size (icache s ip)) < unat off \<or> MAXFILE * BSIZE < unat off + length bs"
  shows "writei ip bs off s = Ret (- 1) s"
proof (cases "unat off + length bs < 2 ^ 32")
  case True
  then have "unat (off + of_nat (length bs)) = unat off + length bs" by (rule unat_off_add)
  then show ?thesis using assms by (auto simp: writei_def Let_def word_less_nat_alt)
next
  case False
  have "off + of_nat (length bs) < off"
  proof -
    have l: "unat (of_nat (length bs) :: u32) = length bs" using assms(2) by (rule unat_of_nat32)
    have u: "unat off < 2 ^ 32" using unsigned_less [of off] by simp
    have "unat (off + of_nat (length bs)) = (unat off + length bs) mod 2 ^ 32" using l by (simp add: unat_word_ariths)
    also have "\<dots> = unat off + length bs - 2 ^ 32" using False u assms(2) by (simp add: le_mod_geq)
    also have "\<dots> < unat off" using assms(2) False by linarith
    finally show ?thesis by (simp add: word_less_nat_alt)
  qed
  then show ?thesis using assms(1) by (simp add: writei_def Let_def)
qed

text \<open>What else a write may change: nothing in use outside the file, its inode and the bitmap.\<close>

definition others_kept :: "nat \<Rightarrow> 'x kfs_scheme \<Rightarrow> (u32 \<Rightarrow> block) \<Rightarrow> 'x kfs_scheme \<Rightarrow> (u32 \<Rightarrow> block) \<Rightarrow> bool" where
  "others_kept ip s v t v' \<longleftrightarrow>
     (\<forall>m < sb_size (sb s). used (sb s) v m \<and> m \<notin> bitmap_blocks (sb s) \<and> m \<notin> file_blocks v (addrs ip s) \<and> m \<noteq> iblock ip s
        \<longrightarrow> v' m = v m)
     \<and> (\<forall>j. j < dinode_off (i_inum (icache s ip)) \<or> dinode_off (i_inum (icache s ip)) + 64 \<le> j \<longrightarrow> v' (iblock ip s) j = v (iblock ip s) j)
     \<and> (\<forall>m < sb_size (sb s). used (sb s) v m \<longrightarrow> used (sb s) v' m) \<and> (\<forall>i. i \<noteq> ip \<longrightarrow> icache t i = icache s i)
     \<and> i_type (icache t ip) = i_type (icache s ip)"

lemma iblock_kept:
  assumes ok: "file_ok ip s d v B" and e: "extends ip s v B t v' B' X n"
  shows "v' (iblock ip s) = v (iblock ip s)"
proof -
  note k = file_okD [OF ok] and st = file_stD [OF file_okD(1) [OF ok]]
  have m: "iblock ip s \<in> meta (sb s)" "iblock ip s \<notin> bitmap_blocks (sb s)"
    using k(3) st(3) by (auto simp: iblock_def meta_def fs_wf_def)
  moreover from m have "iblock ip s < sb_size (sb s)" "used (sb s) v (iblock ip s)" using st(3) by (auto simp: fs_wf_def)
  moreover have "iblock ip s \<notin> file_blocks v (addrs ip s)"
  proof
    assume "iblock ip s \<in> file_blocks v (addrs ip s)"
    then obtain x where "vslot x" "ptr v (addrs ip s) x \<noteq> 0" "ptr v (addrs ip s) x = iblock ip s" unfolding file_blocks_def by auto
    then show False using m(1) file_wfD(3) [OF st(4), of x] by simp
  qed
  ultimately show ?thesis using extendsD(3) [OF e] by blast
qed

lemma contents_overlay:
  assumes z: "p \<le> unat (i_size (icache s ip))" "unat (i_size (icache s ip)) \<le> M" "p + length bs \<le> M"
    and t: "unat (i_size (icache t ip)) = max (unat (i_size (icache s ip))) (p + length bs)"
    and f: "\<And>k. k < M \<Longrightarrow> fbyte v' (addrs ip t) k = overlay (fbyte v (addrs ip s)) p bs k"
  shows "contents ip t v' = take p (contents ip s v) @ bs @ drop (p + length bs) (contents ip s v)" (is "_ = ?rhs")
proof (rule nth_equalityI)
  show "length (contents ip t v') = length ?rhs" using z t by (simp add: contents_def)
  fix k assume "k < length (contents ip t v')"
  then have k: "k < max (unat (i_size (icache s ip))) (p + length bs)" by (simp add: contents_def t)
  then have "k < M" using z by simp
  then have "contents ip t v' ! k = overlay (fbyte v (addrs ip s)) p bs k" using k f t by (simp add: contents_def)
  then show "contents ip t v' ! k = ?rhs ! k" using k z by (auto simp: overlay_def nth_append contents_def)
qed

lemma writei_ok:
  assumes ok: "file_ok ip s d v B" and off: "unat off \<le> unat (i_size (icache s ip))" "unat off + length bs \<le> MAXFILE * BSIZE"
    and cg: "can_grow s v B (3 * nblk (unat off) (length bs))"
  shows "\<exists>t v' B'. writei ip bs off s = Ret (int (length bs)) t \<and> file_ok ip t d v' B'
    \<and> contents ip t v' = take (unat off) (contents ip s v) @ bs @ drop (unat off + length bs) (contents ip s v)
    \<and> others_kept ip s v t v'"
proof -
  note k = file_okD [OF ok]
  let ?z = "unat (i_size (icache s ip))" and ?o = "off + of_nat (length bs) :: u32" and ?N = "nblk (unat off) (length bs)"
  have o: "unat ?o = unat off + length bs" using off(2) by (intro unat_off_add) simp
  have n: "unat (of_nat (length bs) :: u32) = length bs" using off(2) by (intro unat_of_nat32) simp
  obtain t v' B' X where t: "writei_loop ip off bs s = Ret ?o t" "file_st ip t d v' B'" "extends ip s v B t v' B' X (3 * ?N)"
      "card X \<le> 3 * ?N" "wrote ip s v (unat off) bs t v'"
    using writei_loop_ok [OF k(1) off(2) cg] by blast
  note w = t(5) [unfolded wrote_def] and f = fs_frame_select [OF extendsD(1) [OF t(3)]]
  have ib: "v' (iblock ip s) = v (iblock ip s)" using iblock_kept [OF ok t(3)] .
  have mp: "mapped v' (addrs ip t) j" if "j < max ?z (unat off + length bs)" for j
  proof (cases "j < ?z")
    case True
    then show ?thesis using mapped_extends [OF t(3)] k(5,6) by simp
  next
    case False
    then show ?thesis using w that off(1) by auto
  qed
  have oth: "icache t i = icache s i" if "i \<noteq> ip" for i using f(6) that by (metis fun_upd_other)
  have sel: "\<not> off > i_size (icache s ip)" "\<not> ?o < off" "\<not> ?o > of_nat (MAXFILE * BSIZE)"
    using off o by (simp_all add: word_less_nat_alt unat_of_nat)
  have sn: "sint (of_nat (length bs) :: u32) = int (length bs)" using off(2) by (intro sint_small) simp
  show ?thesis
  proof (cases "?z < unat off + length bs")
    case False
    then have "icache t = icache s" using w k(6) by auto
    moreover have "\<not> ?o > i_size (icache s ip)" using False o by (simp add: word_less_nat_alt)
    ultimately have "writei ip bs off s = Ret (int (length bs)) t" using k(2) sel t(1) sn by (simp add: writei_def Let_def)
    moreover have "file_ok ip t d v' B'"
      using \<open>icache t = icache s\<close> k(2-5) f(1) ib mp t(2) False by (simp add: file_ok_def synced_def iblock_def)
    moreover have "contents ip t v' = take (unat off) (contents ip s v) @ bs @ drop (unat off + length bs) (contents ip s v)"
      using off k(5) w False by (intro contents_overlay [where M = "MAXFILE * BSIZE"]) auto
    moreover have "others_kept ip s v t v'" unfolding others_kept_def using extendsD(3,4) [OF t(3)] oth ib f(9) by auto
    ultimately show ?thesis by blast
  next
    case True
    let ?u = "upd_inode ip (\<lambda>i. i\<lparr>i_size := ?o\<rparr>) t"
    have u: "addrs ip ?u = addrs ip t" "i_inum (icache ?u ip) = i_inum (icache s ip)" "i_type (icache ?u ip) = i_type (icache s ip)"
        "i_size (icache ?u ip) = ?o" "sb ?u = sb s" "iblock ip ?u = iblock ip s" "\<And>i. i \<noteq> ip \<Longrightarrow> icache ?u i = icache t i"
        "in_op ?u = in_op s"
      using f by (simp_all add: upd_inode_def iblock_def in_op_def)
    have us: "file_st ip ?u d v' B'" using t(2) u(1,5) f(1) by (simp add: file_st_def) (simp add: upd_inode_def)
    have "can_grow t v' B' 0" using can_grow_extends [OF t(3) cg] t(4) by simp
    moreover have "card B' \<le> card (B' \<union> bitmap_blocks (sb t))" using hq_finite [OF file_stD(1) [OF t(2)]] by (intro card_mono) auto
    ultimately have room: "in_op ?u" "card B' < 29" using u(8) f(5) by (simp_all add: can_grow_def)
    obtain y da where y: "iupdate ip ?u = Ret () y" "file_st ip y d (v'(iblock ip s := da)) (insert (iblock ip s) B')" "lg_frame ?u y"
        "synced ip y (v'(iblock ip s := da))" "\<forall>k<MAXFILE * BSIZE. fbyte (v'(iblock ip s := da)) (addrs ip t) k = fbyte v' (addrs ip t) k"
        "\<forall>x. vslot x \<longrightarrow> ptr (v'(iblock ip s := da)) (addrs ip t) x = ptr v' (addrs ip t) x"
        "\<forall>j. j < dinode_off (i_inum (icache s ip)) \<or> dinode_off (i_inum (icache s ip)) + 64 \<le> j \<longrightarrow> da j = v' (iblock ip s) j"
        "\<forall>m < sb_size (sb s). used (sb s) (v'(iblock ip s := da)) m = used (sb s) v' m"
      using iupdate_ok [OF us _ room, unfolded u(1,2,5,6)] k(3) by blast
    let ?v = "v'(iblock ip s := da)"
    note l = lg_frame_fs [OF y(3)]
    have "?o > i_size (icache t ip)" "of_nat (length bs) > (0 :: u32)"
      using True off(1) o w n by (auto simp: word_less_nat_alt)
    then have "writei ip bs off s = Ret (int (length bs)) y" using k(2) sel t(1) sn y(1) by (simp add: writei_def Let_def)
    moreover have "mapped ?v (addrs ip t) j" if "j < unat ?o" for j
    proof -
      have "j < MAXFILE * BSIZE" using that o off(2) by simp
      then have "vslot (fslot (j div BSIZE))" using fslot_valid by (simp add: less_mult_imp_div_less)
      then show ?thesis using y(6) mp [of j] that o True by (simp add: mapped_def)
    qed
    then have "file_ok ip y d ?v (insert (iblock ip s) B')" using y(2,4) k(2,3) l u o off(2) by (simp add: file_ok_def)
    moreover have "contents ip y ?v = take (unat off) (contents ip s v) @ bs @ drop (unat off + length bs) (contents ip s v)"
      using off k(5) w True y(5) l(1) u(1,4) o by (intro contents_overlay [where M = "MAXFILE * BSIZE"]) auto
    moreover have "others_kept ip s v y ?v"
      unfolding others_kept_def l(1) using extendsD(3,4) [OF t(3)] oth ib u(3,7) y(7,8) by auto
    ultimately show ?thesis by blast
  qed
qed

lemma file_ok_frame:
  assumes "file_ok ip s d v B" "bio_frame s t" "file_st ip t d v B"
  shows "file_ok ip t d v B" "contents ip t v = contents ip s v"
  using assms lg_frame_fs [OF bio_lg_frame [OF assms(2)]] by (simp_all add: file_ok_def synced_def iblock_def contents_def)

subsection \<open>Properties\<close>

text \<open>
  C4. Reading a file returns its bytes. For a file whose inode is in memory (\<open>file_ok\<close>: its blocks, found
  through the direct, indirect and double indirect entries, are different blocks in use outside the
  metadata), \<open>readi\<close> returns exactly the bytes of the file from the offset on, as many as asked for or up to
  the end, with their number, and changes no file and no block; from an offset past the end it returns -1.
\<close>

theorem readi_returns_contents:
  assumes "file_ok ip s d v B" "card B < 30" "unat off + unat n < 2 ^ 32"
  shows "if unat (i_size (icache s ip)) < unat off then readi ip off n s = Ret (- 1, []) s
    else \<exists>t. readi ip off n s = Ret (int (length (take (unat n) (drop (unat off) (contents ip s v)))),
        take (unat n) (drop (unat off) (contents ip s v))) t
      \<and> file_ok ip t d v B \<and> contents ip t v = contents ip s v"
proof (cases "unat (i_size (icache s ip)) < unat off")
  case True
  then show ?thesis using file_okD(2) [OF assms(1)] by (simp add: readi_def word_less_nat_alt)
next
  case False
  then show ?thesis using readi_ok [OF assms(1,2) _ assms(3)] file_ok_frame [OF assms(1)] by (simp add: not_less) metis
qed

text \<open>
  C3. Writing a file changes exactly the bytes written. Inside a transaction with room in the log (three
  blocks for each block touched) and as many free blocks, \<open>writei\<close> at an offset inside the file or at its
  end returns the number of bytes; the file then consists of the old bytes with the new ones in their
  place, grown when they reach past the end; the file is again well-formed, the inode on the disk agrees
  with the one in memory, every other block in use keeps its contents except the bitmap, the other inodes
  in the inode's block included, and no block in use becomes free. An offset past the end, or a write past
  the largest file size of 11 + 128 + 128 * 128 blocks, returns -1 and changes nothing.
\<close>

theorem writei_updates_contents:
  assumes "file_ok ip s d v B" "length bs < 2 ^ 32" "can_grow s v B (3 * nblk (unat off) (length bs))"
  shows "if unat (i_size (icache s ip)) < unat off \<or> MAXFILE * BSIZE < unat off + length bs
    then writei ip bs off s = Ret (- 1) s
    else \<exists>t v' B'. writei ip bs off s = Ret (int (length bs)) t \<and> file_ok ip t d v' B'
      \<and> contents ip t v' = take (unat off) (contents ip s v) @ bs @ drop (unat off + length bs) (contents ip s v)
      \<and> others_kept ip s v t v'"
proof (cases "unat (i_size (icache s ip)) < unat off \<or> MAXFILE * BSIZE < unat off + length bs")
  case True
  then show ?thesis using writei_error [OF file_okD(2) [OF assms(1)] assms(2)] by simp
next
  case False
  then have "unat off \<le> unat (i_size (icache s ip))" "unat off + length bs \<le> MAXFILE * BSIZE" by simp_all
  from writei_ok [OF assms(1) this assms(3)] show ?thesis using False by simp
qed

subsection \<open>An example\<close>

text \<open>
  A small disk: 35 blocks of metadata, marked in the bitmap, and a file with inode 1, of type \<open>ty\<close> and size
  \<open>sz\<close>, in block 35.
\<close>

definition ex_bitmap :: block where
  "ex_bitmap = (\<lambda>i. if i < 4 then 255 else if i = 4 then 15 else 0)"

definition ex_fs_disk :: "u8 \<Rightarrow> u8 \<Rightarrow> block \<Rightarrow> u32 \<Rightarrow> block" where
  "ex_fs_disk ty sz data m =
     (if m = 34 then ex_bitmap
      else if m = 32 then (\<lambda>i. if i = 64 then ty else if i = 70 then 1 else if i = 72 then sz else if i = 76 then 35 else 0)
      else if m = 35 then data
      else (\<lambda>_. 0))"

definition ex_fs_inode :: "u8 \<Rightarrow> u8 \<Rightarrow> inode" where
  "ex_fs_inode ty sz = ex_inode\<lparr>i_dev := 1, i_inum := 1, i_ref := 1, i_valid := True, i_type := ucast ty, i_nlink := 1,
     i_size := ucast sz, i_addrs := (\<lambda>k. if k = 0 then 35 else 0)\<rparr>"

definition ex_fs :: "u8 \<Rightarrow> u8 \<Rightarrow> block \<Rightarrow> kcons" where
  "ex_fs ty sz data =
     kfs.extend (klog.extend (ex_machine (ex_fs_disk ty sz data)) (kfs.fields ex_sb (\<lambda>i. if i = 0 then ex_fs_inode ty sz else ex_inode)))
       (kcons.fields False True [] (\<lambda>_. 0) 0 (\<lambda>_. 0) 0 0 0 (\<lambda>_. None) (\<lambda>_. None))"

lemma hq_truncate: "hq (klog.truncate s) H d v B = hq s H d v B"
proof -
  have "kbio.truncate (klog.truncate s) = kbio.truncate s" by (simp add: klog.truncate_def kbio.truncate_def)
  then have "bio_inv (klog.truncate s) = bio_inv s" "held (klog.truncate s) = held s" "disk (klog.truncate s) = disk s"
      "view (klog.truncate s) = view s" "dirty (klog.truncate s) = dirty s"
    by (metis bio_inv_trunc, (metis cache_trunc)+)
  then show ?thesis by (simp add: hq_def klog.truncate_def)
qed

lemma ex_fs_select:
  "icache (ex_fs ty sz data) = (\<lambda>i. if i = 0 then ex_fs_inode ty sz else ex_inode)" "sb (ex_fs ty sz data) = ex_sb"
  "disksize (ex_fs ty sz data) = 100" "log_size (ex_fs ty sz data) = 30" "log_outstanding (ex_fs ty sz data) = 1"
  "klog.truncate (ex_fs ty sz data) = ex_machine (ex_fs_disk ty sz data)"
  using ex_machine_ok [of "ex_fs_disk ty sz data"] by (simp_all add: ex_fs_def kfs.defs kcons.defs klog.defs)

lemma ex_sb_select:
  "sb_size ex_sb = 100" "sb_ninodes ex_sb = 16" "sb_nlog ex_sb = 30" "sb_logstart ex_sb = 2"
  by (simp_all add: ex_sb_def)

lemma ex_bitmap_set: "bit_set ex_bitmap n \<longleftrightarrow> n < 36"
proof (cases "n < 40")
  case True
  have "\<forall>n\<in>set [0..<40]. bit_set ex_bitmap n \<longleftrightarrow> n < 36" by code_simp
  then show ?thesis using True by simp
next
  case False
  then have "5 \<le> n div 8" by linarith
  then have "n div 8 \<noteq> 4" "\<not> n div 8 < 4" by linarith+
  then show ?thesis using False by (simp add: bit_set_def ex_bitmap_def)
qed

lemma ex_BBLOCK: "b < 100 \<Longrightarrow> BBLOCK b ex_sb = 34"
proof -
  assume "b < 100"
  then have "unat b < 100" by (simp add: word_less_nat_alt)
  then have "unat (b div of_nat BPB) = 0" by (simp add: unat_div)
  then have "b div of_nat BPB = 0" by (simp add: unat_eq_0)
  then show ?thesis by (simp add: BBLOCK_def ex_sb_def)
qed

lemma ex_used: "b < 100 \<Longrightarrow> used ex_sb (ex_fs_disk ty sz data) b \<longleftrightarrow> unat b < 36"
proof -
  assume b: "b < 100"
  then have "unat b mod BPB = unat b" by (simp add: word_less_nat_alt)
  then show ?thesis using ex_BBLOCK [OF b] ex_bitmap_set [of "unat b"] by (simp add: used_def ex_fs_disk_def)
qed

lemma ex_meta: "m \<in> meta ex_sb \<Longrightarrow> unat m < 35" "i < 16 \<Longrightarrow> IBLOCK i ex_sb = 32 \<or> IBLOCK i ex_sb = 33" "bitmap_blocks ex_sb = {34}"
proof -
  have ib: "IBLOCK i ex_sb = 32 \<or> IBLOCK i ex_sb = 33" if "i < 16" for i
  proof -
    have "unat i < 16" using that by (simp add: word_less_nat_alt)
    then have "unat (i div 8) = 0 \<or> unat (i div 8) = 1" by (simp add: unat_div) linarith
    then have "i div 8 = 0 \<or> i div 8 = 1" by (simp add: word_unat_eq_iff)
    then show ?thesis by (auto simp: IBLOCK_def ex_sb_def)
  qed
  then show "i < 16 \<Longrightarrow> IBLOCK i ex_sb = 32 \<or> IBLOCK i ex_sb = 33" .
  show bm: "bitmap_blocks ex_sb = {34}" using ex_BBLOCK by (auto simp: bitmap_blocks_def ex_sb_select intro!: exI [of _ 0])
  have lg: "unat (2 + of_nat k :: u32) < 35" if "k < 30" for k using that by (simp add: unat_word_ariths unat_of_nat)
  have il: "unat (IBLOCK i ex_sb) < 35" if "i < 16" for i using ib [OF that] by auto
  show "m \<in> meta ex_sb \<Longrightarrow> unat m < 35" unfolding meta_def bm ex_sb_select using il lg by auto
qed

lemma ex_ptr: "vslot x \<Longrightarrow> ptr v (\<lambda>k. if k = 0 then 35 else 0) x = (if x = Addr 0 then 35 else 0)"
  by (cases x rule: vslot.cases) auto

lemma ex_fs_ok:
  assumes "ty \<noteq> 3"
  shows "file_ok 0 (ex_fs ty sz data) (ex_fs_disk ty sz data) (ex_fs_disk ty sz data) {}"
    "can_grow (ex_fs ty sz data) (ex_fs_disk ty sz data) {} 3"
    "contents 0 (ex_fs ty sz data) (ex_fs_disk ty sz data) = map data [0..<unat sz]"
proof -
  note e = ex_fs_select and S = ex_sb_select
  let ?A = "\<lambda>k :: nat. if k = 0 then 35 else 0 :: u32" and ?s = "ex_fs ty sz data" and ?D = "ex_fs_disk ty sz data"
  have i: "addrs 0 ?s = ?A" "i_size (icache ?s 0) = ucast sz" by (simp_all add: e ex_fs_inode_def)
  have "unat sz < 2 ^ LENGTH(8)" by (rule unsigned_less)
  then have us: "unat (ucast sz :: u32) = unat sz" "unat sz < 256" by (simp_all add: unsigned_ucast_eq take_bit_nat_eq_self)
  have q: "hq ?s {} ?D ?D {}" using ex_machine_ok(1) [of ?D] hq_truncate [of ?s] by (simp add: lgq_hq e)
  have "m < 100" if "m \<in> meta ex_sb" for m using ex_meta(1) [OF that] by (simp add: word_less_nat_alt)
  then have wf: "fs_wf ex_sb ?D" using ex_meta ex_used by (fastforce simp: fs_wf_def S)
  have "35 \<notin> meta ex_sb" using ex_meta(1) [of 35] by auto
  then have fw: "file_wf ex_sb ?D ?A" using ex_used [of 35] by (auto simp: file_wf_def ex_ptr S split: if_splits)
  have st: "file_st 0 ?s ?D ?D {}" unfolding file_st_def i e(2) using q wf fw by (simp add: e ex_fs_inode_def S)
  have ib: "IBLOCK 1 ex_sb = 32" "dinode_off 1 = 64" by (simp_all add: IBLOCK_def ex_sb_def dinode_off_def)
  have "get_dinode (?D 32) 64 (ex_fs_inode ty sz) = ex_fs_inode ty sz"
    by (auto simp: get_dinode_def ex_fs_disk_def ex_fs_inode_def ex_inode_def get16_def get32_def fun_eq_iff)
  then have "synced 0 ?s ?D" by (simp add: synced_def iblock_def e ib ex_fs_inode_def)
  moreover have "mapped ?D ?A k" if "k < unat sz" for k using that us(2) by (simp add: mapped_def fslot_def)
  moreover have "ucast ty \<noteq> (3 :: u16)"
  proof
    assume "ucast ty = (3 :: u16)"
    then have "unat (ucast ty :: u16) = 3" by simp
    moreover have "unat ty < 2 ^ LENGTH(8)" by (rule unsigned_less)
    then have "unat (ucast ty :: u16) = unat ty" by (simp add: unsigned_ucast_eq take_bit_nat_eq_self)
    ultimately show False using assms by (simp add: word_unat_eq_iff)
  qed
  ultimately show "file_ok 0 ?s ?D ?D {}" using st i us by (simp add: file_ok_def e ex_fs_inode_def S)
  have "{36, 37, 38} \<subseteq> {b. b < sb_size ex_sb \<and> \<not> used ex_sb ?D b}"
    using ex_used [of 36] ex_used [of 37] ex_used [of 38] by (simp add: S)
  then have "card {36, 37, 38 :: u32} \<le> nfree ex_sb ?D" unfolding nfree_def by (rule card_mono [rotated]) simp
  then show "can_grow ?s ?D {} 3" using ex_meta(3) by (simp add: can_grow_def e in_op_def)
  show "contents 0 ?s ?D = map data [0..<unat sz]"
    unfolding contents_def i us(1) using us(2) by (simp add: fbyte_def fslot_def ex_fs_disk_def)
qed

definition ex_text :: block where
  "ex_text = (\<lambda>i. if i = 0 then 104 else 105)"

lemma ex_text_contents: "contents 0 (ex_fs 2 2 ex_text) (ex_fs_disk 2 2 ex_text) = [104, 105]" "i_size (icache (ex_fs 2 2 ex_text) 0) = 2"
  by (simp_all add: ex_fs_ok(3) upt_rec ex_text_def ex_fs_select ex_fs_inode_def)

theorem writei_updates_contents_witness:
  "\<exists>t v' B'. writei 0 [33] 2 (ex_fs 2 2 ex_text) = Ret 1 t \<and> file_ok 0 t (ex_fs_disk 2 2 ex_text) v' B' \<and> contents 0 t v' = [104, 105, 33]"
proof -
  have "nblk (unat (2 :: u32)) (length [33 :: u8]) = 1" by (simp add: nblk_def)
  then have "can_grow (ex_fs 2 2 ex_text) (ex_fs_disk 2 2 ex_text) {} (3 * nblk (unat (2 :: u32)) (length [33 :: u8]))"
    using ex_fs_ok(2) [of 2 2 ex_text] by simp
  from writei_updates_contents [OF ex_fs_ok(1) _ this] show ?thesis by (auto simp: ex_text_contents)
qed

theorem readi_returns_contents_witness:
  "\<exists>t. readi 0 1 9 (ex_fs 2 2 ex_text) = Ret (1, [105]) t \<and> contents 0 t (ex_fs_disk 2 2 ex_text) = [104, 105]"
  using readi_returns_contents [OF ex_fs_ok(1) [of 2 2 ex_text], of 1 9] by (auto simp: ex_text_contents)

end
