(* ===== verification/Dir_Props.thy ===== *)
theory Dir_Props
  imports Fs_Props
begin

unbundle bit_operations_syntax

text \<open>
  Directories (\<open>dirlookup\<close>, \<open>dirlink\<close> of theory \<open>Fs\<close>) as maps from names to inode numbers: the contents of
  a directory are entries of 16 bytes, and an entry with inode number 0 is free. Only the first 14
  bytes of a name count.
\<close>

subsection \<open>Names and entries\<close>

definition cname :: "u8 list \<Rightarrow> u8 list" where
  "cname p = takeWhile (\<lambda>c. c \<noteq> 0) (take DIRSIZ p)"

lemma namecmp_loop_zero:
  "namecmp_loop n p q = 0 \<longleftrightarrow> takeWhile (\<lambda>c. c \<noteq> 0) (take n p) = takeWhile (\<lambda>c. c \<noteq> 0) (take n q)"
proof (induction n arbitrary: p q)
  case (Suc n)
  have u: "uint a = uint b \<longleftrightarrow> a = b" for a b :: u8 by (simp add: word_uint_eq_iff)
  show ?case
  proof (cases p)
    case Nil
    then show ?thesis by (cases q) (auto simp: char_at_def u uint_0_iff)
  next
    case (Cons a p')
    then show ?thesis using Suc.IH by (cases q) (auto simp: char_at_def u uint_0_iff)
  qed
qed simp

lemma namecmp_zero: "namecmp p q = 0 \<longleftrightarrow> cname p = cname q"
  by (simp add: namecmp_def namecmp_loop_zero cname_def)

definition entry :: "u8 list \<Rightarrow> nat \<Rightarrow> u8 list" where
  "entry c i = take 16 (drop (16 * i) c)"

definition entries :: "u8 list \<Rightarrow> nat" where
  "entries c = length c div 16"

definition names_entry :: "u8 list \<Rightarrow> u8 list \<Rightarrow> nat \<Rightarrow> bool" where
  "names_entry name c i \<longleftrightarrow> de_inum (entry c i) \<noteq> 0 \<and> cname name = cname (de_name (entry c i))"

definition dirfind :: "u8 list \<Rightarrow> u8 list \<Rightarrow> nat option" where
  "dirfind name c = first_idx (entries c) (names_entry name c)"

definition dirmap :: "u8 list \<Rightarrow> u8 list \<Rightarrow> u16 option" where
  "dirmap c name = map_option (\<lambda>i. de_inum (entry c i)) (dirfind name c)"

definition dir_ok :: "nat \<Rightarrow> 'x kfs_scheme \<Rightarrow> (u32 \<Rightarrow> block) \<Rightarrow> (u32 \<Rightarrow> block) \<Rightarrow> u32 set \<Rightarrow> bool" where
  "dir_ok dp s d v B \<longleftrightarrow> file_ok dp s d v B \<and> i_type (icache s dp) = T_DIR \<and> 16 dvd length (contents dp s v)"

lemma contents_length: "length (contents ip s v) = unat (i_size (icache s ip))"
  by (simp add: contents_def)

text \<open>Reading one entry.\<close>

lemma dir_read:
  assumes ok: "dir_ok dp s d v B" "card B < 30" and i: "i < entries (contents dp s v)"
  shows "\<exists>t. readi dp (of_nat (16 * i)) DIRENT s = Ret (16, entry (contents dp s v) i) t \<and> bio_frame s t \<and> dir_ok dp t d v B
    \<and> contents dp t v = contents dp s v \<and> length (entry (contents dp s v) i) = 16"
proof -
  let ?c = "contents dp s v"
  have f: "file_ok dp s d v B" using ok(1) by (simp add: dir_ok_def)
  have l: "16 * i + 16 \<le> length ?c" using i unfolding entries_def by linarith
  then have len: "length (entry ?c i) = 16" by (simp add: entry_def)
  have "length ?c \<le> MAXFILE * BSIZE" using file_okD(5) [OF f] by (simp add: contents_length)
  then have u: "unat (of_nat (16 * i) :: u32) = 16 * i" using l by (intro unat_of_nat32) simp
  obtain t where t: "readi dp (of_nat (16 * i)) DIRENT s = Ret (int (length (take (unat DIRENT) (drop (16 * i) ?c))),
      take (unat DIRENT) (drop (16 * i) ?c)) t" "bio_frame s t" "file_st dp t d v B"
    using readi_ok [OF f ok(2), of "of_nat (16 * i)" DIRENT, unfolded u] l \<open>length ?c \<le> MAXFILE * BSIZE\<close>
    by (auto simp: contents_length simp del: of_nat_mult)
  have d: "unat DIRENT = 16" by simp
  have "readi dp (of_nat (16 * i)) DIRENT s = Ret (16, entry ?c i) t" using t(1) len unfolding d entry_def by simp
  moreover note k = file_ok_frame [OF f t(2,3)]
  moreover have "dir_ok dp t d v B" using k ok(1) lg_frame_fs [OF bio_lg_frame [OF t(2)]] by (simp add: dir_ok_def)
  ultimately show ?thesis using t(2) len by blast
qed

lemma dirlookup_loop_ok:
  assumes "dir_ok dp s d v B" "card B < 30" "contents dp s v = c" "i \<le> entries c"
  shows "\<exists>t. bio_frame s t \<and> dir_ok dp t d v B \<and> contents dp t v = c
    \<and> dirlookup_loop (entries c - i) dp name (of_nat (16 * i)) s =
      (case find (names_entry name c) [i..<entries c] of
         None \<Rightarrow> Ret None t
       | Some j \<Rightarrow> andthen (iget (i_dev (icache t dp)) (ucast (de_inum (entry c j))) t) (\<lambda>ip s. Ret (Some (ip, of_nat (16 * j))) s))"
  using assms
proof (induction "entries c - i" arbitrary: i s)
  case 0
  then have "entries c - i = 0" "[i..<entries c] = []" by simp_all
  then show ?case using 0(2,4) bio_frame_refl by (intro exI [of _ s]) simp
next
  case (Suc n)
  then have i: "i < entries c" by simp
  obtain t where t: "readi dp (of_nat (16 * i)) DIRENT s = Ret (16, entry c i) t" "bio_frame s t" "dir_ok dp t d v B" "contents dp t v = c"
    using dir_read [OF Suc.prems(1,2), unfolded Suc.prems(3), OF i] by blast
  have n: "n = entries c - (i + 1)" and i1: "i + 1 \<le> entries c" using Suc(2) i by simp_all
  have e: "entries c - i = Suc (entries c - (i + 1))" using i by simp
  have up: "[i..<entries c] = i # [i + 1..<entries c]" using i by (simp add: upt_conv_Cons)
  show ?case
  proof (cases "names_entry name c i")
    case True
    then show ?thesis using t unfolding e up by (intro exI [of _ t]) (simp add: names_entry_def namecmp_zero del: of_nat_mult)
  next
    case False
    obtain u where u: "bio_frame t u" "dir_ok dp u d v B" "contents dp u v = c"
        "dirlookup_loop (entries c - (i + 1)) dp name (of_nat (16 * (i + 1))) t =
          (case find (names_entry name c) [i + 1..<entries c] of
             None \<Rightarrow> Ret None u
           | Some j \<Rightarrow> andthen (iget (i_dev (icache u dp)) (ucast (de_inum (entry c j))) u) (\<lambda>ip s. Ret (Some (ip, of_nat (16 * j))) s))"
      using Suc(1) [OF n t(3) Suc.prems(2) t(4) i1] by blast
    have "dirlookup_loop (entries c - i) dp name (of_nat (16 * i)) s = dirlookup_loop (entries c - (i + 1)) dp name (of_nat (16 * (i + 1))) t"
      unfolding e using t(1) False by (auto simp: names_entry_def namecmp_zero ac_simps)
    then show ?thesis using u False bio_frame_trans [OF t(2) u(1)] unfolding up by (intro exI [of _ u]) (simp del: of_nat_mult)
  qed
qed

subsection \<open>iget and dirlookup\<close>

lemma icache_locked_by [simp]:
  "icache (locked_by l s) = icache s" "upd_inode ip f (locked_by l s) = locked_by l (upd_inode ip f s)"
  "cpu_ok (upd_inode ip f s) = cpu_ok s" "holding l (upd_inode ip f s) = holding l s"
  by (simp_all add: upd_inode_def locked_by_def pushcli_def cpu_ok_def holding_def)

text \<open>The inode is in the cache with one more reference; a slot taken for it had none.\<close>

definition iget_post :: "u32 \<Rightarrow> u32 \<Rightarrow> 'x kfs_scheme \<Rightarrow> nat \<Rightarrow> 'x kfs_scheme \<Rightarrow> bool" where
  "iget_post dev inum s ip t \<longleftrightarrow> ip < NINODE \<and> (\<exists>n. t = upd_inode ip (\<lambda>_. n) s \<and> i_dev n = dev \<and> i_inum n = inum
     \<and> i_ref n = i_ref (icache s ip) + 1
     \<and> (if i_ref (icache s ip) > 0 then n = (icache s ip)\<lparr>i_ref := i_ref (icache s ip) + 1\<rparr>
        else i_ref (icache s ip) = 0 \<and> \<not> i_valid n
          \<and> (\<forall>i<NINODE. \<not> (i_ref (icache s i) > 0 \<and> i_dev (icache s i) = dev \<and> i_inum (icache s i) = inum))))"

lemma iget_ok:
  assumes c: "cpu_ok s" "\<not> holding IcacheLock s" and free: "\<exists>i<NINODE. i_ref (icache s i) = 0"
  shows "\<exists>ip t. iget dev inum s = Ret ip t \<and> iget_post dev inum s ip t"
proof -
  let ?P = "\<lambda>i. i_ref (icache s i) > 0 \<and> i_dev (icache s i) = dev \<and> i_inum (icache s i) = inum"
  have rel: "release IcacheLock (locked_by IcacheLock (upd_inode ip f s)) = Ret () (upd_inode ip f s)" for ip f
    using c by (intro release_locked_by) simp_all
  have upd: "upd_inode ip f s = upd_inode ip (\<lambda>_. f (icache s ip)) s" for ip f by (simp add: upd_inode_def)
  show ?thesis
  proof (cases "first_idx NINODE ?P")
    case (Some ip)
    then have p: "ip < NINODE" "?P ip" by (auto dest: first_idx_SomeD)
    let ?f = "\<lambda>n :: inode. n\<lparr>i_ref := i_ref n + 1\<rparr>"
    have "iget dev inum s = Ret ip (upd_inode ip ?f s)" using Some rel c by (simp add: iget_def acquire_free Let_def)
    moreover have "iget_post dev inum s ip (upd_inode ip ?f s)"
      unfolding iget_post_def using p upd [of ip ?f] by (auto intro!: exI [of _ "?f (icache s ip)"])
    ultimately show ?thesis by blast
  next
    case None
    obtain ip where ip: "first_idx NINODE (\<lambda>i. i_ref (icache s i) = 0) = Some ip"
      using free first_idx_None_iff [of NINODE "\<lambda>i. i_ref (icache s i) = 0"]
      by (cases "first_idx NINODE (\<lambda>i. i_ref (icache s i) = 0)") auto
    then have p: "ip < NINODE" "i_ref (icache s ip) = 0" by (auto dest: first_idx_SomeD)
    let ?f = "\<lambda>n :: inode. n\<lparr>i_dev := dev, i_inum := inum, i_ref := 1, i_valid := False\<rparr>"
    have "iget dev inum s = Ret ip (upd_inode ip ?f s)" using None ip rel c by (simp add: iget_def acquire_free Let_def)
    moreover have "iget_post dev inum s ip (upd_inode ip ?f s)"
      unfolding iget_post_def using p upd [of ip ?f] None by (auto simp: first_idx_None_iff intro!: exI [of _ "?f (icache s ip)"])
    ultimately show ?thesis by blast
  qed
qed

lemma dir_entries: "dir_ok dp s d v B \<Longrightarrow> dirents_left 0 (i_size (icache s dp)) = entries (contents dp s v)"
  by (auto simp: dir_ok_def dirents_left_def entries_def contents_length elim!: dvdE)

lemma dirlookup_ok:
  assumes ok: "dir_ok dp s d v B" "card B < 30" and c: "contents dp s v = c"
  shows "\<exists>t. bio_frame s t \<and> dir_ok dp t d v B \<and> contents dp t v = c
    \<and> dirlookup dp name s =
      (case dirfind name c of
         None \<Rightarrow> Ret None t
       | Some j \<Rightarrow> andthen (iget (i_dev (icache t dp)) (ucast (de_inum (entry c j))) t) (\<lambda>ip s. Ret (Some (ip, of_nat (16 * j))) s))"
proof -
  have "i_type (icache s dp) = T_DIR" using ok(1) by (simp add: dir_ok_def)
  then have e: "dirlookup dp name s = dirlookup_loop (entries c) dp name 0 s"
    using dir_entries [OF ok(1)] c by (simp add: dirlookup_def)
  show ?thesis using dirlookup_loop_ok [OF ok c, of 0 name] unfolding e dirfind_def first_idx_def by simp
qed

text \<open>
  C13. Looking up a name. In a well-formed directory \<open>dirlookup\<close> returns null when no entry in use has the
  name, and otherwise the inode of the first such entry together with its offset, with one more
  reference: the cached inode if that inode number is in the cache, else a slot that was free. Names are
  compared up to 14 bytes. No block and no other slot of the inode cache changes.
\<close>

theorem dirlookup_finds:
  assumes "dir_ok dp s d v B" "card B < 30" "\<exists>i<NINODE. i_ref (icache s i) = 0"
  shows "case dirfind name (contents dp s v) of
      None \<Rightarrow> \<exists>t. dirlookup dp name s = Ret None t \<and> dir_ok dp t d v B \<and> icache t = icache s
    | Some i \<Rightarrow> \<exists>t u ip. dirlookup dp name s = Ret (Some (ip, of_nat (16 * i))) t \<and> dir_ok dp u d v B \<and> icache u = icache s
        \<and> iget_post 1 (ucast (de_inum (entry (contents dp s v) i))) u ip t"
proof -
  obtain u where u: "bio_frame s u" "dir_ok dp u d v B" "contents dp u v = contents dp s v"
      "dirlookup dp name s =
        (case dirfind name (contents dp s v) of
           None \<Rightarrow> Ret None u
         | Some j \<Rightarrow> andthen (iget (i_dev (icache u dp)) (ucast (de_inum (entry (contents dp s v) j))) u)
             (\<lambda>ip s. Ret (Some (ip, of_nat (16 * j))) s))"
    using dirlookup_ok [OF assms(1,2) refl] by blast
  have st: "file_st dp u d v B" using u(2) by (simp add: dir_ok_def file_ok_def)
  have i: "icache u = icache s" using lg_frame_fs(1) [OF bio_lg_frame [OF u(1)]] .
  have inv: "bio_inv u" using hqD(1) [OF file_stD(1) [OF st]] .
  have ig: "\<exists>ip t. iget 1 n u = Ret ip t \<and> iget_post 1 n u ip t" for n
    using iget_ok [OF bio_inv_cpu(1) [OF inv] bio_inv_cpu(2) [OF inv]] assms(3) i by simp
  show ?thesis
  proof (cases "dirfind name (contents dp s v)")
    case None
    then show ?thesis using u i by auto
  next
    case (Some j)
    obtain ip t where "iget 1 (ucast (de_inum (entry (contents dp s v) j))) u = Ret ip t"
        "iget_post 1 (ucast (de_inum (entry (contents dp s v) j))) u ip t" using ig by blast
    then show ?thesis using u(2,4) Some i file_stD(2) [OF st] by auto
  qed
qed

subsection \<open>dirlink\<close>

text \<open>The place of a new entry: the first free one, or the end.\<close>

definition free_entry :: "u8 list \<Rightarrow> nat" where
  "free_entry c = (case first_idx (entries c) (\<lambda>i. de_inum (entry c i) = 0) of Some i \<Rightarrow> i | None \<Rightarrow> entries c)"

lemma dirlink_scan_ok:
  assumes "dir_ok dp s d v B" "card B < 30" "contents dp s v = c" "i \<le> entries c"
  shows "\<exists>t. bio_frame s t \<and> dir_ok dp t d v B \<and> contents dp t v = c
    \<and> dirlink_scan (entries c - i) dp (of_nat (16 * i)) s =
      Ret (of_nat (16 * (case find (\<lambda>j. de_inum (entry c j) = 0) [i..<entries c] of Some j \<Rightarrow> j | None \<Rightarrow> entries c))) t"
  using assms
proof (induction "entries c - i" arbitrary: i s)
  case 0
  then have "entries c - i = 0" "[i..<entries c] = []" "i = entries c" by simp_all
  then show ?case using 0(2,4) bio_frame_refl by (intro exI [of _ s]) simp
next
  case (Suc n)
  then have i: "i < entries c" by simp
  obtain t where t: "readi dp (of_nat (16 * i)) DIRENT s = Ret (16, entry c i) t" "bio_frame s t" "dir_ok dp t d v B" "contents dp t v = c"
    using dir_read [OF Suc.prems(1,2), unfolded Suc.prems(3), OF i] by blast
  have n: "n = entries c - (i + 1)" and i1: "i + 1 \<le> entries c" using Suc(2) i by simp_all
  have e: "entries c - i = Suc (entries c - (i + 1))" using i by simp
  have up: "[i..<entries c] = i # [i + 1..<entries c]" using i by (simp add: upt_conv_Cons)
  show ?case
  proof (cases "de_inum (entry c i) = 0")
    case True
    then show ?thesis using t unfolding e up by (intro exI [of _ t]) simp
  next
    case False
    obtain u where u: "bio_frame t u" "dir_ok dp u d v B" "contents dp u v = c"
        "dirlink_scan (entries c - (i + 1)) dp (of_nat (16 * (i + 1))) t =
          Ret (of_nat (16 * (case find (\<lambda>j. de_inum (entry c j) = 0) [i + 1..<entries c] of Some j \<Rightarrow> j | None \<Rightarrow> entries c))) u"
      using Suc(1) [OF n t(3) Suc.prems(2) t(4) i1] by blast
    have "dirlink_scan (entries c - i) dp (of_nat (16 * i)) s = dirlink_scan (entries c - (i + 1)) dp (of_nat (16 * (i + 1))) t"
      unfolding e using t(1) False by (simp add: ac_simps)
    then show ?thesis using u False bio_frame_trans [OF t(2) u(1)] unfolding up by (intro exI [of _ u]) (simp del: of_nat_mult)
  qed
qed

lemma mk_dirent_parts:
  "length (mk_dirent n name) = 16" "de_inum (mk_dirent n name) = n" "cname (de_name (mk_dirent n name)) = cname name"
proof -
  show "length (mk_dirent n name) = 16" by (simp add: mk_dirent_def)
  have "ucast (ucast n :: u8) OR push_bit 8 (ucast (ucast (drop_bit 8 n) :: u8)) = n"
  proof (rule bit_word_eqI)
    fix i assume "i < LENGTH(16)"
    then show "bit (ucast (ucast n :: u8) OR push_bit 8 (ucast (ucast (drop_bit 8 n) :: u8)) :: u16) i = bit n i"
      by (cases "i < 8") (auto simp: bit_simps)
  qed
  then show "de_inum (mk_dirent n name) = n" by (simp add: de_inum_def mk_dirent_def)
  have "takeWhile (\<lambda>c. c \<noteq> 0) (take DIRSIZ (name @ replicate DIRSIZ 0)) = takeWhile (\<lambda>c. c \<noteq> 0) (take DIRSIZ name)"
  proof (cases "DIRSIZ \<le> length name")
    case False
    have z: "takeWhile (\<lambda>c. c \<noteq> 0) (name @ replicate k 0) = takeWhile (\<lambda>c. c \<noteq> 0) name" for k
      by (induction name) (simp_all add: takeWhile_eq_Nil_iff)
    have "take DIRSIZ (name @ replicate DIRSIZ 0) = name @ replicate (DIRSIZ - length name) 0" using False by simp
    then show ?thesis using False z by simp
  qed simp
  moreover have "take DIRSIZ (de_name (mk_dirent n name)) = take DIRSIZ (name @ replicate DIRSIZ 0)" by (simp add: de_name_def mk_dirent_def)
  ultimately show "cname (de_name (mk_dirent n name)) = cname name" unfolding cname_def by metis
qed

text \<open>Replacing an entry, or adding one at the end.\<close>

lemma put_entry:
  assumes "16 dvd length c" "i \<le> entries c" "length e = 16" and c': "c' = take (16 * i) c @ e @ drop (16 * i + 16) c"
  shows "entries c' = max (entries c) (i + 1)" "j < entries c' \<Longrightarrow> entry c' j = (if j = i then e else entry c j)" "16 dvd length c'"
proof -
  obtain m where m: "length c = 16 * m" using assms(1) by blast
  then have im: "i \<le> m" "entries c = m" using assms(2) by (simp_all add: entries_def)
  have l: "length c' = 16 * max m (i + 1)" using m im assms(3) unfolding c' by (simp add: max_def)
  then show n: "entries c' = max (entries c) (i + 1)" "16 dvd length c'" unfolding im(2) by (simp_all add: entries_def)
  show "entry c' j = (if j = i then e else entry c j)" if j: "j < entries c'"
  proof (rule nth_equalityI)
    have jl: "16 * j + 16 \<le> length c'" using j l n(1) im(2) by simp
    have jc: "16 * j + 16 \<le> length c" if "j \<noteq> i" using j that n(1) im m by (simp add: max_def split: if_splits)
    show len: "length (entry c' j) = length (if j = i then e else entry c j)" using jl jc assms(3) by (cases "j = i") (simp_all add: entry_def)
    fix k assume "k < length (entry c' j)"
    then have k: "k < 16" using jl by (simp add: entry_def)
    then have a: "entry c' j ! k = c' ! (16 * j + k)" using jl by (simp add: entry_def)
    consider "j < i" | "j = i" | "i < j" by linarith
    then show "entry c' j ! k = (if j = i then e else entry c j) ! k"
    proof cases
      case 1
      then have "16 * j + k < 16 * i" using k by linarith
      then show ?thesis using a 1 k jc m im unfolding c' by (simp add: nth_append entry_def)
    next
      case 2
      then show ?thesis using a k m im assms(3) unfolding c' by (simp add: nth_append)
    next
      case 3
      then have "16 * i + 16 \<le> 16 * j + k" by linarith
      then show ?thesis using a 3 k jc m im assms(3) unfolding c' by (simp add: nth_append entry_def)
    qed
  qed
qed

lemma free_entry_bound: "free_entry c \<le> entries c" "free_entry c < entries c \<Longrightarrow> de_inum (entry c (free_entry c)) = 0"
  unfolding free_entry_def by (auto split: option.splits dest: first_idx_SomeD)

lemma dirmap_put:
  assumes c: "16 dvd length c" and new: "dirfind name c = None" "n \<noteq> 0"
    and c': "c' = take (16 * free_entry c) c @ mk_dirent n name @ drop (16 * free_entry c + 16) c"
  shows "dirmap c' nm = (if cname nm = cname name then Some n else dirmap c nm)"
proof -
  let ?i = "free_entry c"
  note p = put_entry [OF c free_entry_bound(1) mk_dirent_parts(1) c']
  have e: "names_entry nm c' j \<longleftrightarrow> (if j = ?i then cname nm = cname name else names_entry nm c j)" if "j < entries c'" for j
    using p(2) [OF that] mk_dirent_parts(2,3) [of n name] new(2) by (simp add: names_entry_def)
  have old: "\<not> names_entry nm c j" if "j < entries c" "cname nm = cname name" for j
    using new(1) that by (auto simp: dirfind_def first_idx_None_iff names_entry_def)
  show ?thesis
  proof (cases "cname nm = cname name")
    case True
    have "first_idx (entries c') (names_entry nm c') = Some ?i"
      unfolding first_idx_Some_iff using e old True p(1) free_entry_bound(1) [of c] by auto
    then show ?thesis using True p mk_dirent_parts(2) by (simp add: dirmap_def dirfind_def)
  next
    case False
    have "\<not> names_entry nm c ?i" if "?i < entries c" using free_entry_bound(2) [OF that] by (simp add: names_entry_def)
    then have s: "j < entries c' \<and> names_entry nm c' j \<longleftrightarrow> j < entries c \<and> names_entry nm c j" for j
      using e [of j] False p(1) free_entry_bound(1) [of c] by (cases "j = ?i") auto
    have "dirfind nm c' = dirfind nm c"
    proof (cases "dirfind nm c")
      case None
      then have "dirfind nm c' = None" using s by (auto simp: dirfind_def first_idx_None_iff)
      then show ?thesis using None by simp
    next
      case (Some j)
      then have j: "j < entries c" "names_entry nm c j" "\<forall>k<j. \<not> names_entry nm c k" by (auto simp: dirfind_def first_idx_Some_iff)
      have "j < entries c'" "names_entry nm c' j" using s j by blast+
      moreover have "\<forall>k<j. \<not> names_entry nm c' k" using s j \<open>j < entries c'\<close> by (meson less_trans)
      ultimately have "dirfind nm c' = Some j" by (simp add: dirfind_def first_idx_Some_iff)
      then show ?thesis using Some by simp
    qed
    moreover have "entry c' j = entry c j" if "dirfind nm c = Some j" for j
    proof -
      have "j < entries c" "names_entry nm c j" using that by (auto simp: dirfind_def first_idx_Some_iff)
      then show ?thesis using p(1,2) free_entry_bound(2) [of c] by (auto simp: names_entry_def)
    qed
    ultimately show ?thesis using False by (cases "dirfind nm c") (simp_all add: dirmap_def)
  qed
qed


subsection \<open>An example\<close>

text \<open>A directory with one entry: the name \<open>a\<close> with inode number 5.\<close>

definition ex_entry :: block where
  "ex_entry = (\<lambda>i. if i = 0 then 5 else if i = 2 then 97 else 0)"

lemma ex_dir_contents:
  "contents 0 (ex_fs 1 16 ex_entry) (ex_fs_disk 1 16 ex_entry) = [5, 0, 97, 0, 0, 0, 0, 0, 0, 0, 0, 0, 0, 0, 0, 0]"
  by (simp add: ex_fs_ok(3) upt_rec ex_entry_def)

lemma ex_dir_ok: "dir_ok 0 (ex_fs 1 16 ex_entry) (ex_fs_disk 1 16 ex_entry) (ex_fs_disk 1 16 ex_entry) {}"
proof -
  have "length (contents 0 (ex_fs 1 16 ex_entry) (ex_fs_disk 1 16 ex_entry)) = 16" by (simp add: ex_fs_ok(3))
  then show ?thesis using ex_fs_ok(1) [of 1 16 ex_entry] unfolding dir_ok_def by (simp add: ex_fs_select ex_fs_inode_def)
qed

theorem dirlookup_finds_witness:
  "\<exists>t u ip. dirlookup 0 [97] (ex_fs 1 16 ex_entry) = Ret (Some (ip, 0)) t \<and> iget_post 1 5 u ip t"
proof -
  let ?c = "[5, 0, 97, 0, 0, 0, 0, 0, 0, 0, 0, 0, 0, 0, 0, 0] :: u8 list"
  have f: "dirfind [97] ?c = Some 0" "ucast (de_inum (entry ?c 0)) = (5 :: u32)" by code_simp+
  have "\<exists>i<NINODE. i_ref (icache (ex_fs 1 16 ex_entry) i) = 0"
    by (rule exI [of _ 1]) (simp add: ex_fs_select ex_inode_def)
  from dirlookup_finds [OF ex_dir_ok _ this, of "[97]"] show ?thesis unfolding ex_dir_contents f option.case by auto
qed


end
