(* ===== verification/Devices.thy ===== *)
theory Devices
  imports Bio_Props
begin

unbundle bit_operations_syntax

text \<open>
  The device registers: the two 8259A interrupt controllers (\<open>src/xv6-public/picirq.c\<close>), the I/O
  APIC (\<open>ioapic.c\<close>), the local APIC and the CMOS clock (\<open>lapic.c\<close>, \<open>date.h\<close>), the timer
  (\<open>timer.c\<close>) and the serial port (\<open>uart.c\<close>).

  The hardware is a parameter: \<open>'hw\<close> is its state and the record \<open>io\<close> holds what the port
  instructions of \<open>x86.h\<close> and the accesses to device memory do to it. Nothing is assumed of it
  here; a property that needs a device to behave as documented says so in a hypothesis. A loop
  that polls a device is a partial function, whose value is \<open>None\<close> if the device never gives the
  awaited answer. \<open>microdelay\<close> is empty in the source and has no counterpart.
\<close>

subsection \<open>Ports and device memory\<close>

record 'hw io =
  inb :: "u16 \<Rightarrow> 'hw \<Rightarrow> u8 \<times> 'hw"
  outb :: "u16 \<Rightarrow> u8 \<Rightarrow> 'hw \<Rightarrow> 'hw"
  insl :: "u16 \<Rightarrow> nat \<Rightarrow> 'hw \<Rightarrow> block \<times> 'hw"
  outsl :: "u16 \<Rightarrow> block \<Rightarrow> nat \<Rightarrow> 'hw \<Rightarrow> 'hw"
  mmio_read :: "u32 \<Rightarrow> 'hw \<Rightarrow> u32 \<times> 'hw"
  mmio_write :: "u32 \<Rightarrow> u32 \<Rightarrow> 'hw \<Rightarrow> 'hw"

text \<open>
  The kernel's variables about devices: \<open>irqmask\<close> of \<open>picirq.c\<close>; \<open>ismp\<close>, \<open>ncpu\<close>, \<open>ioapicid\<close>
  and the \<open>apicid\<close> field of \<open>cpus\<close> of \<open>mp.c\<close>; \<open>lapic\<close> of \<open>lapic.c\<close> (0 is the null pointer);
  \<open>uart\<close> of \<open>uart.c\<close>.
\<close>

record 'hw kdev = kbio +
  irqmask :: u16
  ismp :: bool
  ncpu :: nat
  ioapicid :: u8
  apicid :: "nat \<Rightarrow> u8"
  lapic :: u32
  uart :: bool
  hw :: 'hw

definition on_hw :: "('hw \<Rightarrow> 'hw) \<Rightarrow> ('hw, 'x) kdev_scheme \<Rightarrow> ('hw, 'x) kdev_scheme" where
  "on_hw f s = s\<lparr>hw := f (hw s)\<rparr>"

fun outbs :: "'hw io \<Rightarrow> (u16 \<times> u8) list \<Rightarrow> 'hw \<Rightarrow> 'hw" where
  "outbs io [] h = h"
| "outbs io ((p, v) # xs) h = outbs io xs (outb io p v h)"

abbreviation T_IRQ0 :: nat where "T_IRQ0 \<equiv> 32"
abbreviation IRQ_TIMER :: nat where "IRQ_TIMER \<equiv> 0"
abbreviation IRQ_COM1 :: nat where "IRQ_COM1 \<equiv> 4"
abbreviation IRQ_IDE :: nat where "IRQ_IDE \<equiv> 14"
abbreviation IRQ_ERROR :: nat where "IRQ_ERROR \<equiv> 19"
abbreviation IRQ_SPURIOUS :: nat where "IRQ_SPURIOUS \<equiv> 31"

subsection \<open>The 8259A interrupt controllers\<close>

abbreviation IO_PIC1 :: u16 where "IO_PIC1 \<equiv> 0x20"
abbreviation IO_PIC2 :: u16 where "IO_PIC2 \<equiv> 0xA0"
abbreviation IRQ_SLAVE :: nat where "IRQ_SLAVE \<equiv> 2"

text \<open>The initial value of \<open>irqmask\<close>.\<close>

definition irqmask0 :: u16 where
  "irqmask0 = 0xFFFF AND NOT (push_bit IRQ_SLAVE 1)"

definition picsetmask :: "'hw io \<Rightarrow> u16 \<Rightarrow> ('hw, 'x) kdev_scheme \<Rightarrow> ('hw, 'x) kdev_scheme" where
  "picsetmask io m s =
     on_hw (outbs io [(IO_PIC1 + 1, ucast m), (IO_PIC2 + 1, ucast (drop_bit 8 m))]) (s\<lparr>irqmask := m\<rparr>)"

definition picenable :: "'hw io \<Rightarrow> nat \<Rightarrow> ('hw, 'x) kdev_scheme \<Rightarrow> ('hw, 'x) kdev_scheme" where
  "picenable io irq s = picsetmask io (irqmask s AND NOT (push_bit irq 1)) s"

definition picinit :: "'hw io \<Rightarrow> ('hw, 'x) kdev_scheme \<Rightarrow> ('hw, 'x) kdev_scheme" where
  "picinit io s =
     (let s = on_hw (outbs io
        [(IO_PIC1 + 1, 0xFF), (IO_PIC2 + 1, 0xFF),
         (IO_PIC1, 0x11), (IO_PIC1 + 1, of_nat T_IRQ0), (IO_PIC1 + 1, push_bit IRQ_SLAVE 1), (IO_PIC1 + 1, 0x3),
         (IO_PIC2, 0x11), (IO_PIC2 + 1, of_nat (T_IRQ0 + 8)), (IO_PIC2 + 1, of_nat IRQ_SLAVE), (IO_PIC2 + 1, 0x3),
         (IO_PIC1, 0x68), (IO_PIC1, 0x0a), (IO_PIC2, 0x68), (IO_PIC2, 0x0a)]) s in
      if irqmask s \<noteq> 0xFFFF then picsetmask io (irqmask s) s else s)"

subsection \<open>The I/O APIC\<close>

abbreviation IOAPIC :: u32 where "IOAPIC \<equiv> 0xFEC00000"
abbreviation REG_ID :: u32 where "REG_ID \<equiv> 0x00"
abbreviation REG_VER :: u32 where "REG_VER \<equiv> 0x01"
abbreviation REG_TABLE :: u32 where "REG_TABLE \<equiv> 0x10"
abbreviation INT_DISABLED :: u32 where "INT_DISABLED \<equiv> 0x00010000"

text \<open>
  The field \<open>reg\<close> of \<open>struct ioapic\<close> is at offset 0, \<open>data\<close> at offset 16. \<open>ioapic\<close> points to
  \<open>IOAPIC\<close> from \<open>ioapicinit\<close> on, which runs before every call of \<open>ioapicenable\<close>.
\<close>

definition ioapicread :: "'hw io \<Rightarrow> u32 \<Rightarrow> 'hw \<Rightarrow> u32 \<times> 'hw" where
  "ioapicread io reg h = mmio_read io (IOAPIC + 16) (mmio_write io IOAPIC reg h)"

definition ioapicwrite :: "'hw io \<Rightarrow> u32 \<Rightarrow> u32 \<Rightarrow> 'hw \<Rightarrow> 'hw" where
  "ioapicwrite io reg data h = mmio_write io (IOAPIC + 16) data (mmio_write io IOAPIC reg h)"

text \<open>The value beside the state tells whether the message about the identifier is printed.\<close>

definition ioapicinit :: "'hw io \<Rightarrow> ('hw, 'x) kdev_scheme \<Rightarrow> bool \<times> ('hw, 'x) kdev_scheme" where
  "ioapicinit io s =
     (if \<not> ismp s then (False, s)
      else
        let (v, h) = ioapicread io REG_VER (hw s);
            maxintr = unat (drop_bit 16 v AND 0xFF);
            (d, h) = ioapicread io REG_ID h;
            i = drop_bit 24 d in
        (i \<noteq> ucast (ioapicid s),
         s\<lparr>hw := fold (\<lambda>i h. ioapicwrite io (REG_TABLE + 2 * of_nat i + 1) 0
                   (ioapicwrite io (REG_TABLE + 2 * of_nat i) (INT_DISABLED OR of_nat (T_IRQ0 + i)) h))
                 [0..<Suc maxintr] h\<rparr>))"

definition ioapicenable :: "'hw io \<Rightarrow> nat \<Rightarrow> u32 \<Rightarrow> ('hw, 'x) kdev_scheme \<Rightarrow> ('hw, 'x) kdev_scheme" where
  "ioapicenable io irq cpunum s =
     (if \<not> ismp s then s
      else on_hw (\<lambda>h. ioapicwrite io (REG_TABLE + 2 * of_nat irq + 1) (push_bit 24 cpunum)
                   (ioapicwrite io (REG_TABLE + 2 * of_nat irq) (of_nat (T_IRQ0 + irq)) h)) s)"

subsection \<open>The 8253 timer\<close>

abbreviation IO_TIMER1 :: u16 where "IO_TIMER1 \<equiv> 0x040"
abbreviation TIMER_FREQ :: nat where "TIMER_FREQ \<equiv> 1193182"

definition TIMER_DIV :: "nat \<Rightarrow> nat" where
  "TIMER_DIV x = (TIMER_FREQ + x div 2) div x"

definition timerinit :: "'hw io \<Rightarrow> ('hw, 'x) kdev_scheme \<Rightarrow> ('hw, 'x) kdev_scheme" where
  "timerinit io s =
     picenable io IRQ_TIMER (on_hw (outbs io
       [(IO_TIMER1 + 3, 0x00 OR 0x04 OR 0x30), (IO_TIMER1, of_nat (TIMER_DIV 100 mod 256)),
        (IO_TIMER1, of_nat (TIMER_DIV 100 div 256))]) s)"

subsection \<open>The local APIC\<close>

abbreviation ID :: nat where "ID \<equiv> 0x0020 div 4"
abbreviation VER :: nat where "VER \<equiv> 0x0030 div 4"
abbreviation TPR :: nat where "TPR \<equiv> 0x0080 div 4"
abbreviation EOI :: nat where "EOI \<equiv> 0x00B0 div 4"
abbreviation SVR :: nat where "SVR \<equiv> 0x00F0 div 4"
abbreviation ESR :: nat where "ESR \<equiv> 0x0280 div 4"
abbreviation ICRLO :: nat where "ICRLO \<equiv> 0x0300 div 4"
abbreviation ICRHI :: nat where "ICRHI \<equiv> 0x0310 div 4"
abbreviation TIMER :: nat where "TIMER \<equiv> 0x0320 div 4"
abbreviation PCINT :: nat where "PCINT \<equiv> 0x0340 div 4"
abbreviation LINT0 :: nat where "LINT0 \<equiv> 0x0350 div 4"
abbreviation LINT1 :: nat where "LINT1 \<equiv> 0x0360 div 4"
abbreviation ERROR :: nat where "ERROR \<equiv> 0x0370 div 4"
abbreviation TICR :: nat where "TICR \<equiv> 0x0380 div 4"
abbreviation TDCR :: nat where "TDCR \<equiv> 0x03E0 div 4"

definition lapicr :: "'hw io \<Rightarrow> nat \<Rightarrow> ('hw, 'x) kdev_scheme \<Rightarrow> u32 \<times> ('hw, 'x) kdev_scheme" where
  "lapicr io index s = (let (v, h) = mmio_read io (lapic s + 4 * of_nat index) (hw s) in (v, s\<lparr>hw := h\<rparr>))"

definition lapicw :: "'hw io \<Rightarrow> nat \<Rightarrow> u32 \<Rightarrow> ('hw, 'x) kdev_scheme \<Rightarrow> ('hw, 'x) kdev_scheme" where
  "lapicw io index v s = snd (lapicr io ID (on_hw (mmio_write io (lapic s + 4 * of_nat index) v) s))"

fun lapicws :: "'hw io \<Rightarrow> (nat \<times> u32) list \<Rightarrow> ('hw, 'x) kdev_scheme \<Rightarrow> ('hw, 'x) kdev_scheme" where
  "lapicws io [] s = s"
| "lapicws io ((i, v) # xs) s = lapicws io xs (lapicw io i v s)"

text \<open>\<open>while(lapic[ICRLO] & DELIVS)\<close>\<close>

partial_function (option) lapic_delivered ::
  "'hw io \<Rightarrow> ('hw, 'x) kdev_scheme \<Rightarrow> ('hw, 'x) kdev_scheme option" where
  "lapic_delivered io s =
     (let (v, s) = lapicr io ICRLO s in if v AND 0x1000 \<noteq> 0 then lapic_delivered io s else Some s)"

definition lapicinit :: "'hw io \<Rightarrow> ('hw, 'x) kdev_scheme \<Rightarrow> ('hw, 'x) kdev_scheme option" where
  "lapicinit io s =
     (if lapic s = 0 then Some s
      else
        let s = lapicws io
              [(SVR, 0x100 OR of_nat (T_IRQ0 + IRQ_SPURIOUS)), (TDCR, 0xB),
               (TIMER, 0x20000 OR of_nat (T_IRQ0 + IRQ_TIMER)), (TICR, 10000000),
               (LINT0, 0x10000), (LINT1, 0x10000)] s;
            (v, s) = lapicr io VER s;
            s = (if drop_bit 16 v AND 0xFF \<ge> 4 then lapicw io PCINT 0x10000 s else s);
            s = lapicws io
              [(ERROR, of_nat (T_IRQ0 + IRQ_ERROR)), (ESR, 0), (ESR, 0), (EOI, 0), (ICRHI, 0),
               (ICRLO, 0x80000 OR 0x500 OR 0x8000)] s in
        map_option (lapicw io TPR 0) (lapic_delivered io s))"

text \<open>The warning that \<open>cpunum\<close> prints when it is called with interrupts enabled is left out.\<close>

definition cpunum :: "'hw io \<Rightarrow> ('hw, 'x) kdev_scheme \<Rightarrow> (nat, ('hw, 'x) kdev_scheme) outcome" where
  "cpunum io s =
     (if lapic s = 0 then Ret 0 s
      else
        let (v, s) = lapicr io ID s in
        case first_idx (ncpu s) (\<lambda>i. ucast (apicid s i) = drop_bit 24 v) of
          Some i \<Rightarrow> Ret i s
        | None \<Rightarrow> Panic (''unknown apicid'' @ [CHR 0x0A]))"

definition lapiceoi :: "'hw io \<Rightarrow> ('hw, 'x) kdev_scheme \<Rightarrow> ('hw, 'x) kdev_scheme" where
  "lapiceoi io s = (if lapic s \<noteq> 0 then lapicw io EOI 0 s else s)"

abbreviation CMOS_PORT :: u16 where "CMOS_PORT \<equiv> 0x70"
abbreviation CMOS_RETURN :: u16 where "CMOS_RETURN \<equiv> 0x71"

definition store16 :: "memory \<Rightarrow> u32 \<Rightarrow> u16 \<Rightarrow> memory" where
  "store16 m a v = m(a := ucast v, a + 1 := ucast (drop_bit 8 v))"

definition lapicstartap :: "'hw io \<Rightarrow> u8 \<Rightarrow> u32 \<Rightarrow> ('hw, 'x) kdev_scheme \<Rightarrow> ('hw, 'x) kdev_scheme" where
  "lapicstartap io apic addr s =
     (let s = on_hw (outbs io [(CMOS_PORT, 0xF), (CMOS_PORT + 1, 0x0A)]) s;
          wrv = P2V (push_bit 4 0x40 OR 0x67);
          s = s\<lparr>mem := store16 (mem s) wrv 0\<rparr>;
          s = s\<lparr>mem := store16 (mem s) (wrv + 2) (ucast (drop_bit 4 addr))\<rparr>;
          startup = [(ICRHI, push_bit 24 (ucast apic)), (ICRLO, 0x600 OR drop_bit 12 addr)] in
      lapicws io
        ([(ICRHI, push_bit 24 (ucast apic)), (ICRLO, 0x500 OR 0x8000 OR 0x4000), (ICRLO, 0x500 OR 0x8000)]
         @ startup @ startup) s)"

subsection \<open>The clock\<close>

record rtcdate =
  second :: u32
  minute :: u32
  hour :: u32
  day :: u32
  month :: u32
  year :: u32

definition cmos_read :: "'hw io \<Rightarrow> u8 \<Rightarrow> 'hw \<Rightarrow> u32 \<times> 'hw" where
  "cmos_read io reg h = (let (v, h) = inb io CMOS_RETURN (outb io CMOS_PORT reg h) in (ucast v, h))"

definition fill_rtcdate :: "'hw io \<Rightarrow> 'hw \<Rightarrow> rtcdate \<times> 'hw" where
  "fill_rtcdate io h =
     (let (se, h) = cmos_read io 0x00 h;
          (mi, h) = cmos_read io 0x02 h;
          (ho, h) = cmos_read io 0x04 h;
          (da, h) = cmos_read io 0x07 h;
          (mo, h) = cmos_read io 0x08 h;
          (ye, h) = cmos_read io 0x09 h in
      (\<lparr>second = se, minute = mi, hour = ho, day = da, month = mo, year = ye\<rparr>, h))"

partial_function (option) stable_date :: "'hw io \<Rightarrow> 'hw \<Rightarrow> (rtcdate \<times> 'hw) option" where
  "stable_date io h =
     (let (t1, h) = fill_rtcdate io h;
          (a, h) = cmos_read io 0x0a h in
      if a AND push_bit 7 1 \<noteq> 0 then stable_date io h
      else
        let (t2, h) = fill_rtcdate io h in
        if t1 = t2 then Some (t1, h) else stable_date io h)"

definition CONV :: "u32 \<Rightarrow> u32" where
  "CONV x = drop_bit 4 x * 10 + (x AND 0xf)"

definition cmostime :: "'hw io \<Rightarrow> 'hw \<Rightarrow> (rtcdate \<times> 'hw) option" where
  "cmostime io h =
     (let (b, h) = cmos_read io 0x0b h;
          bcd = (b AND push_bit 2 1 = 0) in
      map_option (\<lambda>(t1, h).
        let t1 = (if bcd then t1\<lparr>second := CONV (second t1), minute := CONV (minute t1), hour := CONV (hour t1),
                    day := CONV (day t1), month := CONV (month t1), year := CONV (year t1)\<rparr> else t1) in
        (t1\<lparr>year := year t1 + 2000\<rparr>, h)) (stable_date io h))"

subsection \<open>The serial port\<close>

abbreviation COM1 :: u16 where "COM1 \<equiv> 0x3f8"

fun uart_wait :: "'hw io \<Rightarrow> nat \<Rightarrow> 'hw \<Rightarrow> 'hw" where
  "uart_wait io 0 h = h"
| "uart_wait io (Suc n) h =
     (let (v, h) = inb io (COM1 + 5) h in if v AND 0x20 \<noteq> 0 then h else uart_wait io n h)"

text \<open>The port-level form of \<open>uartputc\<close>; the console uses the characters sent only.\<close>

definition uartputc_port :: "'hw io \<Rightarrow> u8 \<Rightarrow> ('hw, 'x) kdev_scheme \<Rightarrow> ('hw, 'x) kdev_scheme" where
  "uartputc_port io c s =
     (if \<not> uart s then s else on_hw (\<lambda>h. outb io COM1 c (uart_wait io 128 h)) s)"

definition uartgetc :: "'hw io \<Rightarrow> ('hw, 'x) kdev_scheme \<Rightarrow> int \<times> ('hw, 'x) kdev_scheme" where
  "uartgetc io s =
     (if \<not> uart s then (- 1, s)
      else
        let (v, h) = inb io (COM1 + 5) (hw s); s = s\<lparr>hw := h\<rparr> in
        if v AND 0x01 = 0 then (- 1, s)
        else let (c, h) = inb io COM1 (hw s) in (uint c, s\<lparr>hw := h\<rparr>))"

definition uartinit :: "'hw io \<Rightarrow> ('hw, 'x) kdev_scheme \<Rightarrow> ('hw, 'x) kdev_scheme" where
  "uartinit io s =
     (let s = on_hw (outbs io [(COM1 + 2, 0), (COM1 + 3, 0x80), (COM1, of_nat (115200 div 9600)), (COM1 + 1, 0),
            (COM1 + 3, 0x03), (COM1 + 4, 0), (COM1 + 1, 0x01)]) s;
          (v, h) = inb io (COM1 + 5) (hw s);
          s = s\<lparr>hw := h\<rparr> in
      if v = 0xFF then s
      else
        let s = s\<lparr>uart := True\<rparr>;
            s = on_hw (\<lambda>h. snd (inb io COM1 (snd (inb io (COM1 + 2) h)))) s;
            s = ioapicenable io IRQ_COM1 0 (picenable io IRQ_COM1 s) in
        fold (uartputc_port io) (map (\<lambda>c. of_char c) (''xv6...'' @ [CHR 0x0A])) s)"

end
