(* ===== verification/Ide.thy ===== *)
theory Ide
  imports Devices
begin

text \<open>
  The interrupt-driven disk driver (\<open>src/xv6-public/ide.c\<close>), which has the interface of the memory
  disk of \<open>Bio\<close>: requests wait in the queue \<open>idequeue\<close>, linked through the field \<open>qnext\<close> of the
  buffers; \<open>iderw\<close> appends a request and sleeps; the interrupt handler completes the first one
  and starts the next. Buffers are numbers as in \<open>Bio\<close>; the null pointer is \<open>None\<close>. The
  controller is a parameter (see \<open>Devices\<close>); \<open>controller\<close> states what the driver relies on.

  An operation that polls the controller is \<open>None\<close> if the controller never becomes ready.
\<close>

subsection \<open>The driver\<close>

record 'hw kide = "'hw kdev" +
  idequeue :: "nat option"
  qnext :: "nat \<Rightarrow> nat option"
  havedisk1 :: bool

abbreviation FSSIZE :: u32 where "FSSIZE \<equiv> 4000"
abbreviation SECTOR_SIZE :: nat where "SECTOR_SIZE \<equiv> 512"
abbreviation IDE_BSY :: u8 where "IDE_BSY \<equiv> 0x80"
abbreviation IDE_DRDY :: u8 where "IDE_DRDY \<equiv> 0x40"
abbreviation IDE_DF :: u8 where "IDE_DF \<equiv> 0x20"
abbreviation IDE_ERR :: u8 where "IDE_ERR \<equiv> 0x01"
abbreviation IDE_CMD_READ :: u8 where "IDE_CMD_READ \<equiv> 0x20"
abbreviation IDE_CMD_WRITE :: u8 where "IDE_CMD_WRITE \<equiv> 0x30"
abbreviation IDE_CMD_RDMUL :: u8 where "IDE_CMD_RDMUL \<equiv> 0xc4"
abbreviation IDE_CMD_WRMUL :: u8 where "IDE_CMD_WRMUL \<equiv> 0xc5"

partial_function (option) idewait :: "'hw io \<Rightarrow> bool \<Rightarrow> 'hw \<Rightarrow> (int \<times> 'hw) option" where
  "idewait io checkerr h =
     (let (r, h) = inb io 0x1f7 h in
      if r AND (IDE_BSY OR IDE_DRDY) \<noteq> IDE_DRDY then idewait io checkerr h
      else if checkerr \<and> r AND (IDE_DF OR IDE_ERR) \<noteq> 0 then Some (- 1, h)
      else Some (0, h))"

fun disk1_present :: "'hw io \<Rightarrow> nat \<Rightarrow> 'hw \<Rightarrow> bool \<times> 'hw" where
  "disk1_present io 0 h = (False, h)"
| "disk1_present io (Suc n) h =
     (let (r, h) = inb io 0x1f7 h in if r \<noteq> 0 then (True, h) else disk1_present io n h)"

definition ideinit_port :: "'hw io \<Rightarrow> ('hw, 'x) kide_scheme \<Rightarrow> ('hw, 'x) kide_scheme option" where
  "ideinit_port io s =
     (let s = ioapicenable io IRQ_IDE (of_nat (ncpu s) - 1) (picenable io IRQ_IDE s) in
      map_option (\<lambda>(_, h).
        let h = outb io 0x1f6 (0xe0 OR push_bit 4 1) h;
            (found, h) = disk1_present io 1000 h;
            s = (if found then s\<lparr>havedisk1 := True\<rparr> else s) in
        s\<lparr>hw := outb io 0x1f6 (0xe0 OR push_bit 4 0) h\<rparr>) (idewait io False (hw s)))"

definition idestart :: "'hw io \<Rightarrow> nat option \<Rightarrow> ('hw, 'x) kide_scheme \<Rightarrow>
    (unit, ('hw, 'x) kide_scheme) outcome option" where
  "idestart io bp s =
     (case bp of None \<Rightarrow> Some (Panic ''idestart'')
      | Some b \<Rightarrow>
        if b_blockno (bufs s b) \<ge> FSSIZE then Some (Panic ''incorrect blockno'')
        else
          let sector_per_block = BSIZE div SECTOR_SIZE;
              sector = b_blockno (bufs s b) * of_nat sector_per_block;
              read_cmd = (if sector_per_block = 1 then IDE_CMD_READ else IDE_CMD_RDMUL);
              write_cmd = (if sector_per_block = 1 then IDE_CMD_WRITE else IDE_CMD_WRMUL) in
          if sector_per_block > 7 then Some (Panic ''idestart'')
          else
            map_option (\<lambda>(_, h).
              let h = outbs io
                    [(0x3f6, 0), (0x1f2, of_nat sector_per_block), (0x1f3, ucast (sector AND 0xff)),
                     (0x1f4, ucast (drop_bit 8 sector AND 0xff)), (0x1f5, ucast (drop_bit 16 sector AND 0xff)),
                     (0x1f6, ucast (0xe0 OR push_bit 4 (b_dev (bufs s b) AND 1) OR (drop_bit 24 sector AND 0x0f)))] h;
                  h = (if b_dirty (bufs s b)
                       then outsl io 0x1f0 (b_data (bufs s b)) (BSIZE div 4) (outb io 0x1f7 write_cmd h)
                       else outb io 0x1f7 read_cmd h) in
              Ret () (s\<lparr>hw := h\<rparr>)) (idewait io False (hw s)))"

text \<open>Sequencing of operations that may also wait forever.\<close>

fun andthen_opt :: "('a, 's) outcome option \<Rightarrow> ('a \<Rightarrow> 's \<Rightarrow> ('b, 's) outcome option) \<Rightarrow> ('b, 's) outcome option" where
  "andthen_opt None f = None"
| "andthen_opt (Some (Ret a s)) f = f a s"
| "andthen_opt (Some (Swtch s)) f = Some (Swtch s)"
| "andthen_opt (Some (Panic m)) f = Some (Panic m)"

text \<open>\<open>if(!(b->flags & B_DIRTY) && idewait(1) >= 0) insl(0x1f0, b->data, BSIZE/4);\<close>\<close>

definition ide_fetch :: "'hw io \<Rightarrow> nat \<Rightarrow> ('hw, 'x) kide_scheme \<Rightarrow> (unit, ('hw, 'x) kide_scheme) outcome option" where
  "ide_fetch io b s =
     (if b_dirty (bufs s b) then Some (Ret () s)
      else
        map_option (\<lambda>(r, h).
          if r \<ge> 0 then
            let (d, h) = insl io 0x1f0 (BSIZE div 4) h in
            Ret () (upd_buf b (\<lambda>bf. bf\<lparr>b_data := d\<rparr>) (s\<lparr>hw := h\<rparr>))
          else Ret () (s\<lparr>hw := h\<rparr>)) (idewait io True (hw s)))"

definition ideintr :: "'hw io \<Rightarrow> ('hw, 'x) kide_scheme \<Rightarrow> (unit, ('hw, 'x) kide_scheme) outcome option" where
  "ideintr io s =
     andthen_opt (Some (acquire IdeLock s)) (\<lambda>_ s.
       case idequeue s of
         None \<Rightarrow> Some (release IdeLock s)
       | Some b \<Rightarrow>
         andthen_opt (ide_fetch io b (s\<lparr>idequeue := qnext s b\<rparr>)) (\<lambda>_ s.
         let s = upd_buf b (\<lambda>bf. bf\<lparr>b_valid := True\<rparr>) s;
             s = upd_buf b (\<lambda>bf. bf\<lparr>b_dirty := False\<rparr>) s in
         andthen_opt (Some (wakeup (Some (BufChan b)) s)) (\<lambda>_ s.
         andthen_opt (if idequeue s \<noteq> None then idestart io (idequeue s) s else Some (Ret () s)) (\<lambda>_ s.
         Some (release IdeLock s)))))"

text \<open>
  \<open>for(pp=&idequeue; *pp; pp=&(*pp)->qnext);\<close> from a buffer on: the last buffer of the queue. The
  loop does not end on a circular queue.
\<close>

partial_function (option) queue_last :: "(nat \<Rightarrow> nat option) \<Rightarrow> nat \<Rightarrow> nat option" where
  "queue_last nx c = (case nx c of None \<Rightarrow> Some c | Some d \<Rightarrow> queue_last nx d)"

definition queue_append :: "nat \<Rightarrow> ('hw, 'x) kide_scheme \<Rightarrow> ('hw, 'x) kide_scheme option" where
  "queue_append b s =
     (let s = s\<lparr>qnext := (qnext s)(b := None)\<rparr> in
      case idequeue s of
        None \<Rightarrow> Some (s\<lparr>idequeue := Some b\<rparr>)
      | Some c \<Rightarrow> map_option (\<lambda>l. s\<lparr>qnext := (qnext s)(l := Some b)\<rparr>) (queue_last (qnext s) c))"

text \<open>
  The loop that waits for the request, entered with \<open>idelock\<close> held: a process that sleeps leaves
  the CPU, and \<open>iderw_resume\<close> is what it does once it is scheduled again (\<open>saved\<close> is the local
  variable of \<open>sched\<close>).
\<close>

definition iderw_wait :: "nat \<Rightarrow> ('hw, 'x) kide_scheme \<Rightarrow> (unit, ('hw, 'x) kide_scheme) outcome" where
  "iderw_wait b s =
     (if \<not> (b_valid (bufs s b) \<and> \<not> b_dirty (bufs s b)) then sleep (Some (BufChan b)) (Some IdeLock) s
      else release IdeLock s)"

definition iderw_resume :: "nat \<Rightarrow> bool \<Rightarrow> ('hw, 'x) kide_scheme \<Rightarrow> (unit, ('hw, 'x) kide_scheme) outcome" where
  "iderw_resume b saved s = andthen (sleep_return IdeLock saved s) (\<lambda>_ s. iderw_wait b s)"

definition iderw_queue :: "'hw io \<Rightarrow> nat \<Rightarrow> ('hw, 'x) kide_scheme \<Rightarrow> (unit, ('hw, 'x) kide_scheme) outcome option" where
  "iderw_queue io b s =
     andthen_opt (Some (holdingsleep (0, b) s)) (\<lambda>h s.
       if \<not> h then Some (Panic ''iderw: buf not locked'')
       else if b_valid (bufs s b) \<and> \<not> b_dirty (bufs s b) then Some (Panic ''iderw: nothing to do'')
       else if b_dev (bufs s b) \<noteq> 0 \<and> \<not> havedisk1 s then Some (Panic ''iderw: ide disk 1 not present'')
       else
         andthen_opt (Some (acquire IdeLock s)) (\<lambda>_ s.
         case queue_append b s of None \<Rightarrow> None
         | Some s \<Rightarrow>
           andthen_opt (if idequeue s = Some b then idestart io (Some b) s else Some (Ret () s)) (\<lambda>_ s.
           Some (iderw_wait b s))))"

end
