(* ===== verification/Ide_Props.thy ===== *)
theory Ide_Props
  imports Ide
begin

text \<open>
  What the disk driver of \<open>Ide\<close> promises: requests are done in the order in which they were
  queued, each exactly as the memory disk would do it.
\<close>

subsection \<open>The controller\<close>

text \<open>
  The programmer's view of the controller: the last byte written to each register, the last
  command, and the sectors of the two disks. A sector is selected by the disk bit of register
  0x1f6 and the 28 bits of its address in four registers.
\<close>

record idedev =
  d_regs :: "u16 \<Rightarrow> u8"
  d_cmd :: u8
  d_sect :: "bool \<times> u32 \<Rightarrow> block"

definition target :: "(u16 \<Rightarrow> u8) \<Rightarrow> bool \<times> u32" where
  "target r = (bit (r 0x1f6) 4,
     ucast (r 0x1f3) OR push_bit 8 (ucast (r 0x1f4)) OR push_bit 16 (ucast (r 0x1f5))
     OR push_bit 24 (ucast (r 0x1f6 AND 0x0f)))"

definition ide_ready :: "u8 \<Rightarrow> bool" where
  "ide_ready r \<longleftrightarrow> r AND (IDE_BSY OR IDE_DRDY) = IDE_DRDY"

text \<open>
  The documented behaviour of a working controller, seen through \<open>dev\<close>: registers keep what is
  written, reading the status changes nothing, polling it long enough finds the controller ready
  and it reports no error, and the data of one sector moves to or from the selected sector after
  the write or the read command.
\<close>

definition controller :: "'hw io \<Rightarrow> ('hw \<Rightarrow> idedev) \<Rightarrow> bool" where
  "controller io dev \<longleftrightarrow>
     (\<forall>h p v. p \<in> {0x3f6, 0x1f2, 0x1f3, 0x1f4, 0x1f5, 0x1f6} \<longrightarrow>
        dev (outb io p v h) = (dev h)\<lparr>d_regs := (d_regs (dev h))(p := v)\<rparr>)
     \<and> (\<forall>h c. dev (outb io 0x1f7 c h) = (dev h)\<lparr>d_cmd := c\<rparr>)
     \<and> (\<forall>h. dev (snd (inb io 0x1f7 h)) = dev h)
     \<and> (\<forall>h. \<exists>n. ide_ready (fst (inb io 0x1f7 (((\<lambda>h. snd (inb io 0x1f7 h)) ^^ n) h))))
     \<and> (\<forall>h. fst (inb io 0x1f7 h) AND (IDE_DF OR IDE_ERR) = 0)
     \<and> (\<forall>h d. d_cmd (dev h) = IDE_CMD_WRITE \<and> d_regs (dev h) 0x1f2 = 1 \<longrightarrow>
          dev (outsl io 0x1f0 d 128 h) = (dev h)\<lparr>d_sect := (d_sect (dev h))(target (d_regs (dev h)) := d)\<rparr>)
     \<and> (\<forall>h. d_cmd (dev h) = IDE_CMD_READ \<and> d_regs (dev h) 0x1f2 = 1 \<longrightarrow>
          dev (snd (insl io 0x1f0 128 h)) = dev h
          \<and> fst (insl io 0x1f0 128 h) = d_sect (dev h) (target (d_regs (dev h))))"

lemma idewait_ready_after:
  assumes c: "controller io dev"
    and r: "ide_ready (fst (inb io 0x1f7 (((\<lambda>h. snd (inb io 0x1f7 h)) ^^ n) h)))"
  shows "\<exists>h'. idewait io e h = Some (0, h') \<and> dev h' = dev h"
  using r
proof (induction n arbitrary: h)
  case 0
  obtain v h' where v: "inb io 0x1f7 h = (v, h')" by (cases "inb io 0x1f7 h")
  have "dev h' = dev h" "v AND (IDE_DF OR IDE_ERR) = 0"
    using c v unfolding controller_def by (metis snd_conv, metis fst_conv)
  then show ?case using 0 v by (subst idewait.simps) (simp add: ide_ready_def)
next
  case (Suc n)
  obtain v h' where v: "inb io 0x1f7 h = (v, h')" by (cases "inb io 0x1f7 h")
  have k: "dev h' = dev h" "v AND (IDE_DF OR IDE_ERR) = 0"
    using c v unfolding controller_def by (metis snd_conv, metis fst_conv)
  have "\<exists>h''. idewait io e h' = Some (0, h'') \<and> dev h'' = dev h'"
    using Suc.prems v by (intro Suc.IH) (simp add: funpow_Suc_right del: funpow.simps)
  then show ?case using v k by (subst idewait.simps) auto
qed

lemma idewait_ok:
  assumes "controller io dev"
  shows "\<exists>h'. idewait io e h = Some (0, h') \<and> dev h' = dev h"
  using idewait_ready_after [OF assms] assms unfolding controller_def by blast

lemma byte_of: "(ucast (ucast (x AND 0xff) :: u8) :: u32) = take_bit 8 (x :: u32)"
proof (rule bit_word_eqI)
  fix k assume "k < LENGTH(32)"
  moreover have "bit (0xff :: u32) k" if "k < 8"
    using that by (auto simp: less_Suc_eq numeral_eq_Suc)
  ultimately show "bit (ucast (ucast (x AND 0xff) :: u8) :: u32) k = bit (take_bit 8 x) k"
    by (auto simp: bit_simps)
qed

lemma nibble_of:
  "(ucast ((ucast (0xe0 OR (push_bit 4 d AND 16) OR (x AND 0x0f) :: u32) :: u8) AND 0x0f) :: u32) = take_bit 4 (x :: u32)"
proof (rule bit_word_eqI)
  fix k assume k: "k < LENGTH(32)"
  have m: "(0x0f :: u32) = mask 4" "(0x0f :: u8) = mask 4" by (simp_all add: mask_eq_exp_minus_1)
  have "\<not> bit (0xe0 :: u32) k" if "k < 4"
    using that by (auto simp: less_Suc_eq numeral_eq_Suc)
  then show "bit (ucast ((ucast (0xe0 OR (push_bit 4 d AND 16) OR (x AND 0x0f) :: u32) :: u8) AND 0x0f) :: u32) k
      = bit (take_bit 4 x) k"
    using k unfolding m by (cases "k < 4") (simp_all add: bit_simps)
qed

lemma sector_bits:
  fixes n :: u32
  assumes "n < 2 ^ 28"
  shows "take_bit 8 n OR push_bit 8 (take_bit 8 (drop_bit 8 n)) OR push_bit 16 (take_bit 8 (drop_bit 16 n))
    OR push_bit 24 (take_bit 4 (drop_bit 24 n)) = n"
proof (rule bit_word_eqI)
  fix k assume k: "k < LENGTH(32)"
  have "unat n < 2 ^ 28" using assms by (simp add: word_less_nat_alt)
  then have "unat (take_bit 28 n) = unat n" by (simp add: unsigned_take_bit_eq take_bit_nat_eq_self)
  then have "take_bit 28 n = n" by (simp only: word_unat_eq_iff)
  then have hi: "bit n k \<Longrightarrow> k < 28" by (metis bit_take_bit_iff)
  consider "k < 8" | "8 \<le> k" "k < 16" | "16 \<le> k" "k < 24" | "24 \<le> k" by linarith
  then show "bit (take_bit 8 n OR push_bit 8 (take_bit 8 (drop_bit 8 n)) OR push_bit 16 (take_bit 8 (drop_bit 16 n))
    OR push_bit 24 (take_bit 4 (drop_bit 24 n))) k = bit n k"
    using k hi by cases (auto simp: bit_simps)
qed

lemma disk_bit:
  "bit (ucast (0xe0 OR push_bit 4 (d AND 1) OR (drop_bit 24 n AND 0x0f) :: u32) :: u8) 4 = odd (d :: u32)"
proof -
  have "(0x0f :: u32) = mask 4" "(0xe0 :: u32) = push_bit 5 7"
    by (simp_all add: mask_eq_exp_minus_1 push_bit_eq_mult)
  then show ?thesis by (auto simp: bit_simps bit_0)
qed

subsection \<open>Requests\<close>

text \<open>
  The request for a buffer and its effect on the buffers and the sectors: what the memory disk
  does at once (\<open>perform_memide\<close> below).
\<close>

definition sector_of :: "buf \<Rightarrow> bool \<times> u32" where
  "sector_of x = (odd (b_dev x), b_blockno x)"

fun perform :: "nat \<Rightarrow> (nat \<Rightarrow> buf) \<times> (bool \<times> u32 \<Rightarrow> block) \<Rightarrow> (nat \<Rightarrow> buf) \<times> (bool \<times> u32 \<Rightarrow> block)" where
  "perform b (bf, d) =
     (if b_dirty (bf b) then (bf(b := (bf b)\<lparr>b_valid := True, b_dirty := False\<rparr>), d(sector_of (bf b) := b_data (bf b)))
      else (bf(b := (bf b)\<lparr>b_valid := True, b_data := d (sector_of (bf b))\<rparr>), d))"

definition request :: "buf \<Rightarrow> bool" where
  "request x \<longleftrightarrow> \<not> (b_valid x \<and> \<not> b_dirty x) \<and> b_blockno x < FSSIZE"

text \<open>The controller is at work on the request: its sector is selected, and a write has its data.\<close>

definition started :: "buf \<Rightarrow> idedev \<Rightarrow> bool" where
  "started x d \<longleftrightarrow> target (d_regs d) = sector_of x \<and> d_regs d 0x1f2 = 1
     \<and> d_cmd d = (if b_dirty x then IDE_CMD_WRITE else IDE_CMD_READ)
     \<and> (b_dirty x \<longrightarrow> d_sect d (sector_of x) = b_data x)"

fun queued :: "(nat \<Rightarrow> nat option) \<Rightarrow> nat option \<Rightarrow> nat list \<Rightarrow> bool" where
  "queued nx p [] \<longleftrightarrow> p = None"
| "queued nx p (b # q) \<longleftrightarrow> p = Some b \<and> queued nx (nx b) q"

text \<open>The state between two operations of the driver, with the requests \<open>q\<close> in the queue.\<close>

definition ide_inv :: "('hw \<Rightarrow> idedev) \<Rightarrow> nat list \<Rightarrow> ('hw, 'x) kide_scheme \<Rightarrow> bool" where
  "ide_inv dev q s \<longleftrightarrow> queued (qnext s) (idequeue s) q \<and> distinct q \<and> (\<forall>b\<in>set q. request (bufs s b))
     \<and> (q \<noteq> [] \<longrightarrow> started (bufs s (hd q)) (dev (hw s)))"

text \<open>The disk as the requests in the queue will leave the disk and the buffers.\<close>

definition sectors :: "('hw \<Rightarrow> idedev) \<Rightarrow> ('hw, 'x) kide_scheme \<Rightarrow> bool \<times> u32 \<Rightarrow> block" where
  "sectors dev s = d_sect (dev (hw s))"

definition all_done :: "('hw \<Rightarrow> idedev) \<Rightarrow> nat list \<Rightarrow> ('hw, 'x) kide_scheme \<Rightarrow> (nat \<Rightarrow> buf) \<times> (bool \<times> u32 \<Rightarrow> block)" where
  "all_done dev q s = fold perform q (bufs s, sectors dev s)"

subsection \<open>Starting and finishing a request\<close>

lemma controller_outb:
  assumes "controller io dev"
  shows "p \<in> {0x3f6, 0x1f2, 0x1f3, 0x1f4, 0x1f5, 0x1f6} \<Longrightarrow>
      dev (outb io p v h) = (dev h)\<lparr>d_regs := (d_regs (dev h))(p := v)\<rparr>"
    "dev (outb io 0x1f7 c h) = (dev h)\<lparr>d_cmd := c\<rparr>"
  using assms unfolding controller_def by blast+

lemma controller_data:
  assumes "controller io dev" "d_regs (dev h) 0x1f2 = 1"
  shows "d_cmd (dev h) = IDE_CMD_WRITE \<Longrightarrow>
      dev (outsl io 0x1f0 d 128 h) = (dev h)\<lparr>d_sect := (d_sect (dev h))(target (d_regs (dev h)) := d)\<rparr>"
    "d_cmd (dev h) = IDE_CMD_READ \<Longrightarrow> dev (snd (insl io 0x1f0 128 h)) = dev h"
    "d_cmd (dev h) = IDE_CMD_READ \<Longrightarrow> fst (insl io 0x1f0 128 h) = d_sect (dev h) (target (d_regs (dev h)))"
  using assms unfolding controller_def by blast+

lemma idestart_ok:
  assumes c: "controller io dev" and r: "b_blockno (bufs s b) < FSSIZE"
  shows "\<exists>h. idestart io (Some b) s = Some (Ret () (s\<lparr>hw := h\<rparr>)) \<and> started (bufs s b) (dev h)
    \<and> d_sect (dev h) = (if b_dirty (bufs s b) then (sectors dev s)(sector_of (bufs s b) := b_data (bufs s b))
                        else sectors dev s)"
proof -
  let ?x = "bufs s b" let ?n = "b_blockno ?x" let ?d = "b_dev ?x"
  obtain h1 where h1: "idewait io False (hw s) = Some (0, h1)" "dev h1 = dev (hw s)"
    using idewait_ok [OF c] by blast
  define h2 where "h2 = outbs io
     [(0x3f6, 0), (0x1f2, 1), (0x1f3, ucast (?n AND 0xff)), (0x1f4, ucast (drop_bit 8 ?n AND 0xff)),
      (0x1f5, ucast (drop_bit 16 ?n AND 0xff)),
      (0x1f6, ucast (0xe0 OR push_bit 4 (?d AND 1) OR (drop_bit 24 ?n AND 0x0f)))] h1"
  have n: "?n < 2 ^ 28" using r by (rule less_trans) simp
  have t: "target (d_regs (dev h2)) = sector_of ?x" "d_regs (dev h2) 0x1f2 = 1"
    using sector_bits [OF n] disk_bit [of ?d ?n]
    by (simp_all add: h2_def controller_outb [OF c] target_def sector_of_def byte_of nibble_of)
  have d: "d_sect (dev h2) = sectors dev s"
    by (simp add: h2_def controller_outb [OF c] h1 sectors_def)
  define h3 where "h3 = outb io 0x1f7 (if b_dirty ?x then IDE_CMD_WRITE else IDE_CMD_READ) h2"
  have h3: "dev h3 = (dev h2)\<lparr>d_cmd := if b_dirty ?x then IDE_CMD_WRITE else IDE_CMD_READ\<rparr>"
    by (simp add: h3_def controller_outb [OF c])
  define h4 where "h4 = (if b_dirty ?x then outsl io 0x1f0 (b_data ?x) 128 h3 else h3)"
  have h4: "dev h4 = (dev h3)\<lparr>d_sect := if b_dirty ?x then (d_sect (dev h3))(target (d_regs (dev h3)) := b_data ?x)
      else d_sect (dev h3)\<rparr>"
    using controller_data(1) [OF c, of h3 "b_data ?x"] h3 t by (simp add: h4_def)
  have "idestart io (Some b) s = Some (Ret () (s\<lparr>hw := h4\<rparr>))"
    using r by (simp add: idestart_def h1 h2_def h3_def h4_def Let_def not_le [symmetric])
  then show ?thesis
    using h3 h4 t d by (intro exI [of _ h4]) (simp add: started_def)
qed

lemma ide_fetch_ok:
  assumes c: "controller io dev" and st: "started (bufs s b) (dev (hw s))"
  shows "\<exists>h. dev h = dev (hw s) \<and> ide_fetch io b s = Some (Ret () (upd_buf b (\<lambda>x. x\<lparr>b_data :=
    if b_dirty x then b_data x else sectors dev s (sector_of x)\<rparr>) (s\<lparr>hw := h\<rparr>)))"
proof (cases "b_dirty (bufs s b)")
  case True
  then show ?thesis by (intro exI [of _ "hw s"]) (simp add: ide_fetch_def upd_buf_def)
next
  case False
  obtain h1 where h1: "idewait io True (hw s) = Some (0, h1)" "dev h1 = dev (hw s)"
    using idewait_ok [OF c] by blast
  obtain d h2 where i: "insl io 0x1f0 128 h1 = (d, h2)" by (cases "insl io 0x1f0 128 h1")
  have "dev h2 = dev h1" "d = d_sect (dev h1) (target (d_regs (dev h1)))"
    using controller_data(2,3) [OF c, of h1] st h1 i False by (simp_all add: started_def)
  then show ?thesis
    using h1 i False st by (intro exI [of _ h2]) (simp add: ide_fetch_def upd_buf_def started_def sectors_def)
qed

subsection \<open>The interrupt handler\<close>

lemma locked_by_kide [simp]:
  "idequeue (locked_by l s) = idequeue s" "qnext (locked_by l s) = qnext s" "hw (locked_by l s') = hw s'"
  "havedisk1 (locked_by l s) = havedisk1 s"
  "(locked_by l s)\<lparr>idequeue := p\<rparr> = locked_by l (s\<lparr>idequeue := p\<rparr>)"
  "(locked_by l s)\<lparr>qnext := n\<rparr> = locked_by l (s\<lparr>qnext := n\<rparr>)"
  "(locked_by l s')\<lparr>hw := h\<rparr> = locked_by l (s'\<lparr>hw := h\<rparr>)"
  "sectors dev (locked_by l s) = sectors dev s" "sectors dev (s\<lparr>idequeue := p\<rparr>) = sectors dev s"
  by (simp_all add: locked_by_def pushcli_def sectors_def)

lemma ide_inv_locked_by [simp]:
  "ide_inv dev q (locked_by l s) = ide_inv dev q s" "all_done dev q (locked_by l s) = all_done dev q s"
  by (simp_all add: ide_inv_def all_done_def)

lemma wakeup1_locked_by [simp]: "wakeup1 ch (locked_by l s) = locked_by l (wakeup1 ch s)"
  by (cases s) (simp add: locked_by_def pushcli_def wakeup1_def cong: if_cong)

lemma cpu_kide_update [simp]:
  "cpu_ok (s\<lparr>idequeue := p\<rparr>) = cpu_ok s" "holding l (s\<lparr>idequeue := p\<rparr>) = holding l s"
  "cpu_ok (s\<lparr>qnext := n\<rparr>) = cpu_ok s" "holding l (s\<lparr>qnext := n\<rparr>) = holding l s"
  "cpu_ok (s'\<lparr>hw := h\<rparr>) = cpu_ok s'" "holding l (s'\<lparr>hw := h\<rparr>) = holding l s'"
  "cpu_ok (wakeup1 ch k) = cpu_ok k" "holding l (wakeup1 ch k) = holding l k"
  by (simp_all add: cpu_ok_def holding_def wakeup1_def)

lemma wakeup1_kide [simp]:
  "idequeue (wakeup1 ch s) = idequeue s" "qnext (wakeup1 ch s) = qnext s" "hw (wakeup1 ch s') = hw s'"
  "bufs (wakeup1 ch k) = bufs k"
  by (simp_all add: wakeup1_def)

lemma upd_buf_kide [simp]:
  "idequeue (upd_buf b f s) = idequeue s" "qnext (upd_buf b f s) = qnext s" "hw (upd_buf b f s') = hw s'"
  by (simp_all add: upd_buf_def)

lemma queued_cong: "\<forall>b\<in>set q. nx b = nx' b \<Longrightarrow> queued nx p q = queued nx' p q"
  by (induction q arbitrary: p) auto

lemma perform_again:
  "perform b (bf, if b_dirty (bf b) then d(sector_of (bf b) := b_data (bf b)) else d) = perform b (bf, d)"
  by simp

definition fetched :: "(bool \<times> u32 \<Rightarrow> block) \<Rightarrow> buf \<Rightarrow> buf" where
  "fetched d x = x\<lparr>b_data := if b_dirty x then b_data x else d (sector_of x), b_valid := True, b_dirty := False\<rparr>"

lemma perform_started:
  assumes "started (bf b) e" "d = d_sect e"
  shows "perform b (bf, d) = (bf(b := fetched d (bf b)), d)"
  using assms by (auto simp: started_def fetched_def fun_upd_idem)

lemma ideintr_first:
  assumes c: "controller io dev" and inv: "ide_inv dev (b # q) s"
    and cpu: "cpu_ok s" "\<not> holding IdeLock s" "\<not> holding PtableLock s"
  shows "\<exists>h. ideintr io s = Some (Ret () (wakeup1 (Some (BufChan b))
      (upd_buf b (fetched (sectors dev s)) (s\<lparr>idequeue := qnext s b, hw := h\<rparr>))))
    \<and> (case q of [] \<Rightarrow> d_sect (dev h) = sectors dev s
       | e # _ \<Rightarrow> started (bufs s e) (dev h) \<and> d_sect (dev h) =
           (if b_dirty (bufs s e) then (sectors dev s)(sector_of (bufs s e) := b_data (bufs s e)) else sectors dev s))"
proof -
  let ?l = "locked_by IdeLock" and ?f = "fetched (sectors dev s)"
  let ?w = "\<lambda>h. wakeup1 (Some (BufChan b)) (upd_buf b ?f (s\<lparr>idequeue := qnext s b, hw := h\<rparr>))"
  have st: "started (bufs s b) (dev (hw s))" and p: "idequeue s = Some b"
    and nq: "queued (qnext s) (qnext s b) q" "b \<notin> set q" and rq: "\<forall>e\<in>set q. request (bufs s e)"
    using inv by (auto simp: ide_inv_def)
  obtain h1 where h1: "dev h1 = dev (hw s)" "ide_fetch io b (?l (s\<lparr>idequeue := qnext s b\<rparr>)) =
      Some (Ret () (?l (upd_buf b (\<lambda>x. x\<lparr>b_data := if b_dirty x then b_data x else sectors dev s (sector_of x)\<rparr>)
        (s\<lparr>idequeue := qnext s b, hw := h1\<rparr>))))"
    using ide_fetch_ok [OF c, of "?l (s\<lparr>idequeue := qnext s b\<rparr>)" b] st by (auto cong: if_cong)
  have wk: "wakeup ch (?l (upd_buf b f (s\<lparr>idequeue := qnext s b, hw := h1\<rparr>))) =
      Ret () (?l (wakeup1 ch (upd_buf b f (s\<lparr>idequeue := qnext s b, hw := h1\<rparr>))))" for ch f
    using cpu by (subst wakeup_eq) (simp_all add: cpu_ok_locked_by)
  have f: "upd_buf b (\<lambda>x. x\<lparr>b_dirty := False\<rparr>) (upd_buf b (\<lambda>x. x\<lparr>b_valid := True\<rparr>)
      (upd_buf b (\<lambda>x. x\<lparr>b_data := if b_dirty x then b_data x else sectors dev s (sector_of x)\<rparr>) k)) = upd_buf b ?f k"
    for k :: "('a, 'b) kide_scheme"
    by (simp add: upd_buf_def fetched_def)
  have run: "ideintr io s = andthen_opt
      (if qnext s b \<noteq> None then idestart io (qnext s b) (?l (?w h1)) else Some (Ret () (?l (?w h1))))
      (\<lambda>_ t. Some (release IdeLock t))"
    using cpu p by (simp add: ideintr_def acquire_free h1(2) wk f Let_def)
  show ?thesis
  proof (cases q)
    case Nil
    then have "qnext s b = None" using nq by simp
    then show ?thesis using run cpu Nil h1(1)
      by (intro exI [of _ h1]) (simp add: release_locked_by sectors_def)
  next
    case (Cons e r)
    then have e: "qnext s b = Some e" "e \<noteq> b" "request (bufs s e)" using nq rq by auto
    have "b_blockno (bufs (?l (?w h1)) e) < FSSIZE" using e by (simp add: request_def)
    then obtain h where h: "idestart io (Some e) (?l (?w h1)) = Some (Ret () (?l (?w h1)\<lparr>hw := h\<rparr>))"
      "started (bufs s e) (dev h)" "d_sect (dev h) = (if b_dirty (bufs s e)
         then (sectors dev s)(sector_of (bufs s e) := b_data (bufs s e)) else sectors dev s)"
      using idestart_ok [OF c, of "?l (?w h1)" e] e h1(1) by (auto simp: sectors_def)
    have "(?w h1)\<lparr>hw := h\<rparr> = ?w h" by (simp add: wakeup1_def upd_buf_def cong: if_cong)
    then show ?thesis using run h cpu Cons e
      by (intro exI [of _ h]) (simp add: release_locked_by)
  qed
qed

lemma ideintr_ok:
  assumes c: "controller io dev" and inv: "ide_inv dev (b # q) s"
    and cpu: "cpu_ok s" "\<forall>l. \<not> holding l s"
  shows "\<exists>t. ideintr io s = Some (Ret () t) \<and> ide_inv dev q t \<and> all_done dev q t = all_done dev (b # q) s
    \<and> ptable t = ptable (wakeup1 (Some (BufChan b)) s) \<and> cpu_ok t \<and> (\<forall>l. \<not> holding l t)"
proof -
  obtain h where run: "ideintr io s = Some (Ret () (wakeup1 (Some (BufChan b))
      (upd_buf b (fetched (sectors dev s)) (s\<lparr>idequeue := qnext s b, hw := h\<rparr>))))" (is "_ = Some (Ret () ?t)")
    and h: "case q of [] \<Rightarrow> d_sect (dev h) = sectors dev s
       | e # _ \<Rightarrow> started (bufs s e) (dev h) \<and> d_sect (dev h) =
           (if b_dirty (bufs s e) then (sectors dev s)(sector_of (bufs s e) := b_data (bufs s e)) else sectors dev s)"
    using ideintr_first [OF c inv] cpu by blast
  have i: "started (bufs s b) (dev (hw s))" "queued (qnext s) (qnext s b) q" "b \<notin> set q" "distinct q"
    "\<forall>e\<in>set q. request (bufs s e)"
    using inv by (auto simp: ide_inv_def)
  have b: "bufs ?t = (bufs s)(b := fetched (sectors dev s) (bufs s b))" by simp
  have "ide_inv dev q ?t"
    using i h by (cases q) (auto simp: ide_inv_def)
  moreover have "all_done dev q ?t = fold perform q (bufs ?t, sectors dev s)"
  proof (cases q)
    case Nil
    then show ?thesis using h by (simp add: all_done_def sectors_def)
  next
    case (Cons e r)
    then have "sectors dev ?t = (if b_dirty (bufs ?t e) then (sectors dev s)(sector_of (bufs ?t e) := b_data (bufs ?t e))
        else sectors dev s)"
      using h i(3) by (auto simp: sectors_def)
    then show ?thesis using Cons by (simp only: all_done_def fold.simps o_apply perform_again)
  qed
  moreover have "perform b (bufs s, sectors dev s) = (bufs ?t, sectors dev s)"
    unfolding b using i(1) by (rule perform_started) (simp add: sectors_def)
  then have "all_done dev (b # q) s = fold perform q (bufs ?t, sectors dev s)"
    by (simp only: all_done_def fold.simps o_apply)
  moreover have "ptable ?t = ptable (wakeup1 (Some (BufChan b)) s)"
    by (simp add: wakeup1_def cong: if_cong)
  moreover have "cpu_ok ?t" "\<forall>l. \<not> holding l ?t" using cpu by simp_all
  ultimately show ?thesis using run by metis
qed

text \<open>A number of interrupts, one after the other.\<close>

fun intrs :: "'hw io \<Rightarrow> nat \<Rightarrow> ('hw, 'x) kide_scheme \<Rightarrow> (unit, ('hw, 'x) kide_scheme) outcome option" where
  "intrs io 0 s = Some (Ret () s)"
| "intrs io (Suc n) s = andthen_opt (ideintr io s) (\<lambda>_ s. intrs io n s)"

definition woken :: "nat list \<Rightarrow> proc \<Rightarrow> proc" where
  "woken q x = (if p_state x = SLEEPING \<and> (\<exists>b\<in>set q. p_chan x = Some (BufChan b)) then x\<lparr>p_state := RUNNABLE\<rparr> else x)"

lemma woken_Cons:
  "p < NPROC \<Longrightarrow> woken q (ptable (wakeup1 (Some (BufChan b)) s) p) = woken (b # q) (ptable s p)"
  by (auto simp: woken_def wakeup1_def)

lemma intrs_ok:
  assumes "controller io dev" "ide_inv dev q s" "cpu_ok s" "\<forall>l. \<not> holding l s"
  shows "\<exists>t. intrs io (length q) s = Some (Ret () t) \<and> ide_inv dev [] t
    \<and> (bufs t, sectors dev t) = all_done dev q s
    \<and> (\<forall>p<NPROC. ptable t p = woken q (ptable s p)) \<and> cpu_ok t \<and> (\<forall>l. \<not> holding l t)"
  using assms(2-)
proof (induction q arbitrary: s)
  case Nil
  then show ?case by (simp add: all_done_def woken_def)
next
  case (Cons b q)
  obtain u where u: "ideintr io s = Some (Ret () u)" "ide_inv dev q u" "all_done dev q u = all_done dev (b # q) s"
    "ptable u = ptable (wakeup1 (Some (BufChan b)) s)" "cpu_ok u" "\<forall>l. \<not> holding l u"
    using ideintr_ok [OF assms(1) Cons.prems] by blast
  then show ?case using Cons.IH [OF u(2,5,6)] by (simp add: woken_Cons)
qed

lemma perform_flags:
  "b_valid (fst (perform c bd) b) = (b = c \<or> b_valid (fst bd b))"
  "b_dirty (fst (perform c bd) b) = (b \<noteq> c \<and> b_dirty (fst bd b))"
  by (cases bd; simp)+

lemma all_done_flags:
  "b_valid (fst (fold perform q bd) b) = (b \<in> set q \<or> b_valid (fst bd b))"
  "b_dirty (fst (fold perform q bd) b) = (b \<notin> set q \<and> b_dirty (fst bd b))"
  by (induction q arbitrary: bd) (auto simp: perform_flags)

subsection \<open>Queueing a request\<close>

lemma queue_last_queued:
  "queued nx (Some c) q \<Longrightarrow> queue_last nx c = Some (last q)"
proof (induction q arbitrary: c)
  case (Cons b q)
  then show ?case by (subst queue_last.simps) (cases q; auto)
qed simp

lemma queued_snoc:
  "queued nx p q \<Longrightarrow> q \<noteq> [] \<Longrightarrow> distinct q \<Longrightarrow> b \<notin> set q \<Longrightarrow> nx b = None \<Longrightarrow>
     queued (nx(last q := Some b)) p (q @ [b])"
proof (induction q arbitrary: p)
  case (Cons a q)
  show ?case
  proof (cases q)
    case Nil
    then show ?thesis using Cons.prems by auto
  next
    case (Cons c r)
    then show ?thesis using Cons.IH [of "nx a"] Cons.prems by auto
  qed
qed simp

text \<open>Giving up the CPU leaves everything but the process table and the scheduler alone.\<close>

lemma charged_more [simp]: "kproc.more (charged s) = kproc.more s"
  by (simp add: charged_def Let_def boost_def upd_proc_def upd_stride_def)

lemma asleep_more [simp]: "kproc.more (asleep ch s) = kproc.more s"
  by (simp add: asleep_def upd_proc_def)

lemma sched_Swtch_more: "sched s = Swtch t \<Longrightarrow> kproc.more t = kproc.more s"
  by (auto simp: sched_def Let_def boost_def upd_proc_def upd_stride_def split: if_splits)

lemma lock_more:
  "acquire l s = Ret a t \<Longrightarrow> kproc.more t = kproc.more s"
  "release l s = Ret a t \<Longrightarrow> kproc.more t = kproc.more s"
  by (auto simp: acquire_def release_def pushcli_def popcli_def Let_def split: if_splits)

lemma lock_not_Swtch: "acquire l s \<noteq> Swtch t" "release l s \<noteq> Swtch t"
  by (auto simp: acquire_def release_def popcli_def Let_def split: if_splits)

lemma sleep_Swtch_more:
  assumes "sleep ch lk s = Swtch t"
  shows "kproc.more t = kproc.more s"
  using assms
  by (auto simp: sleep_def outcome_simps lock_not_Swtch upd_proc_def dest!: sched_Swtch_more lock_more
      split: if_splits option.splits)

lemma kide_more:
  assumes "kproc.more t = kproc.more s"
  shows "bufs t = bufs s" "slocks t = slocks s" "idequeue t = idequeue s" "qnext t = qnext s" "hw t = hw s"
    "havedisk1 t = havedisk1 s"
  using assms by (cases s; cases t; simp)+

lemma kide_same:
  assumes "kproc.more t = kproc.more s"
  shows "ide_inv dev q t = ide_inv dev q s" "all_done dev q t = all_done dev q s" "sectors dev t = sectors dev s"
  using kide_more [OF assms] by (simp_all add: ide_inv_def all_done_def sectors_def)

lemma queue_append_ok:
  assumes "queued (qnext s) (idequeue s) q" "distinct q" "b \<notin> set q"
  shows "\<exists>nx r. queue_append b (locked_by l s) = Some (locked_by l (s\<lparr>idequeue := r, qnext := nx\<rparr>))
    \<and> queued nx r (q @ [b]) \<and> (r = Some b \<longleftrightarrow> q = [])"
proof (cases q)
  case Nil
  have up: "s\<lparr>qnext := n, idequeue := r\<rparr> = s\<lparr>idequeue := r, qnext := n\<rparr>" for n r by simp
  show ?thesis
    using assms Nil by (intro exI [of _ "(qnext s)(b := None)"] exI [of _ "Some b"]) (simp add: queue_append_def up)
next
  case (Cons c r)
  let ?nx = "(qnext s)(b := None)"
  have q: "queued ?nx (idequeue s) q"
    using assms(1,3) queued_cong [of q "qnext s" ?nx "idequeue s"] by auto
  then have c: "idequeue s = Some c" "queue_last ?nx c = Some (last q)"
    using Cons queue_last_queued [of ?nx c q] by auto
  have up: "s\<lparr>idequeue := Some c, qnext := n\<rparr> = s\<lparr>qnext := n\<rparr>" for n using c(1) by (cases s) simp
  have "queued (?nx(last q := Some b)) (idequeue s) (q @ [b])"
    using q assms Cons by (intro queued_snoc) auto
  then show ?thesis
    using c assms(3) Cons
    by (intro exI [of _ "?nx(last q := Some b)"] exI [of _ "Some c"]) (auto simp: queue_append_def up)
qed

text \<open>The request is in the queue, and the controller has it if it is the first.\<close>

lemma iderw_queue_started:
  assumes c: "controller io dev" and inv: "ide_inv dev q s" and rest: "at_rest s"
    and b: "bheld s b" "request (bufs s b)" "b_dev (bufs s b) = 0 \<or> havedisk1 s" "b \<notin> set q"
  shows "\<exists>nx r h. iderw_queue io b s = Some (iderw_wait b (locked_by IdeLock (s\<lparr>idequeue := r, qnext := nx, hw := h\<rparr>)))
    \<and> ide_inv dev (q @ [b]) (s\<lparr>idequeue := r, qnext := nx, hw := h\<rparr>)
    \<and> all_done dev (q @ [b]) (s\<lparr>idequeue := r, qnext := nx, hw := h\<rparr>) = all_done dev (q @ [b]) s"
proof -
  note ok = at_rest_ok [OF rest]
  obtain nx r where a: "queue_append b (locked_by IdeLock s) = Some (locked_by IdeLock (s\<lparr>idequeue := r, qnext := nx\<rparr>))"
    "queued nx r (q @ [b])" "r = Some b \<longleftrightarrow> q = []"
    using queue_append_ok [of s q b IdeLock] inv b(4) unfolding ide_inv_def by blast
  let ?s1 = "s\<lparr>idequeue := r, qnext := nx\<rparr>"
  have run: "iderw_queue io b s =
      andthen_opt (if q = [] then idestart io (Some b) (locked_by IdeLock ?s1) else Some (Ret () (locked_by IdeLock ?s1)))
        (\<lambda>_ s. Some (iderw_wait b s))"
    using b ok a(1,3) by (auto simp: iderw_queue_def holdingsleep_eq bheld_def request_def acquire_free)
  show ?thesis
  proof (cases q)
    case Nil
    obtain h where h: "idestart io (Some b) (locked_by IdeLock ?s1) = Some (Ret () ((locked_by IdeLock ?s1)\<lparr>hw := h\<rparr>))"
      "started (bufs s b) (dev h)"
      "d_sect (dev h) = (if b_dirty (bufs s b) then (sectors dev s)(sector_of (bufs s b) := b_data (bufs s b))
                        else sectors dev s)"
      using idestart_ok [OF c, of "locked_by IdeLock ?s1" b] b(2) by (auto simp: request_def sectors_def)
    have "all_done dev [b] (s\<lparr>idequeue := r, qnext := nx, hw := h\<rparr>) = all_done dev [b] s"
      using h(3) by (simp add: all_done_def sectors_def)
    then show ?thesis
      using run h Nil a(2) b(2) by (intro exI [of _ nx] exI [of _ r] exI [of _ h]) (auto simp: ide_inv_def)
  next
    case (Cons e q')
    have "ide_inv dev (q @ [b]) (?s1\<lparr>hw := hw s\<rparr>)"
      using inv a(2) b(2,4) Cons by (auto simp: ide_inv_def)
    then show ?thesis
      using run Cons by (intro exI [of _ nx] exI [of _ r] exI [of _ "hw s"]) (simp add: all_done_def sectors_def)
  qed
qed

lemma iderw_sleeps:
  assumes c: "controller io dev" and inv: "ide_inv dev q s" and rest: "at_rest s" and p: "cur s = Some p"
    and b: "bheld s b" "request (bufs s b)" "b_dev (bufs s b) = 0 \<or> havedisk1 s" "b \<notin> set q"
  shows "\<exists>t. iderw_queue io b s = Some (Swtch t) \<and> ide_inv dev (q @ [b]) t
    \<and> all_done dev (q @ [b]) t = all_done dev (q @ [b]) s
    \<and> p_state (ptable t p) = SLEEPING \<and> p_chan (ptable t p) = Some (BufChan b)
    \<and> ncli t = 1 \<and> locks t = [PtableLock] \<and> \<not> eflags_IF t"
proof -
  obtain nx r h where q: "iderw_queue io b s = Some (iderw_wait b (locked_by IdeLock (s\<lparr>idequeue := r, qnext := nx, hw := h\<rparr>)))"
    "ide_inv dev (q @ [b]) (s\<lparr>idequeue := r, qnext := nx, hw := h\<rparr>)"
    "all_done dev (q @ [b]) (s\<lparr>idequeue := r, qnext := nx, hw := h\<rparr>) = all_done dev (q @ [b]) s"
    using iderw_queue_started [OF c inv rest b] by blast
  let ?u = "s\<lparr>idequeue := r, qnext := nx, hw := h\<rparr>"
  have top: "ncli ?u = 0" "locks ?u = []" "cur ?u = Some p" using rest p by (simp_all add: at_rest_def)
  obtain w where w: "sleep (Some (BufChan b)) (Some IdeLock) (locked_by IdeLock ?u) = Swtch (charged (asleep (BufChan b) w))"
    "ncli w = 1" "locks w = [PtableLock]" "\<not> eflags_IF w" "cur w = cur ?u"
    using sleep_switches [OF top] by blast
  let ?t = "charged (asleep (BufChan b) w)"
  have m: "kproc.more ?t = kproc.more (locked_by IdeLock ?u)" using sleep_Swtch_more [OF w(1)] .
  have t: "p_state (ptable ?t p) = SLEEPING" "p_chan (ptable ?t p) = Some (BufChan b)"
    using w(5) p by (simp_all add: asleep_def upd_proc_def)
  have "iderw_wait b (locked_by IdeLock ?u) = Swtch ?t"
    using b(2) w(1) by (auto simp: iderw_wait_def request_def)
  moreover have "ide_inv dev (q @ [b]) ?t" "all_done dev (q @ [b]) ?t = all_done dev (q @ [b]) s"
    using kide_same [OF m] q(2,3) by simp_all
  moreover have "ncli ?t = 1" "locks ?t = [PtableLock]" "\<not> eflags_IF ?t"
    using w by (simp_all add: asleep_def upd_proc_def)
  ultimately show ?thesis using q(1) t by auto
qed

lemma iderw_resume_ok:
  assumes "cur r = Some p" "ncli r = 1" "locks r = [PtableLock]" "\<not> eflags_IF r"
    and "b_valid (bufs r b)" "\<not> b_dirty (bufs r b)"
  shows "\<exists>w. iderw_resume b saved r = Ret () w \<and> at_rest w \<and> bufs w = bufs r"
proof -
  let ?t = "upd_proc p (\<lambda>q. q\<lparr>p_chan := None\<rparr>) (r\<lparr>intena := saved\<rparr>)"
  have t: "ncli ?t = 1" "locks ?t = [PtableLock]" "\<not> eflags_IF ?t" using assms by (simp_all add: upd_proc_def)
  let ?v = "?t\<lparr>locks := [], ncli := 0, eflags_IF := intena ?t\<rparr>"
  have rel: "release PtableLock ?t = Ret () ?v" using release_top [OF t] .
  have v: "at_rest ?v" "bufs ?v = bufs r" by (simp_all add: at_rest_def upd_proc_def)
  have "iderw_resume b saved r = release IdeLock (locked_by IdeLock ?v)"
    using assms(1,5,6) rel v(2) acquire_top [of ?v IdeLock]
    by (simp add: iderw_resume_def sleep_return_def sched_return_def iderw_wait_def Let_def)
  then show ?thesis using release_locked_by [OF at_rest_ok(1) [OF v(1)]] v by simp
qed

subsection \<open>Properties\<close>

text \<open>A controller and a machine for the examples: buffer 3 is locked and holds data for sector 7 of disk 1.\<close>

definition ex_io :: "idedev io" where
  "ex_io = \<lparr>inb = (\<lambda>_ h. (IDE_DRDY, h)),
     outb = (\<lambda>p v h. if p = 0x1f7 then h\<lparr>d_cmd := v\<rparr> else h\<lparr>d_regs := (d_regs h)(p := v)\<rparr>),
     insl = (\<lambda>_ _ h. (d_sect h (target (d_regs h)), h)),
     outsl = (\<lambda>_ d _ h. h\<lparr>d_sect := (d_sect h)(target (d_regs h) := d)\<rparr>),
     mmio_read = (\<lambda>_ h. (0, h)), mmio_write = (\<lambda>_ _ h. h)\<rparr>"

lemma ex_io_controller: "controller ex_io (\<lambda>h. h)"
  by (auto simp: controller_def ex_io_def ide_ready_def)

definition ex_kide :: "idedev kide" where
  "ex_kide =
     kdev.extend
       (kbio.extend
         (ksleep.extend
           (kproc.extend (ex_kproc (Some 0) RUNNING)
             (ksleep.fields (\<lambda>l. \<lparr>sl_locked = (l = (0, 3)), sl_pid = 1\<rparr>)))
           (kbio.fields (\<lambda>_. \<lparr>b_valid = False, b_dirty = True, b_dev = 1, b_blockno = 7, b_refcnt = 1, b_prev = 0, b_next = 0,
              b_data = (\<lambda>_. 5)\<rparr>) (\<lambda>_ _. 0) 100 []))
         (kdev.fields irqmask0 False 1 0 (\<lambda>_. 0) 0 False \<lparr>d_regs = (\<lambda>_. 0), d_cmd = 0, d_sect = (\<lambda>_ _. 0)\<rparr>))
       (kide.fields None (\<lambda>_. None) True)"

lemma ex_kide_ok:
  "ide_inv dev [] ex_kide" "at_rest ex_kide" "cur ex_kide = Some 0" "bheld ex_kide 3" "request (bufs ex_kide 3)"
  "havedisk1 ex_kide" "b_dev (bufs ex_kide 3) = 1" "b_blockno (bufs ex_kide 3) < disksize ex_kide"
  "disk ex_kide = (\<lambda>n. sectors (\<lambda>h. h) ex_kide (True, n))"
  by (simp_all add: ex_kide_def kproc.defs ksleep.defs kbio.defs kdev.defs kide.defs ex_defs ide_inv_def at_rest_def
      bheld_def request_def sectors_def)

text \<open>
  C11. The disk requests are served in order and without loss. With the requests \<open>q\<close> in the
  queue, the process \<open>p\<close> that calls \<open>iderw\<close> for a locked buffer \<open>b\<close> goes to sleep on it; with one
  interrupt of the controller per request, every request of \<open>q\<close> and then \<open>b\<close> is carried out
  exactly once and in this order, each on what the earlier ones left on the disk; all these
  buffers are then valid and clean, the queue is empty, \<open>p\<close> can run again, and when it is
  scheduled \<open>iderw\<close> returns.
\<close>

theorem iderw_completes:
  assumes "controller io dev" and "ide_inv dev q s" and "at_rest s" and "cur s = Some p" and "p < NPROC"
    and "bheld s b" and "request (bufs s b)" and "b_dev (bufs s b) = 0 \<or> havedisk1 s" and "b \<notin> set q"
  shows "\<exists>t u v. iderw_queue io b s = Some (Swtch t) \<and> p_state (ptable t p) = SLEEPING
    \<and> scheduler_back t = Ret () u \<and> intrs io (Suc (length q)) u = Some (Ret () v)
    \<and> (bufs v, sectors dev v) = fold perform (q @ [b]) (bufs s, sectors dev s)
    \<and> (\<forall>c\<in>set (q @ [b]). b_valid (bufs v c) \<and> \<not> b_dirty (bufs v c))
    \<and> idequeue v = None \<and> p_state (ptable v p) = RUNNABLE
    \<and> (\<forall>r saved. cur r = Some p \<and> ncli r = 1 \<and> locks r = [PtableLock] \<and> \<not> eflags_IF r \<and> bufs r = bufs v \<longrightarrow>
         (\<exists>w. iderw_resume b saved (r :: ('hw, 'x) kide_scheme) = Ret () w \<and> at_rest w \<and> bufs w = bufs v))"
proof -
  obtain t where t: "iderw_queue io b s = Some (Swtch t)" "ide_inv dev (q @ [b]) t"
    "all_done dev (q @ [b]) t = all_done dev (q @ [b]) s"
    "p_state (ptable t p) = SLEEPING" "p_chan (ptable t p) = Some (BufChan b)"
    "ncli t = 1" "locks t = [PtableLock]" "\<not> eflags_IF t"
    using iderw_sleeps [OF assms(1-4,6-9)] by blast
  let ?u = "t\<lparr>cr3 := V2P (kpgdir t), cur := None, locks := [], ncli := 0, eflags_IF := intena t\<rparr>"
  have u: "scheduler_back t = Ret () ?u" using scheduler_back_eq [OF t(6-8)] .
  have ui: "ide_inv dev (q @ [b]) ?u" "all_done dev (q @ [b]) ?u = all_done dev (q @ [b]) s"
    "cpu_ok ?u" "\<forall>l. \<not> holding l ?u"
    using t(2,3) by (simp_all add: ide_inv_def all_done_def sectors_def cpu_ok_def holding_def)
  obtain v where v: "intrs io (length (q @ [b])) ?u = Some (Ret () v)" "ide_inv dev [] v"
    "(bufs v, sectors dev v) = all_done dev (q @ [b]) ?u" "\<forall>p<NPROC. ptable v p = woken (q @ [b]) (ptable ?u p)"
    using intrs_ok [OF assms(1) ui(1,3,4)] by blast
  have d: "(bufs v, sectors dev v) = fold perform (q @ [b]) (bufs s, sectors dev s)"
    using v(3) unfolding ui(2) by (simp only: all_done_def)
  then have "bufs v = fst (fold perform (q @ [b]) (bufs s, sectors dev s))" by (metis fst_conv)
  then have f: "b_valid (bufs v c) \<and> \<not> b_dirty (bufs v c)" if "c \<in> set (q @ [b])" for c
    using that all_done_flags [of "q @ [b]" "(bufs s, sectors dev s)" c] by metis
  have "p_state (ptable v p) = RUNNABLE" using v(4) t(4,5) assms(5) by (simp add: woken_def)
  moreover have "idequeue v = None" using v(2) by (simp add: ide_inv_def)
  moreover have "\<exists>w. iderw_resume b saved r = Ret () w \<and> at_rest w \<and> bufs w = bufs v"
    if "cur r = Some p" "ncli r = 1" "locks r = [PtableLock]" "\<not> eflags_IF r" "bufs r = bufs v"
    for saved and r :: "('hw, 'x) kide_scheme"
    using iderw_resume_ok [OF that(1-4), of b saved] f [of b] that(5) by simp
  moreover have "intrs io (Suc (length q)) ?u = Some (Ret () v)" using v(1) by simp
  ultimately show ?thesis using t(1,4) u d f by blast
qed

theorem iderw_completes_witness:
  "\<exists>t u v. iderw_queue ex_io 3 ex_kide = Some (Swtch t) \<and> scheduler_back t = Ret () u
    \<and> intrs ex_io 1 u = Some (Ret () v) \<and> sectors (\<lambda>h. h) v (True, 7) 0 = 5"
proof -
  obtain t u v where "iderw_queue ex_io 3 ex_kide = Some (Swtch t)" "scheduler_back t = Ret () u"
    "intrs ex_io 1 u = Some (Ret () v)"
    "(bufs v, sectors (\<lambda>h. h) v) = fold perform ([] @ [3]) (bufs ex_kide, sectors (\<lambda>h. h) ex_kide)"
    using iderw_completes [OF ex_io_controller ex_kide_ok(1-3) _ ex_kide_ok(4,5) disjI2 [OF ex_kide_ok(6)]]
    by auto
  then show ?thesis
    by (auto simp: ex_kide_def kproc.defs ksleep.defs kbio.defs kdev.defs kide.defs sector_of_def)
qed

text \<open>What the memory disk does with a request.\<close>

lemma perform_memide:
  assumes "cpu_ok s" "\<not> holding (SleepLk 0 b) s" "bheld s b" "request (bufs s b)" "b_dev (bufs s b) = 1"
    "b_blockno (bufs s b) < disksize s" "disk s = (\<lambda>n. d (True, n))"
  shows "\<exists>m. iderw b s = Ret () m \<and> bufs m = fst (perform b (bufs s, d)) \<and> disk m = (\<lambda>n. snd (perform b (bufs s, d)) (True, n))"
proof (cases "b_dirty (bufs s b)")
  case True
  then show ?thesis
    using assms by (simp add: iderw_def holdingsleep_eq bheld_def sector_of_def Let_def not_le [symmetric] fun_eq_iff)
next
  case False
  then show ?thesis
    using assms iderw_read [OF assms(1-3) _ False] by (simp add: request_def sector_of_def fun_eq_iff)
qed



end
