(* ===== verification/Mp.thy ===== *)
theory Mp
  imports Devices
begin

text \<open>
  Finding the processors (\<open>src/xv6-public/mp.c\<close>, \<open>mp.h\<close>): the search for the floating pointer
  structure and the configuration table that the firmware left in memory, their checks, and the
  walk over the table's entries. The structures are read at their offsets in \<open>mp.h\<close>:
  \<open>struct mp\<close> is 16 bytes with \<open>physaddr\<close> at 4 and \<open>imcrp\<close> at 12; \<open>struct mpconf\<close> is 44 bytes with
  \<open>length\<close> at 4, \<open>version\<close> at 6 and \<open>lapicaddr\<close> at 36; \<open>apicid\<close> and \<open>apicno\<close> are at 1.
\<close>

subsection \<open>The tables\<close>

abbreviation NCPU :: nat where "NCPU \<equiv> 8"
abbreviation MPPROC :: u8 where "MPPROC \<equiv> 0x00"
abbreviation MPBUS :: u8 where "MPBUS \<equiv> 0x01"
abbreviation MPIOAPIC :: u8 where "MPIOAPIC \<equiv> 0x02"
abbreviation MPIOINTR :: u8 where "MPIOINTR \<equiv> 0x03"
abbreviation MPLINTR :: u8 where "MPLINTR \<equiv> 0x04"

definition load16 :: "memory \<Rightarrow> u32 \<Rightarrow> u16" where
  "load16 m a = ucast (m a) OR push_bit 8 (ucast (m (a + 1)))"

fun mp_sum :: "memory \<Rightarrow> u32 \<Rightarrow> nat \<Rightarrow> u32 \<Rightarrow> u8" where
  "mp_sum m addr 0 acc = ucast acc"
| "mp_sum m addr (Suc n) acc = mp_sum m (addr + 1) n (acc + ucast (m addr))"

text \<open>\<open>memcmp(p, sig, 4) == 0\<close> for a string literal.\<close>

definition has_sig :: "memory \<Rightarrow> u32 \<Rightarrow> string \<Rightarrow> bool" where
  "has_sig m p sig \<longleftrightarrow> map (\<lambda>i. m (p + of_nat i)) [0..<4] = map of_char sig"

text \<open>
  The addresses \<open>p\<close> of the loop; \<open>addr + len\<close> does not wrap around for the three areas that
  \<open>mpsearch\<close> passes. The null pointer is \<open>None\<close>.
\<close>

definition mpsearch1 :: "memory \<Rightarrow> u32 \<Rightarrow> nat \<Rightarrow> u32 option" where
  "mpsearch1 m a len =
     (let addr = P2V a in
      find (\<lambda>p. has_sig m p ''_MP_'' \<and> mp_sum m p 16 0 = 0) (map (\<lambda>i. addr + of_nat (16 * i)) [0..<(len + 15) div 16]))"

definition mpsearch :: "memory \<Rightarrow> u32 option" where
  "mpsearch m =
     (let bda = P2V 0x400;
          p = push_bit 4 (push_bit 8 (ucast (m (bda + 0x0F))) OR ucast (m (bda + 0x0E)));
          r = (if p \<noteq> 0 then mpsearch1 m p 1024
               else
                 let p = (push_bit 8 (ucast (m (bda + 0x14))) OR ucast (m (bda + 0x13))) * 1024 in
                 mpsearch1 m (p - 1024) 1024) in
      if r \<noteq> None then r else mpsearch1 m 0xF0000 0x10000)"

definition mpconfig :: "memory \<Rightarrow> (u32 \<times> u32) option" where
  "mpconfig m =
     (case mpsearch m of None \<Rightarrow> None
      | Some mp \<Rightarrow>
        if load32 m (mp + 4) = 0 then None
        else
          let conf = P2V (load32 m (mp + 4)) in
          if \<not> has_sig m conf ''PCMP'' then None
          else if m (conf + 6) \<noteq> 1 \<and> m (conf + 6) \<noteq> 4 then None
          else if mp_sum m conf (unat (load16 m (conf + 4))) 0 \<noteq> 0 then None
          else Some (mp, conf))"

text \<open>
  The loop over the entries. In the \<open>default\<close> case, \<open>break\<close> leaves the \<open>switch\<close> only, and \<open>p\<close> has
  not been advanced.
\<close>

partial_function (option) mpinit_loop :: "u32 \<Rightarrow> u32 \<Rightarrow> ('hw, 'x) kdev_scheme \<Rightarrow> ('hw, 'x) kdev_scheme option" where
  "mpinit_loop e p s =
     (if \<not> p < e then Some s
      else if mem s p = MPPROC then
        mpinit_loop e (p + 20)
          (if ncpu s < NCPU then s\<lparr>apicid := (apicid s)(ncpu s := mem s (p + 1)), ncpu := ncpu s + 1\<rparr> else s)
      else if mem s p = MPIOAPIC then mpinit_loop e (p + 8) (s\<lparr>ioapicid := mem s (p + 1)\<rparr>)
      else if mem s p = MPBUS \<or> mem s p = MPIOINTR \<or> mem s p = MPLINTR then mpinit_loop e (p + 8) s
      else mpinit_loop e p (s\<lparr>ismp := False\<rparr>))"

definition mpinit :: "'hw io \<Rightarrow> ('hw, 'x) kdev_scheme \<Rightarrow> ('hw, 'x) kdev_scheme option" where
  "mpinit io s =
     (case mpconfig (mem s) of None \<Rightarrow> Some s
      | Some (mp, conf) \<Rightarrow>
        let s = s\<lparr>ismp := True, lapic := load32 (mem s) (conf + 36)\<rparr> in
        map_option (\<lambda>s.
          if \<not> ismp s then s\<lparr>ncpu := 1, lapic := 0, ioapicid := 0\<rparr>
          else if mem s (mp + 12) \<noteq> 0 then
            let h = outb io 0x22 0x70 (hw s); (v, h) = inb io 0x23 h in
            s\<lparr>hw := outb io 0x23 (v OR 1) h\<rparr>
          else s)
          (mpinit_loop (conf + ucast (load16 (mem s) (conf + 4))) (conf + 44) s))"

subsection \<open>The entries of a table\<close>

definition entry_size :: "u8 \<Rightarrow> u32" where
  "entry_size k = (if k = MPPROC then 20 else 8)"

text \<open>The entries from \<open>p\<close> to \<open>q\<close>, by their types, all of the known ones.\<close>

fun mp_entries :: "memory \<Rightarrow> u32 \<Rightarrow> u8 list \<Rightarrow> u32 \<Rightarrow> bool" where
  "mp_entries m p [] q \<longleftrightarrow> p = q"
| "mp_entries m p (k # ks) q \<longleftrightarrow> p < q \<and> m p = k \<and> k \<le> MPLINTR \<and> mp_entries m (p + entry_size k) ks q"

fun mp_apicids :: "memory \<Rightarrow> u32 \<Rightarrow> u8 list \<Rightarrow> u8 list" where
  "mp_apicids m p [] = []"
| "mp_apicids m p (k # ks) = (if k = MPPROC then [m (p + 1)] else []) @ mp_apicids m (p + entry_size k) ks"

text \<open>The table of processors after more of them were found.\<close>

definition add_cpus :: "u8 list \<Rightarrow> nat \<times> (nat \<Rightarrow> u8) \<Rightarrow> nat \<times> (nat \<Rightarrow> u8)" where
  "add_cpus ids c = fold (\<lambda>a (n, f). if n < NCPU then (n + 1, f(n := a)) else (n, f)) ids c"

lemma small_types: "(k :: u8) \<le> MPLINTR \<longleftrightarrow> k = MPPROC \<or> k = MPBUS \<or> k = MPIOAPIC \<or> k = MPIOINTR \<or> k = MPLINTR"
proof
  assume "k \<le> MPLINTR"
  then have "unat k < 5" by (simp add: word_le_nat_alt)
  then have "unat k = 0 \<or> unat k = 1 \<or> unat k = 2 \<or> unat k = 3 \<or> unat k = 4" by linarith
  then show "k = MPPROC \<or> k = MPBUS \<or> k = MPIOAPIC \<or> k = MPIOINTR \<or> k = MPLINTR"
    by (auto simp: word_unat_eq_iff)
qed auto

lemma mpinit_loop_entries:
  assumes "mp_entries (mem s) p ks q" "q \<le> e"
  shows "\<exists>t. mpinit_loop e p s = mpinit_loop e q t \<and> mem t = mem s \<and> ismp t = ismp s \<and> lapic t = lapic s \<and> hw t = hw s
    \<and> (ncpu t, apicid t) = add_cpus (mp_apicids (mem s) p ks) (ncpu s, apicid s)"
  using assms
proof (induction ks arbitrary: p s)
  case Nil
  then show ?case by (auto simp: add_cpus_def)
next
  case (Cons k ks)
  have p: "p < e" "mem s p = k" using Cons.prems by auto
  let ?t = "if k = MPPROC then if ncpu s < NCPU then s\<lparr>apicid := (apicid s)(ncpu s := mem s (p + 1)), ncpu := ncpu s + 1\<rparr> else s
    else if k = MPIOAPIC then s\<lparr>ioapicid := mem s (p + 1)\<rparr> else s"
  have "mpinit_loop e p s = mpinit_loop e (p + entry_size k) ?t"
    unfolding mpinit_loop.simps [of e p s] using Cons.prems p by (auto simp: small_types entry_size_def)
  moreover have "mem ?t = mem s" by simp
  ultimately show ?case
    using Cons.IH [of ?t "p + entry_size k"] Cons.prems by (auto simp: add_cpus_def)
qed

text \<open>An entry of an unknown type is looked at again and again.\<close>

lemma mpinit_loop_unknown:
  assumes "p < e" "mem s p > MPLINTR"
  shows "mpinit_loop e p s = None"
proof (rule ccontr)
  assume "mpinit_loop e p s \<noteq> None"
  then obtain t where "mpinit_loop e p s = Some t" by auto
  then have "\<not> (p < e \<and> mem s p > MPLINTR)"
  proof (rule mpinit_loop.raw_induct [where P = "\<lambda>e p s t. \<not> (p < e \<and> mem s p > MPLINTR)", rotated])
    fix f e p t and s :: "('a, 'b) kdev_scheme"
    assume IH: "\<And>e p s t. f e p s = Some t \<Longrightarrow> \<not> (p < e \<and> mem s p > MPLINTR)"
      and body: "(if \<not> p < e then Some s
        else if mem s p = MPPROC then
          f e (p + 20) (if ncpu s < NCPU then s\<lparr>apicid := (apicid s)(ncpu s := mem s (p + 1)), ncpu := ncpu s + 1\<rparr> else s)
        else if mem s p = MPIOAPIC then f e (p + 8) (s\<lparr>ioapicid := mem s (p + 1)\<rparr>)
        else if mem s p = MPBUS \<or> mem s p = MPIOINTR \<or> mem s p = MPLINTR then f e (p + 8) s
        else f e p (s\<lparr>ismp := False\<rparr>)) = Some t"
    show "\<not> (p < e \<and> mem s p > MPLINTR)"
      using body IH [of e p "s\<lparr>ismp := False\<rparr>" t] by (auto split: if_splits)
  qed
  then show False using assms by simp
qed

lemma add_cpus_table:
  assumes "n \<le> NCPU"
  shows "fst (add_cpus ids (n, f)) = min NCPU (n + length ids)"
    and "i < n \<Longrightarrow> snd (add_cpus ids (n, f)) i = f i"
    and "n \<le> i \<Longrightarrow> i < NCPU \<Longrightarrow> i < n + length ids \<Longrightarrow> snd (add_cpus ids (n, f)) i = ids ! (i - n)"
  using assms
proof (induction ids arbitrary: n f)
  case (Cons a ids)
  {
    case 1
    then show ?case using Cons.IH(1) [of "n + 1" "f(n := a)"] Cons.IH(1) [of n f] by (auto simp: add_cpus_def fun_upd_def)
  next
    case 2
    then show ?case using Cons.IH(2) [of "n + 1" "f(n := a)"] Cons.IH(2) [of n f] by (auto simp: add_cpus_def fun_upd_def)
  next
    case 3
    then show ?case
      using Cons.IH(2) [of "n + 1" "f(n := a)"] Cons.IH(3) [of "n + 1" "f(n := a)"]
      by (cases "i = n") (auto simp: add_cpus_def fun_upd_def nth_Cons' Suc_le_eq)
  }
qed (auto simp: add_cpus_def)

subsection \<open>Properties\<close>

text \<open>
  An example of the firmware's tables: the floating pointer structure at the start of the extended
  BIOS data area, and behind it a configuration table with a processor (APIC 7) and an entry of
  type \<open>k\<close>; \<open>c\<close> is the checksum.
\<close>

definition ex_firmware :: "u8 \<Rightarrow> u8 \<Rightarrow> memory" where
  "ex_firmware k c a =
     (case map_of
        [(0x8000040F, 0x9F),
         (0x8009F000, 0x5F), (0x8009F001, 0x4D), (0x8009F002, 0x50), (0x8009F003, 0x5F),
         (0x8009F004, 0x10), (0x8009F005, 0xF0), (0x8009F006, 0x09), (0x8009F008, 1), (0x8009F009, 4), (0x8009F00A, 0x97),
         (0x8009F010, 0x50), (0x8009F011, 0x43), (0x8009F012, 0x4D), (0x8009F013, 0x50),
         (0x8009F014, 0x48), (0x8009F016, 4), (0x8009F017, c), (0x8009F036, 0xE0), (0x8009F037, 0xFE),
         (0x8009F03D, 7), (0x8009F050, k), (0x8009F051, 3)] a of
      None \<Rightarrow> 0 | Some v \<Rightarrow> v)"

definition ex_kdev :: "u8 \<Rightarrow> u8 \<Rightarrow> unit kdev" where
  "ex_kdev k c =
     (kbio.extend
       (ksleep.extend (kproc.extend (ex_kproc None RUNNABLE) (ksleep.fields (\<lambda>_. \<lparr>sl_locked = False, sl_pid = 0\<rparr>)))
         (kbio.fields (\<lambda>_. \<lparr>b_valid = False, b_dirty = False, b_dev = 0, b_blockno = 0, b_refcnt = 0, b_prev = 0,
           b_next = 0, b_data = (\<lambda>_. 0)\<rparr>) (\<lambda>_ _. 0) 0 []))
       (kdev.fields irqmask0 False 0 0 (\<lambda>_. 0) 0 False ()))\<lparr>mem := ex_firmware k c\<rparr>"

definition ex_ports :: "unit io" where
  "ex_ports = \<lparr>inb = (\<lambda>_ h. (0, h)), outb = (\<lambda>_ _ h. h), insl = (\<lambda>_ _ h. (\<lambda>_. 0, h)), outsl = (\<lambda>_ _ _ h. h),
     mmio_read = (\<lambda>_ h. (0, h)), mmio_write = (\<lambda>_ _ h. h)\<rparr>"

lemma ex_kdev_select: "mem (ex_kdev k c) = ex_firmware k c" "ncpu (ex_kdev k c) = 0"
  by (simp_all add: ex_kdev_def kproc.defs ksleep.defs kbio.defs kdev.defs)

lemma ex_mpconfig:
  "mpconfig (ex_firmware 2 0x9A) = Some (0x8009F000, 0x8009F010)"
  "mpconfig (ex_firmware 5 0x97) = Some (0x8009F000, 0x8009F010)"
  by code_simp+

text \<open>
  C20. On a configuration table that passes the checks of \<open>mpconfig\<close> and whose entries all have
  known types, \<open>mpinit\<close> returns, the machine counts as a multiprocessor with the table's local APIC
  address, and \<open>cpus\<close> holds the APIC identifiers of the processor entries in their order, the
  first \<open>NCPU\<close> of them.
\<close>

theorem mpinit_finds_cpus:
  assumes "mpconfig (mem s) = Some (mp, conf)" and "ncpu s = 0"
    and "mp_entries (mem s) (conf + 44) ks (conf + ucast (load16 (mem s) (conf + 4)))"
    and "ids = mp_apicids (mem s) (conf + 44) ks"
  shows "\<exists>t. mpinit io s = Some t \<and> ismp t \<and> lapic t = load32 (mem s) (conf + 36)
    \<and> ncpu t = min NCPU (length ids) \<and> (\<forall>i<ncpu t. apicid t i = ids ! i)"
proof -
  let ?e = "conf + ucast (load16 (mem s) (conf + 4))"
  let ?s = "s\<lparr>ismp := True, lapic := load32 (mem s) (conf + 36)\<rparr>"
  obtain t where t: "mpinit_loop ?e (conf + 44) ?s = mpinit_loop ?e ?e t" "mem t = mem s" "ismp t"
    "lapic t = load32 (mem s) (conf + 36)" "(ncpu t, apicid t) = add_cpus ids (0, apicid s)"
    using mpinit_loop_entries [of ?s "conf + 44" ks ?e ?e] assms by auto
  have "mpinit_loop ?e ?e t = Some t" by (subst mpinit_loop.simps) simp
  moreover have "ncpu t = min NCPU (length ids)" "\<forall>i<ncpu t. apicid t i = ids ! i"
    using add_cpus_table(1,3) [where n = 0 and ids = ids and f = "apicid s"] by (simp_all flip: t(5))
  ultimately show ?thesis
    using t assms(1) by (cases "inb io 0x23 (outb io 0x22 0x70 (hw t))") (auto simp: mpinit_def Let_def)
qed

theorem mpinit_finds_cpus_witness:
  "\<exists>t. mpinit ex_ports (ex_kdev 2 0x9A) = Some t \<and> ncpu t = 1 \<and> apicid t 0 = 7"
proof -
  have e: "mp_entries (ex_firmware 2 0x9A) (0x8009F010 + 44) [0, 2] (0x8009F010 + ucast (load16 (ex_firmware 2 0x9A) (0x8009F010 + 4)))"
    "[7] = mp_apicids (ex_firmware 2 0x9A) (0x8009F010 + 44) [0, 2]"
    by code_simp+
  show ?thesis
    using mpinit_finds_cpus [where s = "ex_kdev 2 0x9A" and io = ex_ports, unfolded ex_kdev_select,
      OF ex_mpconfig(1) refl e] by auto
qed

text \<open>
  C33. \<open>mpinit\<close> does not return on a configuration table with an entry of an unknown type: the
  \<open>break\<close> of its \<open>default\<close> case leaves the \<open>switch\<close> and not the loop, so that the code after the
  loop that falls back to one processor is never reached.
\<close>

theorem mpinit_unknown_entry_hangs:
  assumes "mpconfig (mem s) = Some (mp, conf)" and "mp_entries (mem s) (conf + 44) ks p"
    and "p < conf + ucast (load16 (mem s) (conf + 4))" and "mem s p > MPLINTR"
  shows "mpinit io s = None"
proof -
  let ?e = "conf + ucast (load16 (mem s) (conf + 4))"
  let ?s = "s\<lparr>ismp := True, lapic := load32 (mem s) (conf + 36)\<rparr>"
  obtain t where "mpinit_loop ?e (conf + 44) ?s = mpinit_loop ?e p t" "mem t = mem s"
    using mpinit_loop_entries [of ?s "conf + 44" ks p ?e] assms less_imp_le [OF assms(3)] by auto
  then show ?thesis
    using mpinit_loop_unknown [of p ?e t] assms by (simp add: mpinit_def Let_def)
qed

theorem mpinit_unknown_entry_hangs_witness: "mpinit ex_ports (ex_kdev 5 0x97) = None"
proof -
  have "mp_entries (ex_firmware 5 0x97) (0x8009F010 + 44) [0] 0x8009F050"
    "0x8009F050 < 0x8009F010 + (ucast (load16 (ex_firmware 5 0x97) (0x8009F010 + 4)) :: u32)" "ex_firmware 5 0x97 0x8009F050 > 4"
    by code_simp+
  then show ?thesis
    using mpinit_unknown_entry_hangs [where s = "ex_kdev 5 0x97" and ks = "[0]" and io = ex_ports] ex_mpconfig(2)
    by (simp add: ex_kdev_select)
qed

end
