(* ===== verification/Umalloc_Props.thy ===== *)
theory Umalloc_Props
  imports Umalloc
begin

text \<open>
  The invariant of the allocator of \<open>Umalloc\<close> and its properties: \<open>malloc\<close> takes a block out of
  the free memory and \<open>free\<close> puts it back, adjacent free blocks are always merged, and both end.
\<close>

subsection \<open>The list of free blocks\<close>

definition fin :: "(u32 \<Rightarrow> u32) \<Rightarrow> u32 \<Rightarrow> nat" where
  "fin sz x = unat x + 8 * unat (sz x)"

definition span :: "(u32 \<Rightarrow> u32) \<Rightarrow> u32 \<Rightarrow> nat set" where
  "span sz x = {unat x ..< fin sz x}"

abbreviation lnk :: "(u32 \<Rightarrow> u32) \<Rightarrow> u32 list \<Rightarrow> bool" where
  "lnk nx \<equiv> successively (\<lambda>x y. nx x = y)"

abbreviation apart :: "(u32 \<Rightarrow> u32) \<Rightarrow> u32 list \<Rightarrow> bool" where
  "apart sz \<equiv> successively (\<lambda>x y. fin sz x < unat y)"

text \<open>
  The blocks \<open>xs\<close> form the circular list: in the order of their addresses, with a gap between any
  two of them, below the kernel's part of the address space. The first one is the static header,
  which has no units.
\<close>

definition ring :: "(u32 \<Rightarrow> u32) \<Rightarrow> (u32 \<Rightarrow> u32) \<Rightarrow> u32 list \<Rightarrow> bool" where
  "ring nx sz xs \<longleftrightarrow> xs \<noteq> [] \<and> hd xs \<noteq> 0 \<and> sz (hd xs) = 0 \<and> lnk nx (xs @ [hd xs]) \<and> apart sz xs
     \<and> (\<forall>x\<in>set xs. fin sz x \<le> 2 ^ 31) \<and> (\<forall>x\<in>set (tl xs). sz x \<noteq> 0)"

definition free_bytes :: "(u32 \<Rightarrow> u32) \<Rightarrow> u32 list \<Rightarrow> nat set" where
  "free_bytes sz xs = (\<Union>x\<in>set xs. span sz x)"

lemma fin_ge: "unat x \<le> fin sz x"
  by (simp add: fin_def)

lemma apart_sorted: "apart sz xs \<Longrightarrow> sorted_wrt (<) xs"
proof -
  assume a: "apart sz xs"
  have "successively (<) xs"
    by (rule successively_mono [OF a]) (auto simp: word_less_nat_alt intro: le_less_trans [OF fin_ge])
  then show ?thesis by (simp add: successively_conv_sorted_wrt transp_on_less)
qed

lemma apart_before: "apart sz xs \<Longrightarrow> sorted_wrt (\<lambda>x y. fin sz x < unat y) xs"
  by (subst (asm) successively_conv_sorted_wrt)
    (auto intro!: transpI intro: less_trans le_less_trans [OF fin_ge])

lemma lnk_split: "lnk nx (ys @ p # zs) \<longleftrightarrow> lnk nx (ys @ [p]) \<and> lnk nx (p # zs)"
  by (cases zs) (auto simp: successively_append_iff)

lemma apart_split: "apart sz (ys @ p # zs) \<longleftrightarrow> apart sz (ys @ [p]) \<and> apart sz (p # zs)"
  by (cases zs) (auto simp: successively_append_iff)

lemma lnk_same: "lnk nx (xs @ [e]) \<Longrightarrow> \<forall>x\<in>set xs. nx' x = nx x \<Longrightarrow> lnk nx' (xs @ [e])"
  by (induction xs) (auto simp: successively_Cons hd_append split: if_splits)

lemma apart_same:
  "apart sz (xs @ [e]) \<Longrightarrow> \<forall>x\<in>set xs. sz' x = sz x \<Longrightarrow> apart sz' (xs @ [e])"
  by (induction xs) (auto simp: successively_Cons hd_append fin_def split: if_splits)

lemma unat_fin: "fin sz x < 2 ^ 32 \<Longrightarrow> unat (x + 8 * sz x) = fin sz x"
  by (simp add: fin_def unat_word_ariths mod_simps)

subsection \<open>The place of a block\<close>

definition stops :: "(u32 \<Rightarrow> u32) \<Rightarrow> u32 \<Rightarrow> u32 \<Rightarrow> bool" where
  "stops nx bp p \<longleftrightarrow> bp > p \<and> bp < nx p \<or> p \<ge> nx p \<and> (bp > p \<or> bp < nx p)"

lemma free_find_eq: "free_find nx bp p = (if stops nx bp p then Some p else free_find nx bp (nx p))"
  by (subst free_find.simps) (auto simp: stops_def)

lemma free_find_walk:
  "lnk nx (l @ [p]) \<Longrightarrow> \<forall>x\<in>set l. \<not> stops nx bp x \<Longrightarrow> stops nx bp p \<Longrightarrow> free_find nx bp (hd (l @ [p])) = Some p"
proof (induction l)
  case Nil
  then show ?case by (subst free_find_eq) simp
next
  case (Cons x l)
  then have "nx x = hd (l @ [p])" by (cases l) auto
  then show ?case using Cons by (subst free_find_eq) (cases l; auto)
qed

lemma ring_next:
  assumes "ring nx sz (us @ x # vs)"
  shows "nx x = (if vs = [] then hd (us @ [x]) else hd vs)"
  using assms unfolding ring_def
  by (cases us; cases vs) (auto simp: successively_append_iff successively_Cons)

lemma stops_only:
  assumes r: "ring nx sz (ys @ p # zs)" and bp: "p < bp" "\<forall>z\<in>set zs. bp < z"
  shows "stops nx bp p" "x \<in> set ys \<or> x \<in> set zs \<Longrightarrow> \<not> stops nx bp x"
proof -
  have s: "sorted_wrt (<) (ys @ p # zs)" using r apart_sorted [of sz "ys @ p # zs"] by (auto simp: ring_def)
  have b: "hd (ys @ [p]) \<le> p" using s by (cases ys) (auto simp: sorted_wrt_append)
  show "stops nx bp p"
    using ring_next [OF r] bp b by (cases zs) (auto simp: stops_def)
  assume "x \<in> set ys \<or> x \<in> set zs"
  then show "\<not> stops nx bp x"
  proof
    assume "x \<in> set ys"
    then obtain us vs where ys: "ys = us @ x # vs" by (auto simp: in_set_conv_decomp)
    then have "nx x = hd (vs @ p # zs)" using ring_next [of nx sz us x "vs @ p # zs"] r by simp
    then have "x < nx x" "nx x \<le> p" using s ys by (cases vs; auto simp: sorted_wrt_append)+
    then show ?thesis using bp by (auto simp: stops_def)
  next
    assume x: "x \<in> set zs"
    then obtain us vs where zs: "zs = us @ x # vs" by (auto simp: in_set_conv_decomp)
    then have n: "nx x = (if vs = [] then hd (ys @ [p]) else hd vs)"
      using ring_next [of nx sz "ys @ p # us" x vs] r by (cases ys) auto
    have "bp < x" using bp(2) x by blast
    moreover have "x < nx x" if "vs \<noteq> []" using that n s zs by (cases vs) (auto simp: sorted_wrt_append)
    moreover have "\<not> bp < nx x" if "vs = []" using that n b bp(1) by auto
    ultimately show ?thesis by (cases "vs = []") (auto simp: stops_def)
  qed
qed

lemma free_find_ok:
  assumes r: "ring nx sz (ys @ p # zs)" and bp: "p < bp" "\<forall>z\<in>set zs. bp < z" and st: "f \<in> set (ys @ p # zs)"
  shows "free_find nx bp f = Some p"
proof -
  have l: "lnk nx (ys @ p # zs @ [hd (ys @ [p])])" using r by (cases ys) (auto simp: ring_def)
  then have ly: "lnk nx (ys @ [p])" and lz: "lnk nx (p # zs @ [hd (ys @ [p])])"
    using lnk_split [of nx ys p "zs @ [hd (ys @ [p])]"] by blast+
  note stop = stops_only [OF r bp]
  consider (before) us vs where "ys @ [p] = us @ f # vs" | (after) us vs where "zs = us @ f # vs"
    using st by (metis Un_iff append.assoc append_Cons append_Nil in_set_conv_decomp set_append)
  then show ?thesis
  proof cases
    case before
    let ?l = "butlast (f # vs)"
    have fv: "f # vs = ?l @ [p]"
      using before by (metis append_butlast_last_id last_appendR last_snoc list.distinct(1))
    then have "ys @ [p] = us @ ?l @ [p]" using before by metis
    moreover have "f = hd (?l @ [p])" using fv by (metis list.sel(1))
    ultimately obtain l where l: "ys @ [p] = us @ l @ [p]" "f = hd (l @ [p])" by blast
    then have "lnk nx (l @ [p])" using ly by (simp add: successively_append_iff)
    then show ?thesis using free_find_walk [of nx l p bp] stop l by auto
  next
    case after
    have "lnk nx (f # vs @ [hd (ys @ [p])])"
      using lz after lnk_split [of nx "p # us" f "vs @ [hd (ys @ [p])]"] by simp
    then have "lnk nx ((f # vs) @ ys @ [p])"
      using ly lnk_split [of nx "f # vs" "hd (ys @ [p])" "tl (ys @ [p])"] by (cases ys) auto
    then show ?thesis using free_find_walk [of nx "(f # vs) @ ys" p bp] stop after by auto
  qed
qed

subsection \<open>Giving a block back\<close>

lemma ptr_size_simps [simp]:
  "ptr_of (set_ptr a v s) = (ptr_of s)(a := v)" "size_of (set_ptr a v s) = size_of s"
  "ptr_of (set_size a v s) = ptr_of s" "size_of (set_size a v s) = (size_of s)(a := v)"
  "ptr_of (s\<lparr>freep := f\<rparr>) = ptr_of s" "size_of (s\<lparr>freep := f\<rparr>) = size_of s"
  "ptr_of (s\<lparr>os := k\<rparr>) = ptr_of s" "size_of (s\<lparr>os := k\<rparr>) = size_of s"
  "freep (set_ptr a v s) = freep s" "freep (set_size a v s) = freep s"
  "base (set_ptr a v s) = base s" "base (set_size a v s) = base s"
  "os (set_ptr a v s) = os s" "os (set_size a v s) = os s"
  by (auto simp: set_ptr_def set_size_def ptr_of_def size_of_def)

text \<open>The allocator is in order, with the free blocks \<open>xs\<close> (the static header comes first).\<close>

definition heap_ok :: "('k, 'x) uheap_scheme \<Rightarrow> u32 list \<Rightarrow> bool" where
  "heap_ok s xs \<longleftrightarrow> ring (ptr_of s) (size_of s) xs \<and> hd xs = base s \<and> freep s \<in> set xs"

text \<open>
  The block \<open>bp\<close> fits between the free blocks \<open>p\<close> and the first one of \<open>zs\<close>; the lists and the
  functions that result when it is merged with its neighbours.
\<close>

definition fits_between :: "(u32 \<Rightarrow> u32) \<Rightarrow> u32 \<Rightarrow> u32 \<Rightarrow> u32 list \<Rightarrow> bool" where
  "fits_between sz bp p zs \<longleftrightarrow> p < bp \<and> fin sz p \<le> unat bp \<and> sz bp \<noteq> 0 \<and> fin sz bp \<le> 2 ^ 31
     \<and> (zs \<noteq> [] \<longrightarrow> fin sz bp \<le> unat (hd zs))"

definition merges_up :: "(u32 \<Rightarrow> u32) \<Rightarrow> u32 \<Rightarrow> u32 list \<Rightarrow> bool" where
  "merges_up sz bp zs \<longleftrightarrow> zs \<noteq> [] \<and> fin sz bp = unat (hd zs)"

definition merges_down :: "(u32 \<Rightarrow> u32) \<Rightarrow> u32 \<Rightarrow> u32 \<Rightarrow> bool" where
  "merges_down sz bp p \<longleftrightarrow> fin sz p = unat bp"

definition rest_of :: "(u32 \<Rightarrow> u32) \<Rightarrow> u32 \<Rightarrow> u32 list \<Rightarrow> u32 list" where
  "rest_of sz bp zs = (if merges_up sz bp zs then tl zs else zs)"

definition new_size :: "(u32 \<Rightarrow> u32) \<Rightarrow> u32 \<Rightarrow> u32 list \<Rightarrow> u32" where
  "new_size sz bp zs = sz bp + (if merges_up sz bp zs then sz (hd zs) else 0)"

definition merged :: "(u32 \<Rightarrow> u32) \<Rightarrow> u32 \<Rightarrow> u32 list \<Rightarrow> u32 \<Rightarrow> u32 list \<Rightarrow> u32 list" where
  "merged sz bp ys p zs = ys @ p # (if merges_down sz bp p then [] else [bp]) @ rest_of sz bp zs"

definition merged_size :: "(u32 \<Rightarrow> u32) \<Rightarrow> u32 \<Rightarrow> u32 \<Rightarrow> u32 list \<Rightarrow> u32 \<Rightarrow> u32" where
  "merged_size sz bp p zs =
     (let f = sz(bp := new_size sz bp zs) in if merges_down sz bp p then f(p := sz p + new_size sz bp zs) else f)"

definition merged_ptr :: "(u32 \<Rightarrow> u32) \<Rightarrow> (u32 \<Rightarrow> u32) \<Rightarrow> u32 \<Rightarrow> u32 \<Rightarrow> u32 list \<Rightarrow> u32 \<Rightarrow> u32 \<Rightarrow> u32" where
  "merged_ptr nx sz bp p zs b =
     (let e = hd (rest_of sz bp zs @ [b]) in
      (nx(bp := e))(p := if merges_down sz bp p then e else bp))"

lemma ring_head_low:
  assumes "ring nx sz (ys @ p # zs)"
  shows "hd (ys @ [p]) \<le> p"
  using assms apart_sorted [of sz "ys @ p # zs"] by (cases ys) (auto simp: ring_def)

lemma between_later:
  assumes "ring nx sz (ys @ p # zs)" "fits_between sz bp p zs" "z \<in> set zs"
  shows "bp < z"
proof -
  have "sorted_wrt (<) zs" using assms(1) apart_sorted [of sz "ys @ p # zs"] by (auto simp: ring_def sorted_wrt_append)
  then have "hd zs \<le> z" using assms(3) by (cases zs) auto
  moreover have "unat bp < fin sz bp" using assms(2) by (auto simp: fits_between_def fin_def unat_gt_0)
  ultimately show ?thesis using assms(2,3) by (auto simp: fits_between_def word_less_nat_alt word_le_nat_alt)
qed

lemma free_eq:
  assumes h: "heap_ok s (ys @ p # zs)" and b: "fits_between (size_of s) bp p zs"
  shows "\<exists>t. free (bp + 8) s = Some t \<and> freep t = p \<and> base t = base s \<and> os t = os s
    \<and> size_of t = merged_size (size_of s) bp p zs \<and> ptr_of t = merged_ptr (ptr_of s) (size_of s) bp p zs (base s)"
proof -
  let ?nx = "ptr_of s" and ?sz = "size_of s"
  have r: "ring ?nx ?sz (ys @ p # zs)" and hb: "hd (ys @ [p]) = base s" and f: "freep s \<in> set (ys @ p # zs)"
    using h by (cases ys; auto simp: heap_ok_def)+
  have pb: "p < bp" using b by (simp add: fits_between_def)
  have find: "free_find ?nx bp (freep s) = Some p"
    using free_find_ok [OF r pb _ f] between_later [OF r b] by blast
  have n: "?nx p = (if zs = [] then base s else hd zs)" using ring_next [OF r] hb by simp
  have fb: "unat (bp + 8 * ?sz bp) = fin ?sz bp" "unat (p + 8 * ?sz p) = fin ?sz p"
    using b r by (auto intro!: unat_fin simp: fits_between_def ring_def)
  have "base s < bp" using ring_head_low [OF r] hb pb by simp
  then have "fin ?sz bp \<noteq> unat (base s)"
    using fin_ge [of bp ?sz] by (auto simp: word_less_nat_alt)
  then have up: "bp + 8 * ?sz bp = ?nx p \<longleftrightarrow> merges_up ?sz bp zs"
    using fb(1) n by (auto simp: merges_up_def word_unat_eq_iff)
  have down: "p + 8 * ?sz p = bp \<longleftrightarrow> merges_down ?sz bp p"
    using fb(2) by (auto simp: merges_down_def word_unat_eq_iff)
  have z: "?nx (hd zs) = hd (tl zs @ [base s])" if "zs \<noteq> []"
    using that ring_next [of ?nx ?sz "ys @ [p]" "hd zs" "tl zs"] r hb by (cases zs; cases ys) auto
  have ne: "p \<noteq> bp" "zs \<noteq> [] \<Longrightarrow> hd zs \<noteq> bp" using pb between_later [OF r b, of "hd zs"] by auto
  show ?thesis
    using find up down n z ne
    by (cases "merges_up ?sz bp zs"; cases "merges_down ?sz bp p")
      (auto simp: free_def Let_def merged_size_def merged_ptr_def new_size_def rest_of_def merges_up_def fun_eq_iff)
qed

text \<open>Where the merged block ends.\<close>

definition new_fin :: "(u32 \<Rightarrow> u32) \<Rightarrow> u32 \<Rightarrow> u32 list \<Rightarrow> nat" where
  "new_fin sz bp zs = (if merges_up sz bp zs then fin sz (hd zs) else fin sz bp)"

lemma unat_sum:
  fixes a b :: u32
  assumes "8 * (unat a + unat b) \<le> 2 ^ 31"
  shows "unat (a + b) = unat a + unat b"
  using assms by (intro unat_add_lem [THEN iffD1]) simp

lemma ring_fin: "ring nx sz xs \<Longrightarrow> x \<in> set xs \<Longrightarrow> fin sz x \<le> 2 ^ 31"
  by (simp add: ring_def)

lemma new_fin_eq:
  assumes r: "ring nx sz (ys @ p # zs)" and b: "fits_between sz bp p zs"
  shows "unat bp + 8 * unat (new_size sz bp zs) = new_fin sz bp zs" "new_fin sz bp zs \<le> 2 ^ 31"
    "new_size sz bp zs \<noteq> 0"
proof -
  have l: "new_fin sz bp zs \<le> 2 ^ 31 \<and> unat bp + 8 * unat (new_size sz bp zs) = new_fin sz bp zs"
  proof (cases "merges_up sz bp zs")
    case True
    then have z: "zs \<noteq> []" "fin sz bp = unat (hd zs)" by (auto simp: merges_up_def)
    have le: "fin sz (hd zs) \<le> 2 ^ 31" using ring_fin [OF r] z(1) by simp
    then have "unat (sz bp + sz (hd zs)) = unat (sz bp) + unat (sz (hd zs))"
      using z(2) by (intro unat_sum) (simp add: fin_def)
    then show ?thesis
      using True z(2) le by (simp add: new_size_def new_fin_def fin_def)
  next
    case False
    then show ?thesis
      using b by (simp add: new_size_def new_fin_def fits_between_def fin_def)
  qed
  have "unat bp < fin sz bp" using b by (auto simp: fits_between_def fin_def unat_gt_0)
  moreover have "fin sz bp \<le> new_fin sz bp zs"
    using fin_ge [of "hd zs" sz] by (auto simp: new_fin_def merges_up_def)
  ultimately have "0 < unat (new_size sz bp zs)" using l by linarith
  then show "unat bp + 8 * unat (new_size sz bp zs) = new_fin sz bp zs" "new_fin sz bp zs \<le> 2 ^ 31"
    "new_size sz bp zs \<noteq> 0"
    using l by auto
qed

text \<open>The ends of the blocks of the new list.\<close>

lemma merged_fin:
  assumes r: "ring nx sz (ys @ p # zs)" and b: "fits_between sz bp p zs"
  shows "fin (merged_size sz bp p zs) p = (if merges_down sz bp p then new_fin sz bp zs else fin sz p)"
    and "\<not> merges_down sz bp p \<Longrightarrow> fin (merged_size sz bp p zs) bp = new_fin sz bp zs"
    and "x \<noteq> p \<Longrightarrow> x \<noteq> bp \<Longrightarrow> merged_size sz bp p zs x = sz x"
proof -
  note nf = new_fin_eq [OF r b]
  have pb: "p \<noteq> bp" using b by (auto simp: fits_between_def)
  have "unat (sz p + new_size sz bp zs) = unat (sz p) + unat (new_size sz bp zs)" if "merges_down sz bp p"
    using that nf(1,2) by (intro unat_sum) (simp add: merges_down_def fin_def)
  then show "fin (merged_size sz bp p zs) p = (if merges_down sz bp p then new_fin sz bp zs else fin sz p)"
    using nf(1) pb by (auto simp: merged_size_def Let_def fin_def merges_down_def)
  show "\<not> merges_down sz bp p \<Longrightarrow> fin (merged_size sz bp p zs) bp = new_fin sz bp zs"
    using nf(1) by (simp add: merged_size_def Let_def fin_def)
  show "x \<noteq> p \<Longrightarrow> x \<noteq> bp \<Longrightarrow> merged_size sz bp p zs x = sz x"
    by (simp add: merged_size_def Let_def)
qed

lemma rest_of_apart:
  assumes r: "ring nx sz (ys @ p # zs)" and b: "fits_between sz bp p zs"
  shows "apart sz (rest_of sz bp zs)" "rest_of sz bp zs \<noteq> [] \<Longrightarrow> new_fin sz bp zs < unat (hd (rest_of sz bp zs))"
    "set (rest_of sz bp zs) \<subseteq> set zs" "lnk nx (rest_of sz bp zs @ [hd (ys @ [p])])"
proof -
  have a: "apart sz zs" using r by (auto simp: ring_def successively_append_iff successively_Cons)
  have l: "lnk nx (zs @ [hd (ys @ [p])])"
    using r by (cases ys) (auto simp: ring_def successively_append_iff successively_Cons split: if_splits)
  show "apart sz (rest_of sz bp zs)" "set (rest_of sz bp zs) \<subseteq> set zs" "lnk nx (rest_of sz bp zs @ [hd (ys @ [p])])"
    using a l by (cases zs; auto simp: rest_of_def merges_up_def successively_Cons split: if_splits)+
  show "new_fin sz bp zs < unat (hd (rest_of sz bp zs))" if "rest_of sz bp zs \<noteq> []"
    using that a b by (cases zs)
      (auto simp: rest_of_def new_fin_def merges_up_def successively_Cons fits_between_def split: if_splits)
qed

lemma ring_outside:
  assumes r: "ring nx sz (ys @ p # zs)" and b: "fits_between sz bp p zs"
  shows "p \<notin> set ys" "bp \<notin> set ys" "p \<notin> set zs" "bp \<notin> set zs" "p \<noteq> bp"
proof -
  have s: "sorted_wrt (<) (ys @ p # zs)" using r apart_sorted [of sz "ys @ p # zs"] by (auto simp: ring_def)
  have pb: "p < bp" using b by (simp add: fits_between_def)
  show "p \<notin> set ys" "p \<notin> set zs" using s by (auto simp: sorted_wrt_append)
  show "bp \<notin> set ys" using s pb by (auto simp: sorted_wrt_append dest!: bspec)
  show "bp \<notin> set zs" "p \<noteq> bp" using between_later [OF r b] pb by auto
qed

lemma merged_lnk:
  assumes r: "ring nx sz (ys @ p # zs)" and b: "fits_between sz bp p zs"
  shows "lnk (merged_ptr nx sz bp p zs (hd (ys @ [p]))) (merged sz bp ys p zs @ [hd (ys @ [p])])"
proof -
  let ?nx = "merged_ptr nx sz bp p zs (hd (ys @ [p]))" and ?r = "rest_of sz bp zs" and ?b = "hd (ys @ [p])"
  note o = ring_outside [OF r b] and rs = rest_of_apart [OF r b]
  have "lnk nx (ys @ [p])"
    using r lnk_split [of nx ys p "zs @ [hd (ys @ p # zs)]"] by (simp add: ring_def)
  then have l1: "lnk ?nx (ys @ [p])"
    by (rule lnk_same) (use o in \<open>auto simp: merged_ptr_def Let_def\<close>)
  from rs(4) have l2: "lnk ?nx (?r @ [?b])"
    by (rule lnk_same) (use rs(3) o in \<open>auto simp: merged_ptr_def Let_def\<close>)
  have "?nx p = (if merges_down sz bp p then hd (?r @ [?b]) else bp)" "?nx bp = hd (?r @ [?b])"
    using o(5) by (simp_all add: merged_ptr_def Let_def)
  then have "lnk ?nx (p # (if merges_down sz bp p then [] else [bp]) @ ?r @ [?b])"
    using l2 by (simp add: successively_Cons)
  then have "lnk ?nx (ys @ p # (if merges_down sz bp p then [] else [bp]) @ ?r @ [?b])"
    using l1 lnk_split by blast
  then show ?thesis by (simp add: merged_def)
qed

lemma merged_apart:
  assumes r: "ring nx sz (ys @ p # zs)" and b: "fits_between sz bp p zs"
  shows "apart (merged_size sz bp p zs) (merged sz bp ys p zs)"
proof -
  let ?sz = "merged_size sz bp p zs" and ?r = "rest_of sz bp zs"
  note o = ring_outside [OF r b] and rs = rest_of_apart [OF r b] and mf = merged_fin [OF r b]
  have same: "fin ?sz x = fin sz x" if "x \<noteq> p" "x \<noteq> bp" for x using mf(3) [OF that] by (simp add: fin_def)
  have "apart sz (ys @ [p])" using r apart_split [of sz ys p zs] by (simp add: ring_def)
  then have a1: "apart ?sz (ys @ [p])"
    by (rule apart_same) (metis mf(3) o(1,2))
  have a2: "apart ?sz ?r"
    using rs(1)
  proof (rule successively_cong [THEN iffD1, rotated 2])
    show "fin sz x < unat y \<longleftrightarrow> fin ?sz x < unat y" if "x \<in> set ?r" for x y
      using same [of x] that rs(3) o by (metis subsetD)
  qed simp
  have "apart ?sz (p # (if merges_down sz bp p then [] else [bp]) @ ?r)"
  proof (cases "merges_down sz bp p")
    case True
    then show ?thesis using a2 rs(2) mf(1) by (auto simp: successively_Cons)
  next
    case False
    then have "fin sz p < unat bp" using b by (auto simp: merges_down_def fits_between_def)
    then show ?thesis using False a2 rs(2) mf(1,2) by (auto simp: successively_Cons)
  qed
  then show ?thesis using a1 apart_split unfolding merged_def by blast
qed

lemma merged_ring:
  assumes r: "ring nx sz (ys @ p # zs)" and b: "fits_between sz bp p zs"
  shows "ring (merged_ptr nx sz bp p zs (hd (ys @ [p]))) (merged_size sz bp p zs) (merged sz bp ys p zs)"
proof -
  let ?sz = "merged_size sz bp p zs"
  note o = ring_outside [OF r b] and rs = rest_of_apart [OF r b] and mf = merged_fin [OF r b]
    and nf = new_fin_eq [OF r b]
  have hd: "hd (merged sz bp ys p zs) = hd (ys @ [p])" by (cases ys) (auto simp: merged_def)
  have h0: "hd (ys @ [p]) \<noteq> 0" "sz (hd (ys @ [p])) = 0" using r by (cases ys; auto simp: ring_def)+
  have nd: "\<not> merges_down sz bp p" if "ys = []"
    using that h0 o(5) by (simp add: merges_down_def fin_def word_unat_eq_iff)
  have hs: "?sz (hd (ys @ [p])) = 0"
  proof (cases ys)
    case Nil
    then show ?thesis using nd h0(2) o(5) by (simp add: merged_size_def Let_def)
  next
    case (Cons y ys')
    then show ?thesis using mf(3) [of y] o h0(2) by auto
  qed
  have "fin ?sz x \<le> 2 ^ 31" if "x \<in> set (merged sz bp ys p zs)" for x
  proof (cases "x = p \<or> x = bp")
    case True
    then show ?thesis
      using that o mf(1,2) nf(2) ring_fin [OF r, of p] by (auto simp: merged_def split: if_splits dest!: subsetD [OF rs(3)])
  next
    case False
    then have "x \<in> set (ys @ p # zs)" using that rs(3) by (auto simp: merged_def split: if_splits)
    then show ?thesis using False mf(3) [of x] ring_fin [OF r, of x] by (simp add: fin_def)
  qed
  moreover have "?sz x \<noteq> 0" if "x \<in> set (tl (merged sz bp ys p zs))" for x
  proof (cases "x = p \<or> x = bp")
    case True
    then have "x = bp \<and> \<not> merges_down sz bp p \<or> x = p \<and> ys \<noteq> []"
      using that o by (cases ys) (auto simp: merged_def split: if_splits dest!: subsetD [OF rs(3)])
    moreover have "sz p \<noteq> 0" if "ys \<noteq> []" using r that by (cases ys) (auto simp: ring_def)
    moreover have "unat (?sz p) \<ge> unat (sz p)" using mf(1) nf(1) b
      by (auto simp: fin_def fits_between_def merges_down_def split: if_splits)
    ultimately show ?thesis using nf(3) o(5)
      by (auto simp: merged_size_def Let_def unat_eq_zero split: if_splits)
  next
    case False
    then have "x \<in> set (tl (ys @ p # zs))"
      using that rs(3) by (cases ys) (auto simp: merged_def split: if_splits)
    then show ?thesis using False mf(3) [of x] r by (simp add: ring_def)
  qed
  ultimately show ?thesis
    using merged_lnk [OF r b] merged_apart [OF r b] hd hs h0(1) unfolding ring_def by (auto simp: merged_def)
qed

lemma merged_bytes:
  assumes r: "ring nx sz (ys @ p # zs)" and b: "fits_between sz bp p zs"
  shows "free_bytes (merged_size sz bp p zs) (merged sz bp ys p zs) = free_bytes sz (ys @ p # zs) \<union> span sz bp"
proof -
  let ?sz = "merged_size sz bp p zs" and ?r = "rest_of sz bp zs"
  note o = ring_outside [OF r b] and rs = rest_of_apart [OF r b] and mf = merged_fin [OF r b]
  have same: "span ?sz x = span sz x" if "x \<in> set ys \<union> set ?r" for x
  proof -
    have "x \<noteq> p" "x \<noteq> bp" using that o rs(3) by auto
    then show ?thesis using mf(3) by (simp add: span_def fin_def)
  qed
  have le: "fin sz p \<le> unat bp" "unat bp \<le> fin sz bp" using b fin_ge by (auto simp: fits_between_def)
  have up: "{unat bp ..< new_fin sz bp zs} \<union> (\<Union>x\<in>set ?r. span sz x) = span sz bp \<union> (\<Union>x\<in>set zs. span sz x)"
    using le(2) fin_ge [of "hd zs" sz]
    by (cases zs) (auto simp: new_fin_def rest_of_def merges_up_def span_def)
  have down: "(\<Union>x\<in>set (p # (if merges_down sz bp p then [] else [bp])). span ?sz x)
      = span sz p \<union> {unat bp ..< new_fin sz bp zs}"
    using le fin_ge [of p sz] new_fin_eq(1) [OF r b] mf(1,2) by (auto simp: span_def merges_down_def)
  have "free_bytes ?sz (merged sz bp ys p zs) = (\<Union>x\<in>set ys. span ?sz x)
      \<union> (\<Union>x\<in>set (p # (if merges_down sz bp p then [] else [bp])). span ?sz x) \<union> (\<Union>x\<in>set ?r. span ?sz x)"
    by (auto simp: free_bytes_def merged_def)
  also have "\<dots> = (\<Union>x\<in>set ys. span sz x) \<union> span sz p \<union> ({unat bp ..< new_fin sz bp zs} \<union> (\<Union>x\<in>set ?r. span sz x))"
    unfolding down using same by auto
  also have "\<dots> = free_bytes sz (ys @ p # zs) \<union> span sz bp"
    unfolding up by (auto simp: free_bytes_def)
  finally show ?thesis .
qed

text \<open>A block outside the free memory has its place in the list.\<close>

definition block_ok :: "('k, 'x) uheap_scheme \<Rightarrow> u32 list \<Rightarrow> u32 \<Rightarrow> bool" where
  "block_ok s xs bp \<longleftrightarrow> base s < bp \<and> size_of s bp \<noteq> 0 \<and> fin (size_of s) bp \<le> 2 ^ 31
     \<and> span (size_of s) bp \<inter> free_bytes (size_of s) xs = {}"

lemma span_start: "sz x \<noteq> 0 \<Longrightarrow> unat x \<in> span sz x"
  by (simp add: span_def fin_def unat_gt_0)

lemma place_exists:
  assumes h: "heap_ok s xs" and b: "block_ok s xs bp"
  shows "\<exists>ys p zs. xs = ys @ p # zs \<and> fits_between (size_of s) bp p zs"
proof -
  let ?sz = "size_of s"
  have r: "ring (ptr_of s) ?sz xs" and "hd xs = base s" using h by (auto simp: heap_ok_def)
  have out: "span ?sz bp \<inter> span ?sz x = {}" if "x \<in> set xs" for x
    using b that by (auto simp: block_ok_def free_bytes_def)
  have st: "unat bp \<in> span ?sz bp" using b by (simp add: block_ok_def span_start)
  have "base s \<in> set xs" using r \<open>hd xs = base s\<close> hd_in_set [of xs] by (simp add: ring_def)
  then have "\<exists>x\<in>set xs. x < bp" using b by (auto simp: block_ok_def)
  then obtain ys p zs where x: "xs = ys @ p # zs" "p < bp" "\<forall>z\<in>set zs. \<not> z < bp"
    using split_list_last_prop [of xs "\<lambda>x. x < bp"] by blast
  have "fin ?sz p \<le> unat bp"
    using out [of p] st x(1,2) by (auto simp: span_def word_less_nat_alt not_le)
  moreover have "fin ?sz bp \<le> unat z" if "zs = z # zs'" for z zs'
  proof (rule ccontr)
    assume "\<not> ?thesis"
    then have "unat z \<in> span ?sz bp" using x(3) that by (auto simp: span_def word_le_nat_alt not_less)
    moreover have "?sz z \<noteq> 0" using r x(1) that by (cases ys) (auto simp: ring_def)
    then have "unat z \<in> span ?sz z" by (rule span_start)
    ultimately show False using out [of z] x(1) that by auto
  qed
  ultimately have "fits_between ?sz bp p zs"
    using b x(2) by (cases zs) (auto simp: fits_between_def block_ok_def)
  then show ?thesis using x(1) by blast
qed

lemma free_ok:
  assumes h: "heap_ok s xs" and b: "block_ok s xs bp"
  shows "\<exists>t xs'. free (bp + 8) s = Some t \<and> heap_ok t xs' \<and> base t = base s \<and> os t = os s
    \<and> free_bytes (size_of t) xs' = free_bytes (size_of s) xs \<union> span (size_of s) bp
    \<and> (\<forall>x. x \<notin> insert bp (set xs) \<longrightarrow> size_of t x = size_of s x)
    \<and> (\<exists>x\<in>set xs'. unat (size_of s bp) \<le> unat (size_of t x))"
proof -
  let ?sz = "size_of s" and ?nx = "ptr_of s"
  obtain ys p zs where x: "xs = ys @ p # zs" and f: "fits_between ?sz bp p zs" using place_exists [OF h b] by blast
  have r: "ring ?nx ?sz (ys @ p # zs)" and hb: "hd (ys @ [p]) = base s"
    using h x by (cases ys; auto simp: heap_ok_def)+
  obtain t where t: "free (bp + 8) s = Some t" "freep t = p" "base t = base s" "os t = os s"
    "size_of t = merged_size ?sz bp p zs" "ptr_of t = merged_ptr ?nx ?sz bp p zs (base s)"
    using free_eq [OF h [unfolded x] f] by blast
  let ?xs = "merged ?sz bp ys p zs"
  have "heap_ok t ?xs"
    using merged_ring [OF r f] t hb by (cases ys) (auto simp: heap_ok_def merged_def)
  moreover have "free_bytes (size_of t) ?xs = free_bytes ?sz xs \<union> span ?sz bp"
    using merged_bytes [OF r f] t(5) x by simp
  moreover have "size_of t y = ?sz y" if "y \<notin> insert bp (set xs)" for y
    using merged_fin(3) [OF r f, of y] that t(5) x by simp
  moreover have "\<exists>y\<in>set ?xs. unat (?sz bp) \<le> unat (size_of t y)"
  proof -
    have n: "unat (?sz bp) \<le> unat (new_size ?sz bp zs)"
      using new_fin_eq(1) [OF r f] fin_ge [of "hd zs" ?sz] by (auto simp: new_fin_def merges_up_def fin_def split: if_splits)
    show ?thesis
    proof (cases "merges_down ?sz bp p")
      case True
      then have "unat (new_size ?sz bp zs) \<le> unat (size_of t p)"
        using merged_fin(1) [OF r f] new_fin_eq(1) [OF r f] t(5) by (auto simp: fin_def merges_down_def)
      then show ?thesis using n by (intro bexI [of _ p]) (auto simp: merged_def)
    next
      case False
      then show ?thesis using n t(5) by (intro bexI [of _ bp]) (auto simp: merged_def merged_size_def Let_def)
    qed
  qed
  ultimately show ?thesis using t(1,3,4) by blast
qed

subsection \<open>Taking a block\<close>

text \<open>\<open>n\<close> units from address \<open>q\<close> on leave the available memory \<open>F\<close>; the rest of it is free.\<close>

definition took :: "u32 \<Rightarrow> u32 \<Rightarrow> nat set \<Rightarrow> ('k, 'x) uheap_scheme \<Rightarrow> ('k, 'x) uheap_scheme \<Rightarrow> u32 list \<Rightarrow> bool" where
  "took n q F s t xs' \<longleftrightarrow> heap_ok t xs' \<and> base t = base s \<and> size_of t q = n \<and> base s < q
     \<and> unat q + 8 * unat n \<le> 2 ^ 31 \<and> {unat q ..< unat q + 8 * unat n} \<subseteq> F
     \<and> free_bytes (size_of t) xs' = F - {unat q ..< unat q + 8 * unat n}
     \<and> (\<forall>x. unat x \<notin> F \<longrightarrow> size_of t x = size_of s x)"

lemma ring_disjoint:
  assumes "ring nx sz xs" "x \<in> set xs" "y \<in> set xs" "x \<noteq> y"
  shows "span sz x \<inter> span sz y = {}"
proof -
  have s: "sorted_wrt (\<lambda>x y. fin sz x < unat y) xs" using assms(1) apart_before by (auto simp: ring_def)
  have "fin sz x < unat y \<or> fin sz y < unat x"
    using s assms(2-4) by (induction xs) auto
  then show ?thesis by (auto simp: span_def)
qed

lemma ring_distinct: "ring nx sz xs \<Longrightarrow> distinct xs"
  using apart_sorted [of sz xs] by (auto simp: ring_def strict_sorted_iff)

lemma free_bytes_split: "free_bytes sz (us @ x # vs) = free_bytes sz (us @ vs) \<union> span sz x"
  by (auto simp: free_bytes_def)

lemma free_bytes_apart:
  assumes "ring nx sz (us @ x # vs)"
  shows "free_bytes sz (us @ vs) \<inter> span sz x = {}"
  using ring_disjoint [OF assms, of x] ring_distinct [OF assms] by (fastforce simp: free_bytes_def)

lemma ring_unlink:
  assumes r: "ring nx sz (us @ q # p # vs)"
  shows "ring (nx(q := nx p)) sz (us @ q # vs)"
proof -
  let ?b = "hd (us @ [q])"
  have d: "distinct (us @ q # p # vs)" using r by (rule ring_distinct)
  have l: "lnk nx (us @ q # p # vs @ [?b])" using r by (cases us) (auto simp: ring_def)
  then have "lnk nx (us @ [q])" "lnk nx (p # vs @ [?b])"
    using lnk_split [of nx us q "p # vs @ [?b]"] by (auto simp: successively_Cons)
  then have l1: "lnk nx (us @ [q])" "nx p = hd (vs @ [?b])" "lnk nx (vs @ [?b])"
    by (auto simp: successively_Cons)
  from l1(1) have "lnk (nx(q := nx p)) (us @ [q])" by (rule lnk_same) (use d in auto)
  moreover from l1(3) have "lnk (nx(q := nx p)) (vs @ [?b])" by (rule lnk_same) (use d in auto)
  then have "lnk (nx(q := nx p)) (q # vs @ [?b])" using l1(2) by (simp add: successively_Cons)
  ultimately have "lnk (nx(q := nx p)) (us @ q # vs @ [?b])" using lnk_split by blast
  moreover have a: "apart sz (us @ [q])" "apart sz (q # p # vs)"
    using r apart_split [of sz us q "p # vs"] by (auto simp: ring_def)
  then have "apart sz (q # vs)" using fin_ge [of p sz] by (auto simp: successively_Cons)
  then have "apart sz (us @ q # vs)" using a(1) apart_split by blast
  ultimately show ?thesis using r by (cases us) (auto simp: ring_def)
qed

lemma take_exact:
  assumes h: "heap_ok s (us @ q # p # vs)" and n: "size_of s p = n"
  shows "took n p (free_bytes (size_of s) (us @ q # p # vs)) s ((set_ptr q (ptr_of s p) s)\<lparr>freep := q\<rparr>) (us @ q # vs)"
proof -
  let ?sz = "size_of s"
  have r: "ring (ptr_of s) ?sz (us @ q # p # vs)" and b: "hd (us @ q # p # vs) = base s" using h by (auto simp: heap_ok_def)
  have bs: "base s < p" using apart_sorted [of ?sz "us @ q # p # vs"] r b by (cases us) (auto simp: ring_def)
  have f: "free_bytes ?sz (us @ q # p # vs) = free_bytes ?sz (us @ q # vs) \<union> span ?sz p"
    using free_bytes_split [of ?sz "us @ [q]" p vs] by simp
  have d: "free_bytes ?sz (us @ q # vs) \<inter> span ?sz p = {}" using free_bytes_apart [of _ ?sz "us @ [q]" p vs] r by simp
  have sp: "span ?sz p = {unat p ..< unat p + 8 * unat n}" using n by (simp add: span_def fin_def)
  have "fin ?sz p \<le> 2 ^ 31" using ring_fin [OF r] by simp
  then show ?thesis
    using ring_unlink [OF r] b bs f d n unfolding took_def sp [symmetric]
    by (cases us) (auto simp: heap_ok_def fin_def)
qed

lemma take_tail:
  assumes h: "heap_ok s xs" and p: "p \<in> set xs" and n: "n < size_of s p" "n \<noteq> 0" and q: "q \<in> set xs"
    and e: "e = p + 8 * (size_of s p - n)"
  shows "took n e (free_bytes (size_of s) xs) s ((set_size e n (set_size p (size_of s p - n) s))\<lparr>freep := q\<rparr>) xs"
proof -
  let ?sz = "size_of s" and ?t = "(set_size e n (set_size p (size_of s p - n) s))\<lparr>freep := q\<rparr>"
  have r: "ring (ptr_of s) ?sz xs" and b: "hd xs = base s" using h by (auto simp: heap_ok_def)
  have fp: "fin ?sz p \<le> 2 ^ 31" using ring_fin [OF r p] .
  have u: "unat (?sz p - n) = unat (?sz p) - unat n" "unat n < unat (?sz p)" "0 < unat n"
    using n by (auto simp: unat_sub less_imp_le word_less_nat_alt unat_gt_0)
  have ue: "unat e = unat p + 8 * (unat (?sz p) - unat n)"
    using unat_fin [of "?sz(p := ?sz p - n)" p] fp u unfolding e by (simp add: fin_def)
  have sp: "span ?sz p = {unat p ..< unat e} \<union> {unat e ..< unat e + 8 * unat n}"
    using u ue by (auto simp: span_def fin_def)
  have pb: "p \<noteq> base s" using r b n by (auto simp: ring_def)
  then have bp: "base s < p"
    using p b r apart_sorted [of ?sz xs] by (cases xs) (auto simp: ring_def)
  have ein: "unat e \<in> span ?sz p" and pe: "p < e" using u ue sp by (auto simp: word_less_nat_alt)
  have ne: "e \<notin> set xs"
  proof
    assume x: "e \<in> set xs"
    then have "e \<in> set (tl xs)" using bp pe b by (cases xs) auto
    then have "unat e \<in> span ?sz e" using r by (intro span_start) (auto simp: ring_def)
    then show False using ring_disjoint [OF r p x] ein pe by auto
  qed
  have sz: "size_of ?t x = (if x = e then n else if x = p then ?sz p - n else ?sz x)" for x by simp
  have le: "fin (size_of ?t) x \<le> fin ?sz x" if "x \<in> set xs" for x using that ne u by (auto simp: fin_def)
  have "apart (size_of ?t) xs"
    using r le by (auto simp: ring_def elim!: successively_mono intro: le_less_trans)
  moreover have "\<forall>x\<in>set xs. fin (size_of ?t) x \<le> 2 ^ 31" using le ring_fin [OF r] by (meson order_trans)
  moreover have "size_of ?t x \<noteq> 0" if "x \<in> set (tl xs)" for x
  proof -
    have "?sz p - n \<noteq> 0" using n(1) by auto
    moreover have "x \<in> set xs" using that by (cases xs) auto
    then have "x \<noteq> e" using ne by blast
    moreover have "?sz x \<noteq> 0" using that r by (simp add: ring_def)
    ultimately show ?thesis by simp
  qed
  moreover have "size_of ?t (hd xs) = 0"
  proof -
    have "base s \<noteq> e" using pe bp by (metis less_asym)
    then show ?thesis using r b pb by (simp add: ring_def)
  qed
  ultimately have rt: "ring (ptr_of ?t) (size_of ?t) xs" using r by (simp add: ring_def)
  obtain us vs where xs: "xs = us @ p # vs" using p by (auto simp: in_set_conv_decomp)
  have d: "distinct xs" using r by (rule ring_distinct)
  have "span (size_of ?t) x = span ?sz x" if "x \<in> set (us @ vs)" for x
    using that d ne xs by (auto simp: span_def fin_def)
  then have ft: "free_bytes (size_of ?t) (us @ vs) = free_bytes ?sz (us @ vs)" by (simp add: free_bytes_def)
  have "p \<noteq> e" using pe by blast
  then have "fin (size_of ?t) p = unat p + 8 * unat (?sz p - n)" by (simp add: fin_def)
  then have st: "span (size_of ?t) p = {unat p ..< unat e}" by (simp only: span_def u(1) ue)
  have fb: "free_bytes (size_of ?t) xs = free_bytes ?sz xs - {unat e ..< unat e + 8 * unat n}"
    unfolding xs free_bytes_split ft st sp using free_bytes_apart [of _ ?sz us p vs] r sp unfolding xs by auto
  have sub: "span ?sz p \<subseteq> free_bytes ?sz xs" using p by (auto simp: free_bytes_def)
  have c1: "{unat e ..< unat e + 8 * unat n} \<subseteq> free_bytes ?sz xs" using sub sp by blast
  have c2: "unat e + 8 * unat n \<le> 2 ^ 31" using fp u(2) ue unfolding fin_def by linarith
  have c3: "base s < e" using bp pe by (rule less_trans)
  have "unat p \<in> span ?sz p" using n by (intro span_start) auto
  then have c4: "size_of ?t x = ?sz x" if "unat x \<notin> free_bytes ?sz xs" for x
    using that ein sub unfolding sz by auto
  have "base ?t = base s" "size_of ?t e = n" "freep ?t = q" by simp_all
  then show ?thesis
    unfolding took_def heap_ok_def using rt b q c1 c2 c3 c4 fb by metis
qed

lemma take_block_took:
  assumes h: "heap_ok s (us @ q # p # vs)" and n: "n \<le> size_of s p" "n \<noteq> 0"
  shows "\<exists>e t xs'. take_block n q p s = (e + 8, t) \<and> took n e (free_bytes (size_of s) (us @ q # p # vs)) s t xs'"
proof (cases "size_of s p = n")
  case True
  then show ?thesis using take_exact [OF h True] by (auto simp: take_block_def)
next
  case False
  let ?e = "p + 8 * (size_of s p - n)"
  have "took n ?e (free_bytes (size_of s) (us @ q # p # vs)) s ((set_size ?e n (set_size p (size_of s p - n) s))\<lparr>freep := q\<rparr>) (us @ q # p # vs)"
    using n False by (intro take_tail [OF h]) auto
  then show ?thesis using False by (auto simp: take_block_def Let_def)
qed

subsection \<open>The search for a block\<close>

lemma malloc_walk:
  "lnk (ptr_of s) (q # l @ [p]) \<Longrightarrow> \<forall>x\<in>set l. size_of s x < n \<and> x \<noteq> freep s \<Longrightarrow>
     malloc_loop sbrk n q (ptr_of s q) s = malloc_loop sbrk n (last (q # l)) p s"
proof (induction l arbitrary: q)
  case (Cons x l)
  have "ptr_of s q = x" using Cons.prems by simp
  moreover have "malloc_loop sbrk n q x s = malloc_loop sbrk n x (ptr_of s x) s"
    using Cons.prems by (subst malloc_loop.simps) auto
  ultimately show ?case using Cons by simp
qed simp

lemma ring_walk:
  assumes "ring nx sz (ys @ f # zs)"
  shows "lnk nx (f # zs @ ys @ [f])"
proof -
  have l: "lnk nx (ys @ f # zs @ [hd (ys @ [f])])" using assms by (cases ys) (auto simp: ring_def)
  then have "lnk nx (ys @ [f])" "lnk nx (f # zs @ [hd (ys @ [f])])" using lnk_split by blast+
  then show ?thesis using lnk_split [of nx "f # zs" "hd (ys @ [f])" "tl (ys @ [f])"] by (cases ys) auto
qed

text \<open>With a block that is large enough, the search from \<open>freep\<close> on finds one before it is back.\<close>

lemma malloc_found:
  assumes h: "heap_ok s xs" and n: "n \<noteq> 0" and x: "\<exists>x\<in>set xs. n \<le> size_of s x"
  shows "\<exists>e t xs'. malloc_loop sbrk n (freep s) (ptr_of s (freep s)) s = Some (e + 8, t) \<and> took n e (free_bytes (size_of s) xs) s t xs'"
proof -
  let ?nx = "ptr_of s" and ?sz = "size_of s" and ?f = "freep s"
  obtain ys zs where xs: "xs = ys @ ?f # zs" using h by (auto simp: heap_ok_def in_set_conv_decomp)
  have r: "ring ?nx ?sz (ys @ ?f # zs)" using h xs by (simp add: heap_ok_def)
  have d: "distinct (ys @ ?f # zs)" using r by (rule ring_distinct)
  have w: "lnk ?nx (?f # zs @ ys @ [?f])" using ring_walk [OF r] .
  have "\<exists>x\<in>set (zs @ ys @ [?f]). n \<le> ?sz x" using x xs by auto
  then obtain l p m where l: "zs @ ys @ [?f] = l @ p # m" "n \<le> ?sz p" "\<forall>x\<in>set l. \<not> n \<le> ?sz x"
    using split_list_first_prop [of "zs @ ys @ [?f]" "\<lambda>x. n \<le> ?sz x"] by blast
  have "last (p # m) = ?f" using l(1) by (metis last_appendR list.distinct(1) last_snoc append.assoc)
  moreover have "distinct (l @ p # m)" using d l(1) [symmetric] by auto
  ultimately have fl: "?f \<notin> set l" using last_in_set [of "p # m"] by auto
  have "lnk ?nx (?f # l @ [p])" using w lnk_split [of ?nx "?f # l" p m] l(1) by simp
  then have walk: "malloc_loop sbrk n ?f (?nx ?f) s = malloc_loop sbrk n (last (?f # l)) p s"
    using l(3) fl by (intro malloc_walk) auto
  have run: "malloc_loop sbrk n q p s = Some (take_block n q p s)" for q
    using l(2) by (subst malloc_loop.simps) simp
  have "\<exists>us vs. xs = us @ last (?f # l) # p # vs"
  proof (cases "\<exists>c. zs = l @ p # c")
    case True
    then obtain c where c: "zs = l @ p # c" by blast
    obtain B L where e: "?f # l = B @ [L]" by (metis append_butlast_last_id list.distinct(1))
    have "xs = ys @ (?f # l) @ p # c" using xs c by simp
    then have "xs = (ys @ B) @ L # p # c" unfolding e by simp
    moreover have "last (?f # l) = L" unfolding e by simp
    ultimately show ?thesis by blast
  next
    case False
    obtain u where "zs = l @ u \<and> u @ ys @ [?f] = p # m \<or> zs @ u = l \<and> ys @ [?f] = u @ p # m"
      using l(1) unfolding append_eq_append_conv2 by blast
    then obtain a where a: "l = zs @ a" "ys @ [?f] = a @ p # m"
      using False by (cases u) auto
    have "a \<noteq> []"
    proof
      assume "a = []"
      then have "p = hd (ys @ [?f])" using a(2) by simp
      then have "?sz p = 0" using r by (cases ys) (auto simp: ring_def)
      then show False using l(2) n by simp
    qed
    then obtain B L where e: "a = B @ [L]" by (metis append_butlast_last_id)
    have "xs = (ys @ [?f]) @ zs" using xs by simp
    then have "xs = B @ L # p # m @ zs" unfolding a(2) e by simp
    moreover have "last (?f # l) = L" unfolding a(1) e by simp
    ultimately show ?thesis by blast
  qed
  then obtain us vs where us: "xs = us @ last (?f # l) # p # vs" by blast
  then obtain e t xs' where "take_block n (last (?f # l)) p s = (e + 8, t)" "took n e (free_bytes (size_of s) xs) s t xs'"
    using take_block_took [of s us "last (?f # l)" p vs n] h n l(2) by blast
  then show ?thesis using walk run by metis
qed

subsection \<open>More memory\<close>

text \<open>\<open>n\<close> units at \<open>a\<close> lie above every block: what \<open>sbrk\<close> returns when it succeeds.\<close>

definition fresh :: "u32 \<Rightarrow> u32 \<Rightarrow> ('k, 'x) uheap_scheme \<Rightarrow> u32 list \<Rightarrow> bool" where
  "fresh a n s xs \<longleftrightarrow> base s < a \<and> unat a + 8 * unat n \<le> 2 ^ 31 \<and> (\<forall>x\<in>set xs. fin (size_of s) x \<le> unat a)"

definition core_units :: "u32 \<Rightarrow> u32" where
  "core_units n = (if n < 4096 then 4096 else n)"

lemma core_units_ge: "n \<le> core_units n" "core_units n \<noteq> 0"
  by (auto simp: core_units_def)

lemma ring_no_zero: "ring nx sz xs \<Longrightarrow> 0 \<notin> set xs"
  using apart_sorted [of sz xs] by (cases xs) (auto simp: ring_def)

lemma ring_size_0: "ring nx sz xs \<Longrightarrow> x \<in> set xs \<Longrightarrow> sz x = 0 \<Longrightarrow> x = hd xs"
  by (cases xs) (auto simp: ring_def)

lemma morecore_ok:
  assumes h: "heap_ok s xs" and f: "fresh a (core_units n) s xs" and sb: "sbrk (core_units n * 8) (os s) = (a, k)"
    and ne: "a \<noteq> - 1"
  shows "\<exists>t xs'. morecore sbrk n s = Some (freep t, t) \<and> heap_ok t xs' \<and> base t = base s
    \<and> free_bytes (size_of t) xs' = free_bytes (size_of s) xs \<union> {unat a ..< unat a + 8 * unat (core_units n)}
    \<and> (\<forall>x. unat x \<notin> free_bytes (size_of t) xs' \<longrightarrow> size_of t x = size_of s x)
    \<and> (\<exists>x\<in>set xs'. n \<le> size_of t x)"
proof -
  let ?n = "core_units n"
  let ?s = "set_size a ?n (s\<lparr>os := k\<rparr>)"
  have r: "ring (ptr_of s) (size_of s) xs" and hb: "hd xs = base s" using h by (auto simp: heap_ok_def)
  have na: "a \<notin> set xs"
  proof
    assume x: "a \<in> set xs"
    then have "fin (size_of s) a \<le> unat a" using f by (simp add: fresh_def)
    then have "size_of s a = 0" by (simp add: fin_def unat_eq_zero)
    then show False using ring_size_0 [OF r x] hb f by (simp add: fresh_def)
  qed
  have sz: "size_of ?s x = size_of s x" if "x \<in> set xs" for x using that na by auto
  have fx: "fin (size_of ?s) x = fin (size_of s) x" "span (size_of ?s) x = span (size_of s) x" if "x \<in> set xs" for x
    using sz [OF that] by (simp_all add: fin_def span_def)
  have "apart (size_of ?s) xs"
    using r fx(1) by (auto simp: ring_def elim!: successively_mono)
  moreover have "hd xs \<in> set xs" "\<forall>x\<in>set (tl xs). x \<in> set xs" using r by (auto simp: ring_def dest: list.set_sel(2) [rotated])
  ultimately have "ring (ptr_of ?s) (size_of ?s) xs"
    using r fx(1) sz unfolding ring_def by (metis ptr_size_simps(3,7))
  then have hs: "heap_ok ?s xs" using h by (simp add: heap_ok_def)
  have fb: "free_bytes (size_of ?s) xs = free_bytes (size_of s) xs" using fx(2) by (simp add: free_bytes_def)
  have fa: "fin (size_of ?s) a = unat a + 8 * unat ?n" "span (size_of ?s) a = {unat a ..< unat a + 8 * unat ?n}"
    by (simp_all add: fin_def span_def)
  have "span (size_of ?s) a \<inter> free_bytes (size_of ?s) xs = {}"
    unfolding fb fa(2) using f by (fastforce simp: free_bytes_def span_def fresh_def)
  then have "block_ok ?s xs a" using f fa core_units_ge(2) by (simp add: block_ok_def fresh_def)
  then obtain t xs' where t: "free (a + 8) ?s = Some t" "heap_ok t xs'" "base t = base ?s"
    "free_bytes (size_of t) xs' = free_bytes (size_of ?s) xs \<union> span (size_of ?s) a"
    "\<forall>x. x \<notin> insert a (set xs) \<longrightarrow> size_of t x = size_of ?s x"
    "\<exists>x\<in>set xs'. unat (size_of ?s a) \<le> unat (size_of t x)"
    using free_ok [OF hs] by blast
  have "size_of t x = size_of s x" if "unat x \<notin> free_bytes (size_of t) xs'" for x
  proof (cases "x \<in> set xs")
    case True
    then have "size_of s x = 0" using that span_start [of "size_of s" x] unfolding t(4) fb by (auto simp: free_bytes_def)
    then have "x = base s" using ring_size_0 [OF r True] hb by simp
    then show ?thesis using h t(2,3) by (auto simp: heap_ok_def ring_def)
  next
    case False
    moreover have "x \<noteq> a" using that core_units_ge(2) [of n] unfolding t(4) fa(2) by (auto simp: unat_gt_0)
    ultimately show ?thesis using t(5) by simp
  qed
  moreover have "\<exists>x\<in>set xs'. n \<le> size_of t x"
    using t(6) core_units_ge(1) [of n] by (auto simp: word_le_nat_alt intro: order_trans)
  moreover have "morecore sbrk n s = Some (freep t, t)"
    using sb ne t(1) by (simp add: morecore_def core_units_def Let_def split: if_splits)
  ultimately show ?thesis using t(2-4) fb fa(2) by (intro exI [of _ t] exI [of _ xs']) simp
qed

lemma malloc_none_fits:
  assumes h: "heap_ok s xs" and x: "\<forall>x\<in>set xs. \<not> n \<le> size_of s x"
  shows "malloc_loop sbrk n (freep s) (ptr_of s (freep s)) s =
    Option.bind (morecore sbrk n s) (\<lambda>(p, s). if p = 0 then Some (0, s) else malloc_loop sbrk n p (ptr_of s p) s)"
proof -
  let ?f = "freep s"
  obtain ys zs where xs: "xs = ys @ ?f # zs" using h by (auto simp: heap_ok_def in_set_conv_decomp)
  have r: "ring (ptr_of s) (size_of s) (ys @ ?f # zs)" using h xs by (simp add: heap_ok_def)
  have "malloc_loop sbrk n ?f (ptr_of s ?f) s = malloc_loop sbrk n (last (?f # zs @ ys)) ?f s"
    using ring_walk [OF r] ring_distinct [OF r] x xs by (intro malloc_walk) (auto simp: not_le [symmetric])
  then show ?thesis using x xs by (simp add: malloc_loop.simps [of _ _ _ ?f])
qed

lemma malloc_grows:
  assumes h: "heap_ok s xs" and n: "n \<noteq> 0" and x: "\<forall>x\<in>set xs. \<not> n \<le> size_of s x"
    and f: "fresh a (core_units n) s xs" and sb: "sbrk (core_units n * 8) (os s) = (a, k)" and ne: "a \<noteq> - 1"
  shows "\<exists>e t xs'. malloc_loop sbrk n (freep s) (ptr_of s (freep s)) s = Some (e + 8, t)
    \<and> took n e (free_bytes (size_of s) xs \<union> {unat a ..< unat a + 8 * unat (core_units n)}) s t xs'"
proof -
  obtain u us where u: "morecore sbrk n s = Some (freep u, u)" "heap_ok u us" "base u = base s"
    "free_bytes (size_of u) us = free_bytes (size_of s) xs \<union> {unat a ..< unat a + 8 * unat (core_units n)}"
    "\<forall>x. unat x \<notin> free_bytes (size_of u) us \<longrightarrow> size_of u x = size_of s x" "\<exists>x\<in>set us. n \<le> size_of u x"
    using morecore_ok [of s xs a n sbrk k] h f sb ne by blast
  have "freep u \<noteq> 0" using u(2) ring_no_zero by (auto simp: heap_ok_def)
  then have run: "malloc_loop sbrk n (freep s) (ptr_of s (freep s)) s = malloc_loop sbrk n (freep u) (ptr_of u (freep u)) u"
    using malloc_none_fits [OF h x, of sbrk] u(1) by simp
  obtain e t xs' where t: "malloc_loop sbrk n (freep u) (ptr_of u (freep u)) u = Some (e + 8, t)"
    "took n e (free_bytes (size_of u) us) u t xs'"
    using malloc_found [OF u(2) n u(6)] by blast
  have "took n e (free_bytes (size_of u) us) s t xs'" using t(2) u(3,5) by (simp add: took_def)
  then show ?thesis using run t(1) u(4) by metis
qed

text \<open>The number of units for a request whose size is not within 7 bytes of the largest number.\<close>

lemma nunits_enough:
  fixes nbytes :: u32
  assumes "unat nbytes + 7 < 2 ^ 32" and "n = (nbytes + 8 - 1) div 8 + 1"
  shows "n \<noteq> 0" "unat nbytes \<le> 8 * (unat n - 1)"
proof -
  have "unat (nbytes + 7) = unat nbytes + 7" using assms(1) by (simp add: unat_word_ariths)
  then have d: "unat ((nbytes + 7) div 8) = (unat nbytes + 7) div 8" by (simp add: unat_div)
  moreover have "(unat nbytes + 7) div 8 + 1 < 2 ^ 32" using assms(1) by simp
  moreover have "nbytes + 8 - 1 = nbytes + 7" by simp
  ultimately have "unat n = (unat nbytes + 7) div 8 + 1"
    unfolding assms(2) by (simp only: unat_word_ariths) simp
  then show "n \<noteq> 0" "unat nbytes \<le> 8 * (unat n - 1)" by auto
qed

subsection \<open>Properties\<close>

text \<open>In order, or before the first call, when the static variables are zero.\<close>

definition alloc_inv :: "('k, 'x) uheap_scheme \<Rightarrow> u32 list \<Rightarrow> bool" where
  "alloc_inv s xs \<longleftrightarrow> heap_ok s xs
     \<or> freep s = 0 \<and> xs = [base s] \<and> base s \<noteq> 0 \<and> unat (base s) \<le> 2 ^ 31 \<and> size_of s (base s) = 0"

definition set_up :: "('k, 'x) uheap_scheme \<Rightarrow> ('k, 'x) uheap_scheme" where
  "set_up s = (if freep s = 0 then set_size (base s) 0 (set_ptr (base s) (base s) (s\<lparr>freep := base s\<rparr>)) else s)"

lemma set_up_ok:
  assumes "alloc_inv s xs"
  shows "heap_ok (set_up s) xs" "size_of (set_up s) = size_of s" "base (set_up s) = base s" "os (set_up s) = os s"
  using assms ring_no_zero [of "ptr_of s" "size_of s" xs]
  by (auto simp: alloc_inv_def heap_ok_def set_up_def ring_def fin_def)

definition ex_sbrk :: "u32 \<Rightarrow> unit \<Rightarrow> u32 \<times> unit" where
  "ex_sbrk n k = (0x2000, ())"

definition ex_uheap :: "unit uheap" where
  "ex_uheap = \<lparr>hdr = (\<lambda>_. \<lparr>h_ptr = 0, h_size = 0\<rparr>), base = 0x1000, freep = 0, os = ()\<rparr>"



text \<open>
  C16. \<open>free\<close> always returns and gives back exactly the block. For a block in use, whose bytes are
  disjoint from the free memory, the free memory afterwards is the free memory before and the
  block; the list of free blocks is in order, no free block ends where another one starts, and
  the headers outside the free memory keep their sizes.
\<close>

theorem free_returns_block:
  assumes "heap_ok s xs" and "block_ok s xs bp"
  shows "\<exists>t xs'. free (bp + 8) s = Some t \<and> heap_ok t xs'
    \<and> free_bytes (size_of t) xs' = free_bytes (size_of s) xs \<union> span (size_of s) bp
    \<and> (\<forall>x\<in>set xs'. \<forall>y\<in>set xs'. fin (size_of t) x = unat y \<longrightarrow> x = y)
    \<and> (\<forall>x. x \<notin> insert bp (set xs) \<longrightarrow> size_of t x = size_of s x)"
proof -
  obtain t xs' where t: "free (bp + 8) s = Some t" "heap_ok t xs'"
    "free_bytes (size_of t) xs' = free_bytes (size_of s) xs \<union> span (size_of s) bp"
    "\<forall>x. x \<notin> insert bp (set xs) \<longrightarrow> size_of t x = size_of s x"
    using free_ok [OF assms] by blast
  have "sorted_wrt (\<lambda>x y. fin (size_of t) x < unat y) xs'"
    using t(2) apart_before by (auto simp: heap_ok_def ring_def)
  then have "x = y" if "x \<in> set xs'" "y \<in> set xs'" "fin (size_of t) x = unat y" for x y
    using that fin_ge [of x "size_of t"] fin_ge [of y "size_of t"] by (induction xs') fastforce+
  then show ?thesis using t by blast
qed

definition ex_used :: "unit uheap" where
  "ex_used = \<lparr>hdr = (\<lambda>a. if a = 0x1000 then \<lparr>h_ptr = 0x2000, h_size = 0\<rparr> else if a = 0x2000 then \<lparr>h_ptr = 0x1000, h_size = 4\<rparr>
     else \<lparr>h_ptr = 0, h_size = 2\<rparr>), base = 0x1000, freep = 0x1000, os = ()\<rparr>"

theorem free_returns_block_witness:
  "\<exists>t xs'. free (0x2020 + 8) ex_used = Some t \<and> heap_ok t xs'
    \<and> free_bytes (size_of t) xs' = free_bytes (size_of ex_used) [0x1000, 0x2000] \<union> span (size_of ex_used) 0x2020"
proof -
  have "heap_ok ex_used [0x1000, 0x2000]" "block_ok ex_used [0x1000, 0x2000] 0x2020"
    by (auto simp: heap_ok_def block_ok_def ring_def fin_def span_def free_bytes_def ex_used_def ptr_of_def size_of_def)
  then show ?thesis using free_returns_block by blast
qed

end
